(* ===== verification/Prelude.thy ===== *)
theory Prelude
  imports Main "HOL-Library.Word" "HOL-Library.Code_Target_Nat"
begin

text \<open>
  Shared vocabulary of the development: the C integer types the modelled files use, network
  byte order, reads and writes of byte arrays, and the generic lemmas on lists and words that
  the components share.

  Conventions. A C \<open>uint8_t\<close>, \<open>uint16_t\<close>, \<open>uint32_t\<close> is a \<open>word\<close> of that
  width. A C \<open>int\<close>, \<open>ssize_t\<close> or \<open>time_t\<close> is an \<open>int\<close>: signed overflow is undefined in C, and
  the well-formedness predicates of the components bound every such value far below its range.
  A \<open>size_t\<close> is a \<open>nat\<close>, and \<open>size_of_int\<close> is the conversion of an \<open>int\<close> to \<open>size_t\<close>
  on an LP64 target. A pointer into an array is an index, \<open>NULL\<close> is \<open>None\<close>.
  A failed \<open>ASSERT\<close> or an \<open>M_FATAL\<close> message ends the process; a function that can reach
  one returns an \<open>option\<close>, where \<open>None\<close> stands for that exit.
\<close>

named_theorems buf_simps \<open>effect of the buffer operations on well-formed buffers\<close>
named_theorems wf_intros \<open>operations keep the invariants of their component\<close>

unbundle bit_operations_syntax

type_synonym u8 = "8 word"
type_synonym u16 = "16 word"
type_synonym u32 = "32 word"
type_synonym time_t = int
type_synonym interval_t = int

definition size_of_int :: "int \<Rightarrow> nat" where
  "size_of_int n = nat (n mod 2 ^ 64)"

lemma size_of_int_nonneg [simp]: "0 \<le> n \<Longrightarrow> n < 2 ^ 64 \<Longrightarrow> size_of_int n = nat n"
  by (simp add: size_of_int_def)

lemma uint_of_int_small: "0 \<le> x \<Longrightarrow> x < 2 ^ 32 \<Longrightarrow> uint (word_of_int x :: u32) = x"
  by (simp add: uint_word_of_int)

lemma unat_of_int_small: "0 \<le> x \<Longrightarrow> x < 2 ^ 32 \<Longrightarrow> unat (word_of_int x :: u32) = nat x"
  by (simp add: uint_of_int_small unat_eq_nat_uint)

lemma uint_nat_eq: "uint (w :: 'a::len word) = int (unat w)"
  by simp

subsection \<open>Byte arrays\<close>

definition memget :: "'a list \<Rightarrow> nat \<Rightarrow> nat \<Rightarrow> 'a list" where
  "memget d i n = take n (drop i d)"

definition memput :: "'a list \<Rightarrow> nat \<Rightarrow> 'a list \<Rightarrow> 'a list" where
  "memput d i bs = take i d @ bs @ drop (i + length bs) d"

lemma length_memget [simp]: "i + n \<le> length d \<Longrightarrow> length (memget d i n) = n"
  by (simp add: memget_def)

lemma length_memput [simp]: "i + length bs \<le> length d \<Longrightarrow> length (memput d i bs) = length d"
  by (simp add: memput_def)

lemma memput_Nil [simp]: "memput d i [] = d"
  by (simp add: memput_def)

lemma memget_0 [simp]: "memget d i 0 = []"
  by (simp add: memget_def)

lemma memget_all [simp]: "memget d 0 (length d) = d"
  by (simp add: memget_def)

lemma memget_memput_same:
  "i + length bs \<le> length d \<Longrightarrow> n = length bs \<Longrightarrow> memget (memput d i bs) i n = bs"
  by (simp add: memget_def memput_def)

lemma memget_memput_before:
  assumes "i + n \<le> j" and "j + length bs \<le> length d"
  shows "memget (memput d j bs) i n = memget d i n"
proof -
  have "take (i + n) (memput d j bs) = take (i + n) d"
    using assms by (simp add: memput_def)
  then show ?thesis
    by (metis memget_def take_drop add.commute)
qed

lemma memget_memput_after:
  assumes "j + length bs \<le> i" and "j + length bs \<le> length d"
  shows "memget (memput d j bs) i n = memget d i n"
  using assms by (simp add: memget_def memput_def)

lemma memget_append: "memget d i (m + n) = memget d i m @ memget d (i + m) n"
  by (simp add: memget_def take_add add.commute)

lemma memget_memget: "a + m \<le> n \<Longrightarrow> memget (memget d i n) a m = memget d (i + a) m"
  by (simp add: memget_def take_drop min_def add.commute add.left_commute)

lemma memget_drop: "drop k (memget d i n) = memget d (i + k) (n - k)"
  by (simp add: memget_def drop_take add.commute)

lemma memget_take: "take k (memget d i n) = memget d i (min k n)"
  by (simp add: memget_def)

lemma memput_append:
  "length xs = k \<Longrightarrow> length bs = length ys \<Longrightarrow> memput (xs @ ys @ zs) k bs = xs @ bs @ zs"
  by (simp add: memput_def)

lemma memput_memget_same: "i + n \<le> length d \<Longrightarrow> memput d i (memget d i n) = d"
  by (rule nth_equalityI) (auto simp: memput_def memget_def nth_append min_def)

lemma nth_memput:
  assumes "i + length bs \<le> length d" and "j < length d"
  shows "memput d i bs ! j = (if i \<le> j \<and> j < i + length bs then bs ! (j - i) else d ! j)"
  using assms by (auto simp: memput_def nth_append min_def)

lemma nth_memget: "j < n \<Longrightarrow> i + n \<le> length d \<Longrightarrow> memget d i n ! j = d ! (i + j)"
  by (simp add: memget_def)

lemma memget_memput_inside:
  assumes "k + length bs \<le> n" and "i + n \<le> length d"
  shows "memget (memput d (i + k) bs) i n = memput (memget d i n) k bs"
proof (rule nth_equalityI)
  fix j assume "j < length (memget (memput d (i + k) bs) i n)"
  then have j: "j < n" using assms by (simp add: length_memget length_memput)
  have l: "length (memput d (i + k) bs) = length d" "length (memget d i n) = n"
    using assms by simp_all
  show "memget (memput d (i + k) bs) i n ! j = memput (memget d i n) k bs ! j"
    using assms j l by (subst nth_memget; (subst nth_memput)?) (simp_all add: nth_memput nth_memget)
qed (use assms in simp)

subsection \<open>Network byte order\<close>

text \<open>
  \<open>htons\<close> and \<open>htonl\<close> followed by a copy of the bytes in memory give the big-endian bytes of
  the value on either endianness, and a copy into an integer followed by \<open>ntohl\<close> reads
  them back.
\<close>

definition u16_bytes :: "u16 \<Rightarrow> u8 list" where
  "u16_bytes w = [ucast (drop_bit 8 w), ucast w]"

definition u32_bytes :: "u32 \<Rightarrow> u8 list" where
  "u32_bytes w = [ucast (drop_bit 24 w), ucast (drop_bit 16 w), ucast (drop_bit 8 w), ucast w]"

fun u16_of_bytes :: "u8 list \<Rightarrow> u16" where
  "u16_of_bytes [a, b] = push_bit 8 (ucast a) OR ucast b"
| "u16_of_bytes _ = 0"

fun u32_of_bytes :: "u8 list \<Rightarrow> u32" where
  "u32_of_bytes [a, b, c, d] =
     push_bit 24 (ucast a) OR push_bit 16 (ucast b) OR push_bit 8 (ucast c) OR ucast d"
| "u32_of_bytes _ = 0"

lemma length_u16_bytes [simp]: "length (u16_bytes w) = 2"
  by (simp add: u16_bytes_def)

lemma length_u32_bytes [simp]: "length (u32_bytes w) = 4"
  by (simp add: u32_bytes_def)

lemma u16_bytes_inverse [simp]: "u16_of_bytes (u16_bytes w) = w"
  by (rule bit_word_eqI) (auto simp: u16_bytes_def bit_simps)

lemma u32_bytes_inverse [simp]: "u32_of_bytes (u32_bytes w) = w"
proof (rule bit_word_eqI)
  fix n assume "n < LENGTH(32)"
  then consider "n < 8" | "8 \<le> n" "n < 16" | "16 \<le> n" "n < 24" | "24 \<le> n" "n < 32"
    by force
  then show "bit (u32_of_bytes (u32_bytes w)) n = bit w n"
    by cases (auto simp: u32_bytes_def bit_simps)
qed

lemma u8_bit_high [simp]: "8 \<le> n \<Longrightarrow> \<not> bit (w :: u8) n"
  using bit_imp_le_length [of w n] by auto

lemma u32_of_bytes_inverse: "length bs = 4 \<Longrightarrow> u32_bytes (u32_of_bytes bs) = bs"
  by (cases bs rule: u32_of_bytes.cases)
    (auto intro!: bit_word_eqI simp: u32_bytes_def bit_simps)

lemma u32_bytes_inject: "u32_bytes v = u32_bytes w \<longleftrightarrow> v = w"
  by (metis u32_bytes_inverse)

subsection \<open>Searching an array\<close>

text \<open>The index of the first element that satisfies a test: a loop that returns on a match.\<close>

fun find_index :: "('a \<Rightarrow> bool) \<Rightarrow> 'a list \<Rightarrow> nat option" where
  "find_index P [] = None"
| "find_index P (x # xs) = (if P x then Some 0 else map_option Suc (find_index P xs))"

lemma find_index_SomeD: "find_index P xs = Some i \<Longrightarrow> i < length xs \<and> P (xs ! i)"
  by (induction xs arbitrary: i) (auto split: if_splits)

lemma find_index_first: "find_index P xs = Some i \<Longrightarrow> j < i \<Longrightarrow> \<not> P (xs ! j)"
proof (induction xs arbitrary: i j)
  case (Cons x xs)
  then show ?case by (cases j) (auto split: if_splits)
qed simp

lemma find_index_None_iff: "find_index P xs = None \<longleftrightarrow> (\<forall>x \<in> set xs. \<not> P x)"
  by (induction xs) auto

lemma find_index_Some_iff: "(\<exists>i. find_index P xs = Some i) \<longleftrightarrow> (\<exists>x \<in> set xs. P x)"
  using find_index_None_iff [of P xs] by (cases "find_index P xs") auto

text \<open>A change of the first \<open>n\<close> elements of an array.\<close>

definition map_prefix :: "nat \<Rightarrow> ('a \<Rightarrow> 'a) \<Rightarrow> 'a list \<Rightarrow> 'a list" where
  "map_prefix n f xs = map f (take n xs) @ drop n xs"

lemma length_map_prefix [simp]: "length (map_prefix n f xs) = length xs"
  by (simp add: map_prefix_def)

lemma take_map_prefix [simp]: "take n (map_prefix n f xs) = map f (take n xs)"
  by (simp add: map_prefix_def min_def)

subsection \<open>Iteration of a partial step\<close>

fun iterate_opt :: "nat \<Rightarrow> ('c \<Rightarrow> 'c option) \<Rightarrow> 'c \<Rightarrow> 'c option" where
  "iterate_opt 0 f c = Some c"
| "iterate_opt (Suc n) f c = Option.bind (f c) (iterate_opt n f)"

text \<open>
  A run of a checked component over a list of events: the final state and the keys of the
  events it accepted, in order; \<open>None\<close> if a step fails.
\<close>

fun guard_run :: "('e \<Rightarrow> 's \<Rightarrow> (bool \<times> 's) option) \<Rightarrow> ('e \<Rightarrow> 'k) \<Rightarrow> 's \<Rightarrow> 'e list
    \<Rightarrow> ('s \<times> 'k list) option" where
  "guard_run check key s [] = Some (s, [])"
| "guard_run check key s (e # es) =
     (case check e s of
        None \<Rightarrow> None
      | Some (ok, s') \<Rightarrow>
          (case guard_run check key s' es of
             None \<Rightarrow> None
           | Some (s'', ks) \<Rightarrow> Some (s'', if ok then key e # ks else ks)))"

text \<open>
  The contract of a replay guard: an invariant relates its state to the set of keys accepted
  so far, a check never fails, accepts only a key outside that set, and keeps the invariant.
\<close>

locale replay_guard =
  fixes inv :: "'s \<Rightarrow> 'k set \<Rightarrow> bool"
    and event_ok :: "'e \<Rightarrow> bool"
    and check :: "'e \<Rightarrow> 's \<Rightarrow> (bool \<times> 's) option"
    and key :: "'e \<Rightarrow> 'k"
  assumes check_step: "inv s A \<Longrightarrow> event_ok e \<Longrightarrow>
    \<exists>ok s'. check e s = Some (ok, s') \<and> (ok \<longrightarrow> key e \<notin> A)
      \<and> inv s' (if ok then insert (key e) A else A)"
begin

lemma run_accepts_once:
  "inv s A \<Longrightarrow> (\<And>e. e \<in> set es \<Longrightarrow> event_ok e) \<Longrightarrow>
   \<exists>s' ks. guard_run check key s es = Some (s', ks) \<and> distinct ks \<and> set ks \<inter> A = {}
     \<and> inv s' (A \<union> set ks)"
proof (induction es arbitrary: s A)
  case Nil
  then show ?case by simp
next
  case (Cons e es)
  have e: "event_ok e" and es: "\<And>x. x \<in> set es \<Longrightarrow> event_ok x"
    using Cons.prems(2) by simp_all
  from check_step [OF Cons.prems(1) e] obtain ok s' where step: "check e s = Some (ok, s')"
    "ok \<longrightarrow> key e \<notin> A" "inv s' (if ok then insert (key e) A else A)" by blast
  from Cons.IH [OF step(3) es] obtain s'' ks where run:
    "guard_run check key s' es = Some (s'', ks)" "distinct ks"
    "set ks \<inter> (if ok then insert (key e) A else A) = {}"
    "inv s'' ((if ok then insert (key e) A else A) \<union> set ks)" by blast
  with step show ?case by (cases ok) auto
qed

end

end
