(* ===== verification/Buffer.thy ===== *)
theory Buffer
  imports Prelude
begin

text \<open>
  \<open>struct buffer\<close> of \<open>buffer.h\<close> and \<open>buffer.c\<close>: a block of \<open>capacity\<close> bytes whose content
  starts at \<open>offset\<close> and has \<open>len\<close> bytes. The model keeps the four fields; the block a
  buffer points to is the list \<open>b_data\<close> (\<open>None\<close> for a \<open>NULL\<close> pointer), and a pointer into
  the block is an index. Each operation is translated with its guards, and the lemmas show its
  effect on the content bytes of a well-formed buffer: no guard lets an access leave the block.
  The locales \<open>byte_source\<close> and \<open>byte_sink\<close> state what the packet codecs of the other
  theories rely on; they are interpreted on the buffer operations at the end.
\<close>

section \<open>The buffer and its field operations\<close>

record buffer =
  b_capacity :: int
  b_offset :: int
  b_len :: int
  b_data :: "u8 list option"

definition BUF_SIZE_MAX :: nat where
  "BUF_SIZE_MAX = 1000000"

definition buf_mem :: "buffer \<Rightarrow> u8 list" where
  "buf_mem b = (case b_data b of None \<Rightarrow> [] | Some d \<Rightarrow> d)"

definition buf_poke :: "buffer \<Rightarrow> nat \<Rightarrow> u8 list \<Rightarrow> buffer" where
  "buf_poke b i bs = b\<lparr>b_data := map_option (\<lambda>d. memput d i bs) (b_data b)\<rparr>"

definition clear_buf :: buffer where
  "clear_buf = \<lparr>b_capacity = 0, b_offset = 0, b_len = 0, b_data = None\<rparr>"

definition buf_defined :: "buffer \<Rightarrow> bool" where
  "buf_defined b = (b_data b \<noteq> None)"

definition buf_valid :: "buffer \<Rightarrow> bool" where
  "buf_valid b = (b_data b \<noteq> None \<and> b_len b \<ge> 0)"

definition buf_bptr :: "buffer \<Rightarrow> nat option" where
  "buf_bptr b = (if buf_valid b then Some (nat (b_offset b)) else None)"

definition buf_len :: "buffer \<Rightarrow> int" where
  "buf_len b = (if buf_valid b then b_len b else 0)"

definition buf_bytes :: "buffer \<Rightarrow> u8 list" where
  "buf_bytes b = memget (buf_mem b) (nat (b_offset b)) (nat (buf_len b))"

definition buf_blast :: "buffer \<Rightarrow> nat option" where
  "buf_blast b = (if buf_len b > 0
                  then map_option (\<lambda>p. p + nat (buf_len b) - 1) (buf_bptr b) else None)"

definition buf_size_valid :: "nat \<Rightarrow> bool" where
  "buf_size_valid sz = (sz < BUF_SIZE_MAX)"

definition buf_size_valid_signed :: "int \<Rightarrow> bool" where
  "buf_size_valid_signed sz = (sz \<ge> - int BUF_SIZE_MAX \<and> sz < int BUF_SIZE_MAX)"

definition buf_reset :: "buffer \<Rightarrow> buffer" where
  "buf_reset b = b\<lparr>b_capacity := 0, b_offset := 0, b_len := 0, b_data := None\<rparr>"

definition buf_reset_len :: "buffer \<Rightarrow> buffer" where
  "buf_reset_len b = b\<lparr>b_len := 0, b_offset := 0\<rparr>"

definition buf_init :: "buffer \<Rightarrow> int \<Rightarrow> bool \<times> buffer" where
  "buf_init b offset =
     (if offset < 0 \<or> offset > b_capacity b \<or> b_data b = None then (False, b)
      else (True, b\<lparr>b_len := 0, b_offset := offset\<rparr>))"

definition buf_set_write :: "buffer \<Rightarrow> u8 list option \<Rightarrow> int \<Rightarrow> buffer option" where
  "buf_set_write b data sz =
     (if \<not> buf_size_valid (size_of_int sz) then None
      else Some (b\<lparr>b_len := 0, b_offset := 0, b_capacity := sz,
                   b_data := (if sz > 0 then map_option (\<lambda>d. memput d 0 [0]) data
                              else data)\<rparr>))"

definition buf_set_read :: "buffer \<Rightarrow> u8 list option \<Rightarrow> nat \<Rightarrow> buffer option" where
  "buf_set_read b data sz =
     (if \<not> buf_size_valid sz then None
      else Some (b\<lparr>b_len := int sz, b_capacity := int sz, b_offset := 0,
                   b_data := data\<rparr>))"

definition buf_safe :: "buffer \<Rightarrow> nat \<Rightarrow> bool" where
  "buf_safe b len = (buf_valid b \<and> buf_size_valid len
                     \<and> b_offset b + b_len b + int len \<le> b_capacity b)"

definition buf_safe_bidir :: "buffer \<Rightarrow> int \<Rightarrow> bool" where
  "buf_safe_bidir b len =
     (if buf_valid b \<and> buf_size_valid_signed len
      then (let newlen = b_len b + len in newlen \<ge> 0 \<and> b_offset b + newlen \<le> b_capacity b)
      else False)"

definition buf_forward_capacity :: "buffer \<Rightarrow> int" where
  "buf_forward_capacity b =
     (if buf_valid b
      then (let ret = b_capacity b - (b_offset b + b_len b) in if ret < 0 then 0 else ret)
      else 0)"

definition buf_forward_capacity_total :: "buffer \<Rightarrow> int" where
  "buf_forward_capacity_total b =
     (if buf_valid b
      then (let ret = b_capacity b - b_offset b in if ret < 0 then 0 else ret)
      else 0)"

definition buf_reverse_capacity :: "buffer \<Rightarrow> int" where
  "buf_reverse_capacity b = (if buf_valid b then b_offset b else 0)"

definition buf_inc_len :: "buffer \<Rightarrow> int \<Rightarrow> bool \<times> buffer" where
  "buf_inc_len b inc =
     (if \<not> buf_safe_bidir b inc then (False, b) else (True, b\<lparr>b_len := b_len b + inc\<rparr>))"

definition buf_prepend :: "buffer \<Rightarrow> int \<Rightarrow> nat option \<times> buffer" where
  "buf_prepend b sz =
     (if \<not> buf_valid b \<or> sz < 0 \<or> sz > b_offset b then (None, b)
      else (let b' = b\<lparr>b_offset := b_offset b - sz, b_len := b_len b + sz\<rparr>
            in (buf_bptr b', b')))"

definition buf_advance :: "buffer \<Rightarrow> int \<Rightarrow> bool \<times> buffer" where
  "buf_advance b sz =
     (if \<not> buf_valid b \<or> sz < 0 \<or> b_len b < sz then (False, b)
      else (True, b\<lparr>b_offset := b_offset b + sz, b_len := b_len b - sz\<rparr>))"

definition buf_write_alloc :: "buffer \<Rightarrow> nat \<Rightarrow> nat option \<times> buffer" where
  "buf_write_alloc b sz =
     (if \<not> buf_safe b sz then (None, b)
      else (map_option (\<lambda>p. p + nat (b_len b)) (buf_bptr b),
            b\<lparr>b_len := b_len b + int sz\<rparr>))"

definition buf_write_alloc_prepend :: "buffer \<Rightarrow> int \<Rightarrow> bool \<Rightarrow> nat option \<times> buffer" where
  "buf_write_alloc_prepend b sz prepend =
     (if prepend then buf_prepend b sz else buf_write_alloc b (size_of_int sz))"

definition buf_read_alloc :: "buffer \<Rightarrow> int \<Rightarrow> nat option \<times> buffer" where
  "buf_read_alloc b sz =
     (if sz < 0 \<or> b_len b < sz then (None, b)
      else (buf_bptr b, b\<lparr>b_offset := b_offset b + sz, b_len := b_len b - sz\<rparr>))"

section \<open>Reading and writing\<close>

definition buf_write :: "buffer \<Rightarrow> u8 list \<Rightarrow> bool \<times> buffer" where
  "buf_write dest src =
     (case buf_write_alloc dest (length src) of
        (None, b) \<Rightarrow> (False, b)
      | (Some cp, b) \<Rightarrow> (True, buf_poke b cp src))"

definition buf_write_prepend :: "buffer \<Rightarrow> u8 list \<Rightarrow> bool \<times> buffer" where
  "buf_write_prepend dest src =
     (case buf_prepend dest (int (length src)) of
        (None, b) \<Rightarrow> (False, b)
      | (Some cp, b) \<Rightarrow> (True, buf_poke b cp src))"

definition buf_write_u8 :: "buffer \<Rightarrow> u8 \<Rightarrow> bool \<times> buffer" where
  "buf_write_u8 dest d = buf_write dest [d]"

definition buf_write_u16 :: "buffer \<Rightarrow> u16 \<Rightarrow> bool \<times> buffer" where
  "buf_write_u16 dest d = buf_write dest (u16_bytes d)"

definition buf_write_u32 :: "buffer \<Rightarrow> u32 \<Rightarrow> bool \<times> buffer" where
  "buf_write_u32 dest d = buf_write dest (u32_bytes d)"

definition buf_copy :: "buffer \<Rightarrow> buffer \<Rightarrow> bool \<times> buffer" where
  "buf_copy dest src = buf_write dest (buf_bytes src)"

definition buf_copy_n :: "buffer \<Rightarrow> buffer \<Rightarrow> int \<Rightarrow> bool \<times> buffer \<times> buffer" where
  "buf_copy_n dest src n =
     (case buf_read_alloc src n of
        (None, s) \<Rightarrow> (False, dest, s)
      | (Some cp, s) \<Rightarrow>
          (case buf_write dest (memget (buf_mem s) cp (nat n)) of (ok, d) \<Rightarrow> (ok, d, s)))"

definition buf_copy_range :: "buffer \<Rightarrow> int \<Rightarrow> buffer \<Rightarrow> int \<Rightarrow> int \<Rightarrow> bool \<times> buffer" where
  "buf_copy_range dest dest_index src src_index src_len =
     (if src_index < 0 \<or> src_len < 0 \<or> src_index + src_len > b_len src \<or> dest_index < 0
         \<or> b_offset dest + dest_index + src_len > b_capacity dest
      then (False, dest)
      else (let d = buf_poke dest (nat (b_offset dest + dest_index))
                      (memget (buf_mem src) (nat (b_offset src + src_index)) (nat src_len))
            in (True, if dest_index + src_len > b_len dest
                      then d\<lparr>b_len := dest_index + src_len\<rparr> else d)))"

definition buf_copy_excess :: "buffer \<Rightarrow> buffer \<Rightarrow> int \<Rightarrow> bool \<times> buffer \<times> buffer" where
  "buf_copy_excess dest src len =
     (if len < 0 then (False, dest, src)
      else if b_len src > len
      then (let b = src; src' = src\<lparr>b_len := len\<rparr> in
            case buf_advance b len of
              (False, _) \<Rightarrow> (False, dest, src')
            | (True, b') \<Rightarrow> (case buf_copy dest b' of (ok, d) \<Rightarrow> (ok, d, src')))
      else (True, dest, src))"

definition buf_read :: "buffer \<Rightarrow> int \<Rightarrow> u8 list option \<times> buffer" where
  "buf_read src sz =
     (case buf_read_alloc src sz of
        (None, s) \<Rightarrow> (None, s)
      | (Some cp, s) \<Rightarrow> (Some (memget (buf_mem s) cp (nat sz)), s))"

definition buf_read_u8 :: "buffer \<Rightarrow> int \<times> buffer" where
  "buf_read_u8 b =
     (if buf_len b < 1 then (-1, b)
      else (uint (buf_mem b ! nat (b_offset b)), snd (buf_advance b 1)))"

definition buf_read_u16 :: "buffer \<Rightarrow> int \<times> buffer" where
  "buf_read_u16 b =
     (case buf_read b 2 of
        (None, b') \<Rightarrow> (-1, b')
      | (Some bs, b') \<Rightarrow> (uint (u16_of_bytes bs), b'))"

definition buf_read_u32 :: "buffer \<Rightarrow> u32 \<times> bool \<times> buffer" where
  "buf_read_u32 b =
     (case buf_read b 4 of
        (None, b') \<Rightarrow> (0, False, b')
      | (Some bs, b') \<Rightarrow> (u32_of_bytes bs, True, b'))"

definition buf_equal :: "buffer \<Rightarrow> buffer \<Rightarrow> bool" where
  "buf_equal a b = (buf_len a = buf_len b \<and> buf_bytes a = buf_bytes b)"

definition buf_string_match :: "buffer \<Rightarrow> u8 list \<Rightarrow> int \<Rightarrow> bool" where
  "buf_string_match src match sz =
     (if sz \<noteq> b_len src then False
      else memget (buf_mem src) (nat (b_offset src)) (nat sz) = take (nat sz) match)"

definition buf_string_match_head :: "buffer \<Rightarrow> u8 list \<Rightarrow> int \<Rightarrow> bool" where
  "buf_string_match_head src match sz =
     (if sz < 0 \<or> sz > b_len src then False
      else memget (buf_mem src) (nat (b_offset src)) (nat sz) = take (nat sz) match)"

section \<open>Well-formed buffers\<close>

definition buf_wf :: "buffer \<Rightarrow> bool" where
  "buf_wf b = (case b_data b of
      None \<Rightarrow> False
    | Some d \<Rightarrow> int (length d) = b_capacity b \<and> 0 \<le> b_offset b \<and> 0 \<le> b_len b
        \<and> b_offset b + b_len b \<le> b_capacity b \<and> b_capacity b < int BUF_SIZE_MAX)"

definition buf_tailroom :: "buffer \<Rightarrow> int" where
  "buf_tailroom b = b_capacity b - (b_offset b + b_len b)"

text \<open>The three ways a successful operation changes a buffer.\<close>

definition buf_push :: "buffer \<Rightarrow> u8 list \<Rightarrow> buffer" where
  "buf_push b bs = buf_poke (b\<lparr>b_len := b_len b + int (length bs)\<rparr>)
     (nat (b_offset b + b_len b)) bs"

definition buf_unshift :: "buffer \<Rightarrow> u8 list \<Rightarrow> buffer" where
  "buf_unshift b bs = buf_poke
     (b\<lparr>b_offset := b_offset b - int (length bs), b_len := b_len b + int (length bs)\<rparr>)
     (nat (b_offset b - int (length bs))) bs"

definition buf_skip :: "buffer \<Rightarrow> nat \<Rightarrow> buffer" where
  "buf_skip b n = b\<lparr>b_offset := b_offset b + int n, b_len := b_len b - int n\<rparr>"

lemma buf_wfE:
  assumes "buf_wf b"
  obtains d where "b_data b = Some d" "int (length d) = b_capacity b" "0 \<le> b_offset b"
    "0 \<le> b_len b" "b_offset b + b_len b \<le> b_capacity b" "b_capacity b < int BUF_SIZE_MAX"
  using assms by (auto simp: buf_wf_def split: option.splits)

lemma buf_wf_facts:
  assumes "buf_wf b"
  shows "buf_valid b" "buf_defined b" "buf_len b = b_len b" "0 \<le> b_len b" "0 \<le> b_offset b"
    "b_offset b + b_len b \<le> b_capacity b" "0 \<le> buf_tailroom b"
    "int (length (buf_mem b)) = b_capacity b" "b_capacity b < int BUF_SIZE_MAX"
  using assms by (auto elim!: buf_wfE simp: buf_valid_def buf_defined_def buf_len_def
      buf_tailroom_def buf_mem_def)

lemma length_buf_bytes [buf_simps]: "buf_wf b \<Longrightarrow> length (buf_bytes b) = nat (b_len b)"
  by (auto elim!: buf_wfE simp: buf_bytes_def buf_len_def buf_valid_def buf_mem_def
      intro!: length_memget)

lemma length_buf_bytes_int: "buf_wf b \<Longrightarrow> int (length (buf_bytes b)) = b_len b"
  by (simp add: length_buf_bytes buf_wf_facts)

lemma buf_push_fields [simp]:
  "b_offset (buf_push b bs) = b_offset b" "b_capacity (buf_push b bs) = b_capacity b"
  "b_len (buf_push b bs) = b_len b + int (length bs)"
  "buf_tailroom (buf_push b bs) = buf_tailroom b - int (length bs)"
  by (simp_all add: buf_push_def buf_poke_def buf_tailroom_def)

lemma buf_unshift_fields [simp]:
  "b_offset (buf_unshift b bs) = b_offset b - int (length bs)"
  "b_capacity (buf_unshift b bs) = b_capacity b"
  "b_len (buf_unshift b bs) = b_len b + int (length bs)"
  "buf_tailroom (buf_unshift b bs) = buf_tailroom b"
  by (simp_all add: buf_unshift_def buf_poke_def buf_tailroom_def)

lemma buf_skip_fields [simp]:
  "b_offset (buf_skip b n) = b_offset b + int n" "b_capacity (buf_skip b n) = b_capacity b"
  "b_len (buf_skip b n) = b_len b - int n" "b_data (buf_skip b n) = b_data b"
  "buf_tailroom (buf_skip b n) = buf_tailroom b"
  by (simp_all add: buf_skip_def buf_tailroom_def)

lemma buf_push_wf [buf_simps, wf_intros]:
  "buf_wf b \<Longrightarrow> int (length bs) \<le> buf_tailroom b \<Longrightarrow> buf_wf (buf_push b bs)"
  by (auto simp: buf_wf_def buf_push_def buf_poke_def buf_tailroom_def split: option.splits)

lemma buf_push_bytes [buf_simps]:
  assumes "buf_wf b" and "int (length bs) \<le> buf_tailroom b"
  shows "buf_bytes (buf_push b bs) = buf_bytes b @ bs"
proof -
  obtain d where d: "b_data b = Some d" "int (length d) = b_capacity b" "0 \<le> b_offset b"
    "0 \<le> b_len b" "b_offset b + b_len b \<le> b_capacity b"
    using assms(1) by (rule buf_wfE)
  let ?p = "nat (b_offset b + b_len b)"
  have room: "?p + length bs \<le> length d" and p: "?p = nat (b_offset b) + nat (b_len b)"
    using assms(2) d by (auto simp: buf_tailroom_def)
  have n: "nat (b_len b + int (length bs)) = nat (b_len b) + length bs"
    using d by simp
  show ?thesis
    using room d by (simp add: buf_bytes_def buf_push_def buf_poke_def buf_mem_def buf_len_def
        buf_valid_def n memget_append p memget_memput_same memget_memput_before)
qed

lemma buf_unshift_wf [buf_simps, wf_intros]:
  "buf_wf b \<Longrightarrow> int (length bs) \<le> b_offset b \<Longrightarrow> buf_wf (buf_unshift b bs)"
  by (auto simp: buf_wf_def buf_unshift_def buf_poke_def split: option.splits)

lemma buf_unshift_bytes [buf_simps]:
  assumes "buf_wf b" and "int (length bs) \<le> b_offset b"
  shows "buf_bytes (buf_unshift b bs) = bs @ buf_bytes b"
proof -
  obtain d where d: "b_data b = Some d" "int (length d) = b_capacity b" "0 \<le> b_offset b"
    "0 \<le> b_len b" "b_offset b + b_len b \<le> b_capacity b"
    using assms(1) by (rule buf_wfE)
  let ?p = "nat (b_offset b - int (length bs))"
  have room: "?p + length bs \<le> length d" and p: "?p + length bs = nat (b_offset b)"
    using assms(2) d by auto
  have n: "nat (b_len b + int (length bs)) = length bs + nat (b_len b)"
    using d by simp
  show ?thesis
    using room d by (simp add: buf_bytes_def buf_unshift_def buf_poke_def buf_mem_def
        buf_len_def buf_valid_def n memget_append p memget_memput_same memget_memput_after)
qed

lemma buf_skip_wf [buf_simps, wf_intros]:
  "buf_wf b \<Longrightarrow> int n \<le> b_len b \<Longrightarrow> buf_wf (buf_skip b n)"
  by (auto simp: buf_wf_def split: option.splits)

lemma buf_skip_bytes [buf_simps]:
  assumes "buf_wf b" and "int n \<le> b_len b"
  shows "buf_bytes (buf_skip b n) = drop n (buf_bytes b)"
proof -
  have "nat (b_offset b + int n) = nat (b_offset b) + n" "nat (b_len b - int n) = nat (b_len b) - n"
    using assms by (auto elim!: buf_wfE)
  with assms show ?thesis
    by (auto elim!: buf_wfE simp: buf_bytes_def buf_mem_def buf_len_def buf_valid_def memget_drop)
qed

subsection \<open>Effect of the operations\<close>

lemma buf_write_eq [buf_simps]:
  assumes "buf_wf b"
  shows "buf_write b bs = (if int (length bs) \<le> buf_tailroom b then (True, buf_push b bs)
                           else (False, b))"
  using assms by (auto elim!: buf_wfE simp: buf_write_def buf_write_alloc_def buf_safe_def
      buf_valid_def buf_size_valid_def buf_tailroom_def buf_bptr_def buf_push_def nat_add_distrib)

lemma buf_write_prepend_eq [buf_simps]:
  assumes "buf_wf b"
  shows "buf_write_prepend b bs = (if int (length bs) \<le> b_offset b then (True, buf_unshift b bs)
                                   else (False, b))"
  using assms by (auto elim!: buf_wfE simp: buf_write_prepend_def buf_prepend_def buf_valid_def
      buf_bptr_def buf_unshift_def Let_def)

lemma buf_advance_eq [buf_simps]:
  "buf_wf b \<Longrightarrow> buf_advance b n = (if 0 \<le> n \<and> n \<le> b_len b then (True, buf_skip b (nat n))
                                      else (False, b))"
  by (auto elim!: buf_wfE simp: buf_advance_def buf_valid_def buf_skip_def)

lemma buf_read_eq [buf_simps]:
  assumes "buf_wf b"
  shows "buf_read b n = (if 0 \<le> n \<and> n \<le> b_len b
                         then (Some (take (nat n) (buf_bytes b)), buf_skip b (nat n))
                         else (None, b))"
  using assms by (auto elim!: buf_wfE simp: buf_read_def buf_read_alloc_def buf_bptr_def
      buf_valid_def buf_skip_def buf_bytes_def buf_mem_def buf_len_def memget_take min_def)

lemma buf_read_u8_eq [buf_simps]:
  assumes "buf_wf b"
  shows "buf_read_u8 b = (case buf_bytes b of [] \<Rightarrow> (-1, b) | c # _ \<Rightarrow> (uint c, buf_skip b 1))"
proof (cases "buf_bytes b")
  case Nil
  then show ?thesis
    using assms length_buf_bytes [OF assms] by (simp add: buf_read_u8_def buf_wf_facts)
next
  case (Cons c cs)
  have l: "1 \<le> b_len b" using Cons length_buf_bytes [OF assms] by simp
  have "buf_bytes b ! 0 = buf_mem b ! nat (b_offset b)"
    using assms l by (auto elim!: buf_wfE simp: buf_bytes_def buf_len_def buf_valid_def
        buf_mem_def memget_def)
  with Cons l assms show ?thesis
    by (simp add: buf_read_u8_def buf_wf_facts buf_advance_eq)
qed

section \<open>Allocation, copies and sub-buffers\<close>

text \<open>
  Allocation succeeds or ends the process (\<open>check_malloc_return\<close>). \<open>calloc\<close> returns zeros;
  the bytes \<open>malloc\<close> returns are indeterminate, so \<open>clone_buf\<close> takes them as an argument.
  \<open>buf_sub\<close> returns a buffer that points into the block of another: the model returns a copy
  of the range with its index, and \<open>buf_sub_flush\<close> stores what was written through the
  sub-buffer back into the block.
\<close>

definition array_mult_safe :: "nat \<Rightarrow> nat \<Rightarrow> nat \<Rightarrow> nat option" where
  "array_mult_safe m1 m2 extra =
     (let limit = 0xFFFFFFFF; res = (m1 * m2 + extra) mod 2 ^ 64
      in if m1 > limit \<or> m2 > limit \<or> extra > limit \<or> res > limit then None else Some res)"

definition alloc_buf :: "nat \<Rightarrow> buffer option" where
  "alloc_buf sz =
     (if \<not> buf_size_valid sz then None
      else Some \<lparr>b_capacity = int sz, b_offset = 0, b_len = 0,
                 b_data = Some (replicate sz 0)\<rparr>)"

definition clone_buf :: "u8 list \<Rightarrow> buffer \<Rightarrow> buffer" where
  "clone_buf junk b =
     \<lparr>b_capacity = b_capacity b, b_offset = b_offset b, b_len = b_len b,
      b_data = Some (memput junk (nat (b_offset b)) (buf_bytes b))\<rparr>"

definition buf_clear :: "buffer \<Rightarrow> buffer" where
  "buf_clear b =
     (if b_capacity b > 0
      then b\<lparr>b_data := map_option (\<lambda>d. memput d 0 (replicate (nat (b_capacity b)) 0)) (b_data b),
             b_len := 0, b_offset := 0\<rparr>
      else b\<lparr>b_len := 0, b_offset := 0\<rparr>)"

definition buf_assign :: "buffer \<Rightarrow> buffer \<Rightarrow> bool \<times> buffer" where
  "buf_assign dest src =
     (case buf_init dest (b_offset src) of
        (False, d) \<Rightarrow> (False, d)
      | (True, d) \<Rightarrow> buf_write d (buf_bytes src))"

definition free_buf :: "buffer \<Rightarrow> buffer" where
  "free_buf b = clear_buf"

definition buf_sub :: "buffer \<Rightarrow> int \<Rightarrow> bool \<Rightarrow> buffer \<times> nat \<times> buffer" where
  "buf_sub b sz prepend =
     (case (if prepend then buf_prepend b sz else buf_write_alloc b (size_of_int sz)) of
        (None, b') \<Rightarrow> (clear_buf, 0, b')
      | (Some i, b') \<Rightarrow>
          (clear_buf\<lparr>b_capacity := sz, b_data := Some (memget (buf_mem b') i (nat sz))\<rparr>, i, b'))"

definition buf_sub_flush :: "buffer \<Rightarrow> nat \<Rightarrow> buffer \<Rightarrow> buffer" where
  "buf_sub_flush b i sub = buf_poke b i (buf_mem sub)"

lemma alloc_buf_wf [wf_intros]: "alloc_buf n = Some b \<Longrightarrow> buf_wf b"
  by (auto simp: alloc_buf_def buf_wf_def buf_size_valid_def split: if_splits)

lemma alloc_buf_bytes [buf_simps]: "alloc_buf n = Some b \<Longrightarrow> buf_bytes b = []"
  by (auto simp: alloc_buf_def buf_bytes_def buf_len_def buf_valid_def split: if_splits)

lemma buf_init_eq [buf_simps]:
  "buf_wf b \<Longrightarrow> buf_init b n = (if 0 \<le> n \<and> n \<le> b_capacity b
      then (True, b\<lparr>b_len := 0, b_offset := n\<rparr>) else (False, b))"
  by (auto elim!: buf_wfE simp: buf_init_def)

lemma buf_init_wf [wf_intros]:
  "buf_wf b \<Longrightarrow> 0 \<le> n \<Longrightarrow> n \<le> b_capacity b \<Longrightarrow> buf_wf (b\<lparr>b_len := 0, b_offset := n\<rparr>)"
  by (auto simp: buf_wf_def split: option.splits)

lemma buf_init_bytes [buf_simps]: "buf_bytes (b\<lparr>b_len := 0, b_offset := n\<rparr>) = []"
  by (simp add: buf_bytes_def buf_len_def)

lemma clone_buf_props:
  assumes "buf_wf b" and "int (length junk) = b_capacity b"
  shows "buf_wf (clone_buf junk b)" and "buf_bytes (clone_buf junk b) = buf_bytes b"
proof -
  have le: "nat (b_offset b) + length (buf_bytes b) \<le> length junk"
    using assms buf_wf_facts [OF assms(1)] by (simp add: length_buf_bytes)
  show "buf_wf (clone_buf junk b)"
    using assms le buf_wf_facts [OF assms(1)] by (simp add: clone_buf_def buf_wf_def)
  show "buf_bytes (clone_buf junk b) = buf_bytes b"
    using le buf_wf_facts [OF assms(1)] assms(1)
    by (simp add: clone_buf_def buf_bytes_def [of "\<lparr>b_capacity = _, b_offset = _, b_len = _, b_data = _\<rparr>"]
        buf_mem_def buf_len_def buf_valid_def memget_memput_same length_buf_bytes)
qed

lemma buf_sub_prepend:
  assumes "buf_wf b" and "0 \<le> n" and "n \<le> b_offset b"
  obtains sub i b' where "buf_sub b n True = (sub, i, b')" "buf_wf sub" "b_capacity sub = n"
    "b_len sub = 0" "b_offset sub = 0"
    "\<And>s. buf_wf s \<Longrightarrow> b_capacity s = n \<Longrightarrow> buf_sub_flush b' i s = buf_unshift b (buf_mem s)"
proof -
  let ?b = "b\<lparr>b_offset := b_offset b - n, b_len := b_len b + n\<rparr>"
  let ?i = "nat (b_offset b - n)"
  let ?s = "clear_buf\<lparr>b_capacity := n, b_data := Some (memget (buf_mem b) ?i (nat n))\<rparr>"
  have eq: "buf_sub b n True = (?s, ?i, ?b)"
    using assms buf_wf_facts [OF assms(1)]
    by (auto simp: buf_sub_def buf_prepend_def buf_bptr_def buf_valid_def buf_mem_def Let_def)
  have wf: "buf_wf ?s"
    using assms buf_wf_facts [OF assms(1)] by (simp add: buf_wf_def clear_buf_def)
  have "buf_sub_flush ?b ?i s = buf_unshift b (buf_mem s)"
    if "buf_wf s" "b_capacity s = n" for s
    using that assms buf_wf_facts [OF that(1)] by (simp add: buf_sub_flush_def buf_unshift_def)
  with eq wf show thesis
    by (intro that) (auto simp: clear_buf_def)
qed

lemma buf_sub_append:
  assumes "buf_wf b" and "0 \<le> n" and "n \<le> buf_tailroom b"
  obtains sub i b' where "buf_sub b n False = (sub, i, b')" "buf_wf sub" "b_capacity sub = n"
    "b_len sub = 0" "b_offset sub = 0"
    "\<And>s. buf_wf s \<Longrightarrow> b_capacity s = n \<Longrightarrow> buf_sub_flush b' i s = buf_push b (buf_mem s)"
proof -
  let ?b = "b\<lparr>b_len := b_len b + n\<rparr>"
  let ?i = "nat (b_offset b + b_len b)"
  let ?s = "clear_buf\<lparr>b_capacity := n, b_data := Some (memget (buf_mem b) ?i (nat n))\<rparr>"
  note f = buf_wf_facts [OF assms(1)]
  have n: "n < int BUF_SIZE_MAX" "size_of_int n = nat n"
    using assms f by (auto simp: buf_tailroom_def BUF_SIZE_MAX_def intro!: size_of_int_nonneg)
  have "buf_safe b (nat n)" and i: "nat (b_offset b) + nat (b_len b) = ?i"
    using assms f n by (auto simp: buf_safe_def buf_size_valid_def buf_tailroom_def)
  then have eq: "buf_sub b n False = (?s, ?i, ?b)"
    using assms f n
    by (auto simp: buf_sub_def buf_write_alloc_def buf_bptr_def buf_valid_def buf_mem_def i)
  have wf: "buf_wf ?s"
    using assms f by (auto simp: buf_wf_def clear_buf_def buf_tailroom_def)
  have "buf_sub_flush ?b ?i s = buf_push b (buf_mem s)"
    if "buf_wf s" "b_capacity s = n" for s
    using that assms buf_wf_facts [OF that(1)] by (simp add: buf_sub_flush_def buf_push_def)
  with eq wf show thesis
    by (intro that) (auto simp: clear_buf_def)
qed

text \<open>A sub-buffer filled to its capacity: its block is its content.\<close>

lemma buf_full_mem: "buf_wf s \<Longrightarrow> b_offset s = 0 \<Longrightarrow> b_len s = b_capacity s \<Longrightarrow> buf_mem s = buf_bytes s"
  by (auto elim!: buf_wfE simp: buf_bytes_def buf_mem_def buf_len_def buf_valid_def)
    (metis memget_all nat_int)

lemma buf_copy_n_eq [buf_simps]:
  assumes "buf_wf dst" and "buf_wf src" and "0 \<le> n" and "n \<le> b_len src" and "n \<le> buf_tailroom dst"
  shows "buf_copy_n dst src n = (True, buf_push dst (take (nat n) (buf_bytes src)), buf_skip src (nat n))"
proof -
  note f = buf_wf_facts [OF assms(2)]
  have "memget (buf_mem src) (nat (b_offset src)) (nat n) = take (nat n) (buf_bytes src)"
    using assms(3,4) f by (simp add: buf_bytes_def memget_take min_def)
  moreover have "buf_read_alloc src n = (Some (nat (b_offset src)), buf_skip src (nat n))"
    using assms(3,4) f by (simp add: buf_read_alloc_def buf_bptr_def buf_skip_def)
  moreover have "int (length (take (nat n) (buf_bytes src))) \<le> buf_tailroom dst"
    using assms(2-5) by (simp add: length_buf_bytes)
  ultimately show ?thesis
    using assms(1) by (simp add: buf_copy_n_def buf_write_eq buf_mem_def buf_skip_def)
qed

section \<open>The byte-stream interfaces\<close>

text \<open>
  What a parser relies on: a read returns the next bytes and keeps the rest, or fails and
  leaves the source unchanged. What a serialiser relies on: a write that fits places its
  bytes, a write that does not leaves the sink unchanged.
\<close>

locale byte_source =
  fixes inv :: "'b \<Rightarrow> bool"
    and content :: "'b \<Rightarrow> u8 list"
    and rd :: "'b \<Rightarrow> int \<Rightarrow> u8 list option \<times> 'b"
  assumes rd_ok: "inv b \<Longrightarrow> 0 \<le> n \<Longrightarrow> n \<le> int (length (content b)) \<Longrightarrow>
      \<exists>b'. rd b n = (Some (take (nat n) (content b)), b') \<and> inv b'
           \<and> content b' = drop (nat n) (content b)"
    and rd_short: "inv b \<Longrightarrow> int (length (content b)) < n \<Longrightarrow> rd b n = (None, b)"
begin

lemma rd_prefix:
  assumes "inv b" and "content b = xs @ ys"
  obtains b' where "rd b (int (length xs)) = (Some xs, b')" "inv b'" "content b' = ys"
  using rd_ok [OF assms(1), of "int (length xs)"] assms(2) that by auto

lemma rd_cases:
  assumes "inv b" and "0 \<le> n"
  obtains (short) "rd b n = (None, b)" "int (length (content b)) < n"
  | (ok) xs b' where "rd b n = (Some xs, b')" "inv b'" "int (length xs) = n"
      "content b = xs @ content b'"
proof (cases "n \<le> int (length (content b))")
  case True
  then obtain b' where "rd b n = (Some (take (nat n) (content b)), b')" "inv b'"
    "content b' = drop (nat n) (content b)" using rd_ok assms by blast
  with True assms(2) show thesis by (intro ok) auto
next
  case False
  then show thesis using rd_short assms short by simp
qed

end

locale byte_sink =
  fixes inv :: "'b \<Rightarrow> bool"
    and content :: "'b \<Rightarrow> u8 list"
    and room :: "'b \<Rightarrow> int"
    and place :: "u8 list \<Rightarrow> u8 list \<Rightarrow> u8 list"
    and wr :: "'b \<Rightarrow> u8 list \<Rightarrow> bool \<times> 'b"
  assumes wr_ok: "inv b \<Longrightarrow> int (length bs) \<le> room b \<Longrightarrow>
      \<exists>b'. wr b bs = (True, b') \<and> inv b' \<and> content b' = place (content b) bs
           \<and> room b' = room b - int (length bs)"
    and wr_full: "inv b \<Longrightarrow> room b < int (length bs) \<Longrightarrow> wr b bs = (False, b)"
begin

lemma wr_cases:
  assumes "inv b"
  obtains (full) "wr b bs = (False, b)" "room b < int (length bs)"
  | (ok) b' where "wr b bs = (True, b')" "inv b'" "content b' = place (content b) bs"
      "room b' = room b - int (length bs)" "int (length bs) \<le> room b"
  using wr_ok wr_full assms by (metis linorder_not_le)

lemma wr_TrueD:
  "inv b \<Longrightarrow> wr b bs = (True, b') \<Longrightarrow>
   inv b' \<and> content b' = place (content b) bs \<and> room b' = room b - int (length bs)"
  by (metis wr_cases fst_conv snd_conv)

end

interpretation buf_in: byte_source buf_wf buf_bytes buf_read
proof
  fix b n assume wf: "buf_wf b"
  { assume "0 \<le> n" "n \<le> int (length (buf_bytes b))"
    with wf show "\<exists>b'. buf_read b n = (Some (take (nat n) (buf_bytes b)), b') \<and> buf_wf b'
           \<and> buf_bytes b' = drop (nat n) (buf_bytes b)"
      by (simp add: buf_read_eq length_buf_bytes buf_wf_facts buf_skip_wf buf_skip_bytes) }
  { assume "int (length (buf_bytes b)) < n"
    with wf show "buf_read b n = (None, b)"
      by (simp add: buf_read_eq length_buf_bytes buf_wf_facts) }
qed

interpretation buf_out: byte_sink buf_wf buf_bytes buf_tailroom "\<lambda>c bs. c @ bs" buf_write
  by unfold_locales (simp_all add: buf_simps)

interpretation buf_front: byte_sink buf_wf buf_bytes b_offset "\<lambda>c bs. bs @ c" buf_write_prepend
  by unfold_locales (simp_all add: buf_simps)

text \<open>The case distinction of a parser: the read fails, or it returns the next bytes.\<close>

lemma buf_read_cases:
  assumes "buf_wf b" and "0 \<le> n"
  obtains (short) "buf_read b n = (None, b)" "int (length (buf_bytes b)) < n"
  | (ok) xs b' where "buf_read b n = (Some xs, b')" "buf_wf b'" "int (length xs) = n"
      "buf_bytes b = xs @ buf_bytes b'"
  using buf_in.rd_cases [OF assms] by metis

lemma buf_read_wf [wf_intros]: "buf_wf b \<Longrightarrow> buf_wf (snd (buf_read b n))"
  by (auto simp: buf_read_eq intro!: buf_skip_wf)

section \<open>Properties\<close>

text \<open>
  The operations that hand out a pointer into the block never let it reach outside: on a
  well-formed buffer the range they return lies in the block and the buffer stays well-formed.
\<close>

theorem buf_alloc_in_bounds:
  assumes "buf_wf b"
  shows "(\<forall>n i b'. buf_write_alloc b n = (Some i, b') \<longrightarrow> i + n \<le> length (buf_mem b) \<and> buf_wf b')
    \<and> (\<forall>n i b'. buf_prepend b n = (Some i, b') \<longrightarrow> i + nat n \<le> length (buf_mem b) \<and> buf_wf b')
    \<and> (\<forall>n i b'. buf_read_alloc b n = (Some i, b') \<longrightarrow> i + nat n \<le> length (buf_mem b) \<and> buf_wf b')"
proof -
  note f = buf_wf_facts [OF assms]
  have "i + n \<le> length (buf_mem b) \<and> buf_wf b'" if "buf_write_alloc b n = (Some i, b')" for n i b'
    using that f assms
    by (auto simp: buf_write_alloc_def buf_safe_def buf_bptr_def buf_wf_def split: if_splits option.splits)
  moreover have "i + nat n \<le> length (buf_mem b) \<and> buf_wf b'" if "buf_prepend b n = (Some i, b')" for n i b'
    using that f assms
    by (auto simp: buf_prepend_def Let_def buf_bptr_def buf_wf_def split: if_splits option.splits)
  moreover have "i + nat n \<le> length (buf_mem b) \<and> buf_wf b'" if "buf_read_alloc b n = (Some i, b')" for n i b'
    using that f assms
    by (auto simp: buf_read_alloc_def buf_bptr_def buf_wf_def split: if_splits option.splits)
  ultimately show ?thesis by blast
qed

theorem buf_alloc_in_bounds_witness:
  "\<exists>i b'. buf_write_alloc \<lparr>b_capacity = 8, b_offset = 3, b_len = 2, b_data = Some (replicate 8 0)\<rparr> 3
      = (Some i, b') \<and> i + 3 \<le> 8 \<and> buf_wf b'"
proof -
  let ?b = "\<lparr>b_capacity = 8, b_offset = 3, b_len = 2, b_data = Some (replicate 8 0)\<rparr> :: buffer"
  have wf: "buf_wf ?b" by (simp add: buf_wf_def BUF_SIZE_MAX_def)
  have "buf_write_alloc ?b 3 = (Some 5, ?b\<lparr>b_len := 5\<rparr>)"
    by (simp add: buf_write_alloc_def buf_safe_def buf_valid_def buf_size_valid_def BUF_SIZE_MAX_def buf_bptr_def)
  with buf_alloc_in_bounds [OF wf] show ?thesis by (fastforce simp: buf_mem_def)
qed

text \<open>Writing a list of chunks, and reading chunks of given lengths.\<close>

fun buf_write_all :: "buffer \<Rightarrow> u8 list list \<Rightarrow> bool \<times> buffer" where
  "buf_write_all b [] = (True, b)"
| "buf_write_all b (c # cs) =
     (case buf_write b c of (True, b') \<Rightarrow> buf_write_all b' cs | (False, b') \<Rightarrow> (False, b'))"

fun buf_read_all :: "buffer \<Rightarrow> int list \<Rightarrow> u8 list list option \<times> buffer" where
  "buf_read_all b [] = (Some [], b)"
| "buf_read_all b (n # ns) =
     (case buf_read b n of
        (None, b') \<Rightarrow> (None, b')
      | (Some c, b') \<Rightarrow> (case buf_read_all b' ns of (cs, b'') \<Rightarrow> (map_option ((#) c) cs, b'')))"

lemma buf_write_all_ok:
  "buf_wf b \<Longrightarrow> int (length (concat cs)) \<le> buf_tailroom b \<Longrightarrow>
   \<exists>b'. buf_write_all b cs = (True, b') \<and> buf_wf b' \<and> buf_bytes b' = buf_bytes b @ concat cs"
proof (induction cs arbitrary: b)
  case (Cons c cs)
  obtain b1 where b1: "buf_write b c = (True, b1)" "buf_wf b1" "buf_bytes b1 = buf_bytes b @ c"
    "buf_tailroom b1 = buf_tailroom b - int (length c)"
    using buf_out.wr_ok [OF Cons.prems(1), of c] Cons.prems(2) by auto
  with Cons.IH [OF b1(2)] Cons.prems(2) show ?case by simp
qed simp

lemma buf_read_all_ok:
  "buf_wf b \<Longrightarrow> buf_bytes b = concat cs @ rest \<Longrightarrow>
   \<exists>b'. buf_read_all b (map (\<lambda>c. int (length c)) cs) = (Some cs, b') \<and> buf_wf b' \<and> buf_bytes b' = rest"
proof (induction cs arbitrary: b)
  case (Cons c cs)
  obtain b1 where "buf_read b (int (length c)) = (Some c, b1)" "buf_wf b1" "buf_bytes b1 = concat cs @ rest"
    using buf_in.rd_prefix [OF Cons.prems(1), of c] Cons.prems(2) by auto
  with Cons.IH [of b1] show ?case by auto
qed simp

text \<open>
  A buffer is a byte queue: chunks written to a fresh buffer that has room for all of them
  are read back in the same order, whatever their contents, and nothing is left.
\<close>

theorem buf_write_read_fifo:
  assumes "alloc_buf n = Some b" "length (concat cs) \<le> n"
  shows "\<exists>b1 b2. buf_write_all b cs = (True, b1)
    \<and> buf_read_all b1 (map (\<lambda>c. int (length c)) cs) = (Some cs, b2) \<and> buf_bytes b2 = []"
proof -
  have b: "buf_wf b" "buf_bytes b = []" "buf_tailroom b = int n"
    using assms(1) by (auto simp: alloc_buf_wf alloc_buf_bytes) (auto simp: alloc_buf_def buf_tailroom_def split: if_splits)
  obtain b1 where b1: "buf_write_all b cs = (True, b1)" "buf_wf b1" "buf_bytes b1 = concat cs"
    using buf_write_all_ok [OF b(1), of cs] b assms(2) by auto
  then show ?thesis using buf_read_all_ok [of b1 cs "[]"] by auto
qed

theorem buf_write_read_fifo_witness:
  "\<exists>b1 b2. buf_write_all (the (alloc_buf 5)) [[1, 2], [], [3]] = (True, b1)
    \<and> buf_read_all b1 [2, 0, 1] = (Some [[1, 2], [], [3]], b2) \<and> buf_bytes b2 = []"
  using buf_write_read_fifo [of 5 "the (alloc_buf 5)" "[[1, 2], [], [3]]"]
  by (simp add: alloc_buf_def buf_size_valid_def BUF_SIZE_MAX_def)

end
