(* ===== verification/CircList.thy ===== *)
theory CircList
  imports Prelude "HOL-Library.Monad_Syntax"
begin

text \<open>
  The index arithmetic of \<open>integer.h\<close> and the fixed-capacity circular list of
  \<open>circ_list.h\<close>: \<open>x_head\<close> is the slot of the newest item and items are numbered from the
  newest to the oldest. The macros assert their index conditions; an assertion that fails is
  \<open>None\<close>. The locale \<open>window_store\<close> is the contract a client of the list relies on (a list
  of at most \<open>cap\<close> items, newest first); the macros are shown to implement it.
\<close>

definition max_int :: "int \<Rightarrow> int \<Rightarrow> int" where
  "max_int x y = (if x > y then x else y)"

definition min_int :: "int \<Rightarrow> int \<Rightarrow> int" where
  "min_int x y = (if x < y then x else y)"

definition constrain_int :: "int \<Rightarrow> int \<Rightarrow> int \<Rightarrow> int" where
  "constrain_int x lo hi =
     (if lo > hi then lo else if x < lo then lo else if x > hi then hi else x)"

definition modulo_subtract :: "int \<Rightarrow> int \<Rightarrow> int \<Rightarrow> int option" where
  "modulo_subtract x y m =
     (let d1 = x - y; d2 = (if x > y then - m else m) + d1
      in if 0 \<le> x \<and> x < m \<and> 0 \<le> y \<and> y < m
         then Some (if \<bar>d1\<bar> > \<bar>d2\<bar> then d2 else d1) else None)"

definition modulo_add :: "int \<Rightarrow> int \<Rightarrow> int \<Rightarrow> int option" where
  "modulo_add x y m =
     (let s0 = x + y in
      if 0 \<le> x \<and> x < m \<and> - m \<le> y \<and> y \<le> m
      then (let s1 = (if s0 \<ge> m then s0 - m else s0); s2 = (if s1 < 0 then s1 + m else s1)
            in Some s2)
      else None)"

definition index_verify :: "int \<Rightarrow> int \<Rightarrow> int option" where
  "index_verify index sz = (if index < 0 \<or> index \<ge> sz then None else Some index)"

lemma modulo_add_eq:
  assumes "0 \<le> x" "x < m" "- m \<le> y" "y \<le> m"
  shows "modulo_add x y m = Some ((x + y) mod m)"
proof -
  consider "x + y < 0" | "0 \<le> x + y" "x + y < m" | "m \<le> x + y" by linarith
  then show ?thesis
  proof cases
    case 1
    then have "(x + y) mod m = x + y + m"
      using assms mod_add_self2 [of "x + y" m] mod_pos_pos_trivial [of "x + y + m" m] by simp
    with 1 assms show ?thesis by (simp add: modulo_add_def Let_def)
  next
    case 2
    with assms show ?thesis by (simp add: modulo_add_def Let_def)
  next
    case 3
    then have "(x + y) mod m = x + y - m"
      using assms mod_add_self2 [of "x + y - m" m] mod_pos_pos_trivial [of "x + y - m" m] by simp
    with 3 assms show ?thesis by (simp add: modulo_add_def Let_def)
  qed
qed

lemma modulo_subtract_shortest:
  assumes "modulo_subtract x y m = Some d"
  shows "(x - d) mod m = y" and "2 * \<bar>d\<bar> \<le> m"
proof -
  have d: "d = x - y \<or> d = x - y + m \<or> d = x - y - m" and y: "0 \<le> y" "y < m"
    and b: "2 * \<bar>d\<bar> \<le> m"
    using assms by (auto simp: modulo_subtract_def Let_def split: if_splits)
  from d have "x - d = y \<or> x - d = y - m \<or> x - d = y + m" by auto
  then have "(x - d) mod m = y mod m" by auto
  with y show "(x - d) mod m = y" by simp
  from b show "2 * \<bar>d\<bar> \<le> m" .
qed

record 'a circ =
  x_head :: int
  x_size :: int
  x_cap :: int
  x_list :: "'a list"

definition circ_push :: "'a circ \<Rightarrow> 'a \<Rightarrow> 'a circ option" where
  "circ_push c item = do {
     h \<leftarrow> modulo_add (x_head c) (-1) (x_cap c);
     Some (c\<lparr>x_head := h, x_list := (x_list c)[nat h := item],
             x_size := min_int (x_size c + 1) (x_cap c)\<rparr>)
   }"

definition circ_index :: "'a circ \<Rightarrow> int \<Rightarrow> int option" where
  "circ_index c index = do {
     i \<leftarrow> index_verify index (x_size c);
     modulo_add (x_head c) i (x_cap c)
   }"

definition circ_item :: "'a circ \<Rightarrow> int \<Rightarrow> 'a option" where
  "circ_item c index = map_option (\<lambda>k. x_list c ! nat k) (circ_index c index)"

definition circ_set :: "'a circ \<Rightarrow> int \<Rightarrow> 'a \<Rightarrow> 'a circ option" where
  "circ_set c index v =
     map_option (\<lambda>k. c\<lparr>x_list := (x_list c)[nat k := v]\<rparr>) (circ_index c index)"

definition circ_reset :: "'a circ \<Rightarrow> 'a circ" where
  "circ_reset c = c\<lparr>x_head := 0, x_size := 0\<rparr>"

definition circ_alloc :: "'a \<Rightarrow> int \<Rightarrow> 'a circ" where
  "circ_alloc zero sz =
     \<lparr>x_head = 0, x_size = 0, x_cap = sz, x_list = replicate (nat sz) zero\<rparr>"

section \<open>The list a circular list stands for\<close>

definition circ_wf :: "'a circ \<Rightarrow> bool" where
  "circ_wf c \<longleftrightarrow> 0 \<le> x_head c \<and> x_head c < x_cap c \<and> 0 \<le> x_size c \<and> x_size c \<le> x_cap c
     \<and> int (length (x_list c)) = x_cap c"

definition circ_slot :: "'a circ \<Rightarrow> nat \<Rightarrow> nat" where
  "circ_slot c i = nat ((x_head c + int i) mod x_cap c)"

definition circ_abs :: "'a circ \<Rightarrow> 'a list" where
  "circ_abs c = map (\<lambda>i. x_list c ! circ_slot c i) [0..<nat (x_size c)]"

lemma length_circ_abs [simp]: "length (circ_abs c) = nat (x_size c)"
  by (simp add: circ_abs_def)

lemma circ_abs_nth: "i < nat (x_size c) \<Longrightarrow> circ_abs c ! i = x_list c ! circ_slot c i"
  by (simp add: circ_abs_def)

lemma circ_slot_bound: "circ_wf c \<Longrightarrow> circ_slot c i < length (x_list c)"
proof -
  assume wf: "circ_wf c"
  have "(x_head c + int i) mod x_cap c < x_cap c" "0 \<le> (x_head c + int i) mod x_cap c"
    using wf by (auto simp: circ_wf_def)
  with wf show ?thesis by (simp add: circ_slot_def circ_wf_def nat_less_iff)
qed

lemma circ_slot_inj:
  assumes "circ_wf c" "i < nat (x_cap c)" "j < nat (x_cap c)"
  shows "circ_slot c i = circ_slot c j \<longleftrightarrow> i = j"
proof
  assume "circ_slot c i = circ_slot c j"
  then have "(x_head c + int i) mod x_cap c = (x_head c + int j) mod x_cap c"
    using assms by (auto simp: circ_slot_def circ_wf_def eq_nat_nat_iff)
  then have "x_cap c dvd int i - int j"
    by (metis mod_eq_dvd_iff add_diff_cancel_left)
  moreover have "\<bar>int i - int j\<bar> < x_cap c" using assms by auto
  ultimately show "i = j"
    using dvd_imp_le_int [of "int i - int j" "x_cap c"] by auto
qed simp

lemma circ_index_ok:
  assumes "circ_wf c" "i < nat (x_size c)"
  shows "circ_index c (int i) = Some (int (circ_slot c i))"
proof -
  have "modulo_add (x_head c) (int i) (x_cap c) = Some ((x_head c + int i) mod x_cap c)"
    using assms by (intro modulo_add_eq) (auto simp: circ_wf_def)
  moreover have "0 \<le> (x_head c + int i) mod x_cap c" using assms by (auto simp: circ_wf_def)
  ultimately show ?thesis
    using assms by (auto simp: circ_index_def index_verify_def circ_slot_def)
qed

lemma circ_item_ok:
  "circ_wf c \<Longrightarrow> i < nat (x_size c) \<Longrightarrow> circ_item c (int i) = Some (circ_abs c ! i)"
  by (simp add: circ_item_def circ_index_ok circ_abs_nth)

lemma circ_set_ok:
  assumes "circ_wf c" "i < nat (x_size c)"
  obtains c' where "circ_set c (int i) v = Some c'" "circ_wf c'"
    "circ_abs c' = (circ_abs c)[i := v]" "x_cap c' = x_cap c"
proof -
  let ?c = "c\<lparr>x_list := (x_list c)[circ_slot c i := v]\<rparr>"
  have slot: "circ_slot ?c j = circ_slot c j" for j by (simp add: circ_slot_def)
  have cap: "nat (x_size c) \<le> nat (x_cap c)" using assms by (auto simp: circ_wf_def)
  have "circ_abs ?c ! j = (circ_abs c)[i := v] ! j" if "j < nat (x_size c)" for j
  proof (cases "j = i")
    case True
    then show ?thesis using assms circ_slot_bound [OF assms(1), of i]
      by (simp add: circ_abs_nth slot)
  next
    case False
    then have "circ_slot c i \<noteq> circ_slot c j"
      using circ_slot_inj [OF assms(1), of i j] that assms(2) cap by simp
    with False that show ?thesis by (simp add: circ_abs_nth slot)
  qed
  then have abs: "circ_abs ?c = (circ_abs c)[i := v]" by (intro nth_equalityI) simp_all
  have set: "circ_set c (int i) v = Some ?c"
    using assms by (simp add: circ_set_def circ_index_ok)
  have wf: "circ_wf ?c" using assms by (simp add: circ_wf_def)
  show thesis by (rule that [OF set wf abs]) simp
qed

lemma circ_push_ok:
  assumes "circ_wf c"
  obtains c' where "circ_push c v = Some c'" "circ_wf c'"
    "circ_abs c' = take (nat (x_cap c)) (v # circ_abs c)" "x_cap c' = x_cap c"
proof -
  let ?h = "(x_head c - 1) mod x_cap c"
  have wf: "0 \<le> x_head c" "x_head c < x_cap c" "0 \<le> x_size c" "x_size c \<le> x_cap c"
    "int (length (x_list c)) = x_cap c"
    using assms by (auto simp: circ_wf_def)
  let ?c = "c\<lparr>x_head := ?h, x_list := (x_list c)[nat ?h := v],
              x_size := min_int (x_size c + 1) (x_cap c)\<rparr>"
  have h: "0 \<le> ?h" "?h < x_cap c" using wf by simp_all
  have push: "circ_push c v = Some ?c"
    using wf modulo_add_eq [of "x_head c" "x_cap c" "-1"] by (simp add: circ_push_def)
  have wf': "circ_wf ?c" using wf h by (auto simp: circ_wf_def min_int_def)
  have slot0: "circ_slot ?c 0 = nat ?h" by (simp add: circ_slot_def)
  have slotS: "circ_slot ?c (Suc j) = circ_slot c j" for j
    by (simp add: circ_slot_def mod_add_left_eq)
  have nth: "circ_abs ?c ! j = take (nat (x_cap c)) (v # circ_abs c) ! j"
    if "j < length (circ_abs ?c)" for j
  proof (cases j)
    case 0
    then show ?thesis using that wf h by (simp add: circ_abs_nth slot0 nat_less_iff)
  next
    case (Suc k)
    have k: "k < nat (x_size c)" "Suc k < nat (x_cap c)"
      using that Suc wf by (auto simp: min_int_def split: if_splits)
    have "circ_slot ?c (Suc k) \<noteq> circ_slot ?c 0"
      using circ_slot_inj [OF wf', of "Suc k" 0] k wf by simp
    then have "nat ?h \<noteq> circ_slot c k" by (simp add: slot0 slotS)
    with that Suc k show ?thesis by (simp add: circ_abs_nth slotS)
  qed
  have abs: "circ_abs ?c = take (nat (x_cap c)) (v # circ_abs c)"
    using wf by (intro nth_equalityI nth) (auto simp: min_int_def)
  show thesis by (rule that [OF push wf' abs]) simp
qed

lemma circ_reset_ok: "circ_wf c \<Longrightarrow> circ_wf (circ_reset c) \<and> circ_abs (circ_reset c) = []"
  by (auto simp: circ_wf_def circ_reset_def circ_abs_def)

lemma circ_alloc_ok: "0 < n \<Longrightarrow> circ_wf (circ_alloc z n) \<and> circ_abs (circ_alloc z n) = []"
  by (auto simp: circ_wf_def circ_alloc_def circ_abs_def)

section \<open>The contract of a bounded window\<close>

locale window_store =
  fixes inv :: "'c \<Rightarrow> bool"
    and abs :: "'c \<Rightarrow> 'a list"
    and cap :: "'c \<Rightarrow> nat"
    and push :: "'c \<Rightarrow> 'a \<Rightarrow> 'c option"
    and item :: "'c \<Rightarrow> int \<Rightarrow> 'a option"
    and put :: "'c \<Rightarrow> int \<Rightarrow> 'a \<Rightarrow> 'c option"
  assumes push_law: "inv c \<Longrightarrow> \<exists>c'. push c v = Some c' \<and> inv c'
      \<and> abs c' = take (cap c) (v # abs c) \<and> cap c' = cap c"
    and item_law: "inv c \<Longrightarrow> i < length (abs c) \<Longrightarrow> item c (int i) = Some (abs c ! i)"
    and put_law: "inv c \<Longrightarrow> i < length (abs c) \<Longrightarrow>
      \<exists>c'. put c (int i) v = Some c' \<and> inv c' \<and> abs c' = (abs c)[i := v] \<and> cap c' = cap c"
begin

lemma push_many:
  "inv c \<Longrightarrow> length (abs c) \<le> cap c \<Longrightarrow>
   \<exists>c'. iterate_opt n (\<lambda>c. push c v) c = Some c' \<and> inv c'
     \<and> abs c' = take (cap c) (replicate n v @ abs c) \<and> cap c' = cap c"
proof (induction n arbitrary: c)
  case 0
  then show ?case by simp
next
  case (Suc n)
  obtain c1 where c1: "push c v = Some c1" "inv c1" "abs c1 = take (cap c) (v # abs c)"
    "cap c1 = cap c" using push_law [OF Suc.prems(1), of v] by blast
  then obtain c2 where c2: "iterate_opt n (\<lambda>c. push c v) c1 = Some c2" "inv c2"
    "abs c2 = take (cap c) (replicate n v @ abs c1)" "cap c2 = cap c"
    using Suc.IH [of c1] by auto
  have "take (cap c) (replicate n v @ take (cap c) (v # abs c))
      = take (cap c) (replicate n v @ v # abs c)"
    by (simp add: min_def)
  also have "replicate n v @ v # abs c = replicate (Suc n) v @ abs c"
    by (simp add: replicate_app_Cons_same)
  finally show ?case using c1 c2 by simp
qed

lemma put_item:
  assumes "inv c" "i < length (abs c)" "put c (int i) v = Some c'" "j < length (abs c)"
  shows "item c' (int j) = (if j = i then Some v else item c (int j))"
  using put_law [OF assms(1,2), of v] assms item_law by auto

end

interpretation circ_store: window_store circ_wf circ_abs "\<lambda>c. nat (x_cap c)"
  circ_push circ_item circ_set
proof
  fix c :: "'a circ" and i v assume wf: "circ_wf c"
  show "\<exists>c'. circ_push c v = Some c' \<and> circ_wf c'
      \<and> circ_abs c' = take (nat (x_cap c)) (v # circ_abs c) \<and> nat (x_cap c') = nat (x_cap c)"
    using circ_push_ok [OF wf, of v] by metis
  assume "i < length (circ_abs c)"
  then have i: "i < nat (x_size c)" by simp
  show "circ_item c (int i) = Some (circ_abs c ! i)"
    by (rule circ_item_ok [OF wf i])
  show "\<exists>c'. circ_set c (int i) v = Some c' \<and> circ_wf c' \<and> circ_abs c' = (circ_abs c)[i := v]
      \<and> nat (x_cap c') = nat (x_cap c)"
    using circ_set_ok [OF wf i, of v] by metis
qed

lemma circ_set_size: "circ_set c i v = Some c' \<Longrightarrow> x_size c' = x_size c \<and> x_cap c' = x_cap c"
  by (auto simp: circ_set_def)

lemma circ_abs_le_cap: "circ_wf c \<Longrightarrow> length (circ_abs c) \<le> nat (x_cap c)"
  by (auto simp: circ_wf_def)

end
