(* ===== verification/PacketId.thy ===== *)
theory PacketId
  imports Buffer CircList
begin

text \<open>
  Replay protection, \<open>packet_id.c\<close> and \<open>packet_id.h\<close>: the receiver's sliding window
  (\<open>packet_id_init\<close>, \<open>packet_id_add\<close>, \<open>packet_id_reap\<close>, \<open>packet_id_test\<close>), the sender's
  counter (\<open>packet_id_send_update\<close>), the wire format, and the persistence of the receiver's
  position in a file. The global \<open>now\<close> is an argument. The answers of the operating system
  (open, lock, read, seek, write) are arguments of the persistence operations.
\<close>

section \<open>Data\<close>

record packet_id_rec =
  r_last_reap :: time_t
  r_time :: time_t
  r_id :: u32
  r_seq_backtrack :: int
  r_time_backtrack :: int
  r_max_backtrack_stat :: int
  r_initialized :: bool
  r_seq_list :: "time_t circ option"
  r_name :: string
  r_unit :: int

record packet_id_send =
  s_id :: u32
  s_time :: time_t

record packet_id_net =
  n_id :: u32
  n_time :: time_t

record packet_id =
  pid_send :: packet_id_send
  pid_rec :: packet_id_rec

record packet_id_persist =
  pp_filename :: "string option"
  pp_fd :: int
  pp_time :: time_t
  pp_id :: u32
  pp_time_last_written :: time_t
  pp_id_last_written :: u32

definition SEQ_UNSEEN :: time_t where "SEQ_UNSEEN = 0"
definition SEQ_EXPIRED :: time_t where "SEQ_EXPIRED = 1"
definition PACKET_ID_MAX :: u32 where "PACKET_ID_MAX = 0xFFFFFFFF"
definition PACKET_ID_WRAP_TRIGGER :: u32 where "PACKET_ID_WRAP_TRIGGER = 0xFF000000"
definition MIN_SEQ_BACKTRACK :: int where "MIN_SEQ_BACKTRACK = 0"
definition MAX_SEQ_BACKTRACK :: int where "MAX_SEQ_BACKTRACK = 65536"
definition MIN_TIME_BACKTRACK :: int where "MIN_TIME_BACKTRACK = 0"
definition MAX_TIME_BACKTRACK :: int where "MAX_TIME_BACKTRACK = 600"
definition SEQ_REAP_INTERVAL :: int where "SEQ_REAP_INTERVAL = 5"

section \<open>The receiver's window\<close>

definition packet_id_clear :: packet_id where
  "packet_id_clear =
     \<lparr>pid_send = \<lparr>s_id = 0, s_time = 0\<rparr>,
      pid_rec = \<lparr>r_last_reap = 0, r_time = 0, r_id = 0, r_seq_backtrack = 0,
                 r_time_backtrack = 0, r_max_backtrack_stat = 0, r_initialized = False,
                 r_seq_list = None, r_name = [], r_unit = 0\<rparr>\<rparr>"

definition packet_id_init :: "int \<Rightarrow> int \<Rightarrow> string \<Rightarrow> int \<Rightarrow> packet_id option" where
  "packet_id_init seq_backtrack time_backtrack name unit =
     (let p = packet_id_clear; r = (pid_rec p)\<lparr>r_name := name, r_unit := unit\<rparr> in
      if seq_backtrack \<noteq> 0
      then if \<not> (MIN_SEQ_BACKTRACK \<le> seq_backtrack \<and> seq_backtrack \<le> MAX_SEQ_BACKTRACK) then None
           else if \<not> (MIN_TIME_BACKTRACK \<le> time_backtrack \<and> time_backtrack \<le> MAX_TIME_BACKTRACK)
           then None
           else Some (p\<lparr>pid_rec := r\<lparr>r_seq_list := Some (circ_alloc 0 seq_backtrack),
                                     r_seq_backtrack := seq_backtrack,
                                     r_time_backtrack := time_backtrack,
                                     r_initialized := True\<rparr>\<rparr>)
      else Some (p\<lparr>pid_rec := r\<lparr>r_initialized := True\<rparr>\<rparr>))"

definition packet_id_free :: "packet_id option \<Rightarrow> packet_id option" where
  "packet_id_free p = (case p of None \<Rightarrow> None | Some _ \<Rightarrow> Some packet_id_clear)"

text \<open>The loop of \<open>packet_id_add\<close> that shifts the window up to the new sequence number.\<close>

function packet_id_fill :: "u32 \<Rightarrow> u32 \<Rightarrow> time_t circ \<Rightarrow> (u32 \<times> time_t circ) option" where
  "packet_id_fill pid target sl =
     (if pid < target
      then Option.bind (circ_push sl SEQ_UNSEEN) (packet_id_fill (pid + 1) target)
      else Some (pid, sl))"
  by pat_completeness auto
termination
proof (relation "measure (\<lambda>(pid, target, sl). unat target - unat pid)")
  fix pid target :: u32 and sl x :: "time_t circ"
  assume "pid < target"
  then show "((pid + 1, target, x), pid, target, sl) \<in> measure (\<lambda>(pid, target, sl). unat target - unat pid)"
    by simp unat_arith
qed simp

declare packet_id_fill.simps [simp del]

definition packet_id_add :: "time_t \<Rightarrow> packet_id_rec \<Rightarrow> packet_id_net \<Rightarrow> packet_id_rec option" where
  "packet_id_add now p pin =
     (let local_now = now in
      case r_seq_list p of
        Some sl0 \<Rightarrow>
          (let bt = word_of_int (r_seq_backtrack p) :: u32;
               restart = x_size sl0 = 0 \<or> n_time pin > r_time p
                         \<or> (n_id pin \<ge> bt \<and> n_id pin - bt > r_id p);
               time1 = (if restart then n_time pin else r_time p);
               id1 = (if restart then (if n_id pin > bt then n_id pin - bt else 0) else r_id p);
               sl1 = (if restart then circ_reset sl0 else sl0)
           in do {
             (id2, sl2) \<leftarrow> packet_id_fill id1 (n_id pin) sl1;
             let diff = id2 - n_id pin;
             sl3 \<leftarrow> (if diff < word_of_int (x_size sl2) \<and> local_now > SEQ_EXPIRED
                    then circ_set sl2 (uint diff) local_now else Some sl2);
             Some (p\<lparr>r_time := time1, r_id := id2, r_seq_list := Some sl3\<rparr>)
           })
      | None \<Rightarrow> Some (p\<lparr>r_time := n_time pin, r_id := n_id pin\<rparr>))"

text \<open>The loop of \<open>packet_id_reap\<close>.\<close>

function packet_id_reap_loop ::
    "time_t \<Rightarrow> int \<Rightarrow> int \<Rightarrow> bool \<Rightarrow> time_t circ \<Rightarrow> time_t circ option" where
  "packet_id_reap_loop local_now tb i expire sl =
     (if i < x_size sl
      then case circ_item sl i of
             None \<Rightarrow> None
           | Some t \<Rightarrow>
               if t = SEQ_EXPIRED then Some sl
               else (let expire' = (if \<not> expire \<and> t \<noteq> 0 \<and> t + tb < local_now then True else expire)
                     in case (if expire' then circ_set sl i SEQ_EXPIRED else Some sl) of
                          None \<Rightarrow> None
                        | Some sl' \<Rightarrow> packet_id_reap_loop local_now tb (i + 1) expire' sl')
      else Some sl)"
  by pat_completeness auto
termination
proof (relation "measure (\<lambda>(_, _, i, _, sl). nat (x_size sl - i))")
  fix local_now tb i :: int and expire e' :: bool and sl sl' :: "time_t circ" and t
  assume "i < x_size sl" and "(if e' then circ_set sl i SEQ_EXPIRED else Some sl) = Some sl'"
  moreover from this(2) have "x_size sl' = x_size sl"
    by (auto dest: circ_set_size split: if_splits)
  ultimately show "((local_now, tb, i + 1, e', sl'), local_now, tb, i, expire, sl)
      \<in> measure (\<lambda>(_, _, i, _, sl). nat (x_size sl - i))"
    by simp
qed simp

declare packet_id_reap_loop.simps [simp del]

definition packet_id_reap :: "time_t \<Rightarrow> packet_id_rec \<Rightarrow> packet_id_rec option" where
  "packet_id_reap now p =
     (let local_now = now in
      if r_time_backtrack p \<noteq> 0
      then (case r_seq_list p of
              None \<Rightarrow> None
            | Some sl \<Rightarrow> do {
                sl' \<leftarrow> packet_id_reap_loop local_now (r_time_backtrack p) 0 False sl;
                Some (p\<lparr>r_seq_list := Some sl', r_last_reap := local_now\<rparr>)
              })
      else Some (p\<lparr>r_last_reap := local_now\<rparr>))"

definition packet_id_reap_test :: "time_t \<Rightarrow> packet_id_rec \<Rightarrow> packet_id_rec option" where
  "packet_id_reap_test now p =
     (if r_last_reap p + SEQ_REAP_INTERVAL \<le> now then packet_id_reap now p else Some p)"

definition packet_id_test ::
    "packet_id_rec \<Rightarrow> packet_id_net \<Rightarrow> (bool \<times> packet_id_rec) option" where
  "packet_id_test p pin =
     (if \<not> r_initialized p then None
      else if n_id pin = 0 then Some (False, p)
      else if r_seq_backtrack p \<noteq> 0 then
        (if n_time pin = r_time p then
           (if n_id pin > r_id p then Some (True, p)
            else (case r_seq_list p of
                    None \<Rightarrow> None
                  | Some sl \<Rightarrow>
                      (let diff = r_id p - n_id pin;
                           p' = (if sint diff > r_max_backtrack_stat p
                                 then p\<lparr>r_max_backtrack_stat := sint diff\<rparr> else p)
                       in if diff \<ge> word_of_int (x_size sl) then Some (False, p')
                          else do {
                            v \<leftarrow> circ_item sl (uint diff);
                            Some (v = 0, p')
                          })))
         else if n_time pin < r_time p then Some (False, p)
         else Some (True, p))
      else
        (if n_time pin = r_time p then Some (r_id p = 0 \<or> n_id pin = r_id p + 1, p)
         else if n_time pin < r_time p then Some (False, p)
         else Some (n_id pin = 1, p)))"

section \<open>Wire format and the sender's counter\<close>

definition packet_id_read :: "buffer \<Rightarrow> bool \<Rightarrow> bool \<times> packet_id_net \<times> buffer" where
  "packet_id_read b long_form =
     (let pin = \<lparr>n_id = 0, n_time = 0\<rparr> in
      case buf_read b 4 of
        (None, b1) \<Rightarrow> (False, pin, b1)
      | (Some net_id, b1) \<Rightarrow>
          (let pin = pin\<lparr>n_id := u32_of_bytes net_id\<rparr> in
           if long_form
           then (case buf_read b1 4 of
                   (None, b2) \<Rightarrow> (False, pin, b2)
                 | (Some net_time, b2) \<Rightarrow>
                     (True, pin\<lparr>n_time := uint (u32_of_bytes net_time)\<rparr>, b2))
           else (True, pin, b1)))"

definition packet_id_send_update ::
    "time_t \<Rightarrow> packet_id_send \<Rightarrow> bool \<Rightarrow> bool \<times> packet_id_send" where
  "packet_id_send_update now p0 long_form =
     (let p = (if s_time p0 = 0 then p0\<lparr>s_time := now\<rparr> else p0) in
      if s_id p = PACKET_ID_MAX
      then (if \<not> long_form \<or> now \<le> s_time p then (False, p)
            else (let p = p\<lparr>s_time := now, s_id := 0\<rparr> in (True, p\<lparr>s_id := s_id p + 1\<rparr>)))
      else (True, p\<lparr>s_id := s_id p + 1\<rparr>))"

definition packet_id_write ::
    "time_t \<Rightarrow> packet_id_send \<Rightarrow> buffer \<Rightarrow> bool \<Rightarrow> bool \<Rightarrow> bool \<times> packet_id_send \<times> buffer" where
  "packet_id_write now p0 b long_form prepend =
     (case packet_id_send_update now p0 long_form of
        (False, p) \<Rightarrow> (False, p, b)
      | (True, p) \<Rightarrow>
          (let net_id = u32_bytes (s_id p); net_time = u32_bytes (word_of_int (s_time p)) in
           if prepend
           then (case (if long_form then buf_write_prepend b net_time else (True, b)) of
                   (False, b1) \<Rightarrow> (False, p, b1)
                 | (True, b1) \<Rightarrow>
                     (case buf_write_prepend b1 net_id of (ok, b2) \<Rightarrow> (ok, p, b2)))
           else (case buf_write b net_id of
                   (False, b1) \<Rightarrow> (False, p, b1)
                 | (True, b1) \<Rightarrow>
                     if long_form
                     then (case buf_write b1 net_time of (ok, b2) \<Rightarrow> (ok, p, b2))
                     else (True, p, b1))))"

definition packet_id_size :: "bool \<Rightarrow> int" where
  "packet_id_size long_form = 4 + (if long_form then 4 else 0)"

definition packet_id_close_to_wrapping :: "packet_id_send \<Rightarrow> bool" where
  "packet_id_close_to_wrapping p = (s_id p \<ge> PACKET_ID_WRAP_TRIGGER)"

definition reset_packet_id_send :: "packet_id_send \<Rightarrow> packet_id_send" where
  "reset_packet_id_send p = p\<lparr>s_time := 0, s_id := 0\<rparr>"

definition check_timestamp_delta :: "time_t \<Rightarrow> time_t \<Rightarrow> u32 \<Rightarrow> bool" where
  "check_timestamp_delta now remote max_delta =
     (let abs = (if now \<ge> remote then word_of_int (now - remote)
                 else word_of_int (remote - now)) :: u32
      in abs \<le> max_delta)"

section \<open>Persistence of the receiver's position\<close>

definition packet_id_persist_enabled :: "packet_id_persist \<Rightarrow> bool" where
  "packet_id_persist_enabled p = (pp_fd p \<ge> 0)"

definition packet_id_persist_init :: "packet_id_persist \<Rightarrow> packet_id_persist" where
  "packet_id_persist_init p =
     p\<lparr>pp_filename := None, pp_fd := -1, pp_time := 0, pp_time_last_written := 0,
       pp_id := 0, pp_id_last_written := 0\<rparr>"

text \<open>A failed \<open>close\<close> is only logged.\<close>

definition packet_id_persist_close :: "packet_id_persist \<Rightarrow> packet_id_persist" where
  "packet_id_persist_close p =
     (if packet_id_persist_enabled p then packet_id_persist_init p else p)"

text \<open>
  \<open>fd\<close> is what \<open>platform_open\<close> returns, \<open>locked\<close> whether \<open>flock\<close> succeeded (a failure is an
  \<open>M_ERR\<close> message, which ends the process), \<open>img\<close> the time and number of a complete read.
\<close>

definition packet_id_persist_load ::
    "int \<Rightarrow> bool \<Rightarrow> (time_t \<times> u32) option \<Rightarrow> packet_id_persist \<Rightarrow> string
     \<Rightarrow> packet_id_persist option" where
  "packet_id_persist_load fd locked img p filename =
     (if \<not> packet_id_persist_enabled p
      then (let p = p\<lparr>pp_fd := fd\<rparr> in
            if fd = -1 then Some p
            else if \<not> locked then None
            else (let p = p\<lparr>pp_filename := Some filename\<rparr> in
                  case img of
                    Some (t, i) \<Rightarrow> Some (p\<lparr>pp_time := t, pp_time_last_written := t,
                                              pp_id := i, pp_id_last_written := i\<rparr>)
                  | None \<Rightarrow> Some p))
      else Some p)"

text \<open>
  \<open>seek_ret\<close> is the position \<open>lseek\<close> returns, \<open>write_ok\<close> whether the whole image was written;
  the second component is the image handed to \<open>write\<close>, if any.
\<close>

definition packet_id_persist_save ::
    "int \<Rightarrow> bool \<Rightarrow> packet_id_persist \<Rightarrow> packet_id_persist \<times> (time_t \<times> u32) option" where
  "packet_id_persist_save seek_ret write_ok p =
     (if packet_id_persist_enabled p \<and> pp_time p \<noteq> 0
         \<and> (pp_time p \<noteq> pp_time_last_written p \<or> pp_id p \<noteq> pp_id_last_written p)
      then (let img = (pp_time p, pp_id p) in
            if seek_ret = 0
            then (if write_ok
                  then (p\<lparr>pp_time_last_written := pp_time p, pp_id_last_written := pp_id p\<rparr>,
                        Some img)
                  else (p, Some img))
            else (p, None))
      else (p, None))"

definition packet_id_persist_load_obj ::
    "packet_id_persist option \<Rightarrow> packet_id \<Rightarrow> packet_id" where
  "packet_id_persist_load_obj p pid =
     (case p of
        None \<Rightarrow> pid
      | Some p \<Rightarrow> if packet_id_persist_enabled p \<and> pp_time p \<noteq> 0
                  then pid\<lparr>pid_rec := (pid_rec pid)\<lparr>r_time := pp_time p, r_id := pp_id p\<rparr>\<rparr>
                  else pid)"

definition packet_id_persist_save_obj ::
    "packet_id_persist \<Rightarrow> packet_id \<Rightarrow> packet_id_persist" where
  "packet_id_persist_save_obj p pid =
     (if packet_id_persist_enabled p \<and> r_time (pid_rec pid) \<noteq> 0
      then p\<lparr>pp_time := r_time (pid_rec pid), pp_id := r_id (pid_rec pid)\<rparr> else p)"

section \<open>The check of an incoming packet\<close>

text \<open>
  \<open>crypto_check_replay\<close> of \<open>crypto.c\<close> on the fields of \<open>crypto_options\<close> it touches:
  \<open>packet_id\<close>, \<open>pid_persist\<close> and the flag \<open>CO_PACKET_ID_LONG_FORM\<close>.
\<close>

definition crypto_check_replay ::
    "time_t \<Rightarrow> bool \<Rightarrow> packet_id \<times> packet_id_persist option \<Rightarrow> packet_id_net
     \<Rightarrow> (bool \<times> packet_id \<times> packet_id_persist option) option" where
  "crypto_check_replay now long_form st pin =
     (case st of (p, persist) \<Rightarrow> do {
        r1 \<leftarrow> packet_id_reap_test now (pid_rec p);
        (ok, r2) \<leftarrow> packet_id_test r1 pin;
        if ok
        then do {
          r3 \<leftarrow> packet_id_add now r2 pin;
          let p' = p\<lparr>pid_rec := r3\<rparr>;
          Some (True, p', if long_form then map_option (\<lambda>pp. packet_id_persist_save_obj pp p') persist
                          else persist)
        }
        else Some (False, p\<lparr>pid_rec := r2\<rparr>, persist)
      })"

end
