(* ===== verification/ReplayWindow.thy ===== *)
theory ReplayWindow
  imports PacketId
begin

text \<open>
  What the receiver of \<open>packet_id.c\<close> promises. A window is a time stamp, the highest
  sequence number of that time stamp and the list of the last \<open>w_cap\<close> numbers, newest first,
  each with the time it was received (0: not yet, 1: expired). The C operations on words and
  a circular list refine \<open>win_test\<close>, \<open>win_add\<close> and \<open>win_reap\<close>; the replay theorem is proved
  on the window and carried back. \<open>crypto_check_replay\<close> of \<open>crypto.c\<close> composes them.
\<close>

section \<open>The abstract window\<close>

record win =
  w_time :: time_t
  w_id :: nat
  w_list :: "time_t list"
  w_cap :: nat

definition win_test :: "win \<Rightarrow> time_t \<Rightarrow> nat \<Rightarrow> bool" where
  "win_test w t i \<longleftrightarrow> i \<noteq> 0 \<and>
     (if t = w_time w
      then i > w_id w \<or> (w_id w - i < length (w_list w) \<and> w_list w ! (w_id w - i) = 0)
      else t > w_time w)"

definition win_restart :: "win \<Rightarrow> time_t \<Rightarrow> nat \<Rightarrow> win" where
  "win_restart w t i =
     (if w_list w = [] \<or> t > w_time w \<or> i > w_cap w + w_id w
      then w\<lparr>w_time := t, w_id := i - w_cap w, w_list := []\<rparr> else w)"

definition win_shift :: "win \<Rightarrow> nat \<Rightarrow> win" where
  "win_shift w i = w\<lparr>w_id := max (w_id w) i,
                     w_list := take (w_cap w) (replicate (i - w_id w) 0 @ w_list w)\<rparr>"

definition win_add :: "time_t \<Rightarrow> win \<Rightarrow> time_t \<Rightarrow> nat \<Rightarrow> win" where
  "win_add now w t i =
     (let w2 = win_shift (win_restart w t i) i; d = w_id w2 - i
      in if d < length (w_list w2) \<and> now > SEQ_EXPIRED
         then w2\<lparr>w_list := (w_list w2)[d := now]\<rparr> else w2)"

fun reap_list :: "time_t \<Rightarrow> int \<Rightarrow> bool \<Rightarrow> time_t list \<Rightarrow> time_t list" where
  "reap_list now tb expire [] = []"
| "reap_list now tb expire (t # ts) =
     (if t = SEQ_EXPIRED then t # ts
      else (let e = expire \<or> (t \<noteq> 0 \<and> t + tb < now)
            in (if e then SEQ_EXPIRED else t) # reap_list now tb e ts))"

definition win_reap :: "time_t \<Rightarrow> int \<Rightarrow> win \<Rightarrow> win" where
  "win_reap now tb w = (if tb = 0 then w else w\<lparr>w_list := reap_list now tb False (w_list w)\<rparr>)"

section \<open>Refinement\<close>

definition rec_wf :: "packet_id_rec \<Rightarrow> bool" where
  "rec_wf p \<longleftrightarrow> r_initialized p \<and> 0 < r_seq_backtrack p \<and> r_seq_backtrack p \<le> MAX_SEQ_BACKTRACK
     \<and> (case r_seq_list p of None \<Rightarrow> False
        | Some sl \<Rightarrow> circ_wf sl \<and> x_cap sl = r_seq_backtrack p)"

definition win_of :: "packet_id_rec \<Rightarrow> win" where
  "win_of p = \<lparr>w_time = r_time p, w_id = unat (r_id p),
               w_list = (case r_seq_list p of None \<Rightarrow> [] | Some sl \<Rightarrow> circ_abs sl),
               w_cap = nat (r_seq_backtrack p)\<rparr>"

lemma win_of_fields [simp]:
  "w_time (win_of p) = r_time p" "w_id (win_of p) = unat (r_id p)"
  "w_cap (win_of p) = nat (r_seq_backtrack p)"
  by (simp_all add: win_of_def)

lemma w_cap_win_add [simp]: "w_cap (win_add now w t i) = w_cap w"
  by (simp add: win_add_def win_shift_def win_restart_def Let_def)

lemma rec_wfE:
  assumes "rec_wf p"
  obtains sl where "r_seq_list p = Some sl" "circ_wf sl" "x_cap sl = r_seq_backtrack p"
    "r_initialized p" "0 < r_seq_backtrack p" "r_seq_backtrack p \<le> 65536"
    "0 \<le> x_size sl" "x_size sl \<le> r_seq_backtrack p"
  using assms by (auto simp: rec_wf_def MAX_SEQ_BACKTRACK_def circ_wf_def split: option.splits)

lemma packet_id_fill_iterate:
  "packet_id_fill pid target sl =
     map_option (Pair (max pid target))
       (iterate_opt (unat target - unat pid) (\<lambda>c. circ_push c SEQ_UNSEEN) sl)"
proof (induction pid target sl rule: packet_id_fill.induct)
  case (1 pid target sl)
  show ?case
  proof (cases "pid < target")
    case True
    then have n: "unat target - unat pid = Suc (unat target - unat (pid + 1))"
      and m: "max (pid + 1) target = target" "max pid target = target"
      by (unat_arith, unfold max_def word_le_nat_alt word_less_nat_alt) (unat_arith, simp)
    show ?thesis
      using 1 [OF True] True
      by (subst packet_id_fill.simps) (cases "circ_push sl SEQ_UNSEEN", simp_all add: n m)
  next
    case False
    then have "unat target - unat pid = 0" "max pid target = pid"
      by (simp_all add: not_less word_le_nat_alt max_absorb1)
    with False show ?thesis by (subst packet_id_fill.simps) simp
  qed
qed

lemma packet_id_fill_ok:
  assumes "circ_wf sl"
  obtains sl' where "packet_id_fill pid target sl = Some (max pid target, sl')" "circ_wf sl'"
    "circ_abs sl' = take (nat (x_cap sl)) (replicate (unat target - unat pid) 0 @ circ_abs sl)"
    "x_cap sl' = x_cap sl"
proof -
  obtain sl' where it: "iterate_opt (unat target - unat pid) (\<lambda>c. circ_push c SEQ_UNSEEN) sl = Some sl'"
    and wf: "circ_wf sl'" and cap: "nat (x_cap sl') = nat (x_cap sl)"
    and abs: "circ_abs sl' = take (nat (x_cap sl)) (replicate (unat target - unat pid) SEQ_UNSEEN @ circ_abs sl)"
    using circ_store.push_many [OF assms circ_abs_le_cap [OF assms]] by metis
  from it have fill: "packet_id_fill pid target sl = Some (max pid target, sl')"
    by (simp add: packet_id_fill_iterate)
  show thesis
    using cap wf assms by (intro that [OF fill wf abs [unfolded SEQ_UNSEEN_def]]) (auto simp: circ_wf_def)
qed

lemma restart_condition:
  fixes i pid :: u32
  assumes "0 < B" "B \<le> 65536"
  shows "(i \<ge> word_of_int B \<and> i - word_of_int B > pid) \<longleftrightarrow> unat i > nat B + unat pid"
    and "unat (if i > word_of_int B then i - word_of_int B else 0) = unat i - nat B"
proof -
  have b: "unat (word_of_int B :: u32) = nat B" using assms by (intro unat_of_int_small) auto
  show "(i \<ge> word_of_int B \<and> i - word_of_int B > pid) \<longleftrightarrow> unat i > nat B + unat pid"
    by (auto simp: word_le_nat_alt word_less_nat_alt b unat_sub)
  show "unat (if i > word_of_int B then i - word_of_int B else 0) = unat i - nat B"
    by (auto simp: word_le_nat_alt word_less_nat_alt b unat_sub)
qed

lemma unat_max: "unat (max a b) = max (unat a) (unat b)"
  by (auto simp: max_def word_le_nat_alt)

theorem packet_id_add_refines:
  assumes "rec_wf p"
  shows "\<exists>p'. packet_id_add now p pin = Some p' \<and> rec_wf p'
      \<and> win_of p' = win_add now (win_of p) (n_time pin) (unat (n_id pin))
      \<and> r_last_reap p' = r_last_reap p \<and> r_time_backtrack p' = r_time_backtrack p"
proof -
  obtain sl where sl: "r_seq_list p = Some sl" "circ_wf sl" "x_cap sl = r_seq_backtrack p"
    and B: "0 < r_seq_backtrack p" "r_seq_backtrack p \<le> 65536" and size: "0 \<le> x_size sl"
    using assms by (rule rec_wfE)
  let ?B = "r_seq_backtrack p"
  let ?bt = "word_of_int ?B :: u32"
  let ?i = "n_id pin"
  let ?restart = "x_size sl = 0 \<or> n_time pin > r_time p \<or> (?i \<ge> ?bt \<and> ?i - ?bt > r_id p)"
  let ?time1 = "if ?restart then n_time pin else r_time p"
  let ?id1 = "if ?restart then (if ?i > ?bt then ?i - ?bt else 0) else r_id p"
  let ?sl1 = "if ?restart then circ_reset sl else sl"
  let ?w1 = "win_restart (win_of p) (n_time pin) (unat ?i)"
  have sl1: "circ_wf ?sl1" "x_cap ?sl1 = ?B"
    using sl circ_reset_ok [OF sl(2)] by (auto simp: circ_reset_def)
  have "circ_abs sl = [] \<longleftrightarrow> x_size sl = 0"
    using size by (metis length_0_conv length_circ_abs nat_0_iff order_antisym_conv)
  then have w1: "?w1 = \<lparr>w_time = ?time1, w_id = unat ?id1, w_list = circ_abs ?sl1, w_cap = nat ?B\<rparr>"
    using sl circ_reset_ok [OF sl(2)] restart_condition [OF B]
    by (auto simp: win_restart_def win_of_def simp del: if_split split: if_split)
  obtain sl2 where sl2: "packet_id_fill ?id1 ?i ?sl1 = Some (max ?id1 ?i, sl2)" "circ_wf sl2"
    "circ_abs sl2 = take (nat ?B) (replicate (unat ?i - unat ?id1) 0 @ circ_abs ?sl1)"
    "x_cap sl2 = ?B"
    using packet_id_fill_ok [OF sl1(1), of ?id1 ?i] sl1(2) by metis
  let ?id2 = "max ?id1 ?i"
  let ?w2 = "win_shift ?w1 (unat ?i)"
  have w2: "?w2 = \<lparr>w_time = ?time1, w_id = unat ?id2, w_list = circ_abs sl2, w_cap = nat ?B\<rparr>"
    unfolding w1 by (simp add: win_shift_def unat_max sl2(3))
  let ?d = "?id2 - ?i"
  have d: "unat ?d = unat ?id2 - unat ?i" by (simp add: unat_sub)
  have sz: "?d < word_of_int (x_size sl2) \<longleftrightarrow> unat ?d < nat (x_size sl2)"
    using sl2(2,4) B by (subst word_less_nat_alt, subst unat_of_int_small) (auto simp: circ_wf_def)
  let ?put = "?d < word_of_int (x_size sl2) \<and> now > SEQ_EXPIRED"
  obtain sl3 where sl3: "(if ?put then circ_set sl2 (uint ?d) now else Some sl2) = Some sl3"
    "circ_wf sl3" "x_cap sl3 = ?B"
    "circ_abs sl3 = (if ?put then (circ_abs sl2)[unat ?d := now] else circ_abs sl2)"
  proof (cases ?put)
    case True
    then show thesis
      using circ_set_ok [OF sl2(2), of "unat ?d" now] sz sl2(4) that by (auto simp del: if_split)
  next
    case False
    then show thesis using sl2 that by auto
  qed
  let ?p' = "p\<lparr>r_time := ?time1, r_id := ?id2, r_seq_list := Some sl3\<rparr>"
  have eq: "packet_id_add now p pin = Some ?p'"
    using sl2(1) sl3(1) by (simp add: packet_id_add_def sl(1) Let_def)
  have "win_of ?p' = win_add now (win_of p) (n_time pin) (unat ?i)"
    unfolding win_add_def Let_def w2
    by (simp add: win_of_def sl3(4) sz d)
  moreover have "rec_wf ?p'"
    using assms sl3 by (simp add: rec_wf_def)
  ultimately show ?thesis using eq by auto
qed

lemma packet_id_test_refines:
  assumes "rec_wf p"
  shows "\<exists>p'. packet_id_test p pin = Some (win_test (win_of p) (n_time pin) (unat (n_id pin)), p')
      \<and> rec_wf p' \<and> win_of p' = win_of p
      \<and> r_last_reap p' = r_last_reap p \<and> r_time_backtrack p' = r_time_backtrack p"
proof -
  obtain sl where sl: "r_seq_list p = Some sl" "circ_wf sl" "x_cap sl = r_seq_backtrack p"
    "r_initialized p" "0 < r_seq_backtrack p" "r_seq_backtrack p \<le> 65536"
    and size: "0 \<le> x_size sl" "x_size sl \<le> r_seq_backtrack p"
    using assms by (rule rec_wfE)
  let ?d = "r_id p - n_id pin"
  have sz: "unat (word_of_int (x_size sl) :: u32) = nat (x_size sl)"
    using size sl by (intro unat_of_int_small) auto
  have ld: "word_of_int (x_size sl) \<le> ?d \<longleftrightarrow> nat (x_size sl) \<le> unat ?d"
    by (simp add: word_le_nat_alt sz)
  have item: "unat ?d < nat (x_size sl) \<Longrightarrow> circ_item sl (uint ?d) = Some (circ_abs sl ! unat ?d)"
    using circ_item_ok [OF sl(2), of "unat ?d"] by simp
  have id0: "n_id pin = 0 \<longleftrightarrow> unat (n_id pin) = 0" by (simp add: unat_eq_0)
  have lt: "r_id p < n_id pin \<longleftrightarrow> unat (r_id p) < unat (n_id pin)" by (rule word_less_nat_alt)
  have d: "\<not> r_id p < n_id pin \<Longrightarrow> unat ?d = unat (r_id p) - unat (n_id pin)"
    by (simp add: unat_sub not_less)
  show ?thesis
    using sl assms item d ld id0 lt
    by (cases "unat ?d < nat (x_size sl)")
      (auto simp: packet_id_test_def win_test_def win_of_def rec_wf_def Let_def not_less not_le)
qed

lemma reap_loop_refines:
  assumes "circ_wf sl" "0 \<le> i" "i \<le> x_size sl"
  shows "\<exists>sl'. packet_id_reap_loop now tb i expire sl = Some sl' \<and> circ_wf sl' \<and> x_cap sl' = x_cap sl
     \<and> circ_abs sl' = take (nat i) (circ_abs sl) @ reap_list now tb expire (drop (nat i) (circ_abs sl))"
  using assms
proof (induction now tb i expire sl rule: packet_id_reap_loop.induct)
  case (1 now tb i expire sl)
  show ?case
  proof (cases "i < x_size sl")
    case False
    with "1.prems" show ?thesis by (subst packet_id_reap_loop.simps) simp
  next
    case True
    let ?L = "circ_abs sl"
    have i: "nat i < length ?L" "int (nat i) = i" using True "1.prems" by auto
    have split: "drop (nat i) ?L = ?L ! nat i # drop (Suc (nat i)) ?L"
      using i by (simp add: Cons_nth_drop_Suc)
    have it: "circ_item sl i = Some (?L ! nat i)"
      using circ_item_ok [OF "1.prems"(1), of "nat i"] i by simp
    show ?thesis
    proof (cases "?L ! nat i = SEQ_EXPIRED")
      case exp: True
      have "?L = take (nat i) ?L @ ?L ! nat i # drop (Suc (nat i)) ?L"
        using split by (metis append_take_drop_id)
      with exp it True "1.prems" show ?thesis
        by (subst packet_id_reap_loop.simps) (simp add: split)
    next
      case False
      let ?e = "if \<not> expire \<and> ?L ! nat i \<noteq> 0 \<and> ?L ! nat i + tb < now then True else expire"
      have e: "?e = (expire \<or> (?L ! nat i \<noteq> 0 \<and> ?L ! nat i + tb < now))" by auto
      obtain c1 where c1: "circ_set sl i SEQ_EXPIRED = Some c1" "circ_wf c1"
        "circ_abs c1 = ?L[nat i := SEQ_EXPIRED]" "x_cap c1 = x_cap sl"
        using circ_store.put_law [OF "1.prems"(1) i(1), of SEQ_EXPIRED] i(2) circ_set_size
        by metis
      obtain sl1 where sl1: "(if ?e then circ_set sl i SEQ_EXPIRED else Some sl) = Some sl1"
        "circ_wf sl1" "circ_abs sl1 = (if ?e then ?L[nat i := SEQ_EXPIRED] else ?L)"
        "x_cap sl1 = x_cap sl"
        by (rule that [of "if ?e then c1 else sl"]) (use c1 "1.prems"(1) in simp_all)
      have x: "x_size sl1 = x_size sl"
        using sl1(1) by (auto dest: circ_set_size split: if_splits)
      have "\<exists>sl'. packet_id_reap_loop now tb (i + 1) ?e sl1 = Some sl' \<and> circ_wf sl' \<and> x_cap sl' = x_cap sl1
         \<and> circ_abs sl' = take (nat (i + 1)) (circ_abs sl1)
            @ reap_list now tb ?e (drop (nat (i + 1)) (circ_abs sl1))"
        using True "1.prems" x by (intro "1.IH" [OF True it False refl sl1(1) sl1(2)]) auto
      moreover have "nat (i + 1) = Suc (nat i)" using "1.prems" by simp
      moreover have "take (Suc (nat i)) (circ_abs sl1) =
          take (nat i) ?L @ [if ?e then SEQ_EXPIRED else ?L ! nat i]"
        using i by (auto simp: sl1(3) take_Suc_conv_app_nth take_update_cancel)
      moreover have "drop (Suc (nat i)) (circ_abs sl1) = drop (Suc (nat i)) ?L"
        by (simp add: sl1(3))
      ultimately show ?thesis
        using True it False sl1(1,4) by (subst packet_id_reap_loop.simps) (auto simp: split e Let_def)
    qed
  qed
qed

lemma packet_id_reap_refines:
  assumes "rec_wf p"
  shows "\<exists>p'. packet_id_reap now p = Some p' \<and> rec_wf p'
      \<and> win_of p' = win_reap now (r_time_backtrack p) (win_of p)
      \<and> r_last_reap p' = now \<and> r_time_backtrack p' = r_time_backtrack p"
proof -
  obtain sl where sl: "r_seq_list p = Some sl" "circ_wf sl" "x_cap sl = r_seq_backtrack p"
    "0 \<le> x_size sl"
    using assms by (rule rec_wfE)
  obtain sl' where "packet_id_reap_loop now (r_time_backtrack p) 0 False sl = Some sl'"
    "circ_wf sl'" "x_cap sl' = x_cap sl"
    "circ_abs sl' = reap_list now (r_time_backtrack p) False (circ_abs sl)"
    using reap_loop_refines [OF sl(2), of 0 now "r_time_backtrack p" False] sl(4) by auto
  with sl assms show ?thesis
    by (auto simp: packet_id_reap_def win_reap_def win_of_def rec_wf_def)
qed

section \<open>No packet is accepted twice\<close>

definition win_inv :: "win \<Rightarrow> (time_t \<times> nat) set \<Rightarrow> bool" where
  "win_inv w A \<longleftrightarrow> 0 < w_cap w \<and> length (w_list w) \<le> w_cap w \<and> (w_list w = [] \<longrightarrow> A = {})
     \<and> (\<forall>t i. (t, i) \<in> A \<longrightarrow> t < w_time w \<or>
          (t = w_time w \<and> i \<le> w_id w \<and> (w_id w - i < length (w_list w)
              \<longrightarrow> w_list w ! (w_id w - i) \<noteq> 0)))"

lemma length_reap_list [simp]: "length (reap_list now tb e xs) = length xs"
  by (induction xs arbitrary: e) (auto simp: Let_def)

lemma reap_list_Nil_iff [simp]: "reap_list now tb e xs = [] \<longleftrightarrow> xs = []"
  by (cases xs) (auto simp: Let_def)

lemma reap_list_nonzero:
  "k < length xs \<Longrightarrow> xs ! k \<noteq> 0 \<Longrightarrow> reap_list now tb e xs ! k \<noteq> 0"
  by (induction xs arbitrary: e k) (auto simp: Let_def nth_Cons SEQ_EXPIRED_def split: nat.splits)

lemma win_inv_relist:
  assumes "win_inv w A" "length xs = length (w_list w)"
    and "\<And>k. k < length xs \<Longrightarrow> w_list w ! k \<noteq> 0 \<Longrightarrow> xs ! k \<noteq> 0"
  shows "win_inv (w\<lparr>w_list := xs\<rparr>) A"
proof -
  have "t < w_time w \<or> (t = w_time w \<and> i \<le> w_id w \<and> (w_id w - i < length xs \<longrightarrow> xs ! (w_id w - i) \<noteq> 0))"
    if "(t, i) \<in> A" for t i
    using assms that by (auto simp: win_inv_def)
  moreover have "xs = [] \<longleftrightarrow> w_list w = []" using assms(2) by auto
  ultimately show ?thesis using assms(1,2) by (simp add: win_inv_def)
qed

lemma win_reap_inv: "win_inv w A \<Longrightarrow> win_inv (win_reap now tb w) A"
  by (auto simp: win_reap_def reap_list_nonzero intro!: win_inv_relist)

lemma win_test_fresh: "win_inv w A \<Longrightarrow> win_test w t i \<Longrightarrow> (t, i) \<notin> A"
  by (force simp: win_inv_def win_test_def split: if_splits)

text \<open>The window after making room for \<open>i\<close>, before it is marked.\<close>

lemma win_shift_keeps:
  assumes inv: "win_inv w A" and test: "win_test w t i"
  defines "w2 \<equiv> win_shift (win_restart w t i) i"
  shows "w_time w2 = t" "w_cap w2 = w_cap w" "i \<le> w_id w2" "w_id w2 - i < length (w_list w2)"
    "length (w_list w2) \<le> w_cap w"
    and "\<And>t' j. (t', j) \<in> A \<Longrightarrow> t' < t \<or> (t' = t \<and> j \<le> w_id w2
      \<and> (w_id w2 - j < length (w_list w2) \<longrightarrow> w_list w2 ! (w_id w2 - j) \<noteq> 0))"
proof -
  let ?restart = "w_list w = [] \<or> t > w_time w \<or> i > w_cap w + w_id w"
  have i: "i \<noteq> 0" and cap: "0 < w_cap w" and len: "length (w_list w) \<le> w_cap w"
    and le: "w_time w \<le> t"
    using assms by (auto simp: win_inv_def win_test_def split: if_splits)
  have w2: "w_time w2 = t \<and> w_cap w2 = w_cap w \<and> i \<le> w_id w2
     \<and> w_id w2 - i < length (w_list w2) \<and> length (w_list w2) \<le> w_cap w"
  proof (cases ?restart)
    case True
    then show ?thesis using i cap by (simp add: w2_def win_shift_def win_restart_def)
  next
    case False
    then have no: "win_restart w t i = w" and t: "t = w_time w"
      using le by (auto simp: win_restart_def)
    show ?thesis
    proof (cases "i \<le> w_id w")
      case True
      then have "w_id w - i < length (w_list w)" using test t by (auto simp: win_test_def)
      with True no t len cap show ?thesis by (simp add: w2_def win_shift_def)
    next
      case False
      with no t cap show ?thesis by (simp add: w2_def win_shift_def)
    qed
  qed
  then show "w_time w2 = t" "w_cap w2 = w_cap w" "i \<le> w_id w2" "w_id w2 - i < length (w_list w2)"
    "length (w_list w2) \<le> w_cap w" by simp_all
  fix t' j assume A: "(t', j) \<in> A"
  then have ne: "w_list w \<noteq> []" and old: "t' < w_time w \<or> (t' = w_time w \<and> j \<le> w_id w
      \<and> (w_id w - j < length (w_list w) \<longrightarrow> w_list w ! (w_id w - j) \<noteq> 0))"
    using inv by (auto simp: win_inv_def)
  show "t' < t \<or> (t' = t \<and> j \<le> w_id w2
      \<and> (w_id w2 - j < length (w_list w2) \<longrightarrow> w_list w2 ! (w_id w2 - j) \<noteq> 0))"
  proof (cases "t' < t")
    case False
    then have t: "t' = t" "t = w_time w" "j \<le> w_id w" using old le by auto
    show ?thesis
    proof (cases "i > w_cap w + w_id w")
      case True
      then have "w_id w2 = i" "length (w_list w2) \<le> w_cap w"
        by (simp_all add: w2_def win_shift_def win_restart_def)
      then have "\<not> w_id w2 - j < length (w_list w2)" "j \<le> w_id w2" using True t by auto
      with t show ?thesis by blast
    next
      case False
      then have no: "win_restart w t i = w" using ne t by (simp add: win_restart_def)
      show ?thesis
      proof (cases "i \<le> w_id w")
        case True
        with no old t len show ?thesis by (simp add: w2_def win_shift_def)
      next
        case False
        then have "i - j = (i - w_id w) + (w_id w - j)" using t by simp
        with False no old t len show ?thesis
          by (auto simp: w2_def win_shift_def nth_append)
      qed
    qed
  qed simp
qed

lemma win_add_inv:
  assumes inv: "win_inv w A" and test: "win_test w t i" and now: "1 < now"
  shows "win_inv (win_add now w t i) (insert (t, i) A)"
proof -
  let ?w = "win_shift (win_restart w t i) i"
  note k = win_shift_keeps [OF inv test]
  have add: "win_add now w t i = ?w\<lparr>w_list := (w_list ?w)[w_id ?w - i := now]\<rparr>"
    using k(4) now by (simp add: win_add_def Let_def SEQ_EXPIRED_def)
  have cap: "0 < w_cap w" using inv by (simp add: win_inv_def)
  have mark: "(w_list ?w)[w_id ?w - i := now] ! m \<noteq> 0"
    if "m < length (w_list ?w)" "w_list ?w ! m \<noteq> 0 \<or> m = w_id ?w - i" for m
    using that now by (cases "m = w_id ?w - i") simp_all
  have "t' < t \<or> (t' = t \<and> j \<le> w_id ?w \<and> (w_id ?w - j < length (w_list ?w)
      \<longrightarrow> (w_list ?w)[w_id ?w - i := now] ! (w_id ?w - j) \<noteq> 0))"
    if "(t', j) \<in> insert (t, i) A" for t' j
  proof (cases "(t', j) = (t, i)")
    case True
    then show ?thesis using k(3,4) mark [of "w_id ?w - i"] by auto
  next
    case False
    then show ?thesis using k(6) [of t' j] mark [of "w_id ?w - j"] that by auto
  qed
  moreover have "w_list ?w \<noteq> []" using k(4) by auto
  ultimately show ?thesis
    using k(1,2,5) cap by (simp add: win_inv_def add)
qed

lemma win_step_inv:
  assumes "win_inv w A" and "1 < now" and "win_test w t i"
  shows "(t, i) \<notin> A" and "win_inv (win_add now w t i) (insert (t, i) A)"
  using win_test_fresh [OF assms(1,3)] win_add_inv [OF assms(1,3,2)] by auto

section \<open>The receiver as a replay guard\<close>

definition pid_key :: "packet_id_net \<Rightarrow> time_t \<times> nat" where
  "pid_key pin = (n_time pin, unat (n_id pin))"

definition udp_inv :: "packet_id \<times> packet_id_persist option \<Rightarrow> (time_t \<times> nat) set \<Rightarrow> bool" where
  "udp_inv st A \<longleftrightarrow> rec_wf (pid_rec (fst st)) \<and> win_inv (win_of (pid_rec (fst st))) A"

definition tcp_inv :: "packet_id \<times> packet_id_persist option \<Rightarrow> (time_t \<times> nat) set \<Rightarrow> bool" where
  "tcp_inv st A \<longleftrightarrow> (let p = pid_rec (fst st) in
     r_initialized p \<and> r_seq_backtrack p = 0 \<and> r_time_backtrack p = 0 \<and> r_seq_list p = None
     \<and> (\<forall>t i. (t, i) \<in> A \<longrightarrow> 0 < i \<and> (t < r_time p \<or> (t = r_time p \<and> i \<le> unat (r_id p)))))"

lemma packet_id_reap_test_inv:
  assumes "rec_wf p" "win_inv (win_of p) A"
  shows "\<exists>p'. packet_id_reap_test now p = Some p' \<and> rec_wf p' \<and> win_inv (win_of p') A"
  using packet_id_reap_refines [OF assms(1)] win_reap_inv [OF assms(2)] assms
  by (fastforce simp: packet_id_reap_test_def)

lemma check_replay_accept:
  assumes "packet_id_reap_test now (pid_rec p) = Some r1" "packet_id_test r1 pin = Some (True, r2)"
    "packet_id_add now r2 pin = Some r3"
  obtains pers' where
    "crypto_check_replay now lf (p, pers) pin = Some (True, p\<lparr>pid_rec := r3\<rparr>, pers')"
  using assms by (simp add: crypto_check_replay_def Let_def)

lemma check_replay_reject:
  assumes "packet_id_reap_test now (pid_rec p) = Some r1" "packet_id_test r1 pin = Some (False, r2)"
  shows "crypto_check_replay now lf (p, pers) pin = Some (False, p\<lparr>pid_rec := r2\<rparr>, pers)"
  using assms by (simp add: crypto_check_replay_def)

lemma udp_check_step:
  assumes "udp_inv st A" "1 < now"
  shows "\<exists>ok st'. crypto_check_replay now lf st pin = Some (ok, st') \<and> (ok \<longrightarrow> pid_key pin \<notin> A)
    \<and> udp_inv st' (if ok then insert (pid_key pin) A else A)"
proof -
  obtain p pers where st: "st = (p, pers)" by (cases st)
  obtain r1 where r1: "packet_id_reap_test now (pid_rec p) = Some r1" "rec_wf r1"
    "win_inv (win_of r1) A"
    using packet_id_reap_test_inv [of "pid_rec p" A] assms by (auto simp: udp_inv_def st)
  let ?ok = "win_test (win_of r1) (n_time pin) (unat (n_id pin))"
  obtain r2 where r2: "packet_id_test r1 pin = Some (?ok, r2)" "rec_wf r2" "win_of r2 = win_of r1"
    using packet_id_test_refines [OF r1(2)] by blast
  obtain r3 where r3: "packet_id_add now r2 pin = Some r3" "rec_wf r3"
    "win_of r3 = win_add now (win_of r1) (n_time pin) (unat (n_id pin))"
    using packet_id_add_refines [OF r2(2)] r2(3) by metis
  show ?thesis
  proof (cases ?ok)
    case True
    obtain pers' where "crypto_check_replay now lf st pin = Some (True, p\<lparr>pid_rec := r3\<rparr>, pers')"
      using check_replay_accept [OF r1(1) _ r3(1)] r2(1) True by (metis st)
    with r3 win_step_inv [OF r1(3) assms(2) True] show ?thesis
      by (intro exI [of _ True] exI [of _ "(p\<lparr>pid_rec := r3\<rparr>, pers')"])
        (simp add: udp_inv_def pid_key_def)
  next
    case False
    then have "crypto_check_replay now lf st pin = Some (False, p\<lparr>pid_rec := r2\<rparr>, pers)"
      unfolding st using r2(1) by (intro check_replay_reject [OF r1(1)]) simp
    with r1 r2 show ?thesis
      by (intro exI [of _ False] exI [of _ "(p\<lparr>pid_rec := r2\<rparr>, pers)"]) (simp add: udp_inv_def)
  qed
qed

lemma tcp_check_step:
  assumes "tcp_inv st A"
  shows "\<exists>ok st'. crypto_check_replay now lf st pin = Some (ok, st') \<and> (ok \<longrightarrow> pid_key pin \<notin> A)
    \<and> tcp_inv st' (if ok then insert (pid_key pin) A else A)"
proof -
  obtain p pers where st: "st = (p, pers)" by (cases st)
  let ?r = "pid_rec p"
  have inv: "r_initialized ?r" "r_seq_backtrack ?r = 0" "r_time_backtrack ?r = 0" "r_seq_list ?r = None"
    "\<And>t i. (t, i) \<in> A \<Longrightarrow> 0 < i \<and> (t < r_time ?r \<or> (t = r_time ?r \<and> i \<le> unat (r_id ?r)))"
    using assms by (auto simp: tcp_inv_def st Let_def)
  let ?r1 = "if r_last_reap ?r + SEQ_REAP_INTERVAL \<le> now then ?r\<lparr>r_last_reap := now\<rparr> else ?r"
  have reap: "packet_id_reap_test now ?r = Some ?r1"
    by (simp add: packet_id_reap_test_def packet_id_reap_def inv)
  let ?ok = "n_id pin \<noteq> 0 \<and> (if n_time pin = r_time ?r then r_id ?r = 0 \<or> n_id pin = r_id ?r + 1
                else n_time pin > r_time ?r \<and> n_id pin = 1)"
  have test: "packet_id_test ?r1 pin = Some (?ok, ?r1)"
    by (auto simp: packet_id_test_def inv)
  show ?thesis
  proof (cases ?ok)
    case True
    have pos: "0 < unat (n_id pin)" using True by (simp add: unat_gt_0)
    have lt: "n_time pin > r_time ?r \<or> (n_time pin = r_time ?r \<and> unat (r_id ?r) < unat (n_id pin))"
      using True pos by (auto split: if_splits) (unat_arith)
    let ?r3 = "?r1\<lparr>r_time := n_time pin, r_id := n_id pin\<rparr>"
    have add: "packet_id_add now ?r1 pin = Some ?r3"
      by (simp add: packet_id_add_def inv)
    have ok: "packet_id_test ?r1 pin = Some (True, ?r1)" using test True by simp
    obtain pers' where run: "crypto_check_replay now lf st pin = Some (True, p\<lparr>pid_rec := ?r3\<rparr>, pers')"
      using check_replay_accept [OF reap ok add] by (metis st)
    have fresh: "pid_key pin \<notin> A" using inv(5) lt by (force simp: pid_key_def)
    have "0 < i \<and> (t < n_time pin \<or> (t = n_time pin \<and> i \<le> unat (n_id pin)))"
      if "(t, i) \<in> insert (pid_key pin) A" for t i
      using that inv(5) [of t i] lt pos by (auto simp: pid_key_def)
    then have "tcp_inv (p\<lparr>pid_rec := ?r3\<rparr>, pers') (insert (pid_key pin) A)"
      by (simp add: tcp_inv_def inv Let_def)
    with run fresh show ?thesis
      by (intro exI [of _ True] exI [of _ "(p\<lparr>pid_rec := ?r3\<rparr>, pers')"]) simp
  next
    case False
    have no: "packet_id_test ?r1 pin = Some (False, ?r1)" using test False by presburger
    have "tcp_inv (p\<lparr>pid_rec := ?r1\<rparr>, pers) A" using inv by (simp add: tcp_inv_def)
    with check_replay_reject [OF reap no] show ?thesis
      unfolding st by (intro exI [of _ False] exI [of _ "(p\<lparr>pid_rec := ?r1\<rparr>, pers)"]) simp
  qed
qed

interpretation udp: replay_guard udp_inv "\<lambda>e. 1 < fst e"
  "\<lambda>e st. crypto_check_replay (fst e) lf st (snd e)" "\<lambda>e. pid_key (snd e)" for lf
  by unfold_locales (rule udp_check_step)

interpretation tcp: replay_guard tcp_inv "\<lambda>e. True"
  "\<lambda>e st. crypto_check_replay (fst e) lf st (snd e)" "\<lambda>e. pid_key (snd e)" for lf
  by unfold_locales (rule tcp_check_step)

lemma packet_id_init_inv:
  assumes "packet_id_init sb tb name unit = Some p"
  shows "if sb = 0 then tcp_inv (p, pers) {} else udp_inv (p, pers) {}"
proof (cases "sb = 0")
  case True
  with assms show ?thesis
    by (auto simp: packet_id_init_def Let_def tcp_inv_def packet_id_clear_def)
next
  case False
  with assms have sb: "0 < sb" "sb \<le> MAX_SEQ_BACKTRACK"
    and p: "p = packet_id_clear\<lparr>pid_rec := (pid_rec packet_id_clear)\<lparr>r_name := name, r_unit := unit,
        r_seq_list := Some (circ_alloc 0 sb), r_seq_backtrack := sb, r_time_backtrack := tb,
        r_initialized := True\<rparr>\<rparr>"
    by (auto simp: packet_id_init_def Let_def MIN_SEQ_BACKTRACK_def split: if_splits)
  have "rec_wf (pid_rec p)" and "w_list (win_of (pid_rec p)) = []" and "0 < w_cap (win_of (pid_rec p))"
    using sb circ_alloc_ok [OF sb(1), of "0 :: int"]
    by (simp_all add: p rec_wf_def win_of_def circ_alloc_def)
  with False show ?thesis by (simp add: udp_inv_def win_inv_def)
qed

section \<open>What is accepted, exactly\<close>

text \<open>
  Without reaping (\<open>time_backtrack\<close> 0) an entry of the window is nonzero only for a number
  that was accepted, and the window is full once \<open>w_cap\<close> numbers have passed.
\<close>

definition win_exact :: "win \<Rightarrow> (time_t \<times> nat) set \<Rightarrow> bool" where
  "win_exact w A \<longleftrightarrow> length (w_list w) = min (w_cap w) (w_id w)
     \<and> (\<forall>k < length (w_list w). w_list w ! k = 0 \<or> (w_time w, w_id w - k) \<in> A)"

lemma win_shift_exact:
  assumes inv: "win_inv w A" and ex: "win_exact w A" and test: "win_test w t i"
  shows "win_exact (win_shift (win_restart w t i) i) A"
proof (cases "w_list w = [] \<or> t > w_time w \<or> i > w_cap w + w_id w")
  case True
  then show ?thesis by (auto simp: win_exact_def win_shift_def win_restart_def)
next
  case False
  then have no: "win_restart w t i = w" by (simp add: win_restart_def)
  have "w_list (win_shift w i) ! k = 0 \<or> (w_time w, max (w_id w) i - k) \<in> A"
    if "k < length (w_list (win_shift w i))" for k
  proof -
    have nth: "w_list (win_shift w i) ! k = (replicate (i - w_id w) 0 @ w_list w) ! k"
      and k: "k < (i - w_id w) + length (w_list w)"
      using that by (auto simp: win_shift_def simp del: take_append)
    let ?m = "k - (i - w_id w)"
    show ?thesis
    proof (cases "k < i - w_id w")
      case True
      then show ?thesis by (simp add: nth nth_append)
    next
      case False
      then have "?m < length (w_list w)" using k by linarith
      then have "w_list w ! ?m = 0 \<or> (w_time w, w_id w - ?m) \<in> A"
        using ex unfolding win_exact_def by blast
      moreover have "w_id w - ?m = max (w_id w) i - k" using False by (simp add: max_def)
      ultimately show ?thesis using False by (simp add: nth nth_append)
    qed
  qed
  moreover have "length (w_list (win_shift w i)) = min (w_cap w) (max (w_id w) i)"
    using ex by (auto simp: win_shift_def win_exact_def min_def max_def)
  ultimately show ?thesis
    by (simp add: no win_exact_def win_shift_def [of w i])
qed

lemma win_add_exact:
  assumes "win_inv w A" "win_exact w A" "win_test w t i" "1 < now"
  shows "win_exact (win_add now w t i) (insert (t, i) A)"
proof -
  let ?w = "win_shift (win_restart w t i) i"
  note k = win_shift_keeps [OF assms(1,3)]
  have ex: "win_exact ?w A" by (rule win_shift_exact [OF assms(1-3)])
  have add: "win_add now w t i = ?w\<lparr>w_list := (w_list ?w)[w_id ?w - i := now]\<rparr>"
    using k(4) assms(4) by (simp add: win_add_def Let_def SEQ_EXPIRED_def)
  have "(w_list ?w)[w_id ?w - i := now] ! m = 0 \<or> (t, w_id ?w - m) \<in> insert (t, i) A"
    if "m < length (w_list ?w)" for m
    using ex that k(1,3) by (cases "m = w_id ?w - i") (auto simp: win_exact_def)
  with ex k(1) show ?thesis by (simp add: win_exact_def add)
qed

lemma win_exact_test:
  assumes inv: "win_inv w A" and ex: "win_exact w A"
  shows "win_test w t i \<longleftrightarrow> i \<noteq> 0 \<and> (t, i) \<notin> A
     \<and> (t > w_time w \<or> (t = w_time w \<and> i + w_cap w > w_id w))"
proof
  assume "win_test w t i"
  with win_test_fresh [OF inv this] ex show "i \<noteq> 0 \<and> (t, i) \<notin> A
     \<and> (t > w_time w \<or> (t = w_time w \<and> i + w_cap w > w_id w))"
    by (auto simp: win_test_def win_exact_def split: if_splits)
next
  assume a: "i \<noteq> 0 \<and> (t, i) \<notin> A \<and> (t > w_time w \<or> (t = w_time w \<and> i + w_cap w > w_id w))"
  show "win_test w t i"
  proof (cases "t = w_time w \<and> i \<le> w_id w")
    case True
    then have "w_id w - i < length (w_list w)" using a ex by (auto simp: win_exact_def)
    then have "w_list w ! (w_id w - i) = 0"
      using ex a True unfolding win_exact_def by (metis diff_diff_cancel)
    with True a \<open>w_id w - i < length (w_list w)\<close> show ?thesis by (simp add: win_test_def)
  next
    case False
    with a show ?thesis by (auto simp: win_test_def)
  qed
qed

definition exact_inv :: "nat \<Rightarrow> packet_id \<times> packet_id_persist option \<Rightarrow> (time_t \<times> nat) set \<Rightarrow> bool" where
  "exact_inv B st A \<longleftrightarrow> udp_inv st A \<and> win_exact (win_of (pid_rec (fst st))) A
     \<and> r_time_backtrack (pid_rec (fst st)) = 0 \<and> w_cap (win_of (pid_rec (fst st))) = B"

lemma exact_check:
  assumes "exact_inv B (p, pers) A" "1 < now"
  shows "\<exists>st'. crypto_check_replay now lf (p, pers) pin
        = Some (win_test (win_of (pid_rec p)) (n_time pin) (unat (n_id pin)), st')
    \<and> (if win_test (win_of (pid_rec p)) (n_time pin) (unat (n_id pin))
       then exact_inv B st' (insert (pid_key pin) A) else exact_inv B st' A)"
proof -
  let ?r = "pid_rec p"
  have wf: "rec_wf ?r" and inv: "win_inv (win_of ?r) A" and ex: "win_exact (win_of ?r) A"
    and tb: "r_time_backtrack ?r = 0" and B: "w_cap (win_of ?r) = B"
    using assms(1) by (auto simp: exact_inv_def udp_inv_def)
  let ?r1 = "if r_last_reap ?r + SEQ_REAP_INTERVAL \<le> now then ?r\<lparr>r_last_reap := now\<rparr> else ?r"
  have r1: "packet_id_reap_test now ?r = Some ?r1" "rec_wf ?r1" "win_of ?r1 = win_of ?r"
    "r_time_backtrack ?r1 = 0"
    using wf tb by (auto simp: packet_id_reap_test_def packet_id_reap_def rec_wf_def win_of_def
        split: option.splits)
  let ?ok = "win_test (win_of ?r) (n_time pin) (unat (n_id pin))"
  obtain r2 where r2: "packet_id_test ?r1 pin = Some (?ok, r2)" "rec_wf r2" "win_of r2 = win_of ?r"
    "r_time_backtrack r2 = 0"
    using packet_id_test_refines [OF r1(2), of pin] r1(3,4) by metis
  obtain r3 where r3: "packet_id_add now r2 pin = Some r3" "rec_wf r3"
    "win_of r3 = win_add now (win_of ?r) (n_time pin) (unat (n_id pin))" "r_time_backtrack r3 = 0"
    using packet_id_add_refines [OF r2(2), of now pin] r2(3,4) by metis
  show ?thesis
  proof (cases ?ok)
    case True
    obtain pers' where run: "crypto_check_replay now lf (p, pers) pin = Some (True, p\<lparr>pid_rec := r3\<rparr>, pers')"
      using check_replay_accept [OF r1(1) r2(1) [unfolded eqTrueI [OF True]] r3(1)] by blast
    have "w_cap (win_of r3) = B" using r3(3) B by simp
    with run True r3 win_add_inv [OF inv True assms(2)] win_add_exact [OF inv ex True assms(2)]
    show ?thesis
      by (intro exI [of _ "(p\<lparr>pid_rec := r3\<rparr>, pers')"])
        (simp add: exact_inv_def udp_inv_def pid_key_def)
  next
    case False
    then have run: "crypto_check_replay now lf (p, pers) pin = Some (False, p\<lparr>pid_rec := r2\<rparr>, pers)"
      using r2(1) by (intro check_replay_reject [OF r1(1)]) simp
    have "w_cap (win_of r2) = B" using r2(3) B by simp
    with run False r2 inv ex show ?thesis
      by (intro exI [of _ "(p\<lparr>pid_rec := r2\<rparr>, pers)"]) (simp add: exact_inv_def udp_inv_def)
  qed
qed

interpretation exact: replay_guard "exact_inv B" "\<lambda>e. 1 < fst e"
  "\<lambda>e st. crypto_check_replay (fst e) lf st (snd e)" "\<lambda>e. pid_key (snd e)" for lf B
proof
  fix st A and e :: "time_t \<times> packet_id_net" and lf B
  assume inv: "exact_inv B st A" and e: "1 < fst e"
  obtain p pers where st: "st = (p, pers)" by (cases st)
  let ?ok = "win_test (win_of (pid_rec p)) (n_time (snd e)) (unat (n_id (snd e)))"
  have fresh: "?ok \<Longrightarrow> pid_key (snd e) \<notin> A"
    using inv win_test_fresh by (auto simp: exact_inv_def udp_inv_def st pid_key_def)
  from exact_check [of B p pers A "fst e" lf "snd e"] inv e
  obtain st' where "crypto_check_replay (fst e) lf st (snd e) = Some (?ok, st')"
    "exact_inv B st' (if ?ok then insert (pid_key (snd e)) A else A)"
    by (auto simp: st split: if_splits)
  with fresh show "\<exists>ok st'. crypto_check_replay (fst e) lf st (snd e) = Some (ok, st')
      \<and> (ok \<longrightarrow> pid_key (snd e) \<notin> A) \<and> exact_inv B st' (if ok then insert (pid_key (snd e)) A else A)"
    by blast
qed

section \<open>The sender\<close>

text \<open>The header a successful write puts on the wire, and its reader.\<close>

definition packet_id_wire :: "packet_id_send \<Rightarrow> bool \<Rightarrow> u8 list" where
  "packet_id_wire p long_form =
     u32_bytes (s_id p) @ (if long_form then u32_bytes (word_of_int (s_time p)) else [])"

lemma length_packet_id_wire: "int (length (packet_id_wire p lf)) = packet_id_size lf"
  by (simp add: packet_id_wire_def packet_id_size_def)

lemma packet_id_write_prepend:
  assumes "buf_wf b" "packet_id_size lf \<le> b_offset b"
    and "packet_id_send_update now p0 lf = (True, p)"
  obtains b' where "packet_id_write now p0 b lf True = (True, p, b')" "buf_wf b'"
    "buf_bytes b' = packet_id_wire p lf @ buf_bytes b" "b_offset b' = b_offset b - packet_id_size lf"
  using assms by (cases lf) (auto simp: packet_id_write_def packet_id_size_def packet_id_wire_def
      Let_def buf_simps)

lemma packet_id_write_append:
  assumes "buf_wf b" "packet_id_size lf \<le> buf_tailroom b"
    and "packet_id_send_update now p0 lf = (True, p)"
  obtains b' where "packet_id_write now p0 b lf False = (True, p, b')" "buf_wf b'"
    "buf_bytes b' = buf_bytes b @ packet_id_wire p lf"
  using assms by (cases lf) (auto simp: packet_id_write_def packet_id_size_def packet_id_wire_def
      Let_def buf_simps)

lemma packet_id_read_wire:
  assumes "buf_wf b" "buf_bytes b = packet_id_wire p lf @ rest"
  obtains b' where "packet_id_read b lf =
      (True, \<lparr>n_id = s_id p, n_time = (if lf then s_time p mod 2 ^ 32 else 0)\<rparr>, b')"
    "buf_wf b'" "buf_bytes b' = rest"
proof -
  obtain b1 where b1: "buf_read b 4 = (Some (u32_bytes (s_id p)), b1)" "buf_wf b1"
    "buf_bytes b1 = (if lf then u32_bytes (word_of_int (s_time p)) else []) @ rest"
    using buf_in.rd_prefix [OF assms(1), of "u32_bytes (s_id p)"] assms(2)
    by (auto simp: packet_id_wire_def)
  show thesis
  proof (cases lf)
    case True
    obtain b2 where "buf_read b1 4 = (Some (u32_bytes (word_of_int (s_time p))), b2)" "buf_wf b2"
      "buf_bytes b2 = rest"
      using buf_in.rd_prefix [OF b1(2), of "u32_bytes (word_of_int (s_time p))"] b1(3) True by auto
    with b1 True show thesis
      by (intro that [of b2]) (auto simp: packet_id_read_def uint_word_of_int)
  next
    case False
    with b1 show thesis by (intro that [of b1]) (auto simp: packet_id_read_def)
  qed
qed

text \<open>A run of sends: the headers handed out at the given times, until the first refusal.\<close>

fun send_run :: "bool \<Rightarrow> packet_id_send \<Rightarrow> time_t list \<Rightarrow> (time_t \<times> nat) list" where
  "send_run lf p [] = []"
| "send_run lf p (t # ts) =
     (case packet_id_send_update t p lf of
        (False, _) \<Rightarrow> []
      | (True, p') \<Rightarrow> (s_time p', unat (s_id p')) # send_run lf p' ts)"

definition send_before :: "time_t \<times> nat \<Rightarrow> time_t \<times> nat \<Rightarrow> bool" where
  "send_before a b \<longleftrightarrow> fst a < fst b \<or> (fst a = fst b \<and> snd a < snd b)"

lemma send_before_trans: "send_before a b \<Longrightarrow> send_before b c \<Longrightarrow> send_before a c"
  by (auto simp: send_before_def)

lemma unat_Suc_u32: "(w :: u32) \<noteq> 0xFFFFFFFF \<Longrightarrow> unat (w + 1) = Suc (unat w)"
proof -
  assume w: "w \<noteq> 0xFFFFFFFF"
  have "1 + w \<noteq> 0"
  proof
    assume "1 + w = 0"
    then have "w = - 1" by (simp add: eq_neg_iff_add_eq_0 add.commute)
    with w show False by simp
  qed
  then show ?thesis using unatSuc [of w] by (simp add: add.commute)
qed

lemma send_update_before:
  assumes "packet_id_send_update t p lf = (True, p')" "0 \<le> s_time p" "0 \<le> t"
  shows "send_before (s_time p, unat (s_id p)) (s_time p', unat (s_id p'))" "0 \<le> s_time p'"
  using assms unat_Suc_u32 [of "s_id p"]
  by (auto simp: packet_id_send_update_def Let_def send_before_def PACKET_ID_MAX_def
      split: if_splits)

lemma send_run_sorted:
  "0 \<le> s_time p \<Longrightarrow> (\<And>t. t \<in> set ts \<Longrightarrow> 0 \<le> t) \<Longrightarrow>
   sorted_wrt send_before ((s_time p, unat (s_id p)) # send_run lf p ts)"
proof (induction ts arbitrary: p)
  case Nil
  then show ?case by simp
next
  case (Cons t ts)
  obtain ok p' where u: "packet_id_send_update t p lf = (ok, p')" by (cases "packet_id_send_update t p lf")
  show ?case
  proof (cases ok)
    case True
    have step: "send_before (s_time p, unat (s_id p)) (s_time p', unat (s_id p'))" "0 \<le> s_time p'"
      using send_update_before [of t p lf p'] u True Cons.prems by auto
    have "sorted_wrt send_before ((s_time p', unat (s_id p')) # send_run lf p' ts)"
      using Cons.IH [OF step(2)] Cons.prems(2) by auto
    with step show ?thesis using u True by (auto intro: send_before_trans)
  next
    case False
    with u show ?thesis by simp
  qed
qed

lemma sorted_wrt_send_before_distinct: "sorted_wrt send_before xs \<Longrightarrow> distinct xs"
  by (induction xs) (auto simp: send_before_def)

section \<open>The check on the abstract window\<close>

text \<open>
  \<open>crypto_check_replay\<close> in terms of the window: reap when the interval has passed, test,
  and add on success.
\<close>

definition win_reap_due :: "time_t \<Rightarrow> packet_id_rec \<Rightarrow> win" where
  "win_reap_due now p =
     (if r_last_reap p + SEQ_REAP_INTERVAL \<le> now then win_reap now (r_time_backtrack p) (win_of p)
      else win_of p)"

definition win_check :: "time_t \<Rightarrow> win \<Rightarrow> packet_id_net \<Rightarrow> bool \<times> win" where
  "win_check now w pin =
     (if win_test w (n_time pin) (unat (n_id pin))
      then (True, win_add now w (n_time pin) (unat (n_id pin))) else (False, w))"

lemma packet_id_reap_test_refines:
  assumes "rec_wf p"
  shows "\<exists>p'. packet_id_reap_test now p = Some p' \<and> rec_wf p' \<and> win_of p' = win_reap_due now p
    \<and> r_last_reap p' = (if r_last_reap p + SEQ_REAP_INTERVAL \<le> now then now else r_last_reap p)
    \<and> r_time_backtrack p' = r_time_backtrack p"
  using packet_id_reap_refines [OF assms, of now] assms
  by (auto simp: packet_id_reap_test_def win_reap_due_def)

lemma check_refines:
  assumes "rec_wf (pid_rec p)"
  shows "\<exists>p' pers'. crypto_check_replay now lf (p, pers) pin
        = Some (fst (win_check now (win_reap_due now (pid_rec p)) pin), p', pers')
    \<and> rec_wf (pid_rec p') \<and> win_of (pid_rec p') = snd (win_check now (win_reap_due now (pid_rec p)) pin)
    \<and> r_time_backtrack (pid_rec p') = r_time_backtrack (pid_rec p)
    \<and> (r_last_reap (pid_rec p') = now \<or> r_last_reap (pid_rec p') = r_last_reap (pid_rec p)
        \<and> now < r_last_reap (pid_rec p) + SEQ_REAP_INTERVAL)"
proof -
  obtain r1 where r1: "packet_id_reap_test now (pid_rec p) = Some r1" "rec_wf r1"
    "win_of r1 = win_reap_due now (pid_rec p)" "r_time_backtrack r1 = r_time_backtrack (pid_rec p)"
    "r_last_reap r1 = (if r_last_reap (pid_rec p) + SEQ_REAP_INTERVAL \<le> now then now
                       else r_last_reap (pid_rec p))"
    using packet_id_reap_test_refines [OF assms] by blast
  let ?ok = "win_test (win_of r1) (n_time pin) (unat (n_id pin))"
  obtain r2 where r2: "packet_id_test r1 pin = Some (?ok, r2)" "rec_wf r2" "win_of r2 = win_of r1"
    "r_last_reap r2 = r_last_reap r1" "r_time_backtrack r2 = r_time_backtrack r1"
    using packet_id_test_refines [OF r1(2)] by blast
  obtain r3 where r3: "packet_id_add now r2 pin = Some r3" "rec_wf r3"
    "win_of r3 = win_add now (win_of r1) (n_time pin) (unat (n_id pin))"
    "r_last_reap r3 = r_last_reap r1" "r_time_backtrack r3 = r_time_backtrack r1"
    using packet_id_add_refines [OF r2(2), of now pin] r2(3-5) by metis
  show ?thesis
  proof (cases ?ok)
    case True
    obtain pers' where run: "crypto_check_replay now lf (p, pers) pin = Some (True, p\<lparr>pid_rec := r3\<rparr>, pers')"
      using check_replay_accept [OF r1(1) _ r3(1)] r2(1) True by metis
    show ?thesis
      using run True r1 r3 by (intro exI [of _ "p\<lparr>pid_rec := r3\<rparr>"] exI [of _ pers']) (simp add: win_check_def)
  next
    case False
    then have run: "crypto_check_replay now lf (p, pers) pin = Some (False, p\<lparr>pid_rec := r2\<rparr>, pers)"
      using r2(1) by (intro check_replay_reject [OF r1(1)]) simp
    show ?thesis
      using run False r1 r2 by (intro exI [of _ "p\<lparr>pid_rec := r2\<rparr>"] exI [of _ pers]) (simp add: win_check_def)
  qed
qed

lemma win_reap_due_Nil: "w_list (win_of p) = [] \<Longrightarrow> win_reap_due now p = win_of p"
  by (simp add: win_reap_due_def win_reap_def)

lemma win_reap_due_recent:
  "r_last_reap p = now \<or> now < r_last_reap p + SEQ_REAP_INTERVAL \<Longrightarrow> win_reap_due now p = win_of p"
  by (auto simp: win_reap_due_def SEQ_REAP_INTERVAL_def)

lemma win_add_restarted:
  assumes "w_list w = []" "w_id w < i" "i < j + w_cap w" "j < i" "0 < j" "1 < now"
  shows "win_test (win_add now w t i) t j"
proof -
  let ?n = "min (w_cap w) i"
  have eq: "win_add now w t i = w\<lparr>w_time := t, w_id := i, w_list := (replicate ?n 0)[0 := now]\<rparr>"
    using assms by (auto simp: win_add_def win_restart_def win_shift_def Let_def SEQ_EXPIRED_def min_def)
  show ?thesis using assms by (simp add: eq win_test_def nth_list_update)
qed

section \<open>Properties\<close>

text \<open>
  C1: From an initialised receiver, in window mode (UDP) and in linear mode (TCP), whatever
  packets arrive in whatever order and at whatever times, the replay check never reaches a
  failed assertion and never accepts two packets with the same time stamp and number.
\<close>

theorem replay_never_accepted:
  assumes init: "packet_id_init sb tb name unit = Some p"
    and clock: "\<forall>e \<in> set evs. 1 < fst e"
  shows "\<exists>st acc. guard_run (\<lambda>e st. crypto_check_replay (fst e) lf st (snd e))
             (\<lambda>e. pid_key (snd e)) (p, pers) evs = Some (st, acc) \<and> distinct acc"
proof (cases "sb = 0")
  case True
  with packet_id_init_inv [OF init, of pers] have "tcp_inv (p, pers) {}" by simp
  then show ?thesis using tcp.run_accepts_once [of "(p, pers)" "{}" evs lf] by auto
next
  case False
  with packet_id_init_inv [OF init, of pers] have "udp_inv (p, pers) {}" by simp
  then show ?thesis using udp.run_accepts_once [of "(p, pers)" "{}" evs lf] clock by auto
qed

theorem replay_never_accepted_witness:
  "\<exists>st acc. guard_run (\<lambda>e st. crypto_check_replay (fst e) True st (snd e)) (\<lambda>e. pid_key (snd e))
      (the (packet_id_init 64 15 ''DATA'' 0), None)
      [(100, \<lparr>n_id = 7, n_time = 50\<rparr>), (101, \<lparr>n_id = 7, n_time = 50\<rparr>),
       (102, \<lparr>n_id = 3, n_time = 50\<rparr>)] = Some (st, acc) \<and> distinct acc"
  by (rule replay_never_accepted [of 64 15 "''DATA''" 0])
    (simp_all add: packet_id_init_def MIN_SEQ_BACKTRACK_def MAX_SEQ_BACKTRACK_def
      MIN_TIME_BACKTRACK_def MAX_TIME_BACKTRACK_def Let_def)

text \<open>
  C22: With a window of \<open>sb\<close> numbers and no time limit, after any run a packet is accepted
  exactly when its number is nonzero, it was not accepted before, and its time stamp is newer
  than the highest one or equal to it with a number less than \<open>sb\<close> below the highest.
\<close>

theorem replay_check_exact:
  assumes init: "packet_id_init sb 0 name unit = Some p" and sb: "sb \<noteq> 0"
    and clock: "\<forall>e \<in> set evs. 1 < fst e" and now: "1 < now"
    and run: "guard_run (\<lambda>e st. crypto_check_replay (fst e) lf st (snd e))
             (\<lambda>e. pid_key (snd e)) (p, pers) evs = Some ((q, pers'), acc)"
  shows "map_option fst (crypto_check_replay now lf (q, pers') pin) =
      Some (n_id pin \<noteq> 0 \<and> pid_key pin \<notin> set acc \<and>
        (n_time pin > r_time (pid_rec q) \<or>
         (n_time pin = r_time (pid_rec q) \<and>
          unat (n_id pin) + nat sb > unat (r_id (pid_rec q)))))"
proof -
  have udp: "udp_inv (p, pers) {}" using packet_id_init_inv [OF init, of pers] sb by simp
  have "w_list (win_of (pid_rec p)) = []" "w_id (win_of (pid_rec p)) = 0" "r_time_backtrack (pid_rec p) = 0"
    using init sb by (auto simp: packet_id_init_def Let_def win_of_def packet_id_clear_def
        circ_alloc_def circ_abs_def split: if_splits)
  with udp have "exact_inv (nat sb) (p, pers) {}"
    using init sb by (auto simp: exact_inv_def win_exact_def packet_id_init_def Let_def split: if_splits)
  then have inv: "exact_inv (nat sb) (q, pers') (set acc)"
    using exact.run_accepts_once [of "nat sb" "(p, pers)" "{}" evs lf] clock run by auto
  then have w: "win_inv (win_of (pid_rec q)) (set acc)" "win_exact (win_of (pid_rec q)) (set acc)"
    and B: "w_cap (win_of (pid_rec q)) = nat sb"
    by (auto simp: exact_inv_def udp_inv_def)
  obtain st' where "crypto_check_replay now lf (q, pers') pin
      = Some (win_test (win_of (pid_rec q)) (n_time pin) (unat (n_id pin)), st')"
    using exact_check [OF inv now] by blast
  with B show ?thesis by (simp add: win_exact_test [OF w] pid_key_def unat_eq_0)
qed

theorem replay_check_exact_witness:
  "map_option fst (crypto_check_replay 100 True (the (packet_id_init 64 0 ''DATA'' 0), None)
     \<lparr>n_id = 7, n_time = 50\<rparr>) = Some True"
proof -
  have init: "packet_id_init 64 0 ''DATA'' 0 = Some (the (packet_id_init 64 0 ''DATA'' 0))"
    and "r_time (pid_rec (the (packet_id_init 64 0 ''DATA'' 0))) = 0"
    by (simp_all add: packet_id_init_def MIN_SEQ_BACKTRACK_def MAX_SEQ_BACKTRACK_def
      MIN_TIME_BACKTRACK_def MAX_TIME_BACKTRACK_def Let_def packet_id_clear_def)
  then show ?thesis
    using replay_check_exact [OF init, where evs = "[]" and now = 100 and lf = True and pers = None
        and pers' = None and acc = "[]" and pin = "\<lparr>n_id = 7, n_time = 50\<rparr>"]
    by auto
qed

text \<open>
  C21: On a well-formed receiver the check never fails an assertion and implements the
  abstract window: its verdict and the window it leaves are those of \<open>win_check\<close> on the
  (possibly reaped) window the receiver stands for, and the receiver stays well-formed.
\<close>

theorem replay_check_refines_window:
  assumes "rec_wf (pid_rec p)"
  shows "\<exists>ok p' pers'. crypto_check_replay now lf (p, pers) pin = Some (ok, p', pers')
    \<and> rec_wf (pid_rec p')
    \<and> (ok, win_of (pid_rec p')) = win_check now (win_reap_due now (pid_rec p)) pin"
  using check_refines [OF assms, of now lf pers pin] by (metis prod.collapse)

theorem replay_check_refines_window_witness:
  "\<exists>ok p' pers'. crypto_check_replay 100 True (the (packet_id_init 64 15 ''DATA'' 0), None)
      \<lparr>n_id = 7, n_time = 50\<rparr> = Some (ok, p', pers') \<and> rec_wf (pid_rec p')
    \<and> (ok, win_of (pid_rec p')) = win_check 100
        (win_reap_due 100 (pid_rec (the (packet_id_init 64 15 ''DATA'' 0)))) \<lparr>n_id = 7, n_time = 50\<rparr>"
  by (rule replay_check_refines_window)
    (simp add: packet_id_init_def MIN_SEQ_BACKTRACK_def MAX_SEQ_BACKTRACK_def
      MIN_TIME_BACKTRACK_def MAX_TIME_BACKTRACK_def Let_def rec_wf_def circ_alloc_def circ_wf_def)

text \<open>
  C29: After a restart with a saved position \<open>(t, i)\<close> a replay \<open>(t, j)\<close> inside the window is
  rejected at first, but it is accepted again once the genuine packet \<open>(t, i + 1)\<close> has
  arrived: the empty window is then rebuilt below the new number with no entry marked.
\<close>

theorem replay_persist_reopens_window:
  assumes init: "packet_id_init sb tb name unit = Some p"
    and saved: "packet_id_persist_enabled pp" "pp_time pp = t" "t \<noteq> 0" "pp_id pp = i"
    and i: "i \<noteq> 0xFFFFFFFF" and j: "0 < j" "j \<le> i" "unat i + 1 < unat j + nat sb" and now: "1 < now"
  defines "p1 \<equiv> packet_id_persist_load_obj (Some pp) p"
  shows "\<exists>st2 st3 st4.
      crypto_check_replay now True (p1, Some pp) \<lparr>n_id = j, n_time = t\<rparr> = Some (False, st2)
    \<and> crypto_check_replay now True st2 \<lparr>n_id = i + 1, n_time = t\<rparr> = Some (True, st3)
    \<and> crypto_check_replay now True st3 \<lparr>n_id = j, n_time = t\<rparr> = Some (True, st4)"
proof -
  have sb: "0 < sb" "sb \<le> MAX_SEQ_BACKTRACK"
    using init j by (auto simp: packet_id_init_def MIN_SEQ_BACKTRACK_def Let_def word_le_nat_alt
        split: if_splits)
  have wf1: "rec_wf (pid_rec p1)" and w1: "win_of (pid_rec p1) = \<lparr>w_time = t, w_id = unat i, w_list = [], w_cap = nat sb\<rparr>"
    using init saved sb circ_alloc_ok [OF sb(1), of "0 :: int"]
    by (auto simp: p1_def packet_id_persist_load_obj_def packet_id_init_def Let_def rec_wf_def
        win_of_def circ_alloc_def split: if_splits)
  have i1: "unat (i + 1) = Suc (unat i)" using unat_Suc_u32 [OF i] .
  have j': "0 < unat j" "unat j \<le> unat i" using j by (simp_all add: word_le_nat_alt unat_gt_0 word_gt_0)
  let ?w1 = "win_of (pid_rec p1)"
  have due1: "win_reap_due now (pid_rec p1) = ?w1" by (rule win_reap_due_Nil) (simp add: w1)
  have no: "win_check now ?w1 \<lparr>n_id = j, n_time = t\<rparr> = (False, ?w1)"
    using j' by (simp add: win_check_def win_test_def w1)
  obtain p2 pers2 where s2: "crypto_check_replay now True (p1, Some pp) \<lparr>n_id = j, n_time = t\<rparr>
      = Some (False, p2, pers2)" "rec_wf (pid_rec p2)" "win_of (pid_rec p2) = ?w1"
    using check_refines [OF wf1, of now True "Some pp" "\<lparr>n_id = j, n_time = t\<rparr>"] by (auto simp: due1 no)
  have due2: "win_reap_due now (pid_rec p2) = ?w1"
    using win_reap_due_Nil [of "pid_rec p2"] by (simp add: s2(3) w1)
  let ?w3 = "win_add now ?w1 t (Suc (unat i))"
  have yes: "win_check now ?w1 \<lparr>n_id = i + 1, n_time = t\<rparr> = (True, ?w3)"
    by (simp add: win_check_def win_test_def w1 i1)
  obtain p3 pers3 where s3: "crypto_check_replay now True (p2, pers2) \<lparr>n_id = i + 1, n_time = t\<rparr>
      = Some (True, p3, pers3)" "rec_wf (pid_rec p3)" "win_of (pid_rec p3) = ?w3"
    "r_last_reap (pid_rec p3) = now \<or> now < r_last_reap (pid_rec p3) + SEQ_REAP_INTERVAL"
    using check_refines [OF s2(2), of now True pers2 "\<lparr>n_id = i + 1, n_time = t\<rparr>"]
    by (auto simp: due2 yes)
  have due3: "win_reap_due now (pid_rec p3) = ?w3"
    using win_reap_due_recent [OF s3(4)] by (simp add: s3(3))
  have "win_test ?w3 t (unat j)"
    using j' j(3) now by (intro win_add_restarted) (auto simp: w1)
  then have again: "fst (win_check now ?w3 \<lparr>n_id = j, n_time = t\<rparr>) = True"
    by (simp add: win_check_def)
  obtain st4 where "crypto_check_replay now True (p3, pers3) \<lparr>n_id = j, n_time = t\<rparr> = Some (True, st4)"
    using check_refines [OF s3(2), of now True pers3 "\<lparr>n_id = j, n_time = t\<rparr>"] by (auto simp: due3 again)
  with s2(1) s3(1) show ?thesis by blast
qed

theorem replay_persist_reopens_window_witness:
  "\<exists>pp st2 st3 st4.
      crypto_check_replay 2000 True (packet_id_persist_load_obj (Some pp)
         (the (packet_id_init 64 15 ''TLS'' 0)), Some pp) \<lparr>n_id = 9, n_time = 1000\<rparr> = Some (False, st2)
    \<and> crypto_check_replay 2000 True st2 \<lparr>n_id = 10 + 1, n_time = 1000\<rparr> = Some (True, st3)
    \<and> crypto_check_replay 2000 True st3 \<lparr>n_id = 9, n_time = 1000\<rparr> = Some (True, st4)"
proof
  let ?pp = "\<lparr>pp_filename = Some ''f'', pp_fd = 3, pp_time = 1000, pp_id = 10,
              pp_time_last_written = 1000, pp_id_last_written = 10\<rparr>"
  show "\<exists>st2 st3 st4.
      crypto_check_replay 2000 True (packet_id_persist_load_obj (Some ?pp)
         (the (packet_id_init 64 15 ''TLS'' 0)), Some ?pp) \<lparr>n_id = 9, n_time = 1000\<rparr> = Some (False, st2)
    \<and> crypto_check_replay 2000 True st2 \<lparr>n_id = 10 + 1, n_time = 1000\<rparr> = Some (True, st3)
    \<and> crypto_check_replay 2000 True st3 \<lparr>n_id = 9, n_time = 1000\<rparr> = Some (True, st4)"
    by (rule replay_persist_reopens_window [where sb = 64 and tb = 15 and name = "''TLS''" and unit = 0])
      (simp_all add: packet_id_init_def MIN_SEQ_BACKTRACK_def MAX_SEQ_BACKTRACK_def
      MIN_TIME_BACKTRACK_def MAX_TIME_BACKTRACK_def Let_def packet_id_persist_enabled_def)
qed



text \<open>
  A packet id prepended to a packet with enough head room is read back as the number just
  handed out and, in long form, its time stamp modulo \<open>2 ^ 32\<close>; what follows it is the packet.
\<close>

theorem packet_id_write_read:
  assumes "buf_wf b" "packet_id_size lf \<le> b_offset b"
    and "packet_id_send_update now q lf = (True, p)"
  shows "\<exists>b1 b2. packet_id_write now q b lf True = (True, p, b1)
    \<and> packet_id_read b1 lf =
        (True, \<lparr>n_id = s_id p, n_time = (if lf then s_time p mod 2 ^ 32 else 0)\<rparr>, b2)
    \<and> buf_wf b2 \<and> buf_bytes b2 = buf_bytes b"
  using packet_id_write_prepend [OF assms] packet_id_read_wire [of _ p lf "buf_bytes b"] by metis

theorem packet_id_write_read_witness:
  "\<exists>b1 b2. packet_id_write 100 \<lparr>s_id = 4, s_time = 0\<rparr>
      \<lparr>b_capacity = 20, b_offset = 10, b_len = 2, b_data = Some (replicate 20 7)\<rparr> True True
      = (True, \<lparr>s_id = 4 + 1, s_time = 100\<rparr>, b1)
    \<and> packet_id_read b1 True = (True, \<lparr>n_id = 5, n_time = 100\<rparr>, b2)
    \<and> buf_wf b2 \<and> buf_bytes b2 = buf_bytes \<lparr>b_capacity = 20, b_offset = 10, b_len = 2,
                                             b_data = Some (replicate 20 7)\<rparr>"
  using packet_id_write_read [where lf = True and now = 100 and q = "\<lparr>s_id = 4, s_time = 0\<rparr>"
      and p = "\<lparr>s_id = 4 + 1, s_time = 100\<rparr>"
      and b = "\<lparr>b_capacity = 20, b_offset = 10, b_len = 2, b_data = Some (replicate 20 7)\<rparr>"]
  by (simp add: buf_wf_def BUF_SIZE_MAX_def packet_id_size_def packet_id_send_update_def PACKET_ID_MAX_def)

end
