(* ===== verification/ReliableAck.thy ===== *)
theory ReliableAck
  imports Buffer CircList
begin

text \<open>
  Acknowledgement records: \<open>struct session_id\<close> of \<open>session_id.h\<close> and the \<open>reliable_ack\<close>
  operations of \<open>reliable.c\<close>. A record holds up to \<open>RELIABLE_ACK_SIZE\<close> packet numbers; a
  second record of the same type keeps the numbers most recently acknowledged, which are
  sent again with later packets. The abstraction \<open>acks\<close> of a record is the list of its first
  \<open>len\<close> numbers. The array of a record has a fixed length; an index outside it is excluded by
  \<open>ack_wf\<close>, which every operation keeps.
\<close>

section \<open>Session identifiers\<close>

record session_id =
  sid_id :: "u8 list"

definition SID_SIZE :: int where
  "SID_SIZE = 8"

definition x_session_id_zero :: session_id where
  "x_session_id_zero = \<lparr>sid_id = replicate 8 0\<rparr>"

definition session_id_equal :: "session_id \<Rightarrow> session_id \<Rightarrow> bool" where
  "session_id_equal sid1 sid2 = (sid_id sid1 = sid_id sid2)"

definition session_id_defined :: "session_id \<Rightarrow> bool" where
  "session_id_defined sid1 = (sid_id sid1 \<noteq> sid_id x_session_id_zero)"

definition session_id_read :: "session_id \<Rightarrow> buffer \<Rightarrow> bool \<times> session_id \<times> buffer" where
  "session_id_read sid b =
     (case buf_read b SID_SIZE of
        (None, b') \<Rightarrow> (False, sid, b')
      | (Some bs, b') \<Rightarrow> (True, sid\<lparr>sid_id := bs\<rparr>, b'))"

definition session_id_write_prepend :: "session_id \<Rightarrow> buffer \<Rightarrow> bool \<times> buffer" where
  "session_id_write_prepend sid b = buf_write_prepend b (sid_id sid)"

definition session_id_write :: "session_id \<Rightarrow> buffer \<Rightarrow> bool \<times> buffer" where
  "session_id_write sid b = buf_write b (sid_id sid)"

definition sid_wf :: "session_id \<Rightarrow> bool" where
  "sid_wf sid \<longleftrightarrow> length (sid_id sid) = 8"

section \<open>Acknowledgement records\<close>

definition RELIABLE_ACK_SIZE :: int where
  "RELIABLE_ACK_SIZE = 8"

record reliable_ack =
  ra_len :: int
  ra_packet_id :: "u32 list"

definition ACK_SIZE :: "int \<Rightarrow> int" where
  "ACK_SIZE n = 1 + (if n \<noteq> 0 then SID_SIZE else 0) + 4 * n"

definition reliable_ack_empty :: "reliable_ack \<Rightarrow> bool" where
  "reliable_ack_empty ack = (ra_len ack = 0)"

definition reliable_ack_outstanding :: "reliable_ack \<Rightarrow> int" where
  "reliable_ack_outstanding ack = ra_len ack"

definition reliable_ack_packet_id_present :: "reliable_ack \<Rightarrow> u32 \<Rightarrow> bool" where
  "reliable_ack_packet_id_present ack pid = (pid \<in> set (take (nat (ra_len ack)) (ra_packet_id ack)))"

definition reliable_ack_push :: "reliable_ack \<Rightarrow> u32 \<Rightarrow> reliable_ack" where
  "reliable_ack_push ack pid =
     ack\<lparr>ra_packet_id := (ra_packet_id ack)[nat (ra_len ack) := pid], ra_len := ra_len ack + 1\<rparr>"

definition reliable_ack_read_packet_id :: "buffer \<Rightarrow> u32 option \<times> buffer" where
  "reliable_ack_read_packet_id b =
     (case buf_read b 4 of
        (None, b') \<Rightarrow> (None, b')
      | (Some net_pid, b') \<Rightarrow> (Some (u32_of_bytes net_pid), b'))"

definition reliable_ack_acknowledge_packet_id :: "reliable_ack \<Rightarrow> u32 \<Rightarrow> bool \<times> reliable_ack" where
  "reliable_ack_acknowledge_packet_id ack pid =
     (if \<not> reliable_ack_packet_id_present ack pid \<and> ra_len ack < RELIABLE_ACK_SIZE
      then (True, reliable_ack_push ack pid) else (False, ack))"

text \<open>The loop of \<open>reliable_ack_parse\<close> over the \<open>count\<close> numbers of the record.\<close>

fun reliable_ack_parse_loop :: "nat \<Rightarrow> buffer \<Rightarrow> reliable_ack \<Rightarrow> bool \<times> reliable_ack \<times> buffer" where
  "reliable_ack_parse_loop 0 b ack = (True, ack, b)"
| "reliable_ack_parse_loop (Suc n) b ack =
     (case buf_read b 4 of
        (None, b') \<Rightarrow> (False, ack, b')
      | (Some net_pid, b') \<Rightarrow>
          if ra_len ack \<ge> RELIABLE_ACK_SIZE then (False, ack, b')
          else reliable_ack_parse_loop n b' (reliable_ack_push ack (u32_of_bytes net_pid)))"

definition reliable_ack_parse ::
    "buffer \<Rightarrow> reliable_ack \<Rightarrow> session_id \<Rightarrow> bool \<times> reliable_ack \<times> session_id \<times> buffer" where
  "reliable_ack_parse b ack0 sid_remote =
     (let ack = ack0\<lparr>ra_len := 0\<rparr> in
      case buf_read b 1 of
        (None, b1) \<Rightarrow> (False, ack, sid_remote, b1)
      | (Some cs, b1) \<Rightarrow>
          (let count = unat (hd cs) in
           case reliable_ack_parse_loop count b1 ack of
             (False, ack', b2) \<Rightarrow> (False, ack', sid_remote, b2)
           | (True, ack', b2) \<Rightarrow>
               if count \<noteq> 0
               then (case session_id_read sid_remote b2 of
                       (ok, sid', b3) \<Rightarrow> (ok, ack', sid', b3))
               else (True, ack', sid_remote, b2)))"

text \<open>
  In C \<open>session_id_remote\<close> is an uninitialised local: it is read only when the record has an
  entry, and then it has been written. The model starts it at zero.
\<close>

definition reliable_ack_read ::
    "reliable_ack \<Rightarrow> buffer \<Rightarrow> session_id \<Rightarrow> bool \<times> reliable_ack \<times> buffer" where
  "reliable_ack_read ack b sid =
     (case reliable_ack_parse b ack x_session_id_zero of
        (False, ack', _, b') \<Rightarrow> (False, ack', b')
      | (True, ack', sid_remote, b') \<Rightarrow>
          if ra_len ack' \<ge> 1 \<and> (\<not> session_id_defined sid_remote \<or> \<not> session_id_equal sid_remote sid)
          then (False, ack', b') else (True, ack', b'))"

text \<open>
  The inner loop of \<open>copy_acks_to_mru\<close>: entries move one to the right until \<open>pid\<close> is met.
  \<open>j\<close> is the loop index, \<open>move\<close> the entry carried along.
\<close>

function mru_shift :: "u32 \<Rightarrow> int \<Rightarrow> u32 \<Rightarrow> reliable_ack \<Rightarrow> bool \<times> u32 \<times> reliable_ack" where
  "mru_shift pid j move mru =
     (if j < ra_len mru
      then (let tmp = ra_packet_id mru ! nat j;
                mru' = mru\<lparr>ra_packet_id := (ra_packet_id mru)[nat j := move]\<rparr>
            in if tmp = pid then (True, tmp, mru') else mru_shift pid (j + 1) tmp mru')
      else (False, move, mru))"
  by pat_completeness auto
termination by (relation "measure (\<lambda>(pid, j, move, mru). nat (ra_len mru - j))") auto

declare mru_shift.simps [simp del]

definition mru_insert :: "u32 \<Rightarrow> reliable_ack \<Rightarrow> reliable_ack" where
  "mru_insert pid mru0 =
     (let mru = (if ra_len mru0 = 0
                 then mru0\<lparr>ra_len := 1, ra_packet_id := (ra_packet_id mru0)[0 := pid]\<rparr> else mru0)
      in case mru_shift pid 0 pid mru of
           (idfound, move, mru') \<Rightarrow>
             if \<not> idfound \<and> ra_len mru' < RELIABLE_ACK_SIZE
             then mru'\<lparr>ra_packet_id := (ra_packet_id mru')[nat (ra_len mru') := move],
                       ra_len := ra_len mru' + 1\<rparr>
             else mru')"

text \<open>The loop runs backward over the first \<open>n\<close> numbers.\<close>

definition copy_acks_to_mru :: "reliable_ack \<Rightarrow> reliable_ack \<Rightarrow> int \<Rightarrow> reliable_ack option" where
  "copy_acks_to_mru ack mru n =
     (if ra_len ack < n then None
      else Some (foldr mru_insert (take (nat n) (ra_packet_id ack)) mru))"

fun reliable_ack_write_ids :: "u32 list \<Rightarrow> buffer \<Rightarrow> buffer option" where
  "reliable_ack_write_ids [] sub = Some sub"
| "reliable_ack_write_ids (pid # pids) sub =
     (case buf_write sub (u32_bytes pid) of
        (False, _) \<Rightarrow> None
      | (True, sub') \<Rightarrow> reliable_ack_write_ids pids sub')"

text \<open>The record in the sub-buffer: count, numbers and, if there is any, the session id.\<close>

definition reliable_ack_write_sub ::
    "u8 \<Rightarrow> reliable_ack \<Rightarrow> session_id \<Rightarrow> buffer \<Rightarrow> buffer option" where
  "reliable_ack_write_sub total_acks mru sid sub =
     (case buf_write_u8 sub total_acks of
        (False, _) \<Rightarrow> None
      | (True, sub1) \<Rightarrow>
          (case reliable_ack_write_ids (take (unat total_acks) (ra_packet_id mru)) sub1 of
             None \<Rightarrow> None
           | Some sub2 \<Rightarrow>
               if total_acks \<noteq> 0
               then if \<not> session_id_defined sid then None
                    else (case session_id_write sid sub2 of
                            (False, _) \<Rightarrow> None
                          | (True, sub3) \<Rightarrow> Some sub3)
               else Some sub2))"

text \<open>
  The entries that were sent leave the record: the rest moves to the front of the array, whose
  tail keeps its old content.
\<close>

definition reliable_ack_drop :: "reliable_ack \<Rightarrow> nat \<Rightarrow> reliable_ack" where
  "reliable_ack_drop ack n =
     (if n \<noteq> 0
      then (let rest = drop n (take (nat (ra_len ack)) (ra_packet_id ack))
            in ack\<lparr>ra_packet_id := rest @ drop (length rest) (ra_packet_id ack),
                   ra_len := int (length rest)\<rparr>)
      else ack)"

definition reliable_ack_write ::
    "reliable_ack \<Rightarrow> reliable_ack \<Rightarrow> buffer \<Rightarrow> session_id \<Rightarrow> int \<Rightarrow> bool
     \<Rightarrow> (bool \<times> reliable_ack \<times> reliable_ack \<times> buffer) option" where
  "reliable_ack_write ack mru b sid max_acks prepend =
     (let n0 = word_of_int (ra_len ack) :: u8;
          n = (if uint n0 > max_acks then word_of_int max_acks else n0)
      in case copy_acks_to_mru ack mru (uint n) of
           None \<Rightarrow> None
         | Some mru' \<Rightarrow>
             (let total_acks = word_of_int (min_int max_acks (ra_len mru')) :: u8
              in case buf_sub b (ACK_SIZE (uint total_acks)) prepend of
                   (sub, i, b') \<Rightarrow>
                     if \<not> buf_defined sub then Some (False, ack, mru', b')
                     else (case reliable_ack_write_sub total_acks mru' sid sub of
                             None \<Rightarrow> None
                           | Some sub' \<Rightarrow> Some (True, reliable_ack_drop ack (unat n), mru',
                                                 buf_sub_flush b' i sub'))))"


section \<open>The list a record stands for\<close>

definition ack_wf :: "reliable_ack \<Rightarrow> bool" where
  "ack_wf a \<longleftrightarrow> 0 \<le> ra_len a \<and> ra_len a \<le> 8 \<and> length (ra_packet_id a) = 8"

definition acks :: "reliable_ack \<Rightarrow> u32 list" where
  "acks a = take (nat (ra_len a)) (ra_packet_id a)"

lemma length_acks [simp]: "ack_wf a \<Longrightarrow> length (acks a) = nat (ra_len a)"
  by (auto simp: ack_wf_def acks_def)

lemma int_length_acks: "ack_wf a \<Longrightarrow> int (length (acks a)) = ra_len a"
  by (auto simp: ack_wf_def acks_def)

lemma acks_bound: "ack_wf a \<Longrightarrow> length (acks a) \<le> 8"
  by (auto simp: ack_wf_def acks_def)

lemma reliable_ack_push_acks:
  assumes "ack_wf a" "ra_len a < 8"
  shows "ack_wf (reliable_ack_push a pid)" "acks (reliable_ack_push a pid) = acks a @ [pid]"
proof -
  have n: "nat (ra_len a + 1) = Suc (nat (ra_len a))" "nat (ra_len a) < length (ra_packet_id a)"
    using assms by (auto simp: ack_wf_def)
  then show "acks (reliable_ack_push a pid) = acks a @ [pid]"
    by (simp add: acks_def reliable_ack_push_def take_Suc_conv_app_nth)
  show "ack_wf (reliable_ack_push a pid)"
    using assms by (simp add: ack_wf_def reliable_ack_push_def)
qed

lemma acknowledge_acks:
  assumes "ack_wf a"
  shows "ack_wf (snd (reliable_ack_acknowledge_packet_id a pid))"
    and "acks (snd (reliable_ack_acknowledge_packet_id a pid))
       = (if pid \<notin> set (acks a) \<and> length (acks a) < 8 then acks a @ [pid] else acks a)"
  using assms reliable_ack_push_acks [OF assms, of pid] int_length_acks [OF assms]
  by (auto simp: reliable_ack_acknowledge_packet_id_def reliable_ack_packet_id_present_def
      RELIABLE_ACK_SIZE_def acks_def [symmetric])

lemma acknowledge_distinct:
  "ack_wf a \<Longrightarrow> distinct (acks a) \<Longrightarrow> distinct (acks (snd (reliable_ack_acknowledge_packet_id a pid)))"
  by (simp add: acknowledge_acks)

subsection \<open>Parsing\<close>

definition ack_ids_bytes :: "u32 list \<Rightarrow> u8 list" where
  "ack_ids_bytes ids = concat (map u32_bytes ids)"

lemma length_ack_ids_bytes [simp]: "length (ack_ids_bytes ids) = 4 * length ids"
  by (induction ids) (auto simp: ack_ids_bytes_def)

lemma parse_loop_ok:
  "buf_wf b \<Longrightarrow> ack_wf a \<Longrightarrow> buf_bytes b = ack_ids_bytes ids @ rest \<Longrightarrow>
   ra_len a + int (length ids) \<le> 8 \<Longrightarrow>
   \<exists>a' b'. reliable_ack_parse_loop (length ids) b a = (True, a', b') \<and> ack_wf a'
     \<and> acks a' = acks a @ ids \<and> buf_wf b' \<and> buf_bytes b' = rest"
proof (induction ids arbitrary: a b)
  case Nil
  then show ?case by (simp add: ack_ids_bytes_def)
next
  case (Cons pid ids)
  have bytes: "buf_bytes b = u32_bytes pid @ (ack_ids_bytes ids @ rest)"
    using Cons.prems(3) by (simp add: ack_ids_bytes_def)
  obtain b1 where b1: "buf_read b 4 = (Some (u32_bytes pid), b1)" "buf_wf b1"
    "buf_bytes b1 = ack_ids_bytes ids @ rest"
    using buf_in.rd_prefix [OF Cons.prems(1) bytes] by auto
  have lt: "ra_len a < 8" using Cons.prems(4) by simp
  have "ra_len (reliable_ack_push a pid) + int (length ids) \<le> 8"
    using Cons.prems(4) by (simp add: reliable_ack_push_def)
  with Cons.IH [OF b1(2) reliable_ack_push_acks(1) [OF Cons.prems(2) lt] b1(3), of pid]
    reliable_ack_push_acks(2) [OF Cons.prems(2) lt, of pid] b1(1) lt
  show ?case by (auto simp: RELIABLE_ACK_SIZE_def)
qed

lemma parse_loop_wf:
  "buf_wf b \<Longrightarrow> ack_wf a \<Longrightarrow> reliable_ack_parse_loop n b a = (ok, a', b') \<Longrightarrow> ack_wf a' \<and> buf_wf b'"
proof (induction n arbitrary: a b)
  case (Suc n)
  have "0 \<le> (4 :: int)" by simp
  with Suc.prems(1) show ?case
  proof (cases rule: buf_read_cases)
    case short
    then show ?thesis using Suc.prems by auto
  next
    case (ok xs b1)
    then show ?thesis
      using Suc.prems Suc.IH [of b1 "reliable_ack_push a (u32_of_bytes xs)"] reliable_ack_push_acks(1) [of a]
      by (auto simp: RELIABLE_ACK_SIZE_def split: if_splits)
  qed
qed auto

text \<open>The bytes of a record with the given numbers.\<close>

definition ack_record_bytes :: "u32 list \<Rightarrow> session_id \<Rightarrow> u8 list" where
  "ack_record_bytes ids sid = word_of_nat (length ids) # ack_ids_bytes ids
     @ (if ids = [] then [] else sid_id sid)"

lemma length_ack_record_bytes:
  "sid_wf sid \<Longrightarrow> int (length (ack_record_bytes ids sid)) = ACK_SIZE (int (length ids))"
  by (auto simp: ack_record_bytes_def ACK_SIZE_def SID_SIZE_def sid_wf_def)

lemma unat_u8_of_nat: "n < 256 \<Longrightarrow> unat (word_of_nat n :: u8) = n"
  by (simp add: unat_of_nat)

lemma reliable_ack_parse_ok:
  assumes b: "buf_wf b" "buf_bytes b = ack_record_bytes ids sid @ rest"
    and a: "length (ra_packet_id a) = 8" and n: "length ids \<le> 8" and sid: "sid_wf sid"
  shows "\<exists>a' b'. reliable_ack_parse b a x_session_id_zero
      = (True, a', if ids = [] then x_session_id_zero else sid, b')
      \<and> ack_wf a' \<and> acks a' = ids \<and> buf_wf b' \<and> buf_bytes b' = rest"
proof -
  let ?a = "a\<lparr>ra_len := 0\<rparr>"
  have a0: "ack_wf ?a" "acks ?a = []" using a by (auto simp: ack_wf_def acks_def)
  let ?t = "if ids = [] then [] else sid_id sid"
  obtain b1 where b1: "buf_read b 1 = (Some [word_of_nat (length ids)], b1)" "buf_wf b1"
    "buf_bytes b1 = ack_ids_bytes ids @ ?t @ rest"
    using buf_in.rd_prefix [OF b(1), of "[word_of_nat (length ids)]"] b(2)
    by (auto simp: ack_record_bytes_def)
  obtain a' b2 where p: "reliable_ack_parse_loop (length ids) b1 ?a = (True, a', b2)" "ack_wf a'"
    "acks a' = ids" "buf_wf b2" "buf_bytes b2 = ?t @ rest"
    using parse_loop_ok [OF b1(2) a0(1) b1(3)] n a0 by auto
  have cnt: "unat (word_of_nat (length ids) :: u8) = length ids"
    using n by (intro unat_u8_of_nat) simp
  show ?thesis
  proof (cases "ids = []")
    case True
    with b1 p cnt show ?thesis by (auto simp: reliable_ack_parse_def)
  next
    case False
    have "buf_bytes b2 = sid_id sid @ rest" using p(5) False by simp
    then obtain b3 where "buf_read b2 8 = (Some (sid_id sid), b3)" "buf_wf b3" "buf_bytes b3 = rest"
      using buf_in.rd_prefix [OF p(4), of "sid_id sid" rest] sid by (auto simp: sid_wf_def)
    with b1 p cnt False show ?thesis
      by (auto simp: reliable_ack_parse_def session_id_read_def SID_SIZE_def)
  qed
qed

lemma reliable_ack_parse_wf:
  assumes "buf_wf b" "length (ra_packet_id a) = 8" "reliable_ack_parse b a sid = (ok, a', sid', b')"
  shows "ack_wf a'" and "buf_wf b'"
proof -
  have a0: "ack_wf (a\<lparr>ra_len := 0\<rparr>)" using assms(2) by (simp add: ack_wf_def)
  have "ack_wf a' \<and> buf_wf b'"
    using assms(1) zero_le_one
  proof (cases rule: buf_read_cases)
    case short
    then show ?thesis using assms a0 by (auto simp: reliable_ack_parse_def)
  next
    case (ok xs b1)
    obtain r a2 b2 where l: "reliable_ack_parse_loop (unat (hd xs)) b1 (a\<lparr>ra_len := 0\<rparr>) = (r, a2, b2)"
      by (cases "reliable_ack_parse_loop (unat (hd xs)) b1 (a\<lparr>ra_len := 0\<rparr>)") auto
    have wf: "ack_wf a2" "buf_wf b2" using parse_loop_wf [OF ok(2) a0 l] by auto
    obtain r3 s3 b3 where rd: "session_id_read sid b2 = (r3, s3, b3)"
      by (cases "session_id_read sid b2") auto
    have wf3: "buf_wf b3"
      using buf_read_wf [OF wf(2), of 8] rd
      by (auto simp: session_id_read_def SID_SIZE_def split: prod.splits option.splits)
    have "reliable_ack_parse b a sid = (if \<not> r then (False, a2, sid, b2)
        else if unat (hd xs) \<noteq> 0 then (r3, a2, s3, b3) else (True, a2, sid, b2))"
      using ok(1) l rd by (simp add: reliable_ack_parse_def)
    with assms(3) wf wf3 show ?thesis by (auto split: if_splits)
  qed
  then show "ack_wf a'" "buf_wf b'" by auto
qed

subsection \<open>The most recently acknowledged numbers\<close>

lemma mru_shift_ok:
  "ack_wf mru \<Longrightarrow> 0 \<le> j \<Longrightarrow> j \<le> ra_len mru \<Longrightarrow>
   \<exists>found m mru'. mru_shift pid j move mru = (found, m, mru') \<and> ack_wf mru' \<and> ra_len mru' = ra_len mru
     \<and> found = (pid \<in> set (drop (nat j) (acks mru)))
     \<and> acks mru' @ (if found then [] else [m])
        = take (nat j) (acks mru) @ move # (remove1 pid (drop (nat j) (acks mru)))"
proof (induction "nat (ra_len mru - j)" arbitrary: j move mru)
  case 0
  then have "j = ra_len mru" by simp
  with 0 show ?case by (subst mru_shift.simps) auto
next
  case (Suc n)
  then have j: "j < ra_len mru" by simp
  let ?L = "acks mru"
  let ?tmp = "ra_packet_id mru ! nat j"
  let ?mru = "mru\<lparr>ra_packet_id := (ra_packet_id mru)[nat j := move]\<rparr>"
  have jn: "nat j < length ?L" using j Suc.prems by (simp add: nat_less_eq_zless)
  have tmp: "?tmp = ?L ! nat j" using j Suc.prems by (simp add: acks_def nat_less_eq_zless)
  have wf: "ack_wf ?mru" and len: "ra_len ?mru = ra_len mru"
    using Suc.prems by (auto simp: ack_wf_def)
  have ack: "acks ?mru = ?L[nat j := move]" by (simp add: acks_def take_update_swap)
  have dr: "drop (nat j) ?L = ?tmp # drop (Suc (nat j)) ?L"
    using jn by (simp add: tmp Cons_nth_drop_Suc)
  have upd: "?L[nat j := move] = take (nat j) ?L @ move # drop (Suc (nat j)) ?L"
    using jn by (rule upd_conv_take_nth_drop)
  show ?case
  proof (cases "?tmp = pid")
    case True
    with j have "mru_shift pid j move mru = (True, ?tmp, ?mru)"
      by (subst mru_shift.simps) (simp add: Let_def)
    with wf ack dr upd True show ?thesis by auto
  next
    case False
    have step: "mru_shift pid j move mru = mru_shift pid (j + 1) ?tmp ?mru"
      using j False by (subst mru_shift.simps) (simp add: Let_def)
    have "\<exists>found m mru'. mru_shift pid (j + 1) ?tmp ?mru = (found, m, mru') \<and> ack_wf mru'
     \<and> ra_len mru' = ra_len ?mru
     \<and> found = (pid \<in> set (drop (nat (j + 1)) (acks ?mru)))
     \<and> acks mru' @ (if found then [] else [m])
        = take (nat (j + 1)) (acks ?mru) @ ?tmp # (remove1 pid (drop (nat (j + 1)) (acks ?mru)))"
      using Suc.hyps(2) Suc.prems j wf by (intro Suc.hyps(1)) auto
    moreover have n: "nat (j + 1) = Suc (nat j)" using Suc.prems by simp
    moreover have "take (Suc (nat j)) (acks ?mru) = take (nat j) ?L @ [move]"
      using jn by (simp add: ack upd min_def)
    moreover have "drop (Suc (nat j)) (acks ?mru) = drop (Suc (nat j)) ?L"
      by (simp add: ack)
    ultimately show ?thesis using False dr by (simp add: step)
  qed
qed

lemma mru_insert_acks:
  assumes wf: "ack_wf mru"
  shows "ack_wf (mru_insert pid mru)" "acks (mru_insert pid mru) = take 8 (pid # remove1 pid (acks mru))"
proof -
  let ?m0 = "if ra_len mru = 0
             then mru\<lparr>ra_len := 1, ra_packet_id := (ra_packet_id mru)[0 := pid]\<rparr> else mru"
  have m0: "ack_wf ?m0" "acks ?m0 = (if ra_len mru = 0 then [pid] else acks mru)"
    using wf by (cases "ra_packet_id mru"; auto simp: ack_wf_def acks_def)+
  then obtain found m mru' where sh: "mru_shift pid 0 pid ?m0 = (found, m, mru')" "ack_wf mru'"
    "ra_len mru' = ra_len ?m0" "found = (pid \<in> set (acks ?m0))"
    "acks mru' @ (if found then [] else [m]) = pid # remove1 pid (acks ?m0)"
    using mru_shift_ok [OF m0(1), of 0 pid pid] by (auto simp: ack_wf_def)
  have ins: "mru_insert pid mru = (if \<not> found \<and> ra_len mru' < 8 then reliable_ack_push mru' m else mru')"
    using sh(1) by (simp add: mru_insert_def Let_def RELIABLE_ACK_SIZE_def reliable_ack_push_def)
  then show "ack_wf (mru_insert pid mru)"
    using sh(2) reliable_ack_push_acks by auto
  have z: "ra_len mru = 0 \<Longrightarrow> acks mru = []" by (simp add: acks_def)
  have le: "length (acks mru') \<le> 8" by (rule acks_bound [OF sh(2)])
  have r: "pid # remove1 pid (acks ?m0) = pid # remove1 pid (acks mru)"
    using m0(2) z by (auto split: if_splits)
  show "acks (mru_insert pid mru) = take 8 (pid # remove1 pid (acks mru))"
  proof (cases "\<not> found \<and> ra_len mru' < 8")
    case True
    then have "acks (mru_insert pid mru) = acks mru' @ [m]" and "length (acks mru') < 8"
      using ins reliable_ack_push_acks(2) [OF sh(2)] sh(2) by (auto simp: ack_wf_def)
    with True sh(5) r show ?thesis by (metis length_append_singleton Suc_leI take_all_iff)
  next
    case False
    then have eq: "acks (mru_insert pid mru) = acks mru'" using ins by auto
    show ?thesis
    proof (cases found)
      case True
      with sh(5) r le eq show ?thesis by simp
    next
      case nf: False
      then have "length (acks mru') = 8" using False sh(2) by (auto simp: ack_wf_def)
      with nf sh(5) r eq show ?thesis by (metis append_eq_conv_conj)
    qed
  qed
qed

lemma take_remove1_take: "take n (remove1 x (take (Suc n) xs)) = take n (remove1 x xs)"
  by (induction xs arbitrary: n) (auto simp: take_Cons split: nat.splits)

text \<open>
  Copying a list of distinct numbers puts them at the front, in order, followed by the older
  entries that are not among them, as far as there is room.
\<close>

lemma foldr_mru_insert:
  assumes "ack_wf mru" "distinct (acks mru)"
  shows "ack_wf (foldr mru_insert ids mru) \<and> distinct (acks (foldr mru_insert ids mru))
    \<and> set (acks (foldr mru_insert ids mru)) \<subseteq> set ids \<union> set (acks mru)
    \<and> (distinct ids \<longrightarrow> length ids \<le> 8 \<longrightarrow>
        acks (foldr mru_insert ids mru) = take 8 (ids @ filter (\<lambda>x. x \<notin> set ids) (acks mru)))"
proof (induction ids)
  case Nil
  then show ?case using assms acks_bound [OF assms(1)] by simp
next
  case (Cons pid ids)
  let ?m = "foldr mru_insert ids mru"
  have wf: "ack_wf ?m" and d: "distinct (acks ?m)" and sub: "set (acks ?m) \<subseteq> set ids \<union> set (acks mru)"
    using Cons.IH by auto
  note i = mru_insert_acks [OF wf, of pid]
  have "acks (foldr mru_insert (pid # ids) mru)
      = take 8 ((pid # ids) @ filter (\<lambda>x. x \<notin> set (pid # ids)) (acks mru))"
    if "distinct (pid # ids)" "length (pid # ids) \<le> 8"
  proof -
    let ?F = "filter (\<lambda>x. x \<notin> set ids) (acks mru)"
    have eq: "acks ?m = ids @ take (8 - length ids) ?F" using Cons.IH that by simp
    have dF: "distinct ?F" using assms(2) by simp
    have "remove1 pid (acks ?m) = ids @ remove1 pid (take (8 - length ids) ?F)"
      using that by (simp add: eq remove1_append)
    moreover have "remove1 pid ?F = filter (\<lambda>x. x \<notin> set (pid # ids)) (acks mru)"
      using dF by (subst distinct_remove1_removeAll)
        (auto simp: removeAll_filter_not_eq intro!: filter_cong)
    moreover have "take (7 - length ids) (remove1 pid (take (Suc (7 - length ids)) ?F))
        = take (7 - length ids) (remove1 pid ?F)" for F :: "u32 list"
      by (rule take_remove1_take)
    moreover have "8 - length ids = Suc (7 - length ids)" using that by simp
    ultimately show ?thesis using that(2) by (simp add: i(2) del: filter_filter)
  qed
  moreover have "set (acks (mru_insert pid ?m)) \<subseteq> set (pid # ids) \<union> set (acks mru)"
  proof -
    have "set (acks (mru_insert pid ?m)) \<subseteq> insert pid (set (remove1 pid (acks ?m)))"
      unfolding i(2) using set_take_subset by fastforce
    also have "\<dots> \<subseteq> set (pid # ids) \<union> set (acks mru)"
      using sub set_remove1_subset [of pid "acks ?m"] by auto
    finally show ?thesis .
  qed
  moreover have "distinct (acks (mru_insert pid ?m))"
    unfolding i(2) using d by (intro distinct_take) simp
  ultimately show ?case using i(1) by simp
qed

subsection \<open>Writing\<close>

definition same_frame :: "buffer \<Rightarrow> buffer \<Rightarrow> bool" where
  "same_frame a b \<longleftrightarrow> b_offset a = b_offset b \<and> b_capacity a = b_capacity b"

lemma write_ok:
  assumes "buf_wf b" "int (length bs) \<le> buf_tailroom b"
  shows "\<exists>b'. buf_write b bs = (True, b') \<and> buf_wf b' \<and> buf_bytes b' = buf_bytes b @ bs
    \<and> buf_tailroom b' = buf_tailroom b - int (length bs) \<and> same_frame b' b"
  using assms by (simp add: buf_simps same_frame_def)

lemma write_ids_ok:
  "buf_wf b \<Longrightarrow> 4 * int (length ids) \<le> buf_tailroom b \<Longrightarrow>
   \<exists>b'. reliable_ack_write_ids ids b = Some b' \<and> buf_wf b'
     \<and> buf_bytes b' = buf_bytes b @ ack_ids_bytes ids
     \<and> buf_tailroom b' = buf_tailroom b - 4 * int (length ids) \<and> same_frame b' b"
proof (induction ids arbitrary: b)
  case Nil
  then show ?case by (simp add: ack_ids_bytes_def same_frame_def)
next
  case (Cons pid ids)
  obtain b1 where b1: "buf_write b (u32_bytes pid) = (True, b1)" "buf_wf b1"
    "buf_bytes b1 = buf_bytes b @ u32_bytes pid" "buf_tailroom b1 = buf_tailroom b - 4" "same_frame b1 b"
    using write_ok [OF Cons.prems(1), of "u32_bytes pid"] Cons.prems(2) by auto
  with Cons.IH [OF b1(2)] Cons.prems(2) show ?case
    by (auto simp: ack_ids_bytes_def same_frame_def)
qed

lemma write_sub_ok:
  assumes sub: "buf_wf sub" "b_offset sub = 0" "b_len sub = 0" "b_capacity sub = ACK_SIZE (int (length ids))"
    and ids: "ids = take (length ids) (ra_packet_id mru)" "length ids \<le> 8"
    and sid: "sid_wf sid" "session_id_defined sid"
  shows "\<exists>sub'. reliable_ack_write_sub (word_of_nat (length ids)) mru sid sub = Some sub'
    \<and> buf_wf sub' \<and> b_capacity sub' = ACK_SIZE (int (length ids)) \<and> buf_mem sub' = ack_record_bytes ids sid"
proof -
  let ?n = "length ids"
  have n: "unat (word_of_nat ?n :: u8) = ?n" using ids(2) by (intro unat_u8_of_nat) simp
  have sid8: "length (sid_id sid) = 8" using sid by (simp add: sid_wf_def)
  have room: "buf_tailroom sub = 1 + (if ids = [] then 0 else 8) + 4 * int ?n" and e: "buf_bytes sub = []"
    using sub length_buf_bytes [OF sub(1)] by (auto simp: buf_tailroom_def ACK_SIZE_def SID_SIZE_def)
  obtain s1 where s1: "buf_write sub [word_of_nat ?n] = (True, s1)" "buf_wf s1"
    "buf_bytes s1 = [word_of_nat ?n]" "buf_tailroom s1 = buf_tailroom sub - 1" "same_frame s1 sub"
    using write_ok [OF sub(1), of "[word_of_nat ?n]"] room e by auto
  obtain s2 where s2: "reliable_ack_write_ids ids s1 = Some s2" "buf_wf s2"
    "buf_bytes s2 = word_of_nat ?n # ack_ids_bytes ids"
    "buf_tailroom s2 = (if ids = [] then 0 else 8)" "same_frame s2 s1"
    using write_ids_ok [OF s1(2), of ids] s1(3,4) room by (cases "ids = []") auto
  have "\<exists>s3. (if (word_of_nat ?n :: u8) \<noteq> 0
               then if \<not> session_id_defined sid then None
                    else (case session_id_write sid s2 of
                            (False, _) \<Rightarrow> None
                          | (True, sub3) \<Rightarrow> Some sub3)
               else Some s2) = Some s3 \<and> buf_wf s3 \<and> same_frame s3 s2
           \<and> buf_bytes s3 = ack_record_bytes ids sid"
  proof (cases "ids = []")
    case True
    with s2 show ?thesis by (simp add: ack_record_bytes_def same_frame_def)
  next
    case False
    then have "(word_of_nat ?n :: u8) \<noteq> 0" using n by (metis length_0_conv unat_0)
    moreover obtain s3 where "buf_write s2 (sid_id sid) = (True, s3)" "buf_wf s3" "same_frame s3 s2"
      "buf_bytes s3 = word_of_nat ?n # ack_ids_bytes ids @ sid_id sid"
      using write_ok [OF s2(2), of "sid_id sid"] s2(3,4) False sid8 by auto
    ultimately show ?thesis
      using sid(2) False by (simp add: session_id_write_def ack_record_bytes_def)
  qed
  then obtain s3 where s3: "reliable_ack_write_sub (word_of_nat ?n) mru sid sub = Some s3" "buf_wf s3"
    "same_frame s3 s2" "buf_bytes s3 = ack_record_bytes ids sid"
    using s1(1) s2(1) ids(1) n by (auto simp: reliable_ack_write_sub_def buf_write_u8_def)
  have f: "b_offset s3 = 0" "b_capacity s3 = ACK_SIZE (int ?n)"
    using s1(5) s2(5) s3(3) sub by (auto simp: same_frame_def)
  have "int (length (buf_bytes s3)) = b_len s3" by (rule length_buf_bytes_int [OF s3(2)])
  then have "b_len s3 = b_capacity s3"
    using length_ack_record_bytes [OF sid(1), of ids] by (simp add: s3(4) f(2))
  then have "buf_mem s3 = ack_record_bytes ids sid"
    using buf_full_mem [OF s3(2) f(1)] s3(4) by simp
  with s3 f show ?thesis by blast
qed

lemma reliable_ack_drop_acks:
  assumes "ack_wf a"
  shows "ack_wf (reliable_ack_drop a n)" "acks (reliable_ack_drop a n) = drop n (acks a)"
  using assms by (auto simp: reliable_ack_drop_def ack_wf_def acks_def Let_def)

text \<open>What \<open>reliable_ack_write\<close> puts into the packet and leaves in the two records.\<close>

definition ack_sent :: "reliable_ack \<Rightarrow> int \<Rightarrow> nat" where
  "ack_sent ack m = min (length (acks ack)) (nat m)"

definition ack_mru_after :: "reliable_ack \<Rightarrow> reliable_ack \<Rightarrow> int \<Rightarrow> u32 list" where
  "ack_mru_after ack mru m = (let out = take (ack_sent ack m) (acks ack)
     in take 8 (out @ filter (\<lambda>x. x \<notin> set out) (acks mru)))"

lemma int_min_nat: "int a = r \<Longrightarrow> 0 \<le> m \<Longrightarrow> int (min a (nat m)) = min_int m r"
  by (auto simp: min_int_def min_def)

lemma reliable_ack_write_ok:
  assumes ack: "ack_wf ack" "distinct (acks ack)" and mru: "ack_wf mru" "distinct (acks mru)"
    and sid: "sid_wf sid" "session_id_defined sid" and m: "0 \<le> m" "m \<le> 8" and b: "buf_wf b"
  defines "ids \<equiv> take (nat m) (ack_mru_after ack mru m)"
  assumes room: "ACK_SIZE (int (length ids)) \<le> (if prepend then b_offset b else buf_tailroom b)"
  shows "\<exists>ack' mru' b'. reliable_ack_write ack mru b sid m prepend = Some (True, ack', mru', b')
    \<and> ack_wf ack' \<and> acks ack' = drop (ack_sent ack m) (acks ack)
    \<and> ack_wf mru' \<and> distinct (acks mru') \<and> acks mru' = ack_mru_after ack mru m
    \<and> buf_wf b' \<and> buf_bytes b' = (if prepend then ack_record_bytes ids sid @ buf_bytes b
                                         else buf_bytes b @ ack_record_bytes ids sid)"
proof -
  let ?n = "ack_sent ack m"
  let ?mru = "foldr mru_insert (take ?n (acks ack)) mru"
  have la: "0 \<le> ra_len ack" "ra_len ack \<le> 8" "int (length (acks ack)) = ra_len ack"
    using ack int_length_acks by (auto simp: ack_wf_def)
  have n: "?n = nat (min (ra_len ack) m)" using la m by (simp add: ack_sent_def)
  have n8: "uint (word_of_int (ra_len ack) :: u8) = ra_len ack" "uint (word_of_int m :: u8) = m"
    using la m by (simp_all add: uint_word_of_int)
  let ?nw = "if uint (word_of_int (ra_len ack) :: u8) > m then word_of_int m else (word_of_int (ra_len ack) :: u8)"
  have "uint ?nw = min (ra_len ack) m"
    by (simp only: n8 min_def not_less [symmetric] split: if_split) simp
  then have nw: "uint ?nw = int ?n" "unat ?nw = ?n" using n la m by (simp_all only: unat_eq_nat_uint)
  have take_n: "take ?n (ra_packet_id ack) = take ?n (acks ack)"
    using la n by (simp add: acks_def min_def)
  have "int ?n \<le> ra_len ack" using la m n by simp
  then have copy: "copy_acks_to_mru ack mru (uint ?nw) = Some ?mru"
    by (simp add: copy_acks_to_mru_def nw take_n)
  have f: "ack_wf ?mru" "distinct (acks ?mru)" "acks ?mru = ack_mru_after ack mru m"
    using foldr_mru_insert [OF mru, of "take ?n (acks ack)"] ack acks_bound [OF ack(1)]
    by (auto simp: ack_mru_after_def Let_def)
  have lm: "int (length (acks ?mru)) = ra_len ?mru" "ra_len ?mru \<le> 8" "0 \<le> ra_len ?mru"
    using f(1) int_length_acks [OF f(1)] by (auto simp: ack_wf_def)
  have lids: "int (length ids) = min_int m (ra_len ?mru)"
  proof -
    have "length ids = min (length (acks ?mru)) (nat m)" by (simp only: ids_def f(3) length_take)
    then show ?thesis by (simp only: int_min_nat [OF lm(1) m(1)])
  qed
  have lids8: "length ids \<le> 8" using m by (simp add: ids_def)
  have tot: "(word_of_int (min_int m (ra_len ?mru)) :: u8) = word_of_nat (length ids)"
    using lids by (metis of_int_of_nat_eq)
  have totu: "uint (word_of_nat (length ids) :: u8) = int (length ids)"
    using lids8 unat_u8_of_nat [of "length ids"] by (simp add: uint_nat_eq)
  have idsm: "ids = take (length ids) (ra_packet_id ?mru)"
  proof -
    have "ids = take (nat m) (take (nat (ra_len ?mru)) (ra_packet_id ?mru))"
      by (simp add: ids_def f(3) [symmetric] acks_def)
    then show ?thesis by (metis take_take append_eq_conv_conj append_take_drop_id)
  qed
  have pos: "0 \<le> ACK_SIZE (int (length ids))" by (simp add: ACK_SIZE_def SID_SIZE_def)
  obtain sub i b' where sub: "buf_sub b (ACK_SIZE (int (length ids))) prepend = (sub, i, b')" "buf_wf sub"
    "b_capacity sub = ACK_SIZE (int (length ids))" "b_len sub = 0" "b_offset sub = 0"
    and fl: "\<And>s. buf_wf s \<Longrightarrow> b_capacity s = ACK_SIZE (int (length ids)) \<Longrightarrow>
        buf_sub_flush b' i s = (if prepend then buf_unshift b (buf_mem s) else buf_push b (buf_mem s))"
  proof (cases prepend)
    case True
    then have le: "ACK_SIZE (int (length ids)) \<le> b_offset b" using room by simp
    show thesis using buf_sub_prepend [OF b pos le] that True by metis
  next
    case False
    then have le: "ACK_SIZE (int (length ids)) \<le> buf_tailroom b" using room by simp
    show thesis using buf_sub_append [OF b pos le] that False by metis
  qed
  obtain sub' where sub': "reliable_ack_write_sub (word_of_nat (length ids)) ?mru sid sub = Some sub'"
    "buf_wf sub'" "b_capacity sub' = ACK_SIZE (int (length ids))" "buf_mem sub' = ack_record_bytes ids sid"
    using write_sub_ok [OF sub(2,5,4,3) idsm lids8 sid] by blast
  let ?b = "buf_sub_flush b' i sub'"
  have "buf_defined sub" using buf_wf_facts(2) [OF sub(2)] .
  then have eq: "reliable_ack_write ack mru b sid m prepend = Some (True, reliable_ack_drop ack ?n, ?mru, ?b)"
    using copy sub(1) sub'(1) by (simp add: reliable_ack_write_def Let_def tot totu nw(2) del: if_split)
  have len: "int (length (ack_record_bytes ids sid)) = ACK_SIZE (int (length ids))"
    by (rule length_ack_record_bytes [OF sid(1)])
  have "?b = (if prepend then buf_unshift b (ack_record_bytes ids sid) else buf_push b (ack_record_bytes ids sid))"
    using fl [OF sub'(2,3)] sub'(4) by simp
  moreover have "buf_wf ?b \<and> buf_bytes ?b = (if prepend then ack_record_bytes ids sid @ buf_bytes b
                                         else buf_bytes b @ ack_record_bytes ids sid)"
    using calculation b room len by (auto simp: buf_simps)
  ultimately show ?thesis
    using eq f reliable_ack_drop_acks [OF ack(1), of ?n] by blast
qed

lemma reliable_ack_read_ok:
  assumes "buf_wf b" "buf_bytes b = ack_record_bytes ids sid @ rest"
    and "length (ra_packet_id a) = 8" "length ids \<le> 8" "sid_wf sid" "session_id_defined sid"
  shows "\<exists>a' b'. reliable_ack_read a b sid = (True, a', b') \<and> ack_wf a' \<and> acks a' = ids
    \<and> buf_wf b' \<and> buf_bytes b' = rest"
proof -
  obtain a' b' where p: "reliable_ack_parse b a x_session_id_zero
      = (True, a', if ids = [] then x_session_id_zero else sid, b')"
    "ack_wf a'" "acks a' = ids" "buf_wf b'" "buf_bytes b' = rest"
    using reliable_ack_parse_ok [OF assms(1-5)] by blast
  have "ids = [] \<longleftrightarrow> \<not> ra_len a' \<ge> 1"
    using int_length_acks [OF p(2)] p(3) by (cases ids) auto
  with p assms(6) show ?thesis
    by (auto simp: reliable_ack_read_def session_id_equal_def)
qed

section \<open>Properties\<close>

text \<open>
  C23: The acknowledgements written in front of a packet are read back by the peer: the reader
  returns the first \<open>m\<close> entries of the updated list of recent acknowledgements, they start
  with the pending ones, and a pending number that did not fit stays in the record.
\<close>

theorem reliable_ack_roundtrip:
  assumes "ack_wf ack" "distinct (acks ack)" "ack_wf mru" "distinct (acks mru)"
    and "sid_wf sid" "session_id_defined sid" "0 \<le> m" "m \<le> 8" "buf_wf b" "length (ra_packet_id r) = 8"
    and room: "ACK_SIZE m \<le> b_offset b"
  shows "\<exists>ack' mru' b' got b2. reliable_ack_write ack mru b sid m True = Some (True, ack', mru', b')
    \<and> reliable_ack_read r b' sid = (True, got, b2)
    \<and> buf_wf b2 \<and> buf_bytes b2 = buf_bytes b
    \<and> acks got = take (nat m) (acks mru')
    \<and> take (ack_sent ack m) (acks got) @ acks ack' = acks ack
    \<and> acks mru' = take 8 (take (ack_sent ack m) (acks ack)
        @ filter (\<lambda>x. x \<notin> set (take (ack_sent ack m) (acks ack))) (acks mru))"
proof -
  let ?ids = "take (nat m) (ack_mru_after ack mru m)"
  have l: "int (length ?ids) \<le> m" "length ?ids \<le> 8" using assms by (auto simp: min_def)
  then have "ACK_SIZE (int (length ?ids)) \<le> ACK_SIZE m" by (auto simp: ACK_SIZE_def SID_SIZE_def)
  with room have le: "ACK_SIZE (int (length ?ids)) \<le> (if True then b_offset b else buf_tailroom b)"
    by simp
  obtain ack' mru' b' where w: "reliable_ack_write ack mru b sid m True = Some (True, ack', mru', b')"
    "acks ack' = drop (ack_sent ack m) (acks ack)" "acks mru' = ack_mru_after ack mru m"
    "buf_wf b'" "buf_bytes b' = ack_record_bytes ?ids sid @ buf_bytes b"
    using reliable_ack_write_ok [OF assms(1-9) le] by auto
  obtain got b2 where g: "reliable_ack_read r b' sid = (True, got, b2)" "acks got = ?ids"
    "buf_wf b2" "buf_bytes b2 = buf_bytes b"
    using reliable_ack_read_ok [OF w(4,5) assms(10) l(2) assms(5,6)] by blast
  have "ack_sent ack m \<le> nat m" "ack_sent ack m \<le> 8" using assms by (auto simp: ack_sent_def)
  then have "take (ack_sent ack m) ?ids = take (ack_sent ack m) (acks ack)"
    by (simp add: ack_mru_after_def Let_def ack_sent_def min_def)
  with w g show ?thesis by (auto simp: ack_mru_after_def Let_def)
qed

theorem reliable_ack_roundtrip_witness:
  "\<exists>ack' mru' b' got b2. reliable_ack_write \<lparr>ra_len = 2, ra_packet_id = [5, 6, 0, 0, 0, 0, 0, 0]\<rparr>
      \<lparr>ra_len = 1, ra_packet_id = [4, 0, 0, 0, 0, 0, 0, 0]\<rparr>
      \<lparr>b_capacity = 60, b_offset = 50, b_len = 2, b_data = Some (replicate 60 7)\<rparr>
      \<lparr>sid_id = replicate 8 1\<rparr> 4 True = Some (True, ack', mru', b')
    \<and> reliable_ack_read \<lparr>ra_len = 0, ra_packet_id = replicate 8 0\<rparr> b' \<lparr>sid_id = replicate 8 1\<rparr> = (True, got, b2)
    \<and> acks got = [5, 6, 4] \<and> acks ack' = []"
proof -
  let ?ack = "\<lparr>ra_len = 2, ra_packet_id = [5, 6, 0, 0, 0, 0, 0, 0]\<rparr>"
  let ?mru = "\<lparr>ra_len = 1, ra_packet_id = [4, 0, 0, 0, 0, 0, 0, 0]\<rparr>"
  let ?sid = "\<lparr>sid_id = replicate 8 1\<rparr>"
  have a: "acks ?ack = [5, 6]" "acks ?mru = [4]" "ack_sent ?ack 4 = 2"
    by (simp_all add: acks_def ack_sent_def)
  have s: "session_id_defined ?sid"
    by (simp add: session_id_defined_def x_session_id_zero_def replicate_eqI eval_nat_numeral)
  show ?thesis
    using reliable_ack_roundtrip [of ?ack ?mru ?sid 4
        "\<lparr>b_capacity = 60, b_offset = 50, b_len = 2, b_data = Some (replicate 60 7)\<rparr>"
        "\<lparr>ra_len = 0, ra_packet_id = replicate 8 0\<rparr>"] s
    by (auto simp: ack_wf_def a sid_wf_def buf_wf_def BUF_SIZE_MAX_def ACK_SIZE_def SID_SIZE_def)
qed

text \<open>
  Whatever bytes a packet contains, reading its acknowledgement record never fills the
  record beyond its eight entries and leaves the packet buffer within its block.
\<close>

theorem reliable_ack_read_bounded:
  assumes "buf_wf b" "length (ra_packet_id a) = 8"
    and "reliable_ack_read a b sid = (ok, a', b')"
  shows "ack_wf a' \<and> buf_wf b' \<and> length (acks a') \<le> 8"
proof -
  obtain r a1 s1 b1 where p: "reliable_ack_parse b a x_session_id_zero = (r, a1, s1, b1)"
    by (cases "reliable_ack_parse b a x_session_id_zero") auto
  have "a' = a1" "b' = b1"
    using assms(3) p by (auto simp: reliable_ack_read_def split: bool.splits if_splits)
  with reliable_ack_parse_wf [OF assms(1,2) p] show ?thesis by (simp add: acks_bound del: length_acks)
qed

theorem reliable_ack_read_bounded_witness:
  "\<exists>a' b'. reliable_ack_read \<lparr>ra_len = 0, ra_packet_id = replicate 8 0\<rparr>
      \<lparr>b_capacity = 40, b_offset = 0, b_len = 40, b_data = Some (replicate 40 9)\<rparr> x_session_id_zero
      = (False, a', b') \<and> ack_wf a' \<and> buf_wf b' \<and> length (acks a') \<le> 8"
proof -
  let ?b = "\<lparr>b_capacity = 40, b_offset = 0, b_len = 40, b_data = Some (replicate 40 9)\<rparr>"
  let ?a = "\<lparr>ra_len = 0, ra_packet_id = replicate 8 0\<rparr>"
  have "fst (reliable_ack_read ?a ?b x_session_id_zero) = False" by code_simp
  then obtain a' b' where r: "reliable_ack_read ?a ?b x_session_id_zero = (False, a', b')"
    by (cases "reliable_ack_read ?a ?b x_session_id_zero") auto
  with reliable_ack_read_bounded [OF _ _ r] show ?thesis by (auto simp: buf_wf_def BUF_SIZE_MAX_def)
qed

end
