(* ===== verification/Opcodes.thy ===== *)
theory Opcodes
  imports Prelude
begin

text \<open>
  The first byte of a packet (\<open>ssl_pkt.h\<close>): the opcode in the high five bits, the key id in the
  low three.
\<close>

definition P_KEY_ID_MASK :: u8 where "P_KEY_ID_MASK = 0x07"
definition P_OPCODE_SHIFT :: nat where "P_OPCODE_SHIFT = 3"

definition P_CONTROL_SOFT_RESET_V1 :: u8 where "P_CONTROL_SOFT_RESET_V1 = 3"
definition P_CONTROL_V1 :: u8 where "P_CONTROL_V1 = 4"
definition P_ACK_V1 :: u8 where "P_ACK_V1 = 5"
definition P_CONTROL_HARD_RESET_CLIENT_V2 :: u8 where "P_CONTROL_HARD_RESET_CLIENT_V2 = 7"
definition P_CONTROL_HARD_RESET_SERVER_V2 :: u8 where "P_CONTROL_HARD_RESET_SERVER_V2 = 8"
definition P_CONTROL_HARD_RESET_CLIENT_V3 :: u8 where "P_CONTROL_HARD_RESET_CLIENT_V3 = 10"
definition P_CONTROL_WKC_V1 :: u8 where "P_CONTROL_WKC_V1 = 11"

lemmas opcode_defs = P_CONTROL_SOFT_RESET_V1_def P_CONTROL_V1_def P_ACK_V1_def P_CONTROL_HARD_RESET_CLIENT_V2_def
  P_CONTROL_HARD_RESET_SERVER_V2_def P_CONTROL_HARD_RESET_CLIENT_V3_def P_CONTROL_WKC_V1_def

definition packet_opcode :: "u8 \<Rightarrow> u8" where
  "packet_opcode b = drop_bit P_OPCODE_SHIFT b"

definition packet_key_id :: "u8 \<Rightarrow> u8" where
  "packet_key_id b = and b P_KEY_ID_MASK"

end
