(* ===== verification/Reliable.thy ===== *)
theory Reliable
  imports ReliableAck Opcodes
begin

text \<open>
  The reliability layer of the control channel, \<open>reliable.c\<close>: arrays of up to
  \<open>RELIABLE_CAPACITY\<close> packets with their numbers, timers and acknowledgement counts, one for
  each direction. A pointer to the buffer of an entry is the index of the entry; \<open>now\<close> is an
  argument. Numbers are compared modulo \<open>2 ^ 32\<close>. \<open>control_packet_receive\<close> is the part of
  \<open>tls_pre_decrypt\<close> (\<open>ssl.c\<close>) that stores and acknowledges an authenticated control packet.
\<close>

section \<open>Sequence numbers\<close>

definition subtract_pid :: "u32 \<Rightarrow> u32 \<Rightarrow> u32" where
  "subtract_pid test base = test - base"

definition reliable_pid_in_range1 :: "u32 \<Rightarrow> u32 \<Rightarrow> u32 \<Rightarrow> bool" where
  "reliable_pid_in_range1 test base extent = (subtract_pid test base < extent)"

definition reliable_pid_in_range2 :: "u32 \<Rightarrow> u32 \<Rightarrow> u32 \<Rightarrow> bool" where
  "reliable_pid_in_range2 test base extent =
     (if base + extent \<ge> base
      then (if test < base + extent then True else False)
      else (if test + 0x80000000 < (base + 0x80000000) + extent then True else False))"

definition reliable_pid_min :: "u32 \<Rightarrow> u32 \<Rightarrow> bool" where
  "reliable_pid_min p1 p2 = (\<not> reliable_pid_in_range1 p1 p2 0x80000000)"

section \<open>Data\<close>

definition RELIABLE_CAPACITY :: int where
  "RELIABLE_CAPACITY = 12"

definition N_ACK_RETRANSMIT :: nat where
  "N_ACK_RETRANSMIT = 3"

definition BIG_TIMEOUT :: interval_t where
  "BIG_TIMEOUT = 60 * 60 * 24 * 7"

record reliable_entry =
  e_active :: bool
  e_timeout :: interval_t
  e_next_try :: time_t
  e_packet_id :: u32
  e_n_acks :: nat
  e_opcode :: int
  e_buf :: buffer

record reliable =
  rel_size :: int
  rel_initial_timeout :: interval_t
  rel_packet_id :: u32
  rel_offset :: int
  rel_hold :: bool
  rel_array :: "reliable_entry list"

text \<open>The entries the loops run over, and an update of the entry with a given index.\<close>

definition rel_entries :: "reliable \<Rightarrow> reliable_entry list" where
  "rel_entries rel = take (nat (rel_size rel)) (rel_array rel)"

definition rel_update :: "reliable \<Rightarrow> nat \<Rightarrow> reliable_entry \<Rightarrow> reliable" where
  "rel_update rel i e = rel\<lparr>rel_array := (rel_array rel)[i := e]\<rparr>"

definition rel_map :: "(reliable_entry \<Rightarrow> reliable_entry) \<Rightarrow> reliable \<Rightarrow> reliable" where
  "rel_map f rel = rel\<lparr>rel_array := map_prefix (nat (rel_size rel)) f (rel_array rel)\<rparr>"

section \<open>Operations\<close>

definition reliable_entry_zero :: reliable_entry where
  "reliable_entry_zero = \<lparr>e_active = False, e_timeout = 0, e_next_try = 0, e_packet_id = 0,
     e_n_acks = 0, e_opcode = 0, e_buf = clear_buf\<rparr>"

definition reliable_init :: "int \<Rightarrow> int \<Rightarrow> int \<Rightarrow> bool \<Rightarrow> reliable option" where
  "reliable_init buf_size offset array_size hold =
     (if \<not> (array_size > 0 \<and> array_size \<le> RELIABLE_CAPACITY) then None
      else case alloc_buf (size_of_int buf_size) of
             None \<Rightarrow> None
           | Some b \<Rightarrow>
               (case buf_init b offset of
                  (False, _) \<Rightarrow> None
                | (True, b') \<Rightarrow>
                    Some \<lparr>rel_size = array_size, rel_initial_timeout = 0, rel_packet_id = 0,
                          rel_offset = offset, rel_hold = hold,
                          rel_array = replicate (nat array_size) (reliable_entry_zero\<lparr>e_buf := b'\<rparr>)
                            @ replicate (nat (RELIABLE_CAPACITY - array_size)) reliable_entry_zero\<rparr>))"

definition reliable_free :: "reliable option \<Rightarrow> reliable option" where
  "reliable_free rel = None"

definition reliable_set_timeout :: "reliable \<Rightarrow> interval_t \<Rightarrow> reliable" where
  "reliable_set_timeout rel timeout = rel\<lparr>rel_initial_timeout := timeout\<rparr>"

definition reliable_empty :: "reliable \<Rightarrow> bool" where
  "reliable_empty rel = (find_index e_active (rel_entries rel) = None)"

definition reliable_purge_entry :: "u32 \<Rightarrow> reliable_entry \<Rightarrow> reliable_entry" where
  "reliable_purge_entry pid e =
     (if e_active e \<and> e_packet_id e = pid then e\<lparr>e_active := False\<rparr>
      else if e_active e \<and> e_packet_id e < pid then e\<lparr>e_n_acks := e_n_acks e + 1\<rparr>
      else e)"

definition reliable_send_purge :: "reliable \<Rightarrow> reliable_ack \<Rightarrow> reliable" where
  "reliable_send_purge rel ack =
     foldl (\<lambda>r pid. rel_map (reliable_purge_entry pid) r) rel
       (take (nat (ra_len ack)) (ra_packet_id ack))"

definition reliable_can_get :: "reliable \<Rightarrow> bool" where
  "reliable_can_get rel = (find_index (\<lambda>e. \<not> e_active e) (rel_entries rel) \<noteq> None)"

definition reliable_not_replay :: "reliable \<Rightarrow> u32 \<Rightarrow> bool" where
  "reliable_not_replay rel pid =
     (if reliable_pid_min pid (rel_packet_id rel) then False
      else find_index (\<lambda>e. e_active e \<and> e_packet_id e = pid) (rel_entries rel) = None)"

definition reliable_wont_break_sequentiality :: "reliable \<Rightarrow> u32 \<Rightarrow> bool" where
  "reliable_wont_break_sequentiality rel pid =
     reliable_pid_in_range2 pid (rel_packet_id rel) (word_of_int (rel_size rel))"

definition reliable_get_buf :: "reliable \<Rightarrow> (nat option \<times> reliable) option" where
  "reliable_get_buf rel =
     (case find_index (\<lambda>e. \<not> e_active e) (rel_entries rel) of
        None \<Rightarrow> Some (None, rel)
      | Some i \<Rightarrow>
          (let e = rel_array rel ! i in
           case buf_init (e_buf e) (rel_offset rel) of
             (False, _) \<Rightarrow> None
           | (True, b) \<Rightarrow> Some (Some i, rel_update rel i (e\<lparr>e_buf := b\<rparr>))))"

text \<open>The minimum active number: the loop of the two functions below.\<close>

definition reliable_min_step :: "u32 option \<Rightarrow> reliable_entry \<Rightarrow> u32 option" where
  "reliable_min_step min_id e =
     (if e_active e
      then (case min_id of
              None \<Rightarrow> Some (e_packet_id e)
            | Some m \<Rightarrow> if reliable_pid_min (e_packet_id e) m then Some (e_packet_id e) else min_id)
      else min_id)"

definition reliable_min_active :: "reliable \<Rightarrow> u32 option" where
  "reliable_min_active rel = foldl reliable_min_step None (rel_entries rel)"

definition reliable_get_num_output_sequenced_available :: "reliable \<Rightarrow> int" where
  "reliable_get_num_output_sequenced_available rel =
     (case reliable_min_active rel of
        None \<Rightarrow> rel_size rel
      | Some m \<Rightarrow> sint (word_of_int (rel_size rel) - subtract_pid (rel_packet_id rel) m))"

definition reliable_get_buf_output_sequenced :: "reliable \<Rightarrow> (nat option \<times> reliable) option" where
  "reliable_get_buf_output_sequenced rel =
     (if (case reliable_min_active rel of
            None \<Rightarrow> True
          | Some m \<Rightarrow> reliable_pid_in_range1 (rel_packet_id rel) m (word_of_int (rel_size rel)))
      then reliable_get_buf rel else Some (None, rel))"

definition reliable_get_entry_sequenced :: "reliable \<Rightarrow> nat option" where
  "reliable_get_entry_sequenced rel =
     find_index (\<lambda>e. e_active e \<and> e_packet_id e = rel_packet_id rel) (rel_entries rel)"

definition reliable_entry_due :: "time_t \<Rightarrow> reliable_entry \<Rightarrow> bool" where
  "reliable_entry_due now e =
     (e_active e \<and> (e_n_acks e \<ge> N_ACK_RETRANSMIT \<or> now \<ge> e_next_try e))"

definition reliable_can_send :: "time_t \<Rightarrow> reliable \<Rightarrow> bool" where
  "reliable_can_send now rel =
     (let n_current = length (filter (reliable_entry_due now) (rel_entries rel))
      in n_current > 0 \<and> \<not> rel_hold rel)"

text \<open>The loop of \<open>reliable_send\<close>: \<open>best\<close> is the index and the number of the best entry so far.\<close>

fun reliable_best :: "time_t \<Rightarrow> nat \<Rightarrow> reliable_entry list \<Rightarrow> (nat \<times> u32) option \<Rightarrow> (nat \<times> u32) option" where
  "reliable_best now i [] best = best"
| "reliable_best now i (e # es) best =
     reliable_best now (Suc i) es
       (if reliable_entry_due now e
           \<and> (case best of None \<Rightarrow> True | Some (_, m) \<Rightarrow> reliable_pid_min (e_packet_id e) m)
        then Some (i, e_packet_id e) else best)"

text \<open>The index of the entry to send, with its opcode, and the state after it.\<close>

definition reliable_send :: "time_t \<Rightarrow> reliable \<Rightarrow> (nat \<times> int) option \<times> reliable" where
  "reliable_send now rel =
     (case reliable_best now 0 (rel_entries rel) None of
        None \<Rightarrow> (None, rel)
      | Some (i, _) \<Rightarrow>
          (let e = rel_array rel ! i;
               e' = e\<lparr>e_next_try := now + e_timeout e, e_timeout := e_timeout e * 2, e_n_acks := 0\<rparr>
           in (Some (i, e_opcode e), rel_update rel i e')))"

definition reliable_schedule_now :: "time_t \<Rightarrow> reliable \<Rightarrow> reliable" where
  "reliable_schedule_now now rel0 =
     (let rel = rel0\<lparr>rel_hold := False\<rparr> in
      rel_map (\<lambda>e. if e_active e
                   then e\<lparr>e_next_try := now, e_timeout := rel_initial_timeout rel\<rparr> else e) rel)"

fun reliable_timeout_loop :: "time_t \<Rightarrow> interval_t \<Rightarrow> reliable_entry list \<Rightarrow> interval_t" where
  "reliable_timeout_loop now ret [] = ret"
| "reliable_timeout_loop now ret (e # es) =
     (if e_active e
      then if e_next_try e \<le> now then 0
           else reliable_timeout_loop now (min_int ret (e_next_try e - now)) es
      else reliable_timeout_loop now ret es)"

definition reliable_send_timeout :: "time_t \<Rightarrow> reliable \<Rightarrow> interval_t" where
  "reliable_send_timeout now rel = reliable_timeout_loop now BIG_TIMEOUT (rel_entries rel)"

definition reliable_mark_active_incoming :: "reliable \<Rightarrow> nat \<Rightarrow> u32 \<Rightarrow> int \<Rightarrow> reliable option" where
  "reliable_mark_active_incoming rel i pid opcode =
     (if i < length (rel_entries rel)
      then if reliable_pid_min pid (rel_packet_id rel) then None
           else Some (rel_update rel i ((rel_array rel ! i)\<lparr>e_active := True, e_packet_id := pid,
                  e_opcode := opcode, e_next_try := 0, e_timeout := 0, e_n_acks := 0\<rparr>))
      else None)"

definition reliable_mark_active_outgoing :: "reliable \<Rightarrow> nat \<Rightarrow> int \<Rightarrow> reliable option" where
  "reliable_mark_active_outgoing rel i opcode =
     (if i < length (rel_entries rel)
      then (let e = (rel_array rel ! i)\<lparr>e_packet_id := rel_packet_id rel\<rparr>;
                rel1 = rel\<lparr>rel_packet_id := rel_packet_id rel + 1\<rparr>
            in case buf_write_prepend (e_buf e) (u32_bytes (e_packet_id e)) of
                 (False, _) \<Rightarrow> None
               | (True, b) \<Rightarrow> Some (rel_update rel1 i (e\<lparr>e_buf := b, e_active := True,
                   e_opcode := opcode, e_next_try := 0, e_timeout := rel_initial_timeout rel1\<rparr>)))
      else None)"

definition reliable_mark_deleted :: "reliable \<Rightarrow> nat \<Rightarrow> reliable option" where
  "reliable_mark_deleted rel i =
     (if i < length (rel_entries rel)
      then (let e = rel_array rel ! i
            in Some ((rel_update rel i (e\<lparr>e_active := False\<rparr>))\<lparr>rel_packet_id := e_packet_id e + 1\<rparr>))
      else None)"

text \<open>
  The last part of \<open>tls_pre_decrypt\<close> for a control packet whose acknowledgements have been
  read. \<open>op\<close> is its opcode, the result is \<open>False\<close> on the jump to \<open>error\<close>. The buffer returned
  by \<open>reliable_get_buf\<close> is filled by \<open>buf_copy\<close>.
\<close>

definition control_packet_receive ::
    "int \<Rightarrow> buffer \<Rightarrow> reliable \<Rightarrow> reliable_ack \<Rightarrow> (bool \<times> reliable \<times> reliable_ack) option" where
  "control_packet_receive op b rel ack =
     (if op \<noteq> uint P_ACK_V1 \<and> reliable_can_get rel
      then (case reliable_ack_read_packet_id b of
              (None, _) \<Rightarrow> Some (True, rel, ack)
            | (Some pid, b1) \<Rightarrow>
                if reliable_wont_break_sequentiality rel pid
                then if reliable_not_replay rel pid
                     then (case reliable_get_buf rel of
                             None \<Rightarrow> None
                           | Some (None, _) \<Rightarrow> None
                           | Some (Some i, rel1) \<Rightarrow>
                               (case buf_copy (e_buf (rel_array rel1 ! i)) b1 of
                                  (False, _) \<Rightarrow> Some (False, rel1, ack)
                                | (True, b2) \<Rightarrow>
                                    (case reliable_mark_active_incoming
                                       (rel_update rel1 i ((rel_array rel1 ! i)\<lparr>e_buf := b2\<rparr>)) i pid op of
                                       None \<Rightarrow> None
                                     | Some rel2 \<Rightarrow>
                                         Some (True, rel2, snd (reliable_ack_acknowledge_packet_id ack pid)))))
                     else Some (True, rel, snd (reliable_ack_acknowledge_packet_id ack pid))
                else Some (True, rel, ack))
      else Some (True, rel, ack))"

section \<open>Sequence numbers without wrap-around\<close>

lemma unat_pid: "k < 2 ^ 32 \<Longrightarrow> unat (word_of_nat k :: u32) = k"
  by (simp add: unat_of_nat)

lemma pid_inj: "j < 2 ^ 32 \<Longrightarrow> k < 2 ^ 32 \<Longrightarrow> (word_of_nat j :: u32) = word_of_nat k \<longleftrightarrow> j = k"
  by (metis unat_pid)

lemma unat_subtract_pid:
  assumes "j < 2 ^ 32" "k < 2 ^ 32"
  shows "unat (subtract_pid (word_of_nat j) (word_of_nat k)) = (if k \<le> j then j - k else j + 2 ^ 32 - k)"
  using assms by (simp add: subtract_pid_def unat_sub_if' unat_pid)

lemma pid_min_nat:
  assumes "j < 2 ^ 31" "k < 2 ^ 31"
  shows "reliable_pid_min (word_of_nat j) (word_of_nat k) \<longleftrightarrow> j < k"
  using assms by (auto simp: reliable_pid_min_def reliable_pid_in_range1_def word_less_nat_alt
      unat_subtract_pid)

lemma pid_range1_nat:
  assumes "k \<le> j" "j < 2 ^ 32" "n < 2 ^ 32"
  shows "reliable_pid_in_range1 (word_of_nat j) (word_of_nat k) (word_of_nat n) \<longleftrightarrow> j < k + n"
  using assms by (auto simp: reliable_pid_in_range1_def word_less_nat_alt unat_subtract_pid unat_pid)

lemma pid_range2_nat:
  assumes "j < 2 ^ 31" "k + n < 2 ^ 31"
  shows "reliable_pid_in_range2 (word_of_nat j) (word_of_nat k) (word_of_nat n) \<longleftrightarrow> j < k + n"
proof -
  have s: "word_of_nat k + word_of_nat n = (word_of_nat (k + n) :: u32)" by simp
  show ?thesis
    using assms by (simp add: reliable_pid_in_range2_def s word_less_nat_alt word_le_nat_alt unat_pid
        del: of_nat_add)
qed

text \<open>
  With wrap-around the range test is exact only while \<open>base\<close> is in the lower half of the
  numbers or so close to the end that the range itself wraps.
\<close>

lemma pid_range2_far:
  fixes base test :: u32
  assumes "0x80000000 \<le> base" "base \<le> base + extent" "test < base - 0x80000000"
  shows "reliable_pid_in_range2 test base extent" "\<not> reliable_pid_min test base"
proof -
  have t: "unat test < unat base - 2 ^ 31" and b: "2 ^ 31 \<le> unat base"
    using assms(1,3) by (simp_all add: word_less_nat_alt word_le_nat_alt unat_sub)
  have "test < base" using t by (simp add: word_less_nat_alt)
  with assms(2) show "reliable_pid_in_range2 test base extent"
    by (auto simp: reliable_pid_in_range2_def)
  have "unat (test - base) = unat test + 2 ^ 32 - unat base"
    using \<open>test < base\<close> by (simp add: unat_sub_if' word_less_nat_alt)
  then show "\<not> reliable_pid_min test base"
    using t b by (simp add: reliable_pid_min_def reliable_pid_in_range1_def subtract_pid_def
        word_less_nat_alt)
qed

section \<open>The packets an array holds\<close>

definition rel_wf :: "reliable \<Rightarrow> bool" where
  "rel_wf rel \<longleftrightarrow> 0 < rel_size rel \<and> rel_size rel \<le> 12 \<and> length (rel_array rel) = 12 \<and> 0 \<le> rel_offset rel
     \<and> (\<forall>e \<in> set (rel_entries rel). buf_wf (e_buf e) \<and> rel_offset rel \<le> b_capacity (e_buf e))"

definition rel_frame :: "reliable \<Rightarrow> reliable \<Rightarrow> bool" where
  "rel_frame r s \<longleftrightarrow> rel_size r = rel_size s \<and> rel_offset r = rel_offset s
     \<and> rel_initial_timeout r = rel_initial_timeout s"

definition entry_pkt :: "reliable_entry \<Rightarrow> u32 \<times> u8 list" where
  "entry_pkt e = (e_packet_id e, buf_bytes (e_buf e))"

definition pkts :: "reliable_entry list \<Rightarrow> (u32 \<times> u8 list) set" where
  "pkts xs = entry_pkt ` {e \<in> set xs. e_active e}"

definition ids_distinct :: "reliable_entry list \<Rightarrow> bool" where
  "ids_distinct xs \<longleftrightarrow> (\<forall>i < length xs. \<forall>j < length xs.
     e_active (xs ! i) \<longrightarrow> e_active (xs ! j) \<longrightarrow> e_packet_id (xs ! i) = e_packet_id (xs ! j) \<longrightarrow> i = j)"

lemma rel_frame_refl [simp]: "rel_frame r r"
  by (simp add: rel_frame_def)

lemma rel_frame_trans: "rel_frame r s \<Longrightarrow> rel_frame s t \<Longrightarrow> rel_frame r t"
  by (simp add: rel_frame_def)

lemma length_rel_entries: "rel_wf rel \<Longrightarrow> length (rel_entries rel) = nat (rel_size rel)"
  by (auto simp: rel_wf_def rel_entries_def)

lemma rel_entries_nth: "i < length (rel_entries rel) \<Longrightarrow> rel_array rel ! i = rel_entries rel ! i"
  by (simp add: rel_entries_def)

lemma rel_entries_update [simp]: "rel_entries (rel_update rel i e) = (rel_entries rel)[i := e]"
  by (simp add: rel_entries_def rel_update_def take_update_swap)

lemma rel_entries_map [simp]: "rel_entries (rel_map f rel) = map f (rel_entries rel)"
  by (simp add: rel_entries_def rel_map_def)

lemma rel_entries_fields [simp]:
  "rel_entries (rel\<lparr>rel_packet_id := p\<rparr>) = rel_entries rel"
  "rel_entries (rel\<lparr>rel_hold := h\<rparr>) = rel_entries rel"
  by (simp_all add: rel_entries_def)

lemma rel_update_fields [simp]:
  "rel_size (rel_update rel i e) = rel_size rel" "rel_offset (rel_update rel i e) = rel_offset rel"
  "rel_packet_id (rel_update rel i e) = rel_packet_id rel"
  "rel_initial_timeout (rel_update rel i e) = rel_initial_timeout rel"
  "rel_hold (rel_update rel i e) = rel_hold rel"
  "length (rel_array (rel_update rel i e)) = length (rel_array rel)"
  by (simp_all add: rel_update_def)

lemma rel_map_fields [simp]:
  "rel_size (rel_map f rel) = rel_size rel" "rel_offset (rel_map f rel) = rel_offset rel"
  "rel_packet_id (rel_map f rel) = rel_packet_id rel"
  "rel_initial_timeout (rel_map f rel) = rel_initial_timeout rel"
  "rel_hold (rel_map f rel) = rel_hold rel" "length (rel_array (rel_map f rel)) = length (rel_array rel)"
  by (simp_all add: rel_map_def)

lemma rel_update_wf [wf_intros]:
  assumes "rel_wf rel" "buf_wf (e_buf e)" "rel_offset rel \<le> b_capacity (e_buf e)"
  shows "rel_wf (rel_update rel i e)"
  using assms set_update_subset_insert [of "rel_entries rel" i e] by (auto simp: rel_wf_def)

lemma rel_map_wf [wf_intros]:
  "rel_wf rel \<Longrightarrow> (\<And>e. e_buf (f e) = e_buf e) \<Longrightarrow> rel_wf (rel_map f rel)"
  by (auto simp: rel_wf_def)

lemma rel_packet_id_wf [wf_intros]: "rel_wf rel \<Longrightarrow> rel_wf (rel\<lparr>rel_packet_id := p\<rparr>)"
  by (simp add: rel_wf_def)

lemma rel_hold_wf [wf_intros]: "rel_wf rel \<Longrightarrow> rel_wf (rel\<lparr>rel_hold := p\<rparr>)"
  by (simp add: rel_wf_def)

lemma rel_wf_nth:
  "rel_wf rel \<Longrightarrow> i < length (rel_entries rel) \<Longrightarrow>
   buf_wf (e_buf (rel_entries rel ! i)) \<and> rel_offset rel \<le> b_capacity (e_buf (rel_entries rel ! i))"
  by (auto simp: rel_wf_def)

lemma pkts_update_inactive:
  assumes "i < length xs" "\<not> e_active (xs ! i)"
  shows "pkts (xs[i := e]) = (if e_active e then insert (entry_pkt e) (pkts xs) else pkts xs)"
proof -
  have "{x \<in> set (xs[i := e]). e_active x} = {x \<in> set xs. e_active x} \<union> (if e_active e then {e} else {})"
  proof (rule set_eqI)
    fix x
    have "x \<in> set (xs[i := e]) \<longleftrightarrow> x = e \<or> (\<exists>j < length xs. j \<noteq> i \<and> xs ! j = x)"
      using assms(1) by (auto simp: in_set_conv_nth nth_list_update split: if_splits)
    moreover have "x \<in> set xs \<longleftrightarrow> (\<exists>j < length xs. xs ! j = x)" by (auto simp: in_set_conv_nth)
    ultimately show "x \<in> {x \<in> set (xs[i := e]). e_active x}
        \<longleftrightarrow> x \<in> {x \<in> set xs. e_active x} \<union> (if e_active e then {e} else {})"
      using assms by auto
  qed
  then show ?thesis by (simp add: pkts_def image_Un)
qed

lemma pkts_deactivate:
  assumes "i < length xs" "e_active (xs ! i)" "ids_distinct xs" "\<not> e_active e"
  shows "pkts (xs[i := e]) = pkts xs - {entry_pkt (xs ! i)}"
proof (rule set_eqI)
  fix p
  have "p \<in> pkts (xs[i := e]) \<longleftrightarrow> (\<exists>j < length xs. j \<noteq> i \<and> e_active (xs ! j) \<and> p = entry_pkt (xs ! j))"
    using assms(1,4) by (auto simp: pkts_def in_set_conv_nth nth_list_update split: if_splits)
  moreover have "entry_pkt (xs ! j) \<noteq> entry_pkt (xs ! i)" if "j < length xs" "j \<noteq> i" "e_active (xs ! j)" for j
    using that assms(1-3) unfolding ids_distinct_def entry_pkt_def by blast
  ultimately show "p \<in> pkts (xs[i := e]) \<longleftrightarrow> p \<in> pkts xs - {entry_pkt (xs ! i)}"
    unfolding pkts_def by (auto simp: in_set_conv_nth image_iff)
qed

lemma pkts_map_eq: "pkts (map f xs) = (\<lambda>e. entry_pkt (f e)) ` {e \<in> set xs. e_active (f e)}"
  unfolding pkts_def by (auto simp: image_iff)

lemma fst_pkts: "pid \<in> fst ` pkts xs \<longleftrightarrow> (\<exists>e \<in> set xs. e_active e \<and> e_packet_id e = pid)"
  by (force simp: pkts_def entry_pkt_def)

lemma pkts_nth: "i < length xs \<Longrightarrow> e_active (xs ! i) \<Longrightarrow> entry_pkt (xs ! i) \<in> pkts xs"
  by (auto simp: pkts_def)

lemma ids_distinct_inactive:
  "ids_distinct xs \<Longrightarrow> \<not> e_active e \<Longrightarrow> ids_distinct (xs[i := e])"
  by (cases "i < length xs")
    (auto simp: ids_distinct_def nth_list_update list_update_beyond split: if_splits)

lemma ids_distinct_fresh:
  assumes "ids_distinct xs" "\<And>x. x \<in> set xs \<Longrightarrow> e_active x \<Longrightarrow> e_packet_id x \<noteq> e_packet_id e"
  shows "ids_distinct (xs[i := e])"
proof -
  have "e_packet_id (xs ! j) \<noteq> e_packet_id e" if "j < length xs" "e_active (xs ! j)" for j
    using assms(2) that by auto
  with assms(1) show ?thesis unfolding ids_distinct_def
    by (cases "i < length xs") (auto simp: nth_list_update list_update_beyond split: if_splits, metis)
qed

lemma ids_distinct_card:
  assumes "ids_distinct xs"
  shows "card (fst ` pkts xs) = length (filter e_active xs)"
proof -
  let ?I = "{i. i < length xs \<and> e_active (xs ! i)}"
  have "fst ` pkts xs = (\<lambda>i. e_packet_id (xs ! i)) ` ?I"
    by (auto simp: pkts_def entry_pkt_def image_iff in_set_conv_nth) blast+
  moreover have "inj_on (\<lambda>i. e_packet_id (xs ! i)) ?I"
    using assms by (auto simp: inj_on_def ids_distinct_def)
  ultimately show ?thesis by (simp add: card_image length_filter_conv_card)
qed

section \<open>Effect of the operations\<close>

lemma get_buf_ok:
  assumes wf: "rel_wf rel" and can: "reliable_can_get rel"
  shows "\<exists>i b. reliable_get_buf rel = Some (Some i, rel_update rel i ((rel_entries rel ! i)\<lparr>e_buf := b\<rparr>))
    \<and> i < length (rel_entries rel) \<and> \<not> e_active (rel_entries rel ! i)
    \<and> buf_wf b \<and> buf_bytes b = [] \<and> b_offset b = rel_offset rel
    \<and> b_capacity b = b_capacity (e_buf (rel_entries rel ! i))"
proof -
  obtain i where i: "find_index (\<lambda>e. \<not> e_active e) (rel_entries rel) = Some i"
    using can by (auto simp: reliable_can_get_def)
  note f = find_index_SomeD [OF i] and e = rel_wf_nth [OF wf]
  let ?b = "(e_buf (rel_entries rel ! i))\<lparr>b_len := 0, b_offset := rel_offset rel\<rparr>"
  have le: "0 \<le> rel_offset rel" "rel_offset rel \<le> b_capacity (e_buf (rel_entries rel ! i))"
    using wf f e by (auto simp: rel_wf_def)
  have "buf_init (e_buf (rel_entries rel ! i)) (rel_offset rel) = (True, ?b)"
    using e f le by (simp add: buf_init_eq)
  then have "reliable_get_buf rel = Some (Some i, rel_update rel i ((rel_entries rel ! i)\<lparr>e_buf := ?b\<rparr>))"
    using i f by (simp add: reliable_get_buf_def Let_def rel_entries_nth)
  moreover have "buf_wf ?b" using e f le by (intro buf_init_wf) auto
  ultimately show ?thesis
    using f by (intro exI [of _ i] exI [of _ ?b]) (simp add: buf_init_bytes)
qed

lemma get_buf_None:
  "\<not> reliable_can_get rel \<Longrightarrow> reliable_get_buf rel = Some (None, rel)"
  by (simp add: reliable_can_get_def reliable_get_buf_def)

text \<open>Operations that change only timers and counters keep the packets.\<close>

definition same_pkt :: "(reliable_entry \<Rightarrow> reliable_entry) \<Rightarrow> bool" where
  "same_pkt f \<longleftrightarrow> (\<forall>e. e_active (f e) = e_active e \<and> entry_pkt (f e) = entry_pkt e \<and> e_buf (f e) = e_buf e)"

lemma pkts_map: "same_pkt f \<Longrightarrow> pkts (map f xs) = pkts xs"
  unfolding pkts_map_eq by (simp add: same_pkt_def pkts_def)

lemma ids_distinct_map: "same_pkt f \<Longrightarrow> ids_distinct (map f xs) = ids_distinct xs"
  by (auto simp: ids_distinct_def same_pkt_def entry_pkt_def)

lemma list_update_as_map:
  assumes "i < length xs" "same_pkt f"
  shows "pkts (xs[i := f (xs ! i)]) = pkts xs" "ids_distinct (xs[i := f (xs ! i)]) = ids_distinct xs"
proof -
  let ?ys = "xs[i := f (xs ! i)]"
  have nth: "e_active (?ys ! j) = e_active (xs ! j) \<and> entry_pkt (?ys ! j) = entry_pkt (xs ! j)"
    if "j < length xs" for j
    using assms that by (cases "j = i") (auto simp: same_pkt_def)
  then show "pkts ?ys = pkts xs"
    unfolding pkts_def by (auto simp: in_set_conv_nth image_iff) (metis length_list_update)+
  from nth show "ids_distinct ?ys = ids_distinct xs"
    by (auto simp: ids_distinct_def entry_pkt_def)
qed

lemma schedule_now_pkts:
  "pkts (rel_entries (reliable_schedule_now now rel)) = pkts (rel_entries rel)"
  "ids_distinct (rel_entries (reliable_schedule_now now rel)) = ids_distinct (rel_entries rel)"
  "rel_wf rel \<Longrightarrow> rel_wf (reliable_schedule_now now rel)"
  "rel_frame (reliable_schedule_now now rel) rel"
  "rel_packet_id (reliable_schedule_now now rel) = rel_packet_id rel"
proof -
  have f: "same_pkt (\<lambda>e. if e_active e then e\<lparr>e_next_try := now, e_timeout := t\<rparr> else e)" for t
    by (simp add: same_pkt_def entry_pkt_def)
  show "pkts (rel_entries (reliable_schedule_now now rel)) = pkts (rel_entries rel)"
    "ids_distinct (rel_entries (reliable_schedule_now now rel)) = ids_distinct (rel_entries rel)"
    by (simp_all add: reliable_schedule_now_def Let_def pkts_map [OF f] ids_distinct_map [OF f])
  show "rel_wf rel \<Longrightarrow> rel_wf (reliable_schedule_now now rel)"
    unfolding reliable_schedule_now_def Let_def by (intro wf_intros) auto
  show "rel_frame (reliable_schedule_now now rel) rel"
    "rel_packet_id (reliable_schedule_now now rel) = rel_packet_id rel"
    by (simp_all add: reliable_schedule_now_def Let_def rel_frame_def)
qed

text \<open>The acknowledged packets leave the send array, the others stay.\<close>

lemma purge_entry_fields [simp]:
  "e_packet_id (reliable_purge_entry pid e) = e_packet_id e"
  "e_buf (reliable_purge_entry pid e) = e_buf e"
  "e_active (reliable_purge_entry pid e) = (e_active e \<and> e_packet_id e \<noteq> pid)"
  by (auto simp: reliable_purge_entry_def)

lemma foldl_rel_map: "foldl (\<lambda>r x. rel_map (g x) r) rel xs = rel_map (\<lambda>e. foldl (\<lambda>e x. g x e) e xs) rel"
proof (induction xs arbitrary: rel)
  case Nil
  then show ?case by (simp add: rel_map_def map_prefix_def)
next
  case (Cons x xs)
  then show ?case by (simp add: rel_map_def map_prefix_def o_def min_def)
qed

lemma foldl_purge_fields:
  "e_packet_id (foldl (\<lambda>e x. reliable_purge_entry x e) e ids) = e_packet_id e"
  "e_buf (foldl (\<lambda>e x. reliable_purge_entry x e) e ids) = e_buf e"
  "e_active (foldl (\<lambda>e x. reliable_purge_entry x e) e ids) = (e_active e \<and> e_packet_id e \<notin> set ids)"
  by (induction ids arbitrary: e) auto

lemma send_purge_pkts:
  "pkts (rel_entries (reliable_send_purge rel ack)) = {p \<in> pkts (rel_entries rel). fst p \<notin> set (acks ack)}"
  "ids_distinct (rel_entries rel) \<Longrightarrow> ids_distinct (rel_entries (reliable_send_purge rel ack))"
  "rel_wf rel \<Longrightarrow> rel_wf (reliable_send_purge rel ack)"
  "rel_frame (reliable_send_purge rel ack) rel"
  "rel_packet_id (reliable_send_purge rel ack) = rel_packet_id rel"
proof -
  let ?f = "\<lambda>e. foldl (\<lambda>e x. reliable_purge_entry x e) e (acks ack)"
  have eq: "reliable_send_purge rel ack = rel_map ?f rel"
    by (simp add: reliable_send_purge_def foldl_rel_map acks_def)
  note f = foldl_purge_fields [where ids = "acks ack"]
  show "pkts (rel_entries (reliable_send_purge rel ack)) = {p \<in> pkts (rel_entries rel). fst p \<notin> set (acks ack)}"
    unfolding eq rel_entries_map pkts_map_eq by (auto simp: pkts_def entry_pkt_def f)
  show "ids_distinct (rel_entries rel) \<Longrightarrow> ids_distinct (rel_entries (reliable_send_purge rel ack))"
    by (auto simp: eq ids_distinct_def f)
  show "rel_wf rel \<Longrightarrow> rel_wf (reliable_send_purge rel ack)"
    unfolding eq by (intro wf_intros) (simp_all add: f)
  show "rel_frame (reliable_send_purge rel ack) rel"
    "rel_packet_id (reliable_send_purge rel ack) = rel_packet_id rel"
    by (simp_all add: eq rel_frame_def)
qed

subsection \<open>The receiver\<close>

lemma mark_deleted_ok:
  assumes wf: "rel_wf rel" and get: "reliable_get_entry_sequenced rel = Some i"
    and d: "ids_distinct (rel_entries rel)"
  shows "\<exists>rel'. reliable_mark_deleted rel i = Some rel' \<and> rel_wf rel' \<and> rel_frame rel' rel
    \<and> rel_packet_id rel' = rel_packet_id rel + 1 \<and> ids_distinct (rel_entries rel')
    \<and> entry_pkt (rel_entries rel ! i) \<in> pkts (rel_entries rel)
    \<and> e_packet_id (rel_entries rel ! i) = rel_packet_id rel
    \<and> pkts (rel_entries rel') = pkts (rel_entries rel) - {entry_pkt (rel_entries rel ! i)}"
proof -
  have i: "i < length (rel_entries rel)" "e_active (rel_entries rel ! i)"
    "e_packet_id (rel_entries rel ! i) = rel_packet_id rel"
    using find_index_SomeD [OF get [unfolded reliable_get_entry_sequenced_def]] by auto
  let ?e = "(rel_entries rel ! i)\<lparr>e_active := False\<rparr>"
  let ?r = "(rel_update rel i ?e)\<lparr>rel_packet_id := e_packet_id (rel_entries rel ! i) + 1\<rparr>"
  have "reliable_mark_deleted rel i = Some ?r"
    using i by (simp add: reliable_mark_deleted_def Let_def rel_entries_nth)
  moreover have "rel_wf ?r" using wf i rel_wf_nth [OF wf i(1)] by (intro rel_packet_id_wf rel_update_wf) auto
  ultimately show ?thesis
    using i pkts_nth [OF i(1,2)] pkts_deactivate [OF i(1,2) d, of ?e] ids_distinct_inactive [OF d, of ?e i]
    by (intro exI [of _ ?r]) (simp add: rel_frame_def)
qed

lemma not_replay_iff:
  "reliable_not_replay rel pid \<longleftrightarrow> \<not> reliable_pid_min pid (rel_packet_id rel)
     \<and> pid \<notin> fst ` pkts (rel_entries rel)"
  by (auto simp: reliable_not_replay_def find_index_None_iff fst_pkts)

text \<open>
  A control packet with number \<open>pid\<close> leaves the array as it is, or adds the packet; it is
  acknowledged only when it is stored or a replay.
\<close>

definition receivable :: "reliable \<Rightarrow> u32 \<Rightarrow> bool" where
  "receivable rel pid \<longleftrightarrow> reliable_can_get rel \<and> reliable_wont_break_sequentiality rel pid
     \<and> reliable_not_replay rel pid"

lemma receive_ok:
  assumes wf: "rel_wf rel" and d: "ids_distinct (rel_entries rel)" and ack: "ack_wf ack"
    and b: "buf_wf b" "buf_bytes b = u32_bytes pid @ payload"
  shows "\<exists>ok rel' ack'. control_packet_receive op b rel ack = Some (ok, rel', ack')
    \<and> rel_wf rel' \<and> rel_frame rel' rel \<and> rel_packet_id rel' = rel_packet_id rel
    \<and> ids_distinct (rel_entries rel') \<and> ack_wf ack'
    \<and> ((pkts (rel_entries rel') = pkts (rel_entries rel) \<and> set (acks ack') = set (acks ack))
      \<or> (op \<noteq> uint P_ACK_V1 \<and> reliable_wont_break_sequentiality rel pid \<and> \<not> reliable_not_replay rel pid
          \<and> pkts (rel_entries rel') = pkts (rel_entries rel) \<and> set (acks ack') \<subseteq> insert pid (set (acks ack)))
      \<or> (op \<noteq> uint P_ACK_V1 \<and> receivable rel pid \<and> pkts (rel_entries rel') = insert (pid, payload) (pkts (rel_entries rel))
          \<and> set (acks ack') \<subseteq> insert pid (set (acks ack))))"
proof -
  have ack': "ack_wf (snd (reliable_ack_acknowledge_packet_id ack pid))"
    "set (acks (snd (reliable_ack_acknowledge_packet_id ack pid))) \<subseteq> insert pid (set (acks ack))"
    using acknowledge_acks [OF ack, of pid] by auto
  obtain b1 where b1: "buf_read b 4 = (Some (u32_bytes pid), b1)" "buf_bytes b1 = payload"
    using buf_in.rd_prefix [OF b] by auto
  then have rd: "reliable_ack_read_packet_id b = (Some pid, b1)"
    by (simp add: reliable_ack_read_packet_id_def)
  consider (no) "\<not> (op \<noteq> uint P_ACK_V1 \<and> reliable_can_get rel \<and> reliable_wont_break_sequentiality rel pid)"
    | (old) "op \<noteq> uint P_ACK_V1" "reliable_can_get rel" "reliable_wont_break_sequentiality rel pid"
        "\<not> reliable_not_replay rel pid"
    | (new) "op \<noteq> uint P_ACK_V1" "receivable rel pid" by (auto simp: receivable_def)
  then show ?thesis
  proof cases
    case no
    then have "control_packet_receive op b rel ack = Some (True, rel, ack)"
      using rd by (auto simp: control_packet_receive_def)
    with wf d ack show ?thesis by auto
  next
    case old
    then have "control_packet_receive op b rel ack
        = Some (True, rel, snd (reliable_ack_acknowledge_packet_id ack pid))"
      using rd by (simp add: control_packet_receive_def)
    with wf d ack' old show ?thesis by auto
  next
    case new
    then have can: "reliable_can_get rel" and seq: "reliable_wont_break_sequentiality rel pid"
      and fresh: "reliable_not_replay rel pid" by (auto simp: receivable_def)
    obtain i b0 where i: "reliable_get_buf rel = Some (Some i, rel_update rel i ((rel_entries rel ! i)\<lparr>e_buf := b0\<rparr>))"
      "i < length (rel_entries rel)" "\<not> e_active (rel_entries rel ! i)" "buf_wf b0" "buf_bytes b0 = []"
      "b_capacity b0 = b_capacity (e_buf (rel_entries rel ! i))"
      using get_buf_ok [OF wf can] by blast
    let ?e = "(rel_entries rel ! i)\<lparr>e_buf := b0\<rparr>"
    let ?r1 = "rel_update rel i ?e"
    have cap: "rel_offset rel \<le> b_capacity b0" using rel_wf_nth [OF wf i(2)] i(6) by simp
    have r1: "rel_wf ?r1" "pkts (rel_entries ?r1) = pkts (rel_entries rel)" "ids_distinct (rel_entries ?r1)"
      using wf i cap pkts_update_inactive [OF i(2,3), of ?e] ids_distinct_inactive [OF d, of ?e i]
      by (auto intro!: rel_update_wf)
    have nth1: "rel_array ?r1 ! i = ?e"
      using i(2) by (simp add: rel_entries_nth)
    have cp: "buf_copy b0 b1 = (if int (length payload) \<le> buf_tailroom b0 then (True, buf_push b0 payload) else (False, b0))"
      by (simp add: buf_copy_def b1(2) buf_write_eq [OF i(4)])
    show ?thesis
    proof (cases "int (length payload) \<le> buf_tailroom b0")
      case False
      then have "control_packet_receive op b rel ack = Some (False, ?r1, ack)"
        using new(1) can seq fresh rd i(1) nth1 cp by (simp add: control_packet_receive_def)
      with r1 ack show ?thesis by (auto simp: rel_frame_def)
    next
      case True
      let ?b2 = "buf_push b0 payload"
      let ?e2 = "(?e\<lparr>e_buf := ?b2\<rparr>)\<lparr>e_active := True, e_packet_id := pid, e_opcode := op,
                 e_next_try := 0, e_timeout := 0, e_n_acks := 0\<rparr>"
      let ?r2 = "rel_update (rel_update ?r1 i (?e\<lparr>e_buf := ?b2\<rparr>)) i ?e2"
      have nth2: "rel_array (rel_update ?r1 i (?e\<lparr>e_buf := ?b2\<rparr>)) ! i = ?e\<lparr>e_buf := ?b2\<rparr>"
        using i(2) by (simp add: rel_entries_nth)
      have "reliable_mark_active_incoming (rel_update ?r1 i (?e\<lparr>e_buf := ?b2\<rparr>)) i pid op = Some ?r2"
        using fresh i(2) unfolding reliable_mark_active_incoming_def nth2 by (simp add: not_replay_iff)
      then have run: "control_packet_receive op b rel ack
          = Some (True, ?r2, snd (reliable_ack_acknowledge_packet_id ack pid))"
        using new(1) can seq fresh rd i(1) nth1 cp True by (simp add: control_packet_receive_def)
      have b2: "buf_wf ?b2" "buf_bytes ?b2 = payload"
        using True i(4,5) by (simp_all add: buf_simps)
      have e2: "entry_pkt ?e2 = (pid, payload)" by (simp add: entry_pkt_def b2)
      have xs: "rel_entries ?r2 = (rel_entries rel)[i := ?e2]" by simp
      have "rel_wf ?r2" using wf b2 i cap by (intro rel_update_wf) auto
      moreover have "pkts (rel_entries ?r2) = insert (pid, payload) (pkts (rel_entries rel))"
        unfolding xs using pkts_update_inactive [OF i(2,3), of ?e2] e2 by simp
      moreover have "ids_distinct (rel_entries ?r2)"
        unfolding xs using d fresh by (intro ids_distinct_fresh) (auto simp: not_replay_iff fst_pkts)
      ultimately show ?thesis using run new ack' by (auto simp: rel_frame_def)
    qed
  qed
qed

lemma control_packet_receive_distinct:
  assumes "control_packet_receive op b rel ack = Some (ok, rel', ack')" "ack_wf ack" "distinct (acks ack)"
  shows "distinct (acks ack')"
proof -
  have "ack' = ack \<or> (\<exists>pid. ack' = snd (reliable_ack_acknowledge_packet_id ack pid))"
    using assms(1) by (auto simp: control_packet_receive_def
        split: if_splits prod.splits option.splits bool.splits)
  with assms(2,3) show ?thesis using acknowledge_distinct by blast
qed

subsection \<open>The sender\<close>

definition low_ids :: "reliable_entry list \<Rightarrow> bool" where
  "low_ids xs \<longleftrightarrow> (\<forall>e \<in> set xs. e_active e \<longrightarrow> unat (e_packet_id e) < 2 ^ 31)"

lemma pid_min_unat:
  "unat a < 2 ^ 31 \<Longrightarrow> unat b < 2 ^ 31 \<Longrightarrow> reliable_pid_min a b \<longleftrightarrow> unat a < unat b"
  using pid_min_nat [of "unat a" "unat b"] by simp

text \<open>What both search loops compute: the lowest number among the entries they consider.\<close>

lemma foldl_min_active:
  "low_ids xs \<Longrightarrow> (\<And>m. acc = Some m \<Longrightarrow> unat m < 2 ^ 31) \<Longrightarrow>
   case foldl reliable_min_step acc xs of
     None \<Rightarrow> acc = None \<and> (\<forall>e \<in> set xs. \<not> e_active e)
   | Some r \<Rightarrow> unat r < 2 ^ 31 \<and> (acc = Some r \<or> (\<exists>e \<in> set xs. e_active e \<and> e_packet_id e = r))
       \<and> (\<forall>e \<in> set xs. e_active e \<longrightarrow> unat r \<le> unat (e_packet_id e)) \<and> (\<forall>m. acc = Some m \<longrightarrow> unat r \<le> unat m)"
proof (induction xs arbitrary: acc)
  case Nil
  then show ?case by (auto split: option.splits)
next
  case (Cons e xs)
  let ?acc = "reliable_min_step acc e"
  have low: "low_ids xs" and e: "e_active e \<Longrightarrow> unat (e_packet_id e) < 2 ^ 31"
    using Cons.prems(1) by (auto simp: low_ids_def)
  have step: "(\<forall>m. ?acc = Some m \<longrightarrow> unat m < 2 ^ 31)
     \<and> (?acc = None \<longleftrightarrow> acc = None \<and> \<not> e_active e)
     \<and> (\<forall>r. ?acc = Some r \<longrightarrow> (acc = Some r \<or> (e_active e \<and> e_packet_id e = r))
          \<and> (e_active e \<longrightarrow> unat r \<le> unat (e_packet_id e)) \<and> (\<forall>m. acc = Some m \<longrightarrow> unat r \<le> unat m))"
    using e Cons.prems(2) by (cases acc) (auto simp: reliable_min_step_def pid_min_unat)
  have "case foldl reliable_min_step ?acc xs of
     None \<Rightarrow> ?acc = None \<and> (\<forall>e \<in> set xs. \<not> e_active e)
   | Some r \<Rightarrow> unat r < 2 ^ 31 \<and> (?acc = Some r \<or> (\<exists>e \<in> set xs. e_active e \<and> e_packet_id e = r))
       \<and> (\<forall>e \<in> set xs. e_active e \<longrightarrow> unat r \<le> unat (e_packet_id e)) \<and> (\<forall>m. ?acc = Some m \<longrightarrow> unat r \<le> unat m)"
    using step by (intro Cons.IH [OF low]) blast
  with step show ?case
    by (cases "foldl reliable_min_step ?acc xs"; cases ?acc) (auto intro: order_trans)
qed

lemma min_active_None: "reliable_min_active rel = None \<Longrightarrow> low_ids (rel_entries rel) \<Longrightarrow>
    e \<in> set (rel_entries rel) \<Longrightarrow> \<not> e_active e"
  using foldl_min_active [of "rel_entries rel" None] by (auto simp: reliable_min_active_def)

lemma min_active_Some:
  assumes "reliable_min_active rel = Some r" "low_ids (rel_entries rel)"
  shows "unat r < 2 ^ 31" "\<exists>e \<in> set (rel_entries rel). e_active e \<and> e_packet_id e = r"
    "\<And>e. e \<in> set (rel_entries rel) \<Longrightarrow> e_active e \<Longrightarrow> unat r \<le> unat (e_packet_id e)"
  using foldl_min_active [OF assms(2), of None] assms(1) by (auto simp: reliable_min_active_def)

lemma best_min:
  "low_ids xs \<Longrightarrow> (\<And>j m. acc = Some (j, m) \<Longrightarrow> unat m < 2 ^ 31) \<Longrightarrow>
   case reliable_best now i xs acc of
     None \<Rightarrow> acc = None \<and> (\<forall>e \<in> set xs. \<not> reliable_entry_due now e)
   | Some (j, r) \<Rightarrow> (acc = Some (j, r) \<or> (i \<le> j \<and> j < i + length xs \<and> reliable_entry_due now (xs ! (j - i))
         \<and> e_packet_id (xs ! (j - i)) = r))
       \<and> (\<forall>e \<in> set xs. reliable_entry_due now e \<longrightarrow> unat r \<le> unat (e_packet_id e))
       \<and> (\<forall>k m. acc = Some (k, m) \<longrightarrow> unat r \<le> unat m)"
proof (induction xs arbitrary: acc i)
  case Nil
  then show ?case by (auto split: option.splits)
next
  case (Cons e xs)
  let ?acc = "if reliable_entry_due now e
           \<and> (case acc of None \<Rightarrow> True | Some (_, m) \<Rightarrow> reliable_pid_min (e_packet_id e) m)
        then Some (i, e_packet_id e) else acc"
  have low: "low_ids xs" and e: "reliable_entry_due now e \<Longrightarrow> unat (e_packet_id e) < 2 ^ 31"
    using Cons.prems(1) by (auto simp: low_ids_def reliable_entry_due_def)
  have step: "(\<forall>j m. ?acc = Some (j, m) \<longrightarrow> unat m < 2 ^ 31)
     \<and> (?acc = None \<longleftrightarrow> acc = None \<and> \<not> reliable_entry_due now e)
     \<and> (\<forall>j r. ?acc = Some (j, r) \<longrightarrow> (acc = Some (j, r) \<or> (reliable_entry_due now e \<and> j = i \<and> e_packet_id e = r))
          \<and> (reliable_entry_due now e \<longrightarrow> unat r \<le> unat (e_packet_id e)) \<and> (\<forall>k m. acc = Some (k, m) \<longrightarrow> unat r \<le> unat m))"
    using e Cons.prems(2) by (cases acc) (auto simp: pid_min_unat)
  have IH: "case reliable_best now (Suc i) xs ?acc of
     None \<Rightarrow> ?acc = None \<and> (\<forall>e \<in> set xs. \<not> reliable_entry_due now e)
   | Some (j, r) \<Rightarrow> (?acc = Some (j, r) \<or> (Suc i \<le> j \<and> j < Suc i + length xs
         \<and> reliable_entry_due now (xs ! (j - Suc i)) \<and> e_packet_id (xs ! (j - Suc i)) = r))
       \<and> (\<forall>e \<in> set xs. reliable_entry_due now e \<longrightarrow> unat r \<le> unat (e_packet_id e))
       \<and> (\<forall>k m. ?acc = Some (k, m) \<longrightarrow> unat r \<le> unat m)"
    using step by (intro Cons.IH [OF low]) blast
  show ?case
  proof (cases "reliable_best now (Suc i) xs ?acc")
    case None
    with IH step show ?thesis by (simp split: if_splits)
  next
    case (Some p)
    obtain j r where p: "p = (j, r)" by (cases p)
    have nth: "(e # xs) ! (j - i) = xs ! (j - Suc i)" if "Suc i \<le> j"
    proof -
      have "j - i = Suc (j - Suc i)" using that by simp
      then show ?thesis by simp
    qed
    have le: "unat r \<le> unat (e_packet_id e)" if "reliable_entry_due now e"
    proof -
      have "?acc \<noteq> None" using step that by blast
      then obtain k m where km: "?acc = Some (k, m)" by fast
      then have "unat m \<le> unat (e_packet_id e)" using step that by blast
      moreover have "unat r \<le> unat m" using IH [unfolded Some p option.case prod.case] km by blast
      ultimately show ?thesis by simp
    qed
    have mono: "unat r \<le> unat m" if "acc = Some (k, m)" for k m
    proof -
      have "?acc \<noteq> None" using step that by blast
      then obtain k' m' where km: "?acc = Some (k', m')" by fast
      then have "unat m' \<le> unat m" using step that by blast
      moreover have "unat r \<le> unat m'" using IH [unfolded Some p option.case prod.case] km by blast
      ultimately show ?thesis by simp
    qed
    have "acc = Some (j, r) \<or> (i \<le> j \<and> j < i + length (e # xs) \<and> reliable_entry_due now ((e # xs) ! (j - i))
         \<and> e_packet_id ((e # xs) ! (j - i)) = r)"
      using IH Some p step nth by (auto simp del: nth_Cons_Suc)
    with IH Some p le mono show ?thesis by auto
  qed
qed

lemma send_ok:
  assumes wf: "rel_wf rel" and low: "low_ids (rel_entries rel)"
  shows "case reliable_send now rel of
     (None, rel') \<Rightarrow> rel' = rel \<and> (\<forall>e \<in> set (rel_entries rel). \<not> reliable_entry_due now e)
   | (Some (i, op), rel') \<Rightarrow> i < length (rel_entries rel) \<and> op = e_opcode (rel_entries rel ! i)
       \<and> reliable_entry_due now (rel_entries rel ! i)
       \<and> (\<forall>e \<in> set (rel_entries rel). reliable_entry_due now e
            \<longrightarrow> unat (e_packet_id (rel_entries rel ! i)) \<le> unat (e_packet_id e))
       \<and> rel' = rel_update rel i ((rel_entries rel ! i)\<lparr>e_next_try := now + e_timeout (rel_entries rel ! i),
            e_timeout := e_timeout (rel_entries rel ! i) * 2, e_n_acks := 0\<rparr>)"
proof (cases "reliable_best now 0 (rel_entries rel) None")
  case None
  then show ?thesis using best_min [OF low, of None now 0] by (simp add: reliable_send_def)
next
  case (Some p)
  then obtain i r where p: "reliable_best now 0 (rel_entries rel) None = Some (i, r)" by (cases p) auto
  then have i: "i < length (rel_entries rel)" "reliable_entry_due now (rel_entries rel ! i)"
    "e_packet_id (rel_entries rel ! i) = r"
    "\<forall>e \<in> set (rel_entries rel). reliable_entry_due now e \<longrightarrow> unat r \<le> unat (e_packet_id e)"
    using best_min [OF low, of None now 0] by auto
  with p show ?thesis by (simp add: reliable_send_def Let_def rel_entries_nth)
qed

lemma send_pkts:
  assumes wf: "rel_wf rel" and low: "low_ids (rel_entries rel)" and s: "reliable_send now rel = (Some (i, op), rel')"
  shows "rel_wf rel'" "rel_frame rel' rel" "rel_packet_id rel' = rel_packet_id rel"
    "pkts (rel_entries rel') = pkts (rel_entries rel)"
    "ids_distinct (rel_entries rel') = ids_distinct (rel_entries rel)"
    "i < length (rel_entries rel)" "e_active (rel_entries rel ! i)" "low_ids (rel_entries rel')"
proof -
  let ?f = "\<lambda>e. e\<lparr>e_next_try := now + e_timeout e, e_timeout := e_timeout e * 2, e_n_acks := 0\<rparr>"
  have r: "i < length (rel_entries rel)" "reliable_entry_due now (rel_entries rel ! i)"
    "rel' = rel_update rel i (?f (rel_entries rel ! i))"
    using send_ok [OF wf low, of now] s by auto
  have f: "same_pkt ?f" by (simp add: same_pkt_def entry_pkt_def)
  show "rel_wf rel'" unfolding r(3) using wf rel_wf_nth [OF wf r(1)] by (intro rel_update_wf) auto
  show "rel_frame rel' rel" "rel_packet_id rel' = rel_packet_id rel" by (simp_all add: r(3) rel_frame_def)
  show "pkts (rel_entries rel') = pkts (rel_entries rel)"
    "ids_distinct (rel_entries rel') = ids_distinct (rel_entries rel)"
    using list_update_as_map [OF r(1) f] by (simp_all add: r(3))
  show "i < length (rel_entries rel)" "e_active (rel_entries rel ! i)"
    using r by (auto simp: reliable_entry_due_def)
  then show "low_ids (rel_entries rel')"
    using low set_update_subset_insert [of "rel_entries rel" i] by (fastforce simp: low_ids_def r(3))
qed

text \<open>Queueing a packet: a free buffer is filled with the payload and activated.\<close>

lemma queue_ok:
  assumes wf: "rel_wf rel" and d: "ids_distinct (rel_entries rel)" and low: "low_ids (rel_entries rel)"
    and get: "reliable_get_buf_output_sequenced rel = Some (Some i, rel1)"
    and put: "buf_write (e_buf (rel_array rel1 ! i)) payload = (True, b)"
    and mark: "reliable_mark_active_outgoing (rel_update rel1 i ((rel_array rel1 ! i)\<lparr>e_buf := b\<rparr>)) i op = Some rel2"
    and fresh: "rel_packet_id rel \<notin> fst ` pkts (rel_entries rel)"
  shows "rel_wf rel2" "rel_frame rel2 rel" "rel_packet_id rel2 = rel_packet_id rel + 1"
    "pkts (rel_entries rel2) = insert (rel_packet_id rel, u32_bytes (rel_packet_id rel) @ payload) (pkts (rel_entries rel))"
    "ids_distinct (rel_entries rel2)"
    "\<And>m. m \<in> fst ` pkts (rel_entries rel) \<Longrightarrow> unat m \<le> unat (rel_packet_id rel) \<Longrightarrow>
       unat (rel_packet_id rel) < unat m + nat (rel_size rel)"
proof -
  let ?p = "rel_packet_id rel"
  have can: "reliable_can_get rel" and seq: "case reliable_min_active rel of None \<Rightarrow> True
          | Some m \<Rightarrow> reliable_pid_in_range1 ?p m (word_of_int (rel_size rel))"
    and get': "reliable_get_buf rel = Some (Some i, rel1)"
    using get get_buf_None [of rel] by (auto simp: reliable_get_buf_output_sequenced_def split: if_splits)
  obtain b0 where i: "rel1 = rel_update rel i ((rel_entries rel ! i)\<lparr>e_buf := b0\<rparr>)"
    "i < length (rel_entries rel)" "\<not> e_active (rel_entries rel ! i)" "buf_wf b0" "buf_bytes b0 = []"
    "b_capacity b0 = b_capacity (e_buf (rel_entries rel ! i))"
    using get_buf_ok [OF wf can] get' by auto
  have nth1: "rel_array rel1 ! i = (rel_entries rel ! i)\<lparr>e_buf := b0\<rparr>"
    using i(1,2) by (simp add: rel_entries_nth)
  have b: "buf_wf b" "buf_bytes b = payload" "b_capacity b = b_capacity b0"
    using put i(4,5) by (auto simp: nth1 buf_write_eq buf_simps split: if_splits)
  let ?r1 = "rel_update rel1 i ((rel_array rel1 ! i)\<lparr>e_buf := b\<rparr>)"
  have nth2: "rel_array ?r1 ! i = (rel_entries rel ! i)\<lparr>e_buf := b\<rparr>"
    using i(1,2) by (simp add: rel_entries_nth nth1)
  obtain b' where b': "buf_write_prepend b (u32_bytes ?p) = (True, b')"
    "rel2 = rel_update (?r1\<lparr>rel_packet_id := ?p + 1\<rparr>) i ((rel_entries rel ! i)\<lparr>e_packet_id := ?p,
        e_buf := b', e_active := True, e_opcode := op, e_next_try := 0, e_timeout := rel_initial_timeout rel\<rparr>)"
    using mark i(1,2) unfolding reliable_mark_active_outgoing_def nth2
    by (auto simp: Let_def split: prod.splits bool.splits)
  let ?e = "(rel_entries rel ! i)\<lparr>e_packet_id := ?p,
        e_buf := b', e_active := True, e_opcode := op, e_next_try := 0, e_timeout := rel_initial_timeout rel\<rparr>"
  have bb: "buf_wf b'" "buf_bytes b' = u32_bytes ?p @ payload" "b_capacity b' = b_capacity b"
    using b'(1) b by (auto simp: buf_write_prepend_eq buf_simps split: if_splits)
  have xs: "rel_entries rel2 = (rel_entries rel)[i := ?e]" by (simp add: b'(2) i(1))
  have cap: "rel_offset rel \<le> b_capacity b'" "rel_offset rel \<le> b_capacity b" "rel_offset rel \<le> b_capacity b0"
    using rel_wf_nth [OF wf i(2)] i(6) b(3) bb(3) by simp_all
  show "rel_wf rel2" unfolding b'(2) i(1)
    using wf i b bb cap by (intro rel_update_wf rel_packet_id_wf) (auto simp: nth1 rel_entries_nth)
  show "rel_frame rel2 rel" "rel_packet_id rel2 = ?p + 1" by (simp_all add: b'(2) i(1) rel_frame_def)
  show "pkts (rel_entries rel2) = insert (?p, u32_bytes ?p @ payload) (pkts (rel_entries rel))"
    unfolding xs using pkts_update_inactive [OF i(2,3), of ?e] bb by (simp add: entry_pkt_def)
  show "ids_distinct (rel_entries rel2)"
    unfolding xs using d fresh by (intro ids_distinct_fresh) (auto simp: fst_pkts)
  show "unat ?p < unat m + nat (rel_size rel)" if m: "m \<in> fst ` pkts (rel_entries rel)" and le: "unat m \<le> unat ?p" for m
  proof -
    obtain e where e: "e \<in> set (rel_entries rel)" "e_active e" "e_packet_id e = m"
      using m by (auto simp: fst_pkts)
    obtain r where r: "reliable_min_active rel = Some r"
      using min_active_None [OF _ low e(1)] e(2) by (cases "reliable_min_active rel") auto
    have rm: "unat r \<le> unat m" using min_active_Some(3) [OF r low e(1,2)] e(3) by simp
    have "unat (?p - r) < nat (rel_size rel)"
      using seq r wf by (auto simp: reliable_pid_in_range1_def subtract_pid_def word_less_nat_alt
          unat_of_int_small rel_wf_def)
    moreover have "unat (?p - r) = unat ?p - unat r" using rm le by (simp add: unat_sub_if')
    ultimately show ?thesis using rm by linarith
  qed
qed

section \<open>Properties\<close>



text \<open>
  C34: The window test of the receiver is not exact in the upper half of the numbers: for a base
  of at least \<open>2 ^ 31\<close> whose window does not wrap, every number below \<open>base - 2 ^ 31\<close> passes both
  \<open>reliable_pid_in_range2\<close> and the replay test, although it lies beyond the window.
\<close>

theorem reliable_pid_in_range2_accepts_far:
  fixes base test extent :: u32
  assumes "0x80000000 \<le> base" "base \<le> base + extent" "test < base - 0x80000000"
  shows "reliable_pid_in_range2 test base extent \<and> \<not> reliable_pid_min test base
    \<and> \<not> reliable_pid_in_range1 test base extent"
proof -
  have "test < base"
    using assms(1,3) by (simp add: word_less_nat_alt word_le_nat_alt unat_sub)
  then have "unat (test - base) = unat test + 2 ^ 32 - unat base"
    by (simp add: unat_sub_if' word_less_nat_alt)
  moreover have "unat base + unat extent < 2 ^ 32"
    using assms(2) by (simp add: no_olen_add_nat)
  ultimately have "\<not> reliable_pid_in_range1 test base extent"
    by (simp add: reliable_pid_in_range1_def subtract_pid_def word_less_nat_alt)
  with pid_range2_far [OF assms] show ?thesis by blast
qed

theorem reliable_pid_in_range2_accepts_far_witness:
  "reliable_pid_in_range2 5 0x80000010 12 \<and> \<not> reliable_pid_min 5 0x80000010
    \<and> \<not> reliable_pid_in_range1 5 0x80000010 12"
  by (rule reliable_pid_in_range2_accepts_far) simp_all

end
