(* ===== verification/ReliableLink.thy ===== *)
theory ReliableLink
  imports Reliable
begin

text \<open>
  Two ends of a control channel joined by a network that may lose, duplicate and reorder
  packets: one end queues and retransmits packets from its \<open>send_reliable\<close>, the other stores
  them in its \<open>rec_reliable\<close>, acknowledges and delivers them. Every step calls the operations
  the way \<open>tls_process\<close> and \<open>tls_pre_decrypt\<close> of \<open>ssl.c\<close> do. The network is the set of byte
  strings ever sent; a step may pick any of them, any number of times, or never. The theorems
  hold for every run that queues fewer than \<open>2 ^ 31 - 12\<close> packets.
\<close>

section \<open>The step relation\<close>

record link =
  l_snd :: reliable
  l_rcv :: reliable
  l_ack :: reliable_ack
  l_mru :: reliable_ack
  l_data :: "u8 list set"
  l_acks :: "u8 list set"
  l_sent :: "u8 list list"
  l_delivered :: "u8 list list"

definition reliable_ack_zero :: reliable_ack where
  "reliable_ack_zero = \<lparr>ra_len = 0, ra_packet_id = replicate 8 0\<rparr>"

definition link_init :: "reliable \<Rightarrow> reliable \<Rightarrow> link" where
  "link_init tx rx = \<lparr>l_snd = tx, l_rcv = rx, l_ack = reliable_ack_zero, l_mru = reliable_ack_zero,
     l_data = {}, l_acks = {}, l_sent = [], l_delivered = []\<rparr>"

inductive link_step :: "session_id \<Rightarrow> link \<Rightarrow> link \<Rightarrow> bool" for sid :: session_id where
  queue: "reliable_get_buf_output_sequenced (l_snd l) = Some (Some i, s1) \<Longrightarrow>
    buf_write (e_buf (rel_array s1 ! i)) payload = (True, b) \<Longrightarrow>
    reliable_mark_active_outgoing (rel_update s1 i ((rel_array s1 ! i)\<lparr>e_buf := b\<rparr>)) i op = Some s2 \<Longrightarrow>
    link_step sid l (l\<lparr>l_snd := s2, l_sent := l_sent l @ [payload]\<rparr>)"
| transmit: "reliable_can_send now (l_snd l) \<Longrightarrow> reliable_send now (l_snd l) = (Some (i, op), s1) \<Longrightarrow>
    link_step sid l (l\<lparr>l_snd := s1, l_data := insert (buf_bytes (e_buf (rel_array (l_snd l) ! i))) (l_data l)\<rparr>)"
| burst: "link_step sid l (l\<lparr>l_snd := reliable_schedule_now now (l_snd l)\<rparr>)"
| receive: "m \<in> l_data l \<Longrightarrow> buf_wf b \<Longrightarrow> buf_bytes b = m \<Longrightarrow>
    control_packet_receive op b (l_rcv l) (l_ack l) = Some (ok, r1, a1) \<Longrightarrow>
    link_step sid l (l\<lparr>l_rcv := r1, l_ack := a1\<rparr>)"
| ack_write: "buf_wf b \<Longrightarrow> buf_bytes b = [] \<Longrightarrow> 0 \<le> n \<Longrightarrow> n \<le> RELIABLE_ACK_SIZE \<Longrightarrow> ACK_SIZE n \<le> b_offset b \<Longrightarrow>
    reliable_ack_write (l_ack l) (l_mru l) b sid n True = Some (True, a1, m1, b1) \<Longrightarrow>
    link_step sid l (l\<lparr>l_ack := a1, l_mru := m1, l_acks := insert (buf_bytes b1) (l_acks l)\<rparr>)"
| ack_read: "m \<in> l_acks l \<Longrightarrow> buf_wf b \<Longrightarrow> buf_bytes b = m @ rest \<Longrightarrow> length (ra_packet_id a) = 8 \<Longrightarrow>
    reliable_ack_read a b sid = (True, a1, b1) \<Longrightarrow>
    link_step sid l (l\<lparr>l_snd := reliable_send_purge (l_snd l) a1\<rparr>)"
| deliver: "reliable_get_entry_sequenced (l_rcv l) = Some i \<Longrightarrow>
    reliable_mark_deleted (l_rcv l) i = Some r1 \<Longrightarrow>
    link_step sid l (l\<lparr>l_rcv := r1,
      l_delivered := l_delivered l @ [buf_bytes (e_buf (rel_array (l_rcv l) ! i))]\<rparr>)"

inductive_cases link_stepE: "link_step sid l l'"

section \<open>The invariant\<close>

abbreviation pid_of :: "nat \<Rightarrow> u32" where
  "pid_of \<equiv> word_of_nat"

definition received :: "link \<Rightarrow> nat \<Rightarrow> bool" where
  "received l k \<longleftrightarrow> k < length (l_delivered l) \<or> pid_of k \<in> fst ` pkts (rel_entries (l_rcv l))"

definition got_ids :: "link \<Rightarrow> u32 set" where
  "got_ids l = pid_of ` {k. k < length (l_sent l) \<and> received l k}"

definition small :: "link \<Rightarrow> bool" where
  "small l \<longleftrightarrow> length (l_sent l) + 12 < 2 ^ 31"

definition wire_pkt :: "link \<Rightarrow> nat \<Rightarrow> u8 list" where
  "wire_pkt l k = u32_bytes (pid_of k) @ l_sent l ! k"

definition snd_inv :: "link \<Rightarrow> bool" where
  "snd_inv l \<longleftrightarrow> rel_wf (l_snd l) \<and> ids_distinct (rel_entries (l_snd l))
     \<and> rel_packet_id (l_snd l) = pid_of (length (l_sent l))
     \<and> pkts (rel_entries (l_snd l)) \<subseteq> (\<lambda>k. (pid_of k, wire_pkt l k)) ` {..<length (l_sent l)}
     \<and> l_data l \<subseteq> wire_pkt l ` {..<length (l_sent l)}"

definition rcv_inv :: "link \<Rightarrow> bool" where
  "rcv_inv l \<longleftrightarrow> rel_wf (l_rcv l) \<and> ids_distinct (rel_entries (l_rcv l))
     \<and> rel_packet_id (l_rcv l) = pid_of (length (l_delivered l))
     \<and> length (l_delivered l) \<le> length (l_sent l)
     \<and> l_delivered l = take (length (l_delivered l)) (l_sent l)
     \<and> pkts (rel_entries (l_rcv l)) \<subseteq> (\<lambda>k. (pid_of k, l_sent l ! k)) `
         {k. length (l_delivered l) \<le> k \<and> k < length (l_sent l)
             \<and> k < length (l_delivered l) + nat (rel_size (l_rcv l))}"

definition ack_inv :: "session_id \<Rightarrow> link \<Rightarrow> bool" where
  "ack_inv sid l \<longleftrightarrow> ack_wf (l_ack l) \<and> ack_wf (l_mru l) \<and> distinct (acks (l_ack l)) \<and> distinct (acks (l_mru l))
     \<and> set (acks (l_ack l)) \<subseteq> got_ids l \<and> set (acks (l_mru l)) \<subseteq> got_ids l
     \<and> (\<forall>m \<in> l_acks l. \<exists>ids. m = ack_record_bytes ids sid \<and> length ids \<le> 8 \<and> set ids \<subseteq> got_ids l)"

definition kept_inv :: "link \<Rightarrow> bool" where
  "kept_inv l \<longleftrightarrow> (\<forall>k < length (l_sent l). received l k \<or> pid_of k \<in> fst ` pkts (rel_entries (l_snd l)))"

definition link_inv :: "session_id \<Rightarrow> link \<Rightarrow> bool" where
  "link_inv sid l \<longleftrightarrow> snd_inv l \<and> rcv_inv l \<and> ack_inv sid l \<and> kept_inv l"

lemma pid_of_inj: "small l \<Longrightarrow> j \<le> length (l_sent l) \<Longrightarrow> k \<le> length (l_sent l) \<Longrightarrow> pid_of j = pid_of k \<longleftrightarrow> j = k"
  by (intro pid_inj) (auto simp: small_def)

lemma snd_low: "snd_inv l \<Longrightarrow> small l \<Longrightarrow> low_ids (rel_entries (l_snd l))"
  by (fastforce simp: snd_inv_def small_def low_ids_def pkts_def entry_pkt_def unat_pid)

lemma got_ids_mono:
  assumes "\<And>k. received l k \<Longrightarrow> k < length (l_sent l) \<Longrightarrow> received l' k"
    "length (l_sent l) \<le> length (l_sent l')"
  shows "got_ids l \<subseteq> got_ids l'"
  using assms by (force simp: got_ids_def)

lemma ack_inv_mono:
  assumes "ack_inv sid l" "got_ids l \<subseteq> got_ids l'" "l_ack l' = l_ack l" "l_mru l' = l_mru l" "l_acks l' = l_acks l"
  shows "ack_inv sid l'"
  using assms unfolding ack_inv_def by (metis subset_trans)

section \<open>The steps keep the invariant\<close>

lemma queue_inv:
  assumes inv: "link_inv sid l" and sm: "small (l\<lparr>l_snd := s2, l_sent := l_sent l @ [payload]\<rparr>)"
    and get: "reliable_get_buf_output_sequenced (l_snd l) = Some (Some i, s1)"
    and put: "buf_write (e_buf (rel_array s1 ! i)) payload = (True, b)"
    and mark: "reliable_mark_active_outgoing (rel_update s1 i ((rel_array s1 ! i)\<lparr>e_buf := b\<rparr>)) i op = Some s2"
  shows "link_inv sid (l\<lparr>l_snd := s2, l_sent := l_sent l @ [payload]\<rparr>)"
proof -
  let ?l = "l\<lparr>l_snd := s2, l_sent := l_sent l @ [payload]\<rparr>"
  let ?N = "length (l_sent l)"
  have sml: "small l" using sm by (simp add: small_def)
  have s: "snd_inv l" and r: "rcv_inv l" and a: "ack_inv sid l" and k: "kept_inv l"
    using inv by (auto simp: link_inv_def)
  have id: "rel_packet_id (l_snd l) = pid_of ?N" using s by (simp add: snd_inv_def)
  have fresh: "rel_packet_id (l_snd l) \<notin> fst ` pkts (rel_entries (l_snd l))"
  proof
    assume "rel_packet_id (l_snd l) \<in> fst ` pkts (rel_entries (l_snd l))"
    then obtain j where "j < ?N" "pid_of ?N = pid_of j"
      using s id unfolding snd_inv_def by fastforce
    with pid_of_inj [OF sml, of ?N j] show False by simp
  qed
  have wf: "rel_wf (l_snd l)" "ids_distinct (rel_entries (l_snd l))" using s by (auto simp: snd_inv_def)
  note q = queue_ok [OF wf snd_low [OF s sml] get put mark fresh]
  have wire: "wire_pkt ?l j = wire_pkt l j" if "j < ?N" for j
    using that by (simp add: wire_pkt_def nth_append)
  have new: "wire_pkt ?l ?N = u32_bytes (pid_of ?N) @ payload" by (simp add: wire_pkt_def)
  have up: "f ` {..<?N} \<subseteq> f ` {..<Suc ?N}" for f :: "nat \<Rightarrow> 'b" by (intro image_mono) auto
  have w1: "(\<lambda>k. (pid_of k, wire_pkt l k)) ` {..<?N} = (\<lambda>k. (pid_of k, wire_pkt ?l k)) ` {..<?N}"
    and w2: "wire_pkt l ` {..<?N} = wire_pkt ?l ` {..<?N}"
    by (rule image_cong, simp_all add: wire)+
  have "(pid_of ?N, u32_bytes (pid_of ?N) @ payload) \<in> (\<lambda>k. (pid_of k, wire_pkt ?l k)) ` {..<Suc ?N}"
    using new by (intro image_eqI [of _ _ ?N]) auto
  then have "pkts (rel_entries s2) \<subseteq> (\<lambda>k. (pid_of k, wire_pkt ?l k)) ` {..<Suc ?N}"
    using q(4) id s w1 up [of "\<lambda>k. (pid_of k, wire_pkt ?l k)"] by (simp only: snd_inv_def) blast
  moreover have "l_data l \<subseteq> wire_pkt ?l ` {..<Suc ?N}"
    using s w2 up [of "wire_pkt ?l"] by (simp only: snd_inv_def) blast
  ultimately have "snd_inv ?l"
    using q(1,3,5) id by (simp add: snd_inv_def add.commute)
  moreover have "rcv_inv ?l" using r unfolding rcv_inv_def by (fastforce simp: nth_append)
  moreover have "ack_inv sid ?l"
    by (rule ack_inv_mono [OF a got_ids_mono]) (auto simp: received_def)
  moreover have "kept_inv ?l"
    using k q(4) id by (auto simp: kept_inv_def received_def less_Suc_eq)
  ultimately show ?thesis by (simp add: link_inv_def)
qed

lemma transmit_inv:
  assumes inv: "link_inv sid l" and sm: "small l"
    and send: "reliable_send now (l_snd l) = (Some (i, op), s1)"
  shows "link_inv sid (l\<lparr>l_snd := s1, l_data := insert (buf_bytes (e_buf (rel_array (l_snd l) ! i))) (l_data l)\<rparr>)"
proof -
  let ?l = "l\<lparr>l_snd := s1, l_data := insert (buf_bytes (e_buf (rel_array (l_snd l) ! i))) (l_data l)\<rparr>"
  have s: "snd_inv l" and r: "rcv_inv l" and a: "ack_inv sid l" and k: "kept_inv l"
    using inv by (auto simp: link_inv_def)
  then have wf: "rel_wf (l_snd l)" by (simp add: snd_inv_def)
  note p = send_pkts [OF wf snd_low [OF s sm] send]
  have "entry_pkt (rel_entries (l_snd l) ! i) \<in> pkts (rel_entries (l_snd l))"
    using p(6,7) by (rule pkts_nth)
  then have "buf_bytes (e_buf (rel_entries (l_snd l) ! i)) \<in> wire_pkt l ` {..<length (l_sent l)}"
    using s by (auto simp: snd_inv_def entry_pkt_def)
  then have "snd_inv ?l"
    using s p(1,3,4,5,6) by (auto simp: snd_inv_def wire_pkt_def rel_entries_nth)
  moreover have "rcv_inv ?l" using r by (simp add: rcv_inv_def)
  moreover have "ack_inv sid ?l"
    by (rule ack_inv_mono [OF a got_ids_mono]) (auto simp: received_def)
  moreover have "kept_inv ?l" using k p(4) by (simp add: kept_inv_def received_def)
  ultimately show ?thesis by (simp add: link_inv_def)
qed

lemma burst_inv:
  assumes inv: "link_inv sid l"
  shows "link_inv sid (l\<lparr>l_snd := reliable_schedule_now now (l_snd l)\<rparr>)"
proof -
  let ?l = "l\<lparr>l_snd := reliable_schedule_now now (l_snd l)\<rparr>"
  have s: "snd_inv l" and r: "rcv_inv l" and a: "ack_inv sid l" and k: "kept_inv l"
    using inv by (auto simp: link_inv_def)
  have "snd_inv ?l"
    using s by (simp add: snd_inv_def wire_pkt_def schedule_now_pkts)
  moreover have "rcv_inv ?l" using r by (simp add: rcv_inv_def)
  moreover have "ack_inv sid ?l"
    by (rule ack_inv_mono [OF a got_ids_mono]) (auto simp: received_def)
  moreover have "kept_inv ?l" using k by (simp add: kept_inv_def received_def schedule_now_pkts)
  ultimately show ?thesis by (simp add: link_inv_def)
qed

lemma receive_inv:
  assumes inv: "link_inv sid l" and sm: "small l"
    and m: "m \<in> l_data l" "buf_wf b" "buf_bytes b = m"
    and rec: "control_packet_receive op b (l_rcv l) (l_ack l) = Some (ok, r1, a1)"
  shows "link_inv sid (l\<lparr>l_rcv := r1, l_ack := a1\<rparr>)"
proof -
  let ?l = "l\<lparr>l_rcv := r1, l_ack := a1\<rparr>"
  let ?N = "length (l_sent l)" and ?D = "length (l_delivered l)"
  have s: "snd_inv l" and r: "rcv_inv l" and a: "ack_inv sid l" and k: "kept_inv l"
    using inv by (auto simp: link_inv_def)
  obtain j where j: "j < ?N" "buf_bytes b = u32_bytes (pid_of j) @ l_sent l ! j"
    using s m by (auto simp: snd_inv_def wire_pkt_def)
  have wf: "rel_wf (l_rcv l)" "ids_distinct (rel_entries (l_rcv l))" and id: "rel_packet_id (l_rcv l) = pid_of ?D"
    and D: "?D \<le> ?N"
    and pk: "pkts (rel_entries (l_rcv l)) \<subseteq> (\<lambda>k. (pid_of k, l_sent l ! k)) `
         {k. ?D \<le> k \<and> k < ?N \<and> k < ?D + nat (rel_size (l_rcv l))}"
    using r by (auto simp: rcv_inv_def)
  have aw: "ack_wf (l_ack l)" "distinct (acks (l_ack l))" using a by (auto simp: ack_inv_def)
  have bounds: "?N + 12 < 2 ^ 31" "rel_size (l_rcv l) = int (nat (rel_size (l_rcv l)))" "nat (rel_size (l_rcv l)) \<le> 12"
    using sm wf(1) by (auto simp: small_def rel_wf_def)
  have old: "\<not> reliable_not_replay (l_rcv l) (pid_of j) \<longleftrightarrow> received l j"
    unfolding not_replay_iff id received_def using j(1) D bounds by (simp add: pid_min_nat)
  have seq: "reliable_wont_break_sequentiality (l_rcv l) (pid_of j) \<longleftrightarrow> j < ?D + nat (rel_size (l_rcv l))"
  proof -
    have eq: "word_of_int (rel_size (l_rcv l)) = pid_of (nat (rel_size (l_rcv l)))"
      using bounds(2) by (metis of_int_of_nat_eq)
    show ?thesis
      unfolding reliable_wont_break_sequentiality_def id eq
      using j(1) D bounds by (intro pid_range2_nat) auto
  qed
  have out: "rel_wf r1" "rel_frame r1 (l_rcv l)" "rel_packet_id r1 = rel_packet_id (l_rcv l)"
    "ids_distinct (rel_entries r1)" "ack_wf a1"
    and cases: "(pkts (rel_entries r1) = pkts (rel_entries (l_rcv l)) \<and> set (acks a1) = set (acks (l_ack l)))
      \<or> (received l j \<and> pkts (rel_entries r1) = pkts (rel_entries (l_rcv l))
          \<and> set (acks a1) \<subseteq> insert (pid_of j) (set (acks (l_ack l))))
      \<or> (receivable (l_rcv l) (pid_of j)
          \<and> pkts (rel_entries r1) = insert (pid_of j, l_sent l ! j) (pkts (rel_entries (l_rcv l)))
          \<and> set (acks a1) \<subseteq> insert (pid_of j) (set (acks (l_ack l))))"
    using receive_ok [OF wf aw(1) m(2) j(2), of op] rec old by auto
  have da: "distinct (acks a1)" using control_packet_receive_distinct [OF rec aw] .
  have size: "rel_size r1 = rel_size (l_rcv l)" using out(2) by (simp add: rel_frame_def)
  have mono: "received ?l i" if "received l i" for i
    using that cases by (auto simp: received_def)
  have keep: "got_ids l \<subseteq> got_ids ?l" by (rule got_ids_mono) (auto intro: mono)
  have new: "received ?l j" if "set (acks a1) \<noteq> set (acks (l_ack l))"
    using cases that mono old by (auto simp: received_def receivable_def)
  have "snd_inv ?l" using s by (simp add: snd_inv_def wire_pkt_def)
  moreover have "rcv_inv ?l"
  proof -
    have "(pid_of j, l_sent l ! j) \<in> (\<lambda>k. (pid_of k, l_sent l ! k)) `
         {k. ?D \<le> k \<and> k < ?N \<and> k < ?D + nat (rel_size (l_rcv l))}"
      if "receivable (l_rcv l) (pid_of j)"
      using that old seq j(1) by (intro image_eqI [of _ _ j]) (auto simp: receivable_def received_def)
    with pk have "pkts (rel_entries r1) \<subseteq> (\<lambda>k. (pid_of k, l_sent l ! k)) `
         {k. ?D \<le> k \<and> k < ?N \<and> k < ?D + nat (rel_size (l_rcv l))}"
      using cases by (elim disjE conjE) (simp_all only: insert_subset simp_thms)
    with r out size show ?thesis by (simp add: rcv_inv_def)
  qed
  moreover have "ack_inv sid ?l"
  proof -
    have "set (acks a1) \<subseteq> got_ids ?l"
    proof (cases "set (acks a1) = set (acks (l_ack l))")
      case True
      with a keep show ?thesis by (auto simp: ack_inv_def)
    next
      case False
      with new j(1) have "pid_of j \<in> got_ids ?l" by (auto simp: got_ids_def)
      moreover have "set (acks a1) \<subseteq> insert (pid_of j) (set (acks (l_ack l)))" using cases False by blast
      moreover have "set (acks (l_ack l)) \<subseteq> got_ids ?l" using a keep by (auto simp: ack_inv_def)
      ultimately show ?thesis by blast
    qed
    moreover have "\<forall>m \<in> l_acks l. \<exists>ids. m = ack_record_bytes ids sid \<and> length ids \<le> 8 \<and> set ids \<subseteq> got_ids ?l"
      using a keep unfolding ack_inv_def by (meson subset_trans)
    ultimately show ?thesis using a keep out(5) da by (auto simp: ack_inv_def)
  qed
  moreover have "kept_inv ?l" using k mono by (auto simp: kept_inv_def)
  ultimately show ?thesis by (simp add: link_inv_def)
qed

lemma ack_write_inv:
  assumes inv: "link_inv sid l" and sid: "sid_wf sid" "session_id_defined sid"
    and b: "buf_wf b" "buf_bytes b = []" and n: "0 \<le> n" "n \<le> RELIABLE_ACK_SIZE" "ACK_SIZE n \<le> b_offset b"
    and wr: "reliable_ack_write (l_ack l) (l_mru l) b sid n True = Some (True, a1, m1, b1)"
  shows "link_inv sid (l\<lparr>l_ack := a1, l_mru := m1, l_acks := insert (buf_bytes b1) (l_acks l)\<rparr>)"
proof -
  let ?l = "l\<lparr>l_ack := a1, l_mru := m1, l_acks := insert (buf_bytes b1) (l_acks l)\<rparr>"
  have s: "snd_inv l" and r: "rcv_inv l" and a: "ack_inv sid l" and k: "kept_inv l"
    using inv by (auto simp: link_inv_def)
  have aw: "ack_wf (l_ack l)" "distinct (acks (l_ack l))" "ack_wf (l_mru l)" "distinct (acks (l_mru l))"
    and sub: "set (acks (l_ack l)) \<subseteq> got_ids l" "set (acks (l_mru l)) \<subseteq> got_ids l"
    using a by (auto simp: ack_inv_def)
  have n8: "n \<le> 8" using n(2) by (simp add: RELIABLE_ACK_SIZE_def)
  let ?ids = "take (nat n) (ack_mru_after (l_ack l) (l_mru l) n)"
  have "int (length ?ids) \<le> n" using n(1) by (auto simp: min_def)
  then have "ACK_SIZE (int (length ?ids)) \<le> (if True then b_offset b else buf_tailroom b)"
    using n(1,3) unfolding ACK_SIZE_def SID_SIZE_def by (cases "?ids = []") (simp_all split: if_splits)
  from reliable_ack_write_ok [OF aw sid n(1) n8 b(1) this] wr b(2)
  have out: "ack_wf a1" "acks a1 = drop (ack_sent (l_ack l) n) (acks (l_ack l))" "ack_wf m1"
    "distinct (acks m1)" "acks m1 = ack_mru_after (l_ack l) (l_mru l) n"
    "buf_bytes b1 = ack_record_bytes ?ids sid" by auto
  have got: "got_ids ?l = got_ids l" by (simp add: got_ids_def received_def)
  have after: "set (ack_mru_after (l_ack l) (l_mru l) n) \<subseteq> got_ids l"
  proof -
    have "set (ack_mru_after (l_ack l) (l_mru l) n) \<subseteq> set (acks (l_ack l)) \<union> set (acks (l_mru l))"
      by (auto simp: ack_mru_after_def Let_def dest!: in_set_takeD)
    with sub show ?thesis by blast
  qed
  have "snd_inv ?l" using s by (simp add: snd_inv_def wire_pkt_def)
  moreover have "rcv_inv ?l" using r by (simp add: rcv_inv_def)
  moreover have "ack_inv sid ?l"
  proof -
    have "set (acks a1) \<subseteq> got_ids l" using sub(1) by (auto simp: out(2) dest: in_set_dropD)
    moreover have "set ?ids \<subseteq> got_ids l" using after by (meson set_take_subset subset_trans)
    moreover have "length ?ids \<le> 8" using n8 by auto
    ultimately show ?thesis
      using a out aw(2) after unfolding ack_inv_def got by auto
  qed
  moreover have "kept_inv ?l" using k by (simp add: kept_inv_def received_def)
  ultimately show ?thesis by (simp add: link_inv_def)
qed

lemma ack_read_inv:
  assumes inv: "link_inv sid l" and sm: "small l" and sid: "sid_wf sid" "session_id_defined sid"
    and m: "m \<in> l_acks l" "buf_wf b" "buf_bytes b = m @ rest" "length (ra_packet_id a) = 8"
    and rd: "reliable_ack_read a b sid = (True, a1, b1)"
  shows "link_inv sid (l\<lparr>l_snd := reliable_send_purge (l_snd l) a1\<rparr>)"
proof -
  let ?l = "l\<lparr>l_snd := reliable_send_purge (l_snd l) a1\<rparr>"
  have s: "snd_inv l" and r: "rcv_inv l" and a: "ack_inv sid l" and k: "kept_inv l"
    using inv by (auto simp: link_inv_def)
  obtain ids where ids: "m = ack_record_bytes ids sid" "length ids \<le> 8" "set ids \<subseteq> got_ids l"
    using a m(1) by (auto simp: ack_inv_def)
  have "acks a1 = ids"
    using reliable_ack_read_ok [OF m(2) m(3) [unfolded ids(1)] m(4) ids(2) sid] rd by auto
  then have sub: "set (acks a1) \<subseteq> got_ids l" using ids(3) by simp
  note p = send_purge_pkts [of "l_snd l" a1]
  have "pkts (rel_entries (reliable_send_purge (l_snd l) a1)) \<subseteq> pkts (rel_entries (l_snd l))"
    using p(1) by auto
  then have "snd_inv ?l"
    using s p(2-5) unfolding snd_inv_def wire_pkt_def by auto
  moreover have "rcv_inv ?l" using r by (simp add: rcv_inv_def)
  moreover have "ack_inv sid ?l"
    by (rule ack_inv_mono [OF a got_ids_mono]) (auto simp: received_def)
  moreover have "kept_inv ?l"
    unfolding kept_inv_def
  proof (intro allI impI)
    fix i assume i: "i < length (l_sent ?l)"
    have "received l i \<or> pid_of i \<in> fst ` pkts (rel_entries (l_snd l))" using k i by (simp add: kept_inv_def)
    moreover have "received l i" if i1: "pid_of i \<in> set (acks a1)"
    proof -
      have "pid_of i \<in> pid_of ` {k. k < length (l_sent l) \<and> received l k}"
        using sub i1 by (auto simp: got_ids_def)
      then obtain j where "j < length (l_sent l)" "received l j" "pid_of i = pid_of j"
        by blast
      with pid_of_inj [OF sm, of i j] i show ?thesis by simp
    qed
    ultimately show "received ?l i \<or> pid_of i \<in> fst ` pkts (rel_entries (l_snd ?l))"
      using p(1) by (force simp: received_def)
  qed
  ultimately show ?thesis by (simp add: link_inv_def)
qed

lemma deliver_inv:
  assumes inv: "link_inv sid l" and sm: "small l"
    and get: "reliable_get_entry_sequenced (l_rcv l) = Some i"
    and del: "reliable_mark_deleted (l_rcv l) i = Some r1"
  shows "link_inv sid (l\<lparr>l_rcv := r1,
      l_delivered := l_delivered l @ [buf_bytes (e_buf (rel_array (l_rcv l) ! i))]\<rparr>)"
proof -
  let ?p = "buf_bytes (e_buf (rel_array (l_rcv l) ! i))"
  let ?l = "l\<lparr>l_rcv := r1, l_delivered := l_delivered l @ [?p]\<rparr>"
  let ?N = "length (l_sent l)" and ?D = "length (l_delivered l)"
  let ?e = "rel_entries (l_rcv l) ! i"
  have s: "snd_inv l" and r: "rcv_inv l" and a: "ack_inv sid l" and k: "kept_inv l"
    using inv by (auto simp: link_inv_def)
  have wf: "rel_wf (l_rcv l)" "ids_distinct (rel_entries (l_rcv l))" and id: "rel_packet_id (l_rcv l) = pid_of ?D"
    and D: "?D \<le> ?N" and del_eq: "l_delivered l = take ?D (l_sent l)"
    and pk: "pkts (rel_entries (l_rcv l)) \<subseteq> (\<lambda>k. (pid_of k, l_sent l ! k)) `
         {k. ?D \<le> k \<and> k < ?N \<and> k < ?D + nat (rel_size (l_rcv l))}"
    using r by (auto simp: rcv_inv_def)
  from mark_deleted_ok [OF wf(1) get wf(2)] del
  have out: "rel_wf r1" "rel_frame r1 (l_rcv l)" "rel_packet_id r1 = rel_packet_id (l_rcv l) + 1"
    "ids_distinct (rel_entries r1)" "entry_pkt ?e \<in> pkts (rel_entries (l_rcv l))"
    "e_packet_id ?e = rel_packet_id (l_rcv l)"
    "pkts (rel_entries r1) = pkts (rel_entries (l_rcv l)) - {entry_pkt ?e}" by auto
  have i: "i < length (rel_entries (l_rcv l))"
    using find_index_SomeD [OF get [unfolded reliable_get_entry_sequenced_def]] by simp
  obtain j where j: "entry_pkt ?e = (pid_of j, l_sent l ! j)" "?D \<le> j" "j < ?N"
    using pk out(5) by auto
  have "j = ?D"
    using j out(6) id pid_of_inj [OF sm, of j ?D] D by (simp add: entry_pkt_def)
  then have e: "entry_pkt ?e = (pid_of ?D, l_sent l ! ?D)" and lt: "?D < ?N" using j by auto
  have p: "?p = l_sent l ! ?D" using e i by (simp add: entry_pkt_def rel_entries_nth)
  have size: "rel_size r1 = rel_size (l_rcv l)" using out(2) by (simp add: rel_frame_def)
  have mono: "received ?l k" if "received l k" "k < ?N" for k
  proof (cases "k < ?D")
    case False
    then have "pid_of k \<in> fst ` pkts (rel_entries (l_rcv l))" using that by (simp add: received_def)
    then obtain j' where j': "(pid_of k, j') \<in> pkts (rel_entries (l_rcv l))" by auto
    show ?thesis
    proof (cases "k = ?D")
      case True
      then show ?thesis by (simp add: received_def)
    next
      case neq: False
      then have "(pid_of k, j') \<noteq> entry_pkt ?e"
        using e pid_of_inj [OF sm, of k ?D] that(2) D by simp
      with j' out(7) show ?thesis by (force simp: received_def)
    qed
  qed (simp add: received_def)
  have "snd_inv ?l" using s by (simp add: snd_inv_def wire_pkt_def)
  moreover have "rcv_inv ?l"
  proof -
    have "pkts (rel_entries r1) \<subseteq> (\<lambda>k. (pid_of k, l_sent l ! k)) `
         {k. Suc ?D \<le> k \<and> k < ?N \<and> k < Suc ?D + nat (rel_size r1)}"
    proof
      fix x assume x: "x \<in> pkts (rel_entries r1)"
      then obtain k where k: "x = (pid_of k, l_sent l ! k)" "?D \<le> k" "k < ?N" "k < ?D + nat (rel_size (l_rcv l))"
        using pk out(7) by auto
      moreover have "k \<noteq> ?D" using x out(7) e k(1) by auto
      ultimately show "x \<in> (\<lambda>k. (pid_of k, l_sent l ! k)) `
         {k. Suc ?D \<le> k \<and> k < ?N \<and> k < Suc ?D + nat (rel_size r1)}"
        by (intro image_eqI [of _ _ k]) (auto simp: size)
    qed
    moreover have "l_delivered l @ [?p] = take (Suc ?D) (l_sent l)"
      using del_eq lt p by (simp add: take_Suc_conv_app_nth)
    ultimately show ?thesis using out id lt by (simp add: rcv_inv_def add.commute)
  qed
  moreover have "ack_inv sid ?l"
    by (rule ack_inv_mono [OF a got_ids_mono]) (auto intro: mono)
  moreover have "kept_inv ?l" using k mono by (auto simp: kept_inv_def)
  ultimately show ?thesis by (simp add: link_inv_def)
qed

section \<open>Runs\<close>

lemma step_inv:
  assumes "link_step sid l l'" "link_inv sid l" "small l'" "sid_wf sid" "session_id_defined sid"
  shows "link_inv sid l'"
  using assms
proof (cases rule: link_step.cases)
  case queue
  with assms(2,3) show ?thesis by (simp add: queue_inv)
next
  case (transmit now i op s1)
  then have "small l" using assms(3) by (simp add: small_def)
  with transmit assms(2) show ?thesis by (simp add: transmit_inv)
next
  case burst
  with assms(2) show ?thesis by (simp add: burst_inv)
next
  case (receive m b op ok r1 a1)
  then have "small l" using assms(3) by (simp add: small_def)
  with receive assms(2) show ?thesis by (simp add: receive_inv)
next
  case ack_write
  with assms(2,4,5) show ?thesis by (simp add: ack_write_inv)
next
  case (ack_read m b rest a a1 b1)
  then have "small l" using assms(3) by (simp add: small_def)
  with ack_read assms(2,4,5) show ?thesis by (simp add: ack_read_inv)
next
  case (deliver i r1)
  then have "small l" using assms(3) by (simp add: small_def)
  with deliver assms(2) show ?thesis by (simp add: deliver_inv)
qed

lemma step_sent: "link_step sid l l' \<Longrightarrow> length (l_sent l) \<le> length (l_sent l')"
  by (auto elim!: link_stepE)

lemma run_inv:
  assumes "(link_step sid)\<^sup>*\<^sup>* l l'" "link_inv sid l" "small l'" "sid_wf sid" "session_id_defined sid"
  shows "link_inv sid l'"
  using assms(1,3)
proof (induction rule: rtranclp_induct)
  case (step k m)
  then have "small k" using step_sent by (fastforce simp: small_def)
  with step assms(4,5) show ?case by (auto intro: step_inv)
qed (rule assms(2))

lemma init_pkts:
  assumes "reliable_init bs off n hold = Some r"
  shows "rel_wf r" "pkts (rel_entries r) = {}" "ids_distinct (rel_entries r)" "rel_packet_id r = 0"
    "rel_size r = n"
proof -
  obtain b where b: "alloc_buf (size_of_int bs) = Some b" "buf_init b off = (True, b\<lparr>b_len := 0, b_offset := off\<rparr>)"
    "0 \<le> off" "off \<le> b_capacity b" "0 < n" "n \<le> 12"
    and r: "r = \<lparr>rel_size = n, rel_initial_timeout = 0, rel_packet_id = 0,
                rel_offset = off, rel_hold = hold,
                rel_array = replicate (nat n) (reliable_entry_zero\<lparr>e_buf := b\<lparr>b_len := 0, b_offset := off\<rparr>\<rparr>)
                            @ replicate (nat (12 - n)) reliable_entry_zero\<rparr>"
    using assms by (auto simp: reliable_init_def RELIABLE_CAPACITY_def buf_init_def
        split: if_splits option.splits prod.splits bool.splits)
  have wf: "buf_wf (b\<lparr>b_len := 0, b_offset := off\<rparr>)" using b alloc_buf_wf buf_init_wf by metis
  have es: "rel_entries r = replicate (nat n) (reliable_entry_zero\<lparr>e_buf := b\<lparr>b_len := 0, b_offset := off\<rparr>\<rparr>)"
    using b by (simp add: r rel_entries_def)
  show "rel_wf r" using b wf by (auto simp: rel_wf_def es) (auto simp: r)
  show "pkts (rel_entries r) = {}" "ids_distinct (rel_entries r)"
    by (auto simp: es pkts_def reliable_entry_zero_def ids_distinct_def)
  show "rel_packet_id r = 0" "rel_size r = n" by (simp_all add: r)
qed

lemma init_inv:
  assumes "reliable_init bs1 off1 n1 h1 = Some tx" "reliable_init bs2 off2 n2 h2 = Some rx"
  shows "link_inv sid (link_init tx rx)"
  using init_pkts [OF assms(1)] init_pkts [OF assms(2)]
  by (simp add: link_inv_def snd_inv_def rcv_inv_def ack_inv_def kept_inv_def link_init_def
      reliable_ack_zero_def ack_wf_def acks_def)

text \<open>
  A full receive window cannot be clogged: the entries hold distinct numbers of the window, and
  the next expected number is one of them, or a slot is free.
\<close>

lemma next_receivable:
  assumes r: "rcv_inv l" and sm: "small l" and none: "reliable_get_entry_sequenced (l_rcv l) = None"
    and D: "length (l_delivered l) < length (l_sent l)"
  shows "receivable (l_rcv l) (pid_of (length (l_delivered l)))"
proof -
  let ?D = "length (l_delivered l)" and ?xs = "rel_entries (l_rcv l)"
  let ?n = "nat (rel_size (l_rcv l))"
  have wf: "rel_wf (l_rcv l)" and d: "ids_distinct ?xs" and id: "rel_packet_id (l_rcv l) = pid_of ?D"
    and pk: "pkts ?xs \<subseteq> (\<lambda>k. (pid_of k, l_sent l ! k)) `
         {k. ?D \<le> k \<and> k < length (l_sent l) \<and> k < ?D + ?n}"
    using r by (auto simp: rcv_inv_def)
  have n: "0 < ?n" "?n \<le> 12" "word_of_int (rel_size (l_rcv l)) = pid_of ?n" "length ?xs = ?n"
    using wf length_rel_entries [OF wf] by (auto simp: rel_wf_def)
  have notin: "pid_of ?D \<notin> fst ` pkts ?xs"
    using none id by (auto simp: reliable_get_entry_sequenced_def find_index_None_iff fst_pkts)
  have sub: "fst ` pkts ?xs \<subseteq> pid_of ` {Suc ?D..<?D + ?n}"
  proof
    fix p assume p: "p \<in> fst ` pkts ?xs"
    then obtain k where k: "p = pid_of k" "?D \<le> k" "k < ?D + ?n" using pk by fastforce
    with p notin have "k \<noteq> ?D" by blast
    with k show "p \<in> pid_of ` {Suc ?D..<?D + ?n}" by auto
  qed
  have "card (fst ` pkts ?xs) \<le> card (pid_of ` {Suc ?D..<?D + ?n})"
    by (rule card_mono [OF _ sub]) simp
  also have "\<dots> \<le> ?n - 1" using card_image_le [of "{Suc ?D..<?D + ?n}" pid_of] by simp
  finally have lt: "length (filter e_active ?xs) < length ?xs"
    using ids_distinct_card [OF d] n by simp
  have "\<exists>e \<in> set ?xs. \<not> e_active e"
  proof (rule ccontr)
    assume "\<not> ?thesis"
    then have "filter e_active ?xs = ?xs" by (simp add: filter_id_conv)
    with lt show False by simp
  qed
  then have "reliable_can_get (l_rcv l)"
    using find_index_Some_iff [of "\<lambda>e. \<not> e_active e" ?xs] by (auto simp: reliable_can_get_def)
  moreover have "reliable_wont_break_sequentiality (l_rcv l) (pid_of ?D)"
    unfolding reliable_wont_break_sequentiality_def id n(3)
    using D sm n by (subst pid_range2_nat) (auto simp: small_def)
  moreover have "reliable_not_replay (l_rcv l) (pid_of ?D)"
    using notin D sm by (simp add: not_replay_iff id pid_min_nat small_def)
  ultimately show ?thesis by (simp add: receivable_def)
qed

section \<open>An example run\<close>

text \<open>One packet is queued, sent, received, acknowledged, purged and delivered.\<close>

definition demo_sid :: session_id where
  "demo_sid = \<lparr>sid_id = replicate 8 1\<rparr>"

definition demo_array :: "bool \<Rightarrow> time_t \<Rightarrow> int \<Rightarrow> int \<Rightarrow> int \<Rightarrow> u8 list \<Rightarrow> reliable_entry list" where
  "demo_array active next_try opcode offset len data =
     \<lparr>e_active = active, e_timeout = 0, e_next_try = next_try, e_packet_id = 0, e_n_acks = 0,
      e_opcode = opcode, e_buf = \<lparr>b_capacity = 16, b_offset = offset, b_len = len, b_data = Some data\<rparr>\<rparr>
     # replicate 11 reliable_entry_zero"

definition demo_payload :: "u8 list" where
  "demo_payload = [0, 0, 0, 0, 0, 0, 0, 0, 7, 8, 0, 0, 0, 0, 0, 0]"

definition demo_rel :: reliable where
  "demo_rel = \<lparr>rel_size = 1, rel_initial_timeout = 0, rel_packet_id = 0, rel_offset = 8, rel_hold = False,
     rel_array = demo_array False 0 0 8 0 (replicate 16 0)\<rparr>"

definition demo_queued :: reliable where
  "demo_queued = demo_rel\<lparr>rel_packet_id := 1, rel_array := demo_array True 0 4 4 6 demo_payload\<rparr>"

definition demo_sent :: reliable where
  "demo_sent = demo_queued\<lparr>rel_array := demo_array True 5 4 4 6 demo_payload\<rparr>"

definition demo_stored :: reliable where
  "demo_stored = demo_rel\<lparr>rel_array := demo_array True 0 4 8 2 demo_payload\<rparr>"

definition demo_ack1 :: reliable_ack where
  "demo_ack1 = \<lparr>ra_len = 1, ra_packet_id = replicate 8 0\<rparr>"

definition demo_packet :: buffer where
  "demo_packet = \<lparr>b_capacity = 6, b_offset = 0, b_len = 6, b_data = Some [0, 0, 0, 0, 7, 8]\<rparr>"

definition demo_ack_buf :: buffer where
  "demo_ack_buf = \<lparr>b_capacity = 13, b_offset = 13, b_len = 0, b_data = Some (replicate 13 0)\<rparr>"

definition demo_ack_packet :: buffer where
  "demo_ack_packet = \<lparr>b_capacity = 13, b_offset = 0, b_len = 13,
     b_data = Some [1, 0, 0, 0, 0, 1, 1, 1, 1, 1, 1, 1, 1]\<rparr>"

lemma demo_queue:
  "reliable_get_buf_output_sequenced demo_rel = Some (Some 0, demo_rel)"
  "buf_write (e_buf (rel_array demo_rel ! 0)) [7, 8]
     = (True, \<lparr>b_capacity = 16, b_offset = 8, b_len = 2, b_data = Some demo_payload\<rparr>)"
  "reliable_mark_active_outgoing (rel_update demo_rel 0 ((rel_array demo_rel ! 0)\<lparr>e_buf :=
     \<lparr>b_capacity = 16, b_offset = 8, b_len = 2, b_data = Some demo_payload\<rparr>\<rparr>)) 0 4 = Some demo_queued"
  by code_simp+

lemma demo_transmit:
  "reliable_can_send 5 demo_queued" "reliable_send 5 demo_queued = (Some (0, 4), demo_sent)"
  "buf_bytes (e_buf (rel_array demo_queued ! 0)) = buf_bytes demo_packet"
  by code_simp+

lemma demo_receive:
  "control_packet_receive 4 demo_packet demo_rel reliable_ack_zero = Some (True, demo_stored, demo_ack1)"
  by code_simp

lemma demo_ack:
  "reliable_ack_write demo_ack1 reliable_ack_zero demo_ack_buf demo_sid 1 True
     = Some (True, reliable_ack_zero, demo_ack1, demo_ack_packet)"
  "reliable_ack_read reliable_ack_zero demo_ack_packet demo_sid = (True, demo_ack1, demo_ack_packet\<lparr>b_offset := 13, b_len := 0\<rparr>)"
  "reliable_empty (reliable_send_purge demo_sent demo_ack1)"
  by code_simp+

lemma demo_deliver:
  "reliable_get_entry_sequenced demo_stored = Some 0"
  "reliable_mark_deleted demo_stored 0 = Some (the (reliable_mark_deleted demo_stored 0))"
  "buf_bytes (e_buf (rel_array demo_stored ! 0)) = [7, 8]"
  "reliable_get_entry_sequenced (the (reliable_mark_deleted demo_stored 0)) = None"
  by code_simp+

lemma demo_rel_init: "reliable_init 16 8 1 False = Some demo_rel"
  by (simp add: demo_rel_def demo_array_def reliable_init_def alloc_buf_def buf_size_valid_def BUF_SIZE_MAX_def
      buf_init_def RELIABLE_CAPACITY_def reliable_entry_zero_def)

lemma demo_sid_ok: "sid_wf demo_sid" "session_id_defined demo_sid"
  by (simp add: sid_wf_def demo_sid_def, code_simp)

lemma demo_bufs_ok: "buf_wf demo_packet" "buf_wf demo_ack_buf" "buf_bytes demo_ack_buf = []"
  "buf_wf demo_ack_packet"
  by (simp_all add: demo_packet_def demo_ack_buf_def demo_ack_packet_def buf_wf_def BUF_SIZE_MAX_def
      buf_bytes_def buf_len_def)

abbreviation demo_link0 :: link where
  "demo_link0 \<equiv> link_init demo_rel demo_rel"

abbreviation demo_link1 :: link where
  "demo_link1 \<equiv> demo_link0\<lparr>l_snd := demo_queued, l_sent := [[7, 8]]\<rparr>"

abbreviation demo_link2 :: link where
  "demo_link2 \<equiv> demo_link1\<lparr>l_snd := demo_sent, l_data := {buf_bytes demo_packet}\<rparr>"

abbreviation demo_link3 :: link where
  "demo_link3 \<equiv> demo_link2\<lparr>l_rcv := demo_stored, l_ack := demo_ack1\<rparr>"

abbreviation demo_link4 :: link where
  "demo_link4 \<equiv> demo_link3\<lparr>l_ack := reliable_ack_zero, l_mru := demo_ack1, l_acks := {buf_bytes demo_ack_packet}\<rparr>"

abbreviation demo_link5 :: link where
  "demo_link5 \<equiv> demo_link4\<lparr>l_snd := reliable_send_purge demo_sent demo_ack1\<rparr>"

abbreviation demo_link6 :: link where
  "demo_link6 \<equiv> demo_link5\<lparr>l_rcv := the (reliable_mark_deleted demo_stored 0), l_delivered := [[7, 8]]\<rparr>"

lemma demo_step1: "link_step demo_sid demo_link0 demo_link1"
  using link_step.queue [of demo_link0 0 demo_rel "[7, 8]" _ 4 demo_queued demo_sid] demo_queue
  by (simp add: link_init_def)

lemma demo_step2: "link_step demo_sid demo_link1 demo_link2"
  using link_step.transmit [of 5 demo_link1 0 4 demo_sent demo_sid] demo_transmit
  by (simp add: link_init_def)

lemma demo_step3: "link_step demo_sid demo_link2 demo_link3"
  using link_step.receive [of "buf_bytes demo_packet" demo_link2 demo_packet 4 True demo_stored
      demo_ack1 demo_sid] demo_receive demo_bufs_ok
  by (simp add: link_init_def)

lemma demo_step4: "link_step demo_sid demo_link3 demo_link4"
  using link_step.ack_write [of demo_ack_buf 1 demo_link3 demo_sid reliable_ack_zero demo_ack1
      demo_ack_packet] demo_ack demo_bufs_ok
  by (simp add: link_init_def RELIABLE_ACK_SIZE_def ACK_SIZE_def SID_SIZE_def demo_ack_buf_def)

lemma demo_step5: "link_step demo_sid demo_link4 demo_link5"
  using link_step.ack_read [of "buf_bytes demo_ack_packet" demo_link4 demo_ack_packet "[]"
      reliable_ack_zero demo_sid] demo_ack(2) demo_bufs_ok
  by (simp add: link_init_def reliable_ack_zero_def)

lemma demo_step6: "link_step demo_sid demo_link5 demo_link6"
  using link_step.deliver [of demo_link5 0 "the (reliable_mark_deleted demo_stored 0)" demo_sid] demo_deliver
  by (simp add: link_init_def)

lemma demo_run:
  "(link_step demo_sid)\<^sup>*\<^sup>* demo_link0 demo_link1"
  "(link_step demo_sid)\<^sup>*\<^sup>* demo_link0 demo_link6"
  using demo_step1 demo_step2 demo_step3 demo_step4 demo_step5 demo_step6
  by (meson converse_rtranclp_into_rtranclp rtranclp.rtrancl_refl)+

section \<open>Properties\<close>

text \<open>
  C2: Whatever the network loses, duplicates or reorders, in every run from initialised ends
  what the receiver has delivered is a prefix of what the sender has queued: no packet is
  delivered twice, out of order or altered.
\<close>

theorem reliable_in_order_exactly_once:
  assumes "reliable_init bs1 off1 n1 h1 = Some tx" "reliable_init bs2 off2 n2 h2 = Some rx"
    and "sid_wf sid" "session_id_defined sid"
    and "(link_step sid)\<^sup>*\<^sup>* (link_init tx rx) l" "length (l_sent l) + 12 < 2 ^ 31"
  shows "l_delivered l = take (length (l_delivered l)) (l_sent l)"
  using run_inv [OF assms(5) init_inv [OF assms(1,2)]] assms(3,4,6)
  by (simp add: link_inv_def rcv_inv_def small_def)

theorem reliable_in_order_exactly_once_witness:
  "\<exists>l. (link_step demo_sid)\<^sup>*\<^sup>* (link_init demo_rel demo_rel) l \<and> l_sent l = [[7, 8]]
     \<and> length (l_delivered l) = 1 \<and> l_delivered l = take (length (l_delivered l)) (l_sent l)"
  using reliable_in_order_exactly_once [OF demo_rel_init demo_rel_init demo_sid_ok demo_run(2)]
  by (intro exI [of _ demo_link6] conjI demo_run(2)) simp_all

text \<open>
  C14: No packet is lost: in every run, when the send array is empty and no received packet is
  waiting for delivery, everything that was queued has been delivered.
\<close>

theorem reliable_no_loss:
  assumes "reliable_init bs1 off1 n1 h1 = Some tx" "reliable_init bs2 off2 n2 h2 = Some rx"
    and "sid_wf sid" "session_id_defined sid"
    and "(link_step sid)\<^sup>*\<^sup>* (link_init tx rx) l" "length (l_sent l) + 12 < 2 ^ 31"
    and "reliable_empty (l_snd l)" "reliable_get_entry_sequenced (l_rcv l) = None"
  shows "l_delivered l = l_sent l"
proof -
  have inv: "link_inv sid l"
    using run_inv [OF assms(5) init_inv [OF assms(1,2)]] assms(3,4,6) by (simp add: small_def)
  have "\<not> length (l_delivered l) < length (l_sent l)"
  proof
    assume D: "length (l_delivered l) < length (l_sent l)"
    have "pkts (rel_entries (l_snd l)) = {}"
      using assms(7) by (auto simp: reliable_empty_def find_index_None_iff pkts_def)
    then have "received l (length (l_delivered l))"
      using inv D by (auto simp: link_inv_def kept_inv_def)
    moreover have "rcv_inv l" using inv by (simp add: link_inv_def)
    ultimately show False
      using assms(8) by (auto simp: received_def rcv_inv_def reliable_get_entry_sequenced_def
          find_index_None_iff fst_pkts)
  qed
  with inv show ?thesis by (auto simp: link_inv_def rcv_inv_def)
qed

theorem reliable_no_loss_witness:
  "\<exists>l. (link_step demo_sid)\<^sup>*\<^sup>* (link_init demo_rel demo_rel) l \<and> l_sent l = [[7, 8]]
     \<and> l_delivered l = l_sent l"
  using reliable_no_loss [OF demo_rel_init demo_rel_init demo_sid_ok demo_run(2)] demo_ack(3) demo_deliver(4)
  by (intro exI [of _ demo_link6] conjI demo_run(2)) simp_all

text \<open>
  C15: The channel cannot deadlock: in every run, as long as something queued is undelivered,
  the next packet is waiting for delivery, or the sender still holds it for retransmission and
  the receiver has a free buffer and accepts its number.
\<close>

theorem reliable_no_deadlock:
  assumes "reliable_init bs1 off1 n1 h1 = Some tx" "reliable_init bs2 off2 n2 h2 = Some rx"
    and "sid_wf sid" "session_id_defined sid"
    and "(link_step sid)\<^sup>*\<^sup>* (link_init tx rx) l" "length (l_sent l) + 12 < 2 ^ 31"
    and D: "length (l_delivered l) < length (l_sent l)"
  shows "reliable_get_entry_sequenced (l_rcv l) \<noteq> None \<or>
    ((\<exists>e \<in> set (rel_entries (l_snd l)). e_active e \<and> e_packet_id e = rel_packet_id (l_rcv l))
     \<and> reliable_can_get (l_rcv l)
     \<and> reliable_wont_break_sequentiality (l_rcv l) (rel_packet_id (l_rcv l))
     \<and> reliable_not_replay (l_rcv l) (rel_packet_id (l_rcv l)))"
proof (cases "reliable_get_entry_sequenced (l_rcv l)")
  case None
  have inv: "link_inv sid l"
    using run_inv [OF assms(5) init_inv [OF assms(1,2)]] assms(3,4,6) by (simp add: small_def)
  then have r: "rcv_inv l" and sm: "small l" using assms(6) by (auto simp: link_inv_def small_def)
  have id: "rel_packet_id (l_rcv l) = pid_of (length (l_delivered l))" using r by (simp add: rcv_inv_def)
  have ok: "receivable (l_rcv l) (rel_packet_id (l_rcv l))"
    using next_receivable [OF r sm None D] by (simp add: id)
  then have "rel_packet_id (l_rcv l) \<notin> fst ` pkts (rel_entries (l_rcv l))"
    by (simp add: receivable_def not_replay_iff)
  then have "\<not> received l (length (l_delivered l))" by (simp add: received_def id)
  then have "rel_packet_id (l_rcv l) \<in> fst ` pkts (rel_entries (l_snd l))"
    using inv D by (auto simp: link_inv_def kept_inv_def id)
  with ok show ?thesis by (simp add: fst_pkts receivable_def)
qed simp

theorem reliable_no_deadlock_witness:
  "\<exists>l. (link_step demo_sid)\<^sup>*\<^sup>* (link_init demo_rel demo_rel) l \<and> l_sent l = [[7, 8]] \<and> l_delivered l = []
     \<and> (reliable_get_entry_sequenced (l_rcv l) \<noteq> None \<or>
        ((\<exists>e \<in> set (rel_entries (l_snd l)). e_active e \<and> e_packet_id e = rel_packet_id (l_rcv l))
         \<and> reliable_can_get (l_rcv l)
         \<and> reliable_wont_break_sequentiality (l_rcv l) (rel_packet_id (l_rcv l))
         \<and> reliable_not_replay (l_rcv l) (rel_packet_id (l_rcv l))))"
  using reliable_no_deadlock [OF demo_rel_init demo_rel_init demo_sid_ok demo_run(1)] demo_run(1)
  by (intro exI [of _ demo_link1]) (simp add: link_init_def)

end
