(* ===== verification/Timing.thy ===== *)
theory Timing
  imports Buffer CircList
begin

text \<open>
  Time: the process clock of \<open>otime.c\<close>, which filters jumps of the system clock, the
  \<open>struct timeval\<close> arithmetic of \<open>otime.h\<close>, the frequency limit, the interval and timeout
  objects of \<open>interval.h\<close>, the wakeup computation of \<open>shaper.c\<close> and the ping timers of
  \<open>ping.h\<close>. The globals \<open>now\<close>, \<open>now_adj\<close> and \<open>now_usec\<close> are the record \<open>clock\<close>, passed
  explicitly; the answer of the operating system is an argument. An assignment of a
  \<open>time_t\<close> difference to an \<open>int\<close> truncates, which \<open>int32\<close> writes out.
\<close>

section \<open>The process clock\<close>

definition int32 :: "int \<Rightarrow> int" where
  "int32 x = (x + 2 ^ 31) mod 2 ^ 32 - 2 ^ 31"

lemma int32_small: "- (2 ^ 31) \<le> x \<Longrightarrow> x < 2 ^ 31 \<Longrightarrow> int32 x = x"
  by (simp add: int32_def)

record clock =
  k_now :: time_t
  k_now_adj :: time_t
  k_now_usec :: time_t

record timeval =
  tv_sec :: time_t
  tv_usec :: int

definition update_now :: "time_t \<Rightarrow> clock \<Rightarrow> clock" where
  "update_now system_time c =
     (let forward_threshold = 86400;
          backward_trigger = 10;
          real_time = system_time + k_now_adj c
      in if real_time > k_now c
         then (let overshoot = real_time - k_now c - 1
               in if overshoot > forward_threshold \<and> k_now_adj c \<ge> overshoot
                  then c\<lparr>k_now_adj := k_now_adj c - overshoot, k_now := real_time - overshoot\<rparr>
                  else c\<lparr>k_now := real_time\<rparr>)
         else if real_time < k_now c - backward_trigger
         then c\<lparr>k_now_adj := k_now_adj c + (k_now c - real_time)\<rparr>
         else c)"

definition update_now_usec :: "timeval \<Rightarrow> clock \<Rightarrow> clock" where
  "update_now_usec tv c =
     (let last = k_now c;
          c1 = update_now (tv_sec tv) c
      in if k_now c1 > last \<or> (k_now c1 = last \<and> tv_usec tv > k_now_usec c1)
         then c1\<lparr>k_now_usec := tv_usec tv\<rparr>
         else c1)"

text \<open>\<open>gettimeofday\<close> answers with a time value or fails with a status.\<close>

definition openvpn_gettimeofday :: "int + timeval \<Rightarrow> timeval \<Rightarrow> clock \<Rightarrow> int \<times> timeval \<times> clock" where
  "openvpn_gettimeofday answer tv c =
     (case answer of
        Inl status \<Rightarrow> (status, tv, c)
      | Inr t \<Rightarrow>
          (let c1 = update_now_usec t c
           in (0, t\<lparr>tv_sec := k_now c1, tv_usec := k_now_usec c1\<rparr>, c1)))"

definition update_time :: "time_t \<Rightarrow> clock \<Rightarrow> clock" where
  "update_time system_time c = (update_now system_time c)\<lparr>k_now_usec := 0\<rparr>"

definition openvpn_time :: "time_t \<Rightarrow> clock \<Rightarrow> time_t \<times> clock" where
  "openvpn_time system_time c = (let c1 = update_time system_time c in (k_now c1, c1))"

lemma update_now_mono: "k_now c \<le> k_now (update_now t c)"
  by (simp add: update_now_def Let_def)

lemma update_now_backward:
  assumes "t + k_now_adj c < k_now c - 10"
  shows "k_now (update_now t c) = k_now c" and "t + k_now_adj (update_now t c) = k_now c"
  using assms by (simp_all add: update_now_def Let_def)

lemma update_now_exact:
  assumes "t + k_now_adj c \<ge> k_now c" and "t + k_now_adj c \<le> k_now c + 86401"
  shows "k_now (update_now t c) = t + k_now_adj c" and "k_now_adj (update_now t c) = k_now_adj c"
  using assms by (auto simp: update_now_def Let_def)

text \<open>A run of the clock over the answers of the system.\<close>

definition clock_run :: "time_t list \<Rightarrow> clock \<Rightarrow> clock" where
  "clock_run ts c = foldl (\<lambda>c t. update_now t c) c ts"

lemma clock_run_mono: "k_now c \<le> k_now (clock_run ts c)"
  unfolding clock_run_def
  by (induction ts arbitrary: c) (auto intro: order_trans [OF update_now_mono])

section \<open>Time values\<close>

definition tv_clear :: "timeval \<Rightarrow> timeval" where
  "tv_clear tv = tv\<lparr>tv_sec := 0, tv_usec := 0\<rparr>"

definition tv_defined :: "timeval \<Rightarrow> bool" where
  "tv_defined tv = (tv_sec tv > 0 \<and> tv_usec tv > 0)"

definition tv_subtract :: "timeval \<Rightarrow> timeval \<Rightarrow> u32 \<Rightarrow> int" where
  "tv_subtract tv1 tv2 max_seconds =
     (let max_usec = int32 (uint (max_seconds * 1000000));
          sec_diff = int32 (tv_sec tv1 - tv_sec tv2)
      in if sec_diff > int32 (uint max_seconds) + 10 then max_usec
         else if sec_diff < - (int32 (uint max_seconds) + 10) then - max_usec
         else constrain_int (int32 (sec_diff * 1000000 + (tv_usec tv1 - tv_usec tv2)))
                (- max_usec) max_usec)"

definition tv_add :: "timeval \<Rightarrow> timeval \<Rightarrow> timeval" where
  "tv_add dest src =
     (let s = tv_sec dest + tv_sec src;
          u = tv_usec dest + tv_usec src;
          s1 = s + drop_bit 20 u;
          u1 = u AND 0x000FFFFF
      in if u1 \<ge> 1000000 then dest\<lparr>tv_sec := s1 + 1, tv_usec := u1 - 1000000\<rparr>
         else dest\<lparr>tv_sec := s1, tv_usec := u1\<rparr>)"

definition tv_lt :: "timeval \<Rightarrow> timeval \<Rightarrow> bool" where
  "tv_lt t1 t2 = (if tv_sec t1 < tv_sec t2 then True
                  else if tv_sec t1 > tv_sec t2 then False else tv_usec t1 < tv_usec t2)"

definition tv_le :: "timeval \<Rightarrow> timeval \<Rightarrow> bool" where
  "tv_le t1 t2 = (if tv_sec t1 < tv_sec t2 then True
                  else if tv_sec t1 > tv_sec t2 then False else tv_usec t1 \<le> tv_usec t2)"

definition tv_ge :: "timeval \<Rightarrow> timeval \<Rightarrow> bool" where
  "tv_ge t1 t2 = (if tv_sec t1 > tv_sec t2 then True
                  else if tv_sec t1 < tv_sec t2 then False else tv_usec t1 \<ge> tv_usec t2)"

definition tv_gt :: "timeval \<Rightarrow> timeval \<Rightarrow> bool" where
  "tv_gt t1 t2 = (if tv_sec t1 > tv_sec t2 then True
                  else if tv_sec t1 < tv_sec t2 then False else tv_usec t1 > tv_usec t2)"

definition tv_eq :: "timeval \<Rightarrow> timeval \<Rightarrow> bool" where
  "tv_eq t1 t2 = (tv_sec t1 = tv_sec t2 \<and> tv_usec t1 = tv_usec t2)"

function tv_delta_borrow :: "int \<Rightarrow> int \<Rightarrow> int \<times> int" where
  "tv_delta_borrow sec usec =
     (if usec < 0 then tv_delta_borrow (sec - 1) (usec + 1000000) else (sec, usec))"
  by auto
termination by (relation "measure (\<lambda>(sec, usec). nat (- usec))") auto

declare tv_delta_borrow.simps [simp del]

definition tv_delta :: "timeval \<Rightarrow> timeval \<Rightarrow> timeval \<Rightarrow> timeval" where
  "tv_delta dest t1 t2 =
     (case tv_delta_borrow (int32 (tv_sec t2 - tv_sec t1)) (int32 (tv_usec t2 - tv_usec t1)) of
        (sec, usec) \<Rightarrow>
          if sec < 0 then dest\<lparr>tv_sec := 0, tv_usec := 0\<rparr>
          else dest\<lparr>tv_sec := sec, tv_usec := usec\<rparr>)"

definition TV_WITHIN_SIGMA_MAX_SEC :: u32 where
  "TV_WITHIN_SIGMA_MAX_SEC = 600"

definition tv_within_sigma :: "timeval \<Rightarrow> timeval \<Rightarrow> u32 \<Rightarrow> bool" where
  "tv_within_sigma t1 t2 sigma =
     (let delta = tv_subtract t1 t2 TV_WITHIN_SIGMA_MAX_SEC
      in - int32 (uint sigma) \<le> delta \<and> delta \<le> int32 (uint sigma))"

definition interval_earliest_wakeup :: "interval_t \<Rightarrow> time_t \<Rightarrow> time_t \<Rightarrow> interval_t" where
  "interval_earliest_wakeup wakeup at current =
     (if at > current
      then (let delta = int32 (at - current);
                w = (if delta < wakeup then delta else wakeup)
            in if w < 0 then 0 else w)
      else wakeup)"

text \<open>A time value in microseconds, and the time values whose two parts are in range.\<close>

definition usecs :: "timeval \<Rightarrow> int" where
  "usecs t = tv_sec t * 1000000 + tv_usec t"

definition tv_ok :: "timeval \<Rightarrow> bool" where
  "tv_ok t = (0 \<le> tv_usec t \<and> tv_usec t < 1000000)"

lemma tv_compare_usecs:
  assumes "tv_ok t1" and "tv_ok t2"
  shows "tv_lt t1 t2 \<longleftrightarrow> usecs t1 < usecs t2" and "tv_le t1 t2 \<longleftrightarrow> usecs t1 \<le> usecs t2"
    and "tv_gt t1 t2 \<longleftrightarrow> usecs t1 > usecs t2" and "tv_ge t1 t2 \<longleftrightarrow> usecs t1 \<ge> usecs t2"
    and "tv_eq t1 t2 \<longleftrightarrow> usecs t1 = usecs t2"
proof -
  have le: "usecs s < usecs t \<longleftrightarrow> tv_sec s < tv_sec t \<or> tv_sec s = tv_sec t \<and> tv_usec s < tv_usec t"
    if "tv_ok s" "tv_ok t" for s t
    using that unfolding usecs_def tv_ok_def by linarith
  show "tv_lt t1 t2 \<longleftrightarrow> usecs t1 < usecs t2" "tv_gt t1 t2 \<longleftrightarrow> usecs t1 > usecs t2"
    using assms by (auto simp: le tv_lt_def tv_gt_def)
  show "tv_le t1 t2 \<longleftrightarrow> usecs t1 \<le> usecs t2" "tv_ge t1 t2 \<longleftrightarrow> usecs t1 \<ge> usecs t2"
    using assms by (auto simp: linorder_not_less [symmetric] le tv_le_def tv_ge_def)
  show "tv_eq t1 t2 \<longleftrightarrow> usecs t1 = usecs t2"
    using le [OF assms] le [OF assms(2,1)] unfolding tv_eq_def usecs_def by linarith
qed

lemma tv_delta_borrow_once:
  "- 1000000 < u \<Longrightarrow> tv_delta_borrow s u = (if u < 0 then (s - 1, u + 1000000) else (s, u))"
  by (subst tv_delta_borrow.simps, auto) (subst tv_delta_borrow.simps, simp)

lemma tv_delta_usecs:
  assumes "tv_ok t1" and "tv_ok t2" and "\<bar>tv_sec t2 - tv_sec t1\<bar> < 2 ^ 31"
  shows "usecs (tv_delta d t1 t2) = max 0 (usecs t2 - usecs t1) \<and> tv_ok (tv_delta d t1 t2)"
proof -
  have "int32 (tv_sec t2 - tv_sec t1) = tv_sec t2 - tv_sec t1"
    "int32 (tv_usec t2 - tv_usec t1) = tv_usec t2 - tv_usec t1"
    using assms by (auto intro!: int32_small simp: tv_ok_def)
  with assms show ?thesis
    by (auto simp: tv_delta_def tv_delta_borrow_once tv_ok_def usecs_def max_def)
qed

lemma tv_subtract_usecs:
  assumes "tv_ok t1" and "tv_ok t2" and "\<bar>tv_sec t1 - tv_sec t2\<bar> < 2 ^ 31" and "unat n \<le> 2000"
  shows "tv_subtract t1 t2 n =
    constrain_int (usecs t1 - usecs t2) (- (int (unat n) * 1000000)) (int (unat n) * 1000000)"
proof -
  define m where "m = int (unat n)"
  define s where "s = tv_sec t1 - tv_sec t2"
  define u where "u = tv_usec t1 - tv_usec t2"
  have m: "0 \<le> m" "m \<le> 2000"
    using assms(4) of_nat_mono [of "unat n" 2000] unfolding m_def by (simp_all del: uint_nat_eq of_nat_unat)
  have u: "\<bar>u\<bar> < 1000000" using assms(1,2) by (auto simp: u_def tv_ok_def)
  have us: "usecs t1 - usecs t2 = s * 1000000 + u"
    by (simp add: usecs_def s_def u_def)
  have "unat (n * 1000000) = unat n * 1000000"
    using assms(4) by (subst unat_mult_lem [THEN iffD1]) simp_all
  then have "uint (n * 1000000) = m * 1000000"
    by (metis m_def of_nat_mult of_nat_numeral uint_nat_eq)
  moreover have um: "uint n = m" by (simp add: m_def)
  ultimately have n: "int32 (uint (n * 1000000)) = m * 1000000" "int32 (uint n) = m"
    using m um by (simp_all add: int32_small)
  have m32: "int32 m = m" using m by (simp add: int32_small)
  have d: "int32 (tv_sec t1 - tv_sec t2) = s"
    using assms(3) by (auto intro!: int32_small simp: s_def)
  show ?thesis
  proof (cases "\<bar>s\<bar> \<le> m + 10")
    case True
    then have "int32 (s * 1000000 + u) = s * 1000000 + u"
      using m u by (simp add: int32_small)
    with True show ?thesis
      by (auto simp: tv_subtract_def Let_def n d us u_def [symmetric] um m32)
  next
    case False
    with m u show ?thesis
      by (auto simp: tv_subtract_def Let_def n d us um m32 constrain_int_def)
  qed
qed

text \<open>
  \<open>tv_add\<close> folds \<open>2 ^ 20\<close> microseconds into a second, so it is exact only when the two
  microsecond parts add up to less than that.
\<close>

lemma tv_add_usecs:
  assumes "0 \<le> tv_usec dest + tv_usec src"
  shows "usecs (tv_add dest src) =
      usecs dest + usecs src - 48576 * ((tv_usec dest + tv_usec src) div 2 ^ 20) \<and> tv_ok (tv_add dest src)"
proof -
  let ?u = "tv_usec dest + tv_usec src"
  have "mask 20 = (0x000FFFFF :: int)" by (simp add: mask_eq_exp_minus_1)
  then have "?u AND 0x000FFFFF = ?u mod 2 ^ 20"
    by (metis take_bit_eq_mask take_bit_eq_mod)
  moreover have "drop_bit 20 ?u = ?u div 2 ^ 20" by (simp add: drop_bit_eq_div)
  moreover have "?u = ?u div 2 ^ 20 * 2 ^ 20 + ?u mod 2 ^ 20" "0 \<le> ?u mod 2 ^ 20" "?u mod 2 ^ 20 < 2 ^ 20"
    by simp_all
  ultimately show ?thesis
    by (auto simp: tv_add_def Let_def usecs_def tv_ok_def)
qed


section \<open>Frequency limit\<close>

record frequency_limit =
  fl_max :: int
  fl_per :: int
  fl_n :: int
  fl_reset :: time_t

definition frequency_limit_init :: "int \<Rightarrow> int \<Rightarrow> frequency_limit option" where
  "frequency_limit_init mx per =
     (if mx \<ge> 0 \<and> per \<ge> 0
      then Some \<lparr>fl_max = mx, fl_per = per, fl_n = 0, fl_reset = 0\<rparr> else None)"

definition frequency_limit_event_allowed ::
    "time_t \<Rightarrow> frequency_limit \<Rightarrow> bool \<times> frequency_limit" where
  "frequency_limit_event_allowed now f =
     (if fl_per f \<noteq> 0
      then (let f1 = (if now \<ge> fl_reset f + fl_per f then f\<lparr>fl_reset := now, fl_n := 0\<rparr> else f);
                f2 = f1\<lparr>fl_n := fl_n f1 + 1\<rparr>
            in (fl_n f2 \<le> fl_max f2, f2))
      else (True, f))"

text \<open>The times of a stream of events at which the limit lets the event through.\<close>

fun allowed_times :: "time_t list \<Rightarrow> frequency_limit \<Rightarrow> time_t list" where
  "allowed_times [] f = []"
| "allowed_times (t # ts) f =
     (case frequency_limit_event_allowed t f of
        (ok, f') \<Rightarrow> if ok then t # allowed_times ts f' else allowed_times ts f')"

definition within :: "time_t \<Rightarrow> int \<Rightarrow> time_t list \<Rightarrow> nat" where
  "within t per xs = length (filter (\<lambda>x. t \<le> x \<and> x < t + per) xs)"

lemma within_simps [simp]:
  "within t per [] = 0"
  "within t per (x # xs) = (if t \<le> x \<and> x < t + per then 1 else 0) + within t per xs"
  by (simp_all add: within_def)

lemma frequency_limit_event_allowed_pos:
  "0 < fl_per f \<Longrightarrow> allowed_times (x # xs) f =
     (let g = (if fl_reset f + fl_per f \<le> x then f\<lparr>fl_reset := x, fl_n := 1\<rparr>
               else f\<lparr>fl_n := fl_n f + 1\<rparr>)
      in if fl_n g \<le> fl_max g then x # allowed_times xs g else allowed_times xs g)"
  by (simp add: frequency_limit_event_allowed_def Let_def)

lemma allowed_times_set: "set (allowed_times ts f) \<subseteq> set ts"
proof (induction ts arbitrary: f)
  case (Cons a ts)
  obtain ok f' where "frequency_limit_event_allowed a f = (ok, f')" by fastforce
  with Cons.IH [of f'] show ?case by auto
qed simp

lemma within_late: "(\<And>x. x \<in> set xs \<Longrightarrow> t + per \<le> x) \<Longrightarrow> within t per xs = 0"
  by (induction xs) force+

lemma allowed_late:
  "t + fl_per f \<le> fl_reset f \<Longrightarrow> sorted (fl_reset f # ts) \<Longrightarrow>
   within t (fl_per f) (allowed_times ts f) = 0"
  using allowed_times_set [of ts f] by (intro within_late) fastforce

text \<open>A window that opened inside the observed interval lets the rest of its quota through.\<close>

lemma allowed_open:
  "t \<le> fl_reset f \<Longrightarrow> fl_reset f < t + fl_per f \<Longrightarrow> sorted (fl_reset f # ts) \<Longrightarrow> 0 < fl_per f \<Longrightarrow>
   0 \<le> fl_n f \<Longrightarrow> int (within t (fl_per f) (allowed_times ts f)) \<le> max 0 (fl_max f - fl_n f)"
proof (induction ts arbitrary: f)
  case (Cons x xs)
  let ?g = "f\<lparr>fl_reset := x, fl_n := 1\<rparr>"
  let ?h = "f\<lparr>fl_n := fl_n f + 1\<rparr>"
  show ?case
  proof (cases "x \<ge> fl_reset f + fl_per f")
    case True
    have "within t (fl_per ?g) (allowed_times xs ?g) = 0"
      by (rule allowed_late) (use Cons.prems True in auto)
    with True Cons.prems show ?thesis
      by (simp add: frequency_limit_event_allowed_pos Let_def del: allowed_times.simps)
  next
    case False
    have "int (within t (fl_per ?h) (allowed_times xs ?h)) \<le> max 0 (fl_max ?h - fl_n ?h)"
      by (rule Cons.IH) (use Cons.prems in auto)
    with False Cons.prems show ?thesis
      by (simp add: frequency_limit_event_allowed_pos Let_def del: allowed_times.simps)
        (auto simp: max_def split: if_splits)
  qed
qed simp

text \<open>A window that opened before it adds at most one further window.\<close>

lemma allowed_before:
  "\<forall>x \<in> set ts. t \<le> x \<Longrightarrow> sorted (fl_reset f # ts) \<Longrightarrow> 0 < fl_per f \<Longrightarrow> 0 \<le> fl_max f \<Longrightarrow>
   0 \<le> fl_n f \<Longrightarrow>
   int (within t (fl_per f) (allowed_times ts f)) \<le> max 0 (fl_max f - fl_n f) + fl_max f"
proof (induction ts arbitrary: f)
  case (Cons x xs)
  let ?g = "f\<lparr>fl_reset := x, fl_n := 1\<rparr>"
  let ?h = "f\<lparr>fl_n := fl_n f + 1\<rparr>"
  show ?case
  proof (cases "x \<ge> fl_reset f + fl_per f")
    case True
    show ?thesis
    proof (cases "x < t + fl_per f")
      case in_window: True
      have "int (within t (fl_per ?g) (allowed_times xs ?g)) \<le> max 0 (fl_max ?g - fl_n ?g)"
        by (rule allowed_open) (use Cons.prems in_window in auto)
      with in_window True Cons.prems show ?thesis
        by (simp add: frequency_limit_event_allowed_pos Let_def del: allowed_times.simps)
          (auto simp: max_def split: if_splits)
    next
      case late: False
      have "within t (fl_per ?g) (allowed_times xs ?g) = 0"
        by (rule allowed_late) (use Cons.prems late in auto)
      with late True Cons.prems show ?thesis
        by (simp add: frequency_limit_event_allowed_pos Let_def del: allowed_times.simps)
    qed
  next
    case False
    have "int (within t (fl_per ?h) (allowed_times xs ?h)) \<le> max 0 (fl_max ?h - fl_n ?h) + fl_max ?h"
      by (rule Cons.IH) (use Cons.prems in auto)
    with False Cons.prems show ?thesis
      by (simp add: frequency_limit_event_allowed_pos Let_def del: allowed_times.simps)
        (auto simp: max_def split: if_splits)
  qed
qed simp

lemma allowed_rate:
  "sorted (fl_reset f # ts) \<Longrightarrow> 0 < fl_per f \<Longrightarrow> 0 \<le> fl_max f \<Longrightarrow> 0 \<le> fl_n f \<Longrightarrow>
   int (within t (fl_per f) (allowed_times ts f)) \<le> 2 * fl_max f"
proof (induction ts arbitrary: f)
  case (Cons x xs)
  show ?case
  proof (cases "t \<le> x")
    case True
    then have "\<forall>y \<in> set (x # xs). t \<le> y" using Cons.prems(1) by auto
    from allowed_before [OF this Cons.prems] Cons.prems(3,4) show ?thesis
      by (auto simp: max_def split: if_splits)
  next
    case False
    let ?g = "if fl_reset f + fl_per f \<le> x then f\<lparr>fl_reset := x, fl_n := 1\<rparr> else f\<lparr>fl_n := fl_n f + 1\<rparr>"
    have "int (within t (fl_per ?g) (allowed_times xs ?g)) \<le> 2 * fl_max ?g"
      by (rule Cons.IH) (use Cons.prems in auto)
    with False Cons.prems show ?thesis
      by (simp add: frequency_limit_event_allowed_pos Let_def del: allowed_times.simps split: if_splits)
  qed
qed simp

section \<open>Intervals and timeouts\<close>

record interval =
  i_refresh :: interval_t
  i_horizon :: interval_t
  i_future_trigger :: time_t
  i_last_action :: time_t
  i_last_test_true :: time_t

definition interval_init :: "int \<Rightarrow> int \<Rightarrow> interval" where
  "interval_init horizon refresh =
     \<lparr>i_refresh = refresh, i_horizon = horizon, i_future_trigger = 0, i_last_action = 0,
      i_last_test_true = 0\<rparr>"

definition interval_test :: "time_t \<Rightarrow> interval \<Rightarrow> bool \<times> interval" where
  "interval_test now itv =
     (let trigger = (i_future_trigger itv \<noteq> 0 \<and> now \<ge> i_future_trigger itv);
          itv1 = (if trigger then itv\<lparr>i_future_trigger := 0\<rparr> else itv)
      in if i_last_action itv1 + i_horizon itv1 > now
            \<or> i_last_test_true itv1 + i_refresh itv1 \<le> now \<or> trigger
         then (True, itv1\<lparr>i_last_test_true := now\<rparr>)
         else (False, itv1))"

definition interval_schedule_wakeup :: "time_t \<Rightarrow> interval \<Rightarrow> interval_t \<Rightarrow> interval_t" where
  "interval_schedule_wakeup now itv wakeup =
     interval_earliest_wakeup
       (interval_earliest_wakeup wakeup (i_last_test_true itv + i_refresh itv) now)
       (i_future_trigger itv) now"

definition interval_future_trigger :: "time_t \<Rightarrow> interval_t \<Rightarrow> interval \<Rightarrow> interval" where
  "interval_future_trigger now wakeup itv =
     (if wakeup \<noteq> 0 then itv\<lparr>i_future_trigger := now + wakeup\<rparr> else itv)"

definition interval_action :: "time_t \<Rightarrow> interval \<Rightarrow> interval" where
  "interval_action now itv = itv\<lparr>i_last_action := now\<rparr>"

record event_timeout =
  et_defined :: bool
  et_n :: interval_t
  et_last :: time_t

definition event_timeout_defined :: "event_timeout \<Rightarrow> bool" where
  "event_timeout_defined et = et_defined et"

definition event_timeout_clear :: "event_timeout \<Rightarrow> event_timeout" where
  "event_timeout_clear et = et\<lparr>et_defined := False, et_n := 0, et_last := 0\<rparr>"

definition event_timeout_init :: "event_timeout \<Rightarrow> interval_t \<Rightarrow> time_t \<Rightarrow> event_timeout" where
  "event_timeout_init et n last_time =
     et\<lparr>et_defined := True, et_n := (if n \<ge> 0 then n else 0), et_last := last_time\<rparr>"

definition event_timeout_reset :: "time_t \<Rightarrow> event_timeout \<Rightarrow> event_timeout" where
  "event_timeout_reset now et = (if et_defined et then et\<lparr>et_last := now\<rparr> else et)"

definition event_timeout_modify_wakeup :: "event_timeout \<Rightarrow> interval_t \<Rightarrow> event_timeout" where
  "event_timeout_modify_wakeup et n =
     (if et_defined et then et\<lparr>et_n := (if n \<ge> 0 then n else 0)\<rparr> else et)"

definition event_timeout_remaining :: "time_t \<Rightarrow> event_timeout \<Rightarrow> interval_t" where
  "event_timeout_remaining now et = int32 ((et_last et + et_n et) - now)"

definition ETT_DEFAULT :: int where
  "ETT_DEFAULT = -1"

definition event_timeout_trigger ::
    "time_t \<Rightarrow> event_timeout \<Rightarrow> timeval option \<Rightarrow> int
       \<Rightarrow> bool \<times> event_timeout \<times> timeval option" where
  "event_timeout_trigger now et tv et_const_retry =
     (if \<not> et_defined et then (False, et, tv)
      else
        (let wakeup0 = event_timeout_remaining now et;
             (ret, et1, wakeup) =
               (if wakeup0 \<le> 0
                then (if et_const_retry < 0 then (True, et\<lparr>et_last := now\<rparr>, et_n et)
                      else (False, et, et_const_retry))
                else (False, et, wakeup0));
             tv1 = (case tv of
                      None \<Rightarrow> None
                    | Some t \<Rightarrow>
                        Some (if wakeup < tv_sec t then t\<lparr>tv_sec := wakeup, tv_usec := 0\<rparr> else t))
         in (ret, et1, tv1)))"

text \<open>A timeout polled at a sequence of times: the times at which it fires.\<close>

fun firing_times :: "time_t list \<Rightarrow> event_timeout \<Rightarrow> time_t list" where
  "firing_times [] et = []"
| "firing_times (t # ts) et =
     (case event_timeout_trigger t et None ETT_DEFAULT of
        (ret, et', _) \<Rightarrow> if ret then t # firing_times ts et' else firing_times ts et')"

definition et_small :: "time_t \<Rightarrow> event_timeout \<Rightarrow> bool" where
  "et_small now et = (\<bar>et_last et + et_n et - now\<bar> < 2 ^ 31)"

lemma event_timeout_fires:
  assumes "et_defined et" and "et_small now et"
  shows "fst (event_timeout_trigger now et tv ETT_DEFAULT) \<longleftrightarrow> et_last et + et_n et \<le> now"
  using assms
  by (auto simp: event_timeout_trigger_def event_timeout_remaining_def ETT_DEFAULT_def et_small_def
      int32_small Let_def)

lemma event_timeout_trigger_default:
  assumes "et_defined et" and "et_small now et"
  shows "event_timeout_trigger now et tv ETT_DEFAULT =
    (let due = (et_last et + et_n et \<le> now);
         wait = (if due then et_n et else et_last et + et_n et - now)
     in (due, if due then et\<lparr>et_last := now\<rparr> else et,
         map_option (\<lambda>t. if wait < tv_sec t then t\<lparr>tv_sec := wait, tv_usec := 0\<rparr> else t) tv))"
  using assms
  by (auto simp: event_timeout_trigger_def event_timeout_remaining_def ETT_DEFAULT_def et_small_def
      int32_small Let_def split: option.splits)

lemma firing_times_gap:
  "et_defined et \<Longrightarrow> 0 \<le> et_n et \<Longrightarrow> et_n et < 2 ^ 30 \<Longrightarrow> sorted (et_last et # ts) \<Longrightarrow>
   \<forall>t \<in> set ts. t < et_last et + 2 ^ 30 \<Longrightarrow>
   sorted_wrt (\<lambda>s t. s + et_n et \<le> t) (et_last et # firing_times ts et)"
proof (induction ts arbitrary: et)
  case (Cons x xs)
  have sm: "et_small x et" using Cons.prems by (auto simp: et_small_def)
  let ?g = "et\<lparr>et_last := x\<rparr>"
  show ?case
  proof (cases "et_last et + et_n et \<le> x")
    case True
    have "sorted_wrt (\<lambda>s t. s + et_n ?g \<le> t) (et_last ?g # firing_times xs ?g)"
      by (rule Cons.IH) (use Cons.prems in auto)
    with True Cons.prems show ?thesis
      by (auto simp: event_timeout_trigger_default [OF _ sm] Let_def)
  next
    case False
    have "sorted_wrt (\<lambda>s t. s + et_n et \<le> t) (et_last et # firing_times xs et)"
      by (rule Cons.IH) (use Cons.prems in auto)
    with False Cons.prems show ?thesis
      by (simp add: event_timeout_trigger_default [OF _ sm] Let_def)
  qed
qed simp

lemma event_timeout_wait:
  assumes "et_defined et" and "et_small now et" and "0 \<le> et_n et" and "et_last et \<le> now"
    and "event_timeout_trigger now et (Some tv) ETT_DEFAULT = (ret, et', Some tv')"
  shows "tv_sec tv' = min (tv_sec tv) (et_last et' + et_n et' - now)" and "et_n et' = et_n et"
    and "et_defined et'"
  using assms(1,5) by (auto simp: event_timeout_trigger_default [OF assms(1,2)] Let_def min_def split: if_splits)

section \<open>Output shaper\<close>

definition SHAPER_MIN :: int where "SHAPER_MIN = 100"
definition SHAPER_MAX :: int where "SHAPER_MAX = 100000000"
definition SHAPER_MAX_TIMEOUT :: u32 where "SHAPER_MAX_TIMEOUT = 10"

text \<open>
  The factor of \<open>struct shaper\<close> is a floating-point number; \<open>scale n\<close> stands for the value of
  \<open>(int) ((double) n * s->factor)\<close>, the only use the code makes of it.
\<close>

record shaper =
  sh_bytes_per_second :: int
  sh_wakeup :: timeval

definition shaper_soonest_event :: "timeval \<Rightarrow> int \<Rightarrow> bool \<times> timeval" where
  "shaper_soonest_event tv delay =
     (if delay < 1000000
      then (if tv_sec tv \<noteq> 0 then (True, tv\<lparr>tv_sec := 0, tv_usec := delay\<rparr>)
            else if delay < tv_usec tv then (True, tv\<lparr>tv_usec := delay\<rparr>)
            else (False, tv))
      else (let sec = delay div 1000000;
                usec = delay mod 1000000
            in if sec < tv_sec tv then (True, tv\<lparr>tv_sec := sec, tv_usec := usec\<rparr>)
               else if sec = tv_sec tv \<and> usec < tv_usec tv then (True, tv\<lparr>tv_usec := usec\<rparr>)
               else (False, tv)))"

definition shaper_reset_wakeup :: "shaper \<Rightarrow> shaper" where
  "shaper_reset_wakeup s = s\<lparr>sh_wakeup := \<lparr>tv_sec = 0, tv_usec = 0\<rparr>\<rparr>"

definition shaper_current_bandwidth :: "shaper \<Rightarrow> int" where
  "shaper_current_bandwidth s = sh_bytes_per_second s"

text \<open>A failing \<open>gettimeofday\<close> violates an assertion.\<close>

definition shaper_delay :: "int + timeval \<Rightarrow> shaper \<Rightarrow> clock \<Rightarrow> (int \<times> clock) option" where
  "shaper_delay answer s c =
     (if tv_defined (sh_wakeup s)
      then (case openvpn_gettimeofday answer \<lparr>tv_sec = 0, tv_usec = 0\<rparr> c of
              (status, tv, c1) \<Rightarrow>
                if status \<noteq> 0 then None
                else (let delay = tv_subtract (sh_wakeup s) tv SHAPER_MAX_TIMEOUT
                      in Some (if delay > 0 then delay else 0, c1)))
      else Some (0, c))"

definition shaper_wrote_bytes ::
    "(int \<Rightarrow> int) \<Rightarrow> int + timeval \<Rightarrow> int \<Rightarrow> shaper \<Rightarrow> clock \<Rightarrow> (shaper \<times> clock) option" where
  "shaper_wrote_bytes scale answer nbytes s c =
     (let tv = \<lparr>tv_sec = 0,
                tv_usec = min_int (scale (max_int nbytes 100)) (uint SHAPER_MAX_TIMEOUT * 1000000)\<rparr>
      in if tv_usec tv \<noteq> 0
         then (case openvpn_gettimeofday answer (sh_wakeup s) c of
                 (status, w, c1) \<Rightarrow>
                   if status \<noteq> 0 then None else Some (s\<lparr>sh_wakeup := tv_add w tv\<rparr>, c1))
         else Some (s, c))"

lemma shaper_soonest_event_usecs:
  assumes "tv_ok tv" and "0 \<le> tv_sec tv" and "0 \<le> delay"
  shows "shaper_soonest_event tv delay = (delay < usecs tv, snd (shaper_soonest_event tv delay))"
    and "usecs (snd (shaper_soonest_event tv delay)) = min (usecs tv) delay"
proof -
  define q r where "q = delay div 1000000" and "r = delay mod 1000000"
  have d: "delay = q * 1000000 + r" "0 \<le> r" "r < 1000000" by (simp_all add: q_def r_def)
  have ev: "shaper_soonest_event tv delay =
    (if q = 0 then (if tv_sec tv \<noteq> 0 then (True, tv\<lparr>tv_sec := 0, tv_usec := delay\<rparr>)
       else if delay < tv_usec tv then (True, tv\<lparr>tv_usec := delay\<rparr>) else (False, tv))
     else if q < tv_sec tv then (True, tv\<lparr>tv_sec := q, tv_usec := r\<rparr>)
     else if q = tv_sec tv \<and> r < tv_usec tv then (True, tv\<lparr>tv_usec := r\<rparr>) else (False, tv))"
    using d assms(3) by (auto simp: shaper_soonest_event_def Let_def q_def [symmetric] r_def [symmetric])
  show "shaper_soonest_event tv delay = (delay < usecs tv, snd (shaper_soonest_event tv delay))"
    "usecs (snd (shaper_soonest_event tv delay)) = min (usecs tv) delay"
    unfolding ev using assms d by (auto simp: usecs_def tv_ok_def min_def)
qed

section \<open>Ping\<close>

definition PING_STRING_SIZE :: nat where
  "PING_STRING_SIZE = 16"

definition ping_string :: "u8 list" where
  "ping_string = [0x2a, 0x18, 0x7b, 0xf3, 0x64, 0x1e, 0xb4, 0xcb,
                  0x07, 0xed, 0x2d, 0x0a, 0x98, 0x1f, 0xc7, 0x48]"

definition is_ping_msg :: "buffer \<Rightarrow> bool" where
  "is_ping_msg b = buf_string_match b ping_string (int PING_STRING_SIZE)"

datatype ping_action = PING_UNDEF | PING_EXIT | PING_RESTART

datatype signal = SIGTERM | SIGUSR1

definition trigger_ping_timeout_signal :: "ping_action \<Rightarrow> signal option" where
  "trigger_ping_timeout_signal action =
     (case action of
        PING_EXIT \<Rightarrow> Some SIGTERM
      | PING_RESTART \<Rightarrow> Some SIGUSR1
      | PING_UNDEF \<Rightarrow> None)"

text \<open>
  The fields of the tunnel context the ping timers use. \<open>encrypt_sign\<close> is the packet pipeline
  the ping is handed to; it takes the buffer and leaves the one the context has afterwards.
\<close>

record ping_context =
  pc_ping_rec_timeout :: int
  pc_ping_send_timeout :: int
  pc_ping_timer_remote :: bool
  pc_ping_rec_timeout_action :: ping_action
  pc_ping_rec_interval :: event_timeout
  pc_ping_send_interval :: event_timeout
  pc_timeval :: timeval
  pc_to_link_defined :: bool
  pc_buf :: buffer
  pc_signal :: "signal option"

definition check_ping_send_dowork ::
    "(buffer \<Rightarrow> buffer) \<Rightarrow> buffer \<Rightarrow> int \<Rightarrow> int \<Rightarrow> ping_context \<Rightarrow> ping_context option" where
  "check_ping_send_dowork encrypt_sign aux_buf headroom payload_size c =
     (case buf_init aux_buf headroom of
        (False, _) \<Rightarrow> None
      | (True, b) \<Rightarrow>
          if \<not> buf_safe b (size_of_int payload_size) then None
          else (case buf_write b ping_string of
                  (False, _) \<Rightarrow> None
                | (True, b1) \<Rightarrow> Some (c\<lparr>pc_buf := (encrypt_sign b1)\<lparr>b_len := 0\<rparr>\<rparr>)))"

definition check_ping_restart :: "time_t \<Rightarrow> bool \<Rightarrow> ping_context \<Rightarrow> ping_context option" where
  "check_ping_restart now actual_defined c =
     (if pc_ping_rec_timeout c \<noteq> 0
      then (case event_timeout_trigger now (pc_ping_rec_interval c) (Some (pc_timeval c))
                   (if \<not> pc_ping_timer_remote c \<or> actual_defined then ETT_DEFAULT else 15) of
              (ret, et, tv) \<Rightarrow>
                (let c1 = c\<lparr>pc_ping_rec_interval := et, pc_timeval := the tv\<rparr>
                 in if ret
                    then (case trigger_ping_timeout_signal (pc_ping_rec_timeout_action c) of
                            None \<Rightarrow> None | Some sig \<Rightarrow> Some (c1\<lparr>pc_signal := Some sig\<rparr>))
                    else Some c1))
      else Some c)"

definition check_ping_send ::
    "(buffer \<Rightarrow> buffer) \<Rightarrow> buffer \<Rightarrow> int \<Rightarrow> int \<Rightarrow> time_t \<Rightarrow> ping_context \<Rightarrow> ping_context option" where
  "check_ping_send encrypt_sign aux_buf headroom payload_size now c =
     (if pc_ping_send_timeout c \<noteq> 0
      then (case event_timeout_trigger now (pc_ping_send_interval c) (Some (pc_timeval c))
                   (if \<not> pc_to_link_defined c then ETT_DEFAULT else 1) of
              (ret, et, tv) \<Rightarrow>
                (let c1 = c\<lparr>pc_ping_send_interval := et, pc_timeval := the tv\<rparr>
                 in if ret then check_ping_send_dowork encrypt_sign aux_buf headroom payload_size c1
                    else Some c1))
      else Some c)"

lemma ping_string_size: "length ping_string = PING_STRING_SIZE"
  by (simp add: ping_string_def PING_STRING_SIZE_def)

section \<open>Properties\<close>

text \<open>
  The process clock never runs backwards, whatever times the system reports; and when the
  system clock is set back by more than ten seconds the adjustment absorbs the jump: from the
  next call on, the process clock advances exactly with the system clock.
\<close>

theorem update_now_filters_jumps:
  assumes "t + k_now_adj c < k_now c - 10" and "0 \<le> d" and "d \<le> 86401"
  shows "k_now c \<le> k_now (clock_run ts c) \<and> k_now (clock_run [t, t + d] c) = k_now c + d"
proof -
  note b = update_now_backward [OF assms(1)]
  have "k_now (update_now (t + d) (update_now t c)) = t + d + k_now_adj (update_now t c)"
    by (rule update_now_exact(1)) (use b assms(2,3) in auto)
  with b show ?thesis by (simp add: clock_run_mono) (simp add: clock_run_def)
qed

theorem update_now_filters_jumps_witness:
  "k_now (clock_run [500, 530] \<lparr>k_now = 1000, k_now_adj = 3, k_now_usec = 0\<rparr>) = 1030"
  using update_now_filters_jumps [of 500 "\<lparr>k_now = 1000, k_now_adj = 3, k_now_usec = 0\<rparr>" 30 "[]"]
  by simp

text \<open>
  The frequency limit bounds the rate of events: with a limit of \<open>mx\<close> events per \<open>per\<close>
  seconds, no interval of \<open>per\<close> seconds, wherever it starts, sees more than twice \<open>mx\<close>
  events let through.
\<close>

theorem frequency_limit_rate:
  assumes "frequency_limit_init mx per = Some f" and "0 < per" and "sorted ts" and "\<forall>t \<in> set ts. 0 \<le> t"
  shows "int (within start per (allowed_times ts f)) \<le> 2 * mx"
proof -
  have f: "fl_per f = per" "fl_max f = mx" "fl_n f = 0" "fl_reset f = 0" "0 \<le> mx"
    using assms(1) by (auto simp: frequency_limit_init_def split: if_splits)
  with allowed_rate [of f ts start] assms show ?thesis by simp
qed

theorem frequency_limit_rate_witness:
  "int (within 18 10 (allowed_times [5, 19, 19, 19, 20, 21, 22] \<lparr>fl_max = 2, fl_per = 10, fl_n = 0, fl_reset = 0\<rparr>)) \<le> 4"
  using frequency_limit_rate [of 2 10 "\<lparr>fl_max = 2, fl_per = 10, fl_n = 0, fl_reset = 0\<rparr>" "[5, 19, 19, 19, 20, 21, 22]" 18]
  by (simp add: frequency_limit_init_def)

text \<open>
  A periodic timeout polled at increasing times fires at most once per period: two firings
  are at least \<open>n\<close> seconds apart and the first is at least \<open>n\<close> seconds after its base time.
  And the wait it asks for ends no later than the time it is due, so a caller that polls
  again after the wait does not miss it.
\<close>

theorem event_timeout_period:
  assumes "et_defined et" and "0 \<le> et_n et" and "et_n et < 2 ^ 30" and "sorted (et_last et # now # ts)"
    and "\<forall>t \<in> set (now # ts). t < et_last et + 2 ^ 30"
  shows "sorted_wrt (\<lambda>s t. s + et_n et \<le> t) (et_last et # firing_times (now # ts) et)
    \<and> (\<exists>ret et' tv'. event_timeout_trigger now et (Some tv) ETT_DEFAULT = (ret, et', Some tv')
         \<and> tv_sec tv' = min (tv_sec tv) (et_last et' + et_n et - now)
         \<and> (ret \<longleftrightarrow> et_last et + et_n et \<le> now) \<and> et_last et' = (if ret then now else et_last et))"
proof
  show "sorted_wrt (\<lambda>s t. s + et_n et \<le> t) (et_last et # firing_times (now # ts) et)"
    by (rule firing_times_gap) (use assms in auto)
  have "et_small now et" using assms by (auto simp: et_small_def)
  then show "\<exists>ret et' tv'. event_timeout_trigger now et (Some tv) ETT_DEFAULT = (ret, et', Some tv')
         \<and> tv_sec tv' = min (tv_sec tv) (et_last et' + et_n et - now)
         \<and> (ret \<longleftrightarrow> et_last et + et_n et \<le> now) \<and> et_last et' = (if ret then now else et_last et)"
    using assms by (auto simp: event_timeout_trigger_default Let_def min_def)
qed

theorem event_timeout_period_witness:
  "sorted_wrt (\<lambda>s t. s + 10 \<le> t)
    (100 # firing_times [105, 112, 115, 130] \<lparr>et_defined = True, et_n = 10, et_last = 100\<rparr>)"
  using event_timeout_period [of "\<lparr>et_defined = True, et_n = 10, et_last = 100\<rparr>" 105 "[112, 115, 130]"
      "\<lparr>tv_sec = 60, tv_usec = 0\<rparr>"]
  by simp

text \<open>
  The wakeup the shaper computes after a write is the current time plus the transmission
  time of the packet, less 48576 microseconds for every \<open>2 ^ 20\<close> microseconds the microsecond
  parts of the two add up to: \<open>tv_add\<close> folds \<open>2 ^ 20\<close>, not \<open>10 ^ 6\<close>, microseconds into a
  second. The delay asked for right afterwards is short by that amount.
\<close>

theorem shaper_wakeup_short:
  assumes "0 < scale (max_int nbytes 100)"
    and "shaper_wrote_bytes scale (Inr t) nbytes s c = Some (s', c')"
    and "0 \<le> k_now_usec c'"
  defines "delay \<equiv> min (scale (max_int nbytes 100)) 10000000"
  shows "usecs (sh_wakeup s') = k_now c' * 1000000 + k_now_usec c' + delay
           - 48576 * ((k_now_usec c' + delay) div 2 ^ 20) \<and> tv_ok (sh_wakeup s')"
proof -
  have d: "min_int (scale (max_int nbytes 100)) (uint SHAPER_MAX_TIMEOUT * 1000000) = delay"
    by (simp add: delay_def min_int_def SHAPER_MAX_TIMEOUT_def)
  have c': "c' = update_now_usec t c" "delay \<noteq> 0" "0 < delay"
    "s' = s\<lparr>sh_wakeup := tv_add (t\<lparr>tv_sec := k_now c', tv_usec := k_now_usec c'\<rparr>) \<lparr>tv_sec = 0, tv_usec = delay\<rparr>\<rparr>"
    using assms(1,2) by (auto simp: shaper_wrote_bytes_def d delay_def openvpn_gettimeofday_def Let_def split: if_splits)
  show ?thesis
    using tv_add_usecs [of "t\<lparr>tv_sec := k_now c', tv_usec := k_now_usec c'\<rparr>" "\<lparr>tv_sec = 0, tv_usec = delay\<rparr>"]
      c'(3,4) assms(3)
    by (simp add: usecs_def)
qed

theorem shaper_wakeup_short_witness:
  "\<exists>s' c'. shaper_wrote_bytes (\<lambda>n. 10000 * n) (Inr \<lparr>tv_sec = 50, tv_usec = 900000\<rparr>) 1000
      \<lparr>sh_bytes_per_second = 100, sh_wakeup = \<lparr>tv_sec = 0, tv_usec = 0\<rparr>\<rparr>
      \<lparr>k_now = 50, k_now_adj = 0, k_now_usec = 0\<rparr> = Some (s', c')
    \<and> usecs (sh_wakeup s') = 60900000 - 485760"
proof -
  let ?s = "\<lparr>sh_bytes_per_second = 100, sh_wakeup = \<lparr>tv_sec = 0, tv_usec = 0\<rparr>\<rparr>"
  let ?c = "\<lparr>k_now = 50, k_now_adj = 0, k_now_usec = 0\<rparr>"
  let ?t = "\<lparr>tv_sec = 50, tv_usec = 900000\<rparr>"
  obtain s' where run: "shaper_wrote_bytes (\<lambda>n. 10000 * n) (Inr ?t) 1000 ?s ?c
      = Some (s', ?c\<lparr>k_now_usec := 900000\<rparr>)"
    by (simp add: shaper_wrote_bytes_def openvpn_gettimeofday_def update_now_usec_def update_now_def
        min_int_def max_int_def SHAPER_MAX_TIMEOUT_def)
  from shaper_wakeup_short [OF _ run] have "usecs (sh_wakeup s') = 60900000 - 485760"
    by (simp add: max_int_def)
  with run show ?thesis by blast
qed

end
