(* ===== verification/Mtu.thy ===== *)
theory Mtu
  imports Buffer
begin

text \<open>
  Packet sizes: \<open>struct frame\<close> of \<open>mtu.h\<close>, whose buffer parameters every packet buffer of
  the tunnel is allocated with.
\<close>

record frame =
  fr_payload_size :: int
  fr_headroom :: int
  fr_tailroom :: int
  fr_mss_fix :: u32
  fr_max_fragment_size :: int
  fr_tun_mtu :: int
  fr_tun_max_mtu :: int
  fr_extra_tun :: int

definition BUF_SIZE :: "frame \<Rightarrow> int" where
  "BUF_SIZE f = fr_headroom f + fr_payload_size f + fr_tailroom f"

definition alloc_buf_sock_tun :: "frame \<Rightarrow> buffer option" where
  "alloc_buf_sock_tun frame =
     (case alloc_buf (size_of_int (BUF_SIZE frame)) of
        None \<Rightarrow> None
      | Some b \<Rightarrow>
          (case buf_init b (fr_headroom frame) of
             (False, _) \<Rightarrow> None
           | (True, b1) \<Rightarrow>
               (let b2 = b1\<lparr>b_len := fr_payload_size frame\<rparr>
                in if buf_safe b2 0 then Some b2 else None)))"

end
