(* ===== verification/Fragment.thy ===== *)
theory Fragment
  imports Mtu Timing "HOL-Library.Monad_Syntax" "HOL-Library.Signed_Division" "HOL-Library.Multiset"
begin

text \<open>
  Datagram fragmentation of \<open>fragment.c\<close> and \<open>fragment.h\<close>: a datagram larger than the
  maximum fragment size leaves as up to 32 fragments that share a sequence number modulo 256,
  and the receiver reassembles up to 25 datagrams at a time in a sliding window of slots. The
  records are the structures of \<open>fragment.h\<close>; a pointer to a slot is its index.
\<close>

section \<open>Data and operations\<close>

definition N_FRAG_BUF :: int where "N_FRAG_BUF = 25"
definition FRAG_TTL_SEC :: int where "FRAG_TTL_SEC = 10"
definition FRAG_WAKEUP_INTERVAL :: int where "FRAG_WAKEUP_INTERVAL = 5"
definition N_SEQ_ID :: int where "N_SEQ_ID = 256"
definition MAX_FRAGS :: int where "MAX_FRAGS = 32"
definition FRAG_MAP_MASK :: u32 where "FRAG_MAP_MASK = 0xFFFFFFFF"
definition FRAG_TYPE_MASK :: u32 where "FRAG_TYPE_MASK = 0x00000003"
definition FRAG_TYPE_SHIFT :: nat where "FRAG_TYPE_SHIFT = 0"
definition FRAG_WHOLE :: u32 where "FRAG_WHOLE = 0"
definition FRAG_YES_NOTLAST :: u32 where "FRAG_YES_NOTLAST = 1"
definition FRAG_YES_LAST :: u32 where "FRAG_YES_LAST = 2"
definition FRAG_TEST :: u32 where "FRAG_TEST = 3"
definition FRAG_SEQ_ID_MASK :: u32 where "FRAG_SEQ_ID_MASK = 0x000000ff"
definition FRAG_SEQ_ID_SHIFT :: nat where "FRAG_SEQ_ID_SHIFT = 2"
definition FRAG_ID_MASK :: u32 where "FRAG_ID_MASK = 0x0000001f"
definition FRAG_ID_SHIFT :: nat where "FRAG_ID_SHIFT = 10"
definition FRAG_SIZE_MASK :: u32 where "FRAG_SIZE_MASK = 0x00003fff"
definition FRAG_SIZE_SHIFT :: nat where "FRAG_SIZE_SHIFT = 15"
definition FRAG_SIZE_ROUND_SHIFT :: nat where "FRAG_SIZE_ROUND_SHIFT = 2"
definition FRAG_SIZE_ROUND_MASK :: int where
  "FRAG_SIZE_ROUND_MASK = push_bit FRAG_SIZE_ROUND_SHIFT 1 - 1"

lemmas frag_consts = N_FRAG_BUF_def FRAG_TTL_SEC_def FRAG_WAKEUP_INTERVAL_def N_SEQ_ID_def
  MAX_FRAGS_def FRAG_MAP_MASK_def FRAG_TYPE_MASK_def FRAG_TYPE_SHIFT_def FRAG_WHOLE_def
  FRAG_YES_NOTLAST_def FRAG_YES_LAST_def FRAG_TEST_def FRAG_SEQ_ID_MASK_def FRAG_SEQ_ID_SHIFT_def
  FRAG_ID_MASK_def FRAG_ID_SHIFT_def FRAG_SIZE_MASK_def FRAG_SIZE_SHIFT_def
  FRAG_SIZE_ROUND_SHIFT_def FRAG_SIZE_ROUND_MASK_def

record fragment =
  fg_defined :: bool
  fg_max_frag_size :: int
  fg_map :: u32
  fg_timestamp :: time_t
  fg_buf :: buffer

record fragment_list =
  fli_seq_id :: int
  fli_index :: int
  fli_fragments :: "fragment list"

record fragment_master =
  fm_wakeup :: event_timeout
  fm_outgoing_seq_id :: int
  fm_outgoing_frag_size :: int
  fm_outgoing_frag_id :: int
  fm_outgoing :: buffer
  fm_outgoing_return :: buffer
  fm_incoming :: fragment_list

definition fragment_zero :: fragment where
  "fragment_zero = \<lparr>fg_defined = False, fg_max_frag_size = 0, fg_map = 0, fg_timestamp = 0,
                    fg_buf = clear_buf\<rparr>"

definition fragment_list_buf_init :: "frame \<Rightarrow> fragment_list \<Rightarrow> fragment_list option" where
  "fragment_list_buf_init frame l =
     (case alloc_buf (size_of_int (BUF_SIZE frame)) of
        None \<Rightarrow> None
      | Some b \<Rightarrow> Some (l\<lparr>fli_fragments := map (\<lambda>g. g\<lparr>fg_buf := b\<rparr>) (fli_fragments l)\<rparr>))"

definition fragment_list_buf_free :: "fragment_list \<Rightarrow> fragment_list" where
  "fragment_list_buf_free l =
     l\<lparr>fli_fragments := map (\<lambda>g. g\<lparr>fg_buf := free_buf (fg_buf g)\<rparr>) (fli_fragments l)\<rparr>"

text \<open>The slots between the old and the new highest sequence number are given up.\<close>

fun fragment_list_advance :: "nat \<Rightarrow> fragment_list \<Rightarrow> fragment_list option" where
  "fragment_list_advance 0 l = Some l"
| "fragment_list_advance (Suc diff) l =
     (case (modulo_add (fli_index l) 1 N_FRAG_BUF, modulo_add (fli_seq_id l) 1 N_SEQ_ID) of
        (Some i, Some s) \<Rightarrow>
          fragment_list_advance diff
            (l\<lparr>fli_index := i, fli_seq_id := s,
               fli_fragments := (fli_fragments l)[nat i := (fli_fragments l ! nat i)\<lparr>fg_defined := False\<rparr>]\<rparr>)
      | _ \<Rightarrow> None)"

definition fragment_list_get_buf :: "fragment_list \<Rightarrow> int \<Rightarrow> (nat \<times> fragment_list) option" where
  "fragment_list_get_buf l seq_id =
     (case modulo_subtract seq_id (fli_seq_id l) N_SEQ_ID of
        None \<Rightarrow> None
      | Some diff0 \<Rightarrow>
          (let (diff, l0) =
             (if \<bar>diff0\<bar> \<ge> N_FRAG_BUF
              then (0, l\<lparr>fli_fragments := map (\<lambda>g. g\<lparr>fg_defined := False\<rparr>) (fli_fragments l),
                         fli_index := 0, fli_seq_id := seq_id\<rparr>)
              else (diff0, l))
           in case fragment_list_advance (nat diff) l0 of
                None \<Rightarrow> None
              | Some l1 \<Rightarrow>
                  (case modulo_add (fli_index l1) (if diff > 0 then 0 else diff) N_FRAG_BUF of
                     None \<Rightarrow> None
                   | Some i \<Rightarrow> Some (nat i, l1))))"

text \<open>\<open>rnd\<close> is the value of \<open>get_random\<close>.\<close>

definition fragment_init :: "int \<Rightarrow> time_t \<Rightarrow> fragment_master" where
  "fragment_init rnd now =
     \<lparr>fm_wakeup = event_timeout_init \<lparr>et_defined = False, et_n = 0, et_last = 0\<rparr>
                    FRAG_WAKEUP_INTERVAL now,
      fm_outgoing_seq_id = rnd AND (N_SEQ_ID - 1),
      fm_outgoing_frag_size = 0, fm_outgoing_frag_id = 0,
      fm_outgoing = clear_buf, fm_outgoing_return = clear_buf,
      fm_incoming = \<lparr>fli_seq_id = 0, fli_index = 0,
                     fli_fragments = replicate (nat N_FRAG_BUF) fragment_zero\<rparr>\<rparr>"

definition fragment_free :: "fragment_master \<Rightarrow> fragment_master" where
  "fragment_free f =
     f\<lparr>fm_incoming := fragment_list_buf_free (fm_incoming f),
       fm_outgoing := free_buf (fm_outgoing f),
       fm_outgoing_return := free_buf (fm_outgoing_return f)\<rparr>"

definition fragment_frame_init :: "fragment_master \<Rightarrow> frame \<Rightarrow> fragment_master option" where
  "fragment_frame_init f frame =
     (case (fragment_list_buf_init frame (fm_incoming f), alloc_buf (size_of_int (BUF_SIZE frame))) of
        (Some l, Some b) \<Rightarrow>
          Some (f\<lparr>fm_incoming := l, fm_outgoing := b, fm_outgoing_return := b\<rparr>)
      | _ \<Rightarrow> None)"

definition fragment_outgoing_defined :: "fragment_master \<Rightarrow> bool" where
  "fragment_outgoing_defined f = (b_len (fm_outgoing f) > 0)"

text \<open>A fragment of a datagram is entered into its slot.\<close>

definition fragment_enter ::
    "time_t \<Rightarrow> frame \<Rightarrow> bool \<Rightarrow> nat \<Rightarrow> int \<Rightarrow> fragment \<Rightarrow> buffer \<Rightarrow> (fragment \<times> buffer) option" where
  "fragment_enter now frame is_last n sz frag0 buf =
     (let (ok, frag1) =
        (if \<not> fg_defined frag0 \<or> fg_max_frag_size frag0 \<noteq> sz
         then (case buf_init (fg_buf frag0) (fr_headroom frame) of
                 (ok, b) \<Rightarrow> (ok, frag0\<lparr>fg_defined := True, fg_max_frag_size := sz,
                                       fg_map := 0, fg_buf := b\<rparr>))
         else (True, frag0))
      in if \<not> ok then None
         else (case buf_copy_range (fg_buf frag1) (int n * sz) buf 0 (b_len buf) of
                 (False, b) \<Rightarrow> Some (frag1\<lparr>fg_buf := b\<rparr>, buf\<lparr>b_len := 0\<rparr>)
               | (True, b) \<Rightarrow>
                   (let frag2 = frag1\<lparr>fg_buf := b,
                      fg_map := fg_map frag1 OR push_bit n (if is_last then FRAG_MAP_MASK else 1),
                      fg_timestamp := now\<rparr>
                    in if fg_map frag2 AND FRAG_MAP_MASK = FRAG_MAP_MASK
                       then Some (frag2\<lparr>fg_defined := False\<rparr>, b)
                       else Some (frag2, buf\<lparr>b_len := 0\<rparr>))))"

definition fragment_incoming_part ::
    "time_t \<Rightarrow> frame \<Rightarrow> u32 \<Rightarrow> fragment_master \<Rightarrow> buffer \<Rightarrow> (fragment_master \<times> buffer) option" where
  "fragment_incoming_part now frame flags f buf =
     (let is_last = (drop_bit FRAG_TYPE_SHIFT flags AND FRAG_TYPE_MASK = FRAG_YES_LAST);
          seq_id = uint (drop_bit FRAG_SEQ_ID_SHIFT flags AND FRAG_SEQ_ID_MASK);
          n = unat (drop_bit FRAG_ID_SHIFT flags AND FRAG_ID_MASK);
          sz = (if is_last
                then uint (push_bit FRAG_SIZE_ROUND_SHIFT
                             (drop_bit FRAG_SIZE_SHIFT flags AND FRAG_SIZE_MASK))
                else b_len buf)
      in case fragment_list_get_buf (fm_incoming f) seq_id of
           None \<Rightarrow> None
         | Some (i, l) \<Rightarrow>
             if sz AND FRAG_SIZE_ROUND_MASK \<noteq> 0
             then Some (f\<lparr>fm_incoming := l\<rparr>, buf\<lparr>b_len := 0\<rparr>)
             else (case fragment_enter now frame is_last n sz (fli_fragments l ! i) buf of
                     None \<Rightarrow> None
                   | Some (frag, b) \<Rightarrow>
                       Some (f\<lparr>fm_incoming := l\<lparr>fli_fragments := (fli_fragments l)[i := frag]\<rparr>\<rparr>, b)))"

definition fragment_incoming ::
    "time_t \<Rightarrow> frame \<Rightarrow> fragment_master \<Rightarrow> buffer \<Rightarrow> (fragment_master \<times> buffer) option" where
  "fragment_incoming now frame f buf =
     (if b_len buf > 0
      then (case buf_read buf 4 of
              (None, b) \<Rightarrow> Some (f, b\<lparr>b_len := 0\<rparr>)
            | (Some bs, b) \<Rightarrow>
                (let flags = u32_of_bytes bs;
                     frag_type = drop_bit FRAG_TYPE_SHIFT flags AND FRAG_TYPE_MASK
                 in if frag_type = FRAG_WHOLE
                    then (if flags AND (FRAG_SEQ_ID_MASK OR FRAG_ID_MASK) \<noteq> 0
                          then Some (f, b\<lparr>b_len := 0\<rparr>) else Some (f, b))
                    else if frag_type = FRAG_YES_NOTLAST \<or> frag_type = FRAG_YES_LAST
                    then fragment_incoming_part now frame flags f b
                    else Some (f, b\<lparr>b_len := 0\<rparr>)))
      else Some (f, buf))"

definition fragment_flags :: "u32 \<Rightarrow> int \<Rightarrow> int \<Rightarrow> int \<Rightarrow> u32" where
  "fragment_flags ftype seq_id frag_id frag_size =
     (let flags = push_bit FRAG_TYPE_SHIFT (ftype AND FRAG_TYPE_MASK)
                  OR push_bit FRAG_SEQ_ID_SHIFT (word_of_int seq_id AND FRAG_SEQ_ID_MASK)
                  OR push_bit FRAG_ID_SHIFT (word_of_int frag_id AND FRAG_ID_MASK)
      in if ftype = FRAG_WHOLE \<or> ftype = FRAG_YES_NOTLAST then flags
         else flags OR push_bit FRAG_SIZE_SHIFT
                (word_of_int (drop_bit FRAG_SIZE_ROUND_SHIFT frag_size) AND FRAG_SIZE_MASK))"

definition fragment_prepend_flags :: "buffer \<Rightarrow> u32 \<Rightarrow> int \<Rightarrow> int \<Rightarrow> int \<Rightarrow> buffer option" where
  "fragment_prepend_flags buf ftype seq_id frag_id frag_size =
     (case buf_write_prepend buf (u32_bytes (fragment_flags ftype seq_id frag_id frag_size)) of
        (True, b) \<Rightarrow> Some b
      | (False, _) \<Rightarrow> None)"

text \<open>A zero divisor is the only failure; C division rounds towards zero.\<close>

definition optimal_fragment_size :: "int \<Rightarrow> int \<Rightarrow> int option" where
  "optimal_fragment_size len max_frag_size =
     (let mfs_aligned = max_frag_size AND NOT FRAG_SIZE_ROUND_MASK
      in if mfs_aligned = 0 then None
         else (let dv = len sdiv mfs_aligned;
                   md = len smod mfs_aligned
               in Some (if dv > 0 \<and> md > 0 \<and> md < mfs_aligned * 3 sdiv 4
                        then min_int mfs_aligned
                               ((max_frag_size - ((max_frag_size - md) sdiv (dv + 1))
                                 + FRAG_SIZE_ROUND_MASK) AND NOT FRAG_SIZE_ROUND_MASK)
                        else mfs_aligned)))"

definition fragment_ready_to_send ::
    "frame \<Rightarrow> fragment_master \<Rightarrow> buffer \<Rightarrow> (bool \<times> fragment_master \<times> buffer) option" where
  "fragment_ready_to_send frame f buf =
     (if \<not> fragment_outgoing_defined f then Some (False, f, buf)
      else
        (let is_last = (b_len (fm_outgoing f) \<le> fm_outgoing_frag_size f);
             sz = (if is_last then b_len (fm_outgoing f) else fm_outgoing_frag_size f)
         in case buf_init (fm_outgoing_return f) (fr_headroom frame) of
              (False, _) \<Rightarrow> None
            | (True, b0) \<Rightarrow>
                (case buf_copy_n b0 (fm_outgoing f) sz of
                   (False, _, _) \<Rightarrow> None
                 | (True, b1, out) \<Rightarrow>
                     (case fragment_prepend_flags b1 (if is_last then FRAG_YES_LAST else FRAG_YES_NOTLAST)
                             (fm_outgoing_seq_id f) (fm_outgoing_frag_id f) (fm_outgoing_frag_size f) of
                        None \<Rightarrow> None
                      | Some b2 \<Rightarrow>
                          if \<not> is_last \<or> b_len out = 0
                          then Some (True, f\<lparr>fm_outgoing := out,
                                             fm_outgoing_frag_id := fm_outgoing_frag_id f + 1\<rparr>, b2)
                          else None))))"

definition fragment_outgoing ::
    "frame \<Rightarrow> fragment_master \<Rightarrow> buffer \<Rightarrow> (fragment_master \<times> buffer) option" where
  "fragment_outgoing frame f buf =
     (if b_len buf > 0
      then if b_len buf > fr_max_fragment_size frame
           then (case optimal_fragment_size (b_len buf) (fr_max_fragment_size frame) of
                   None \<Rightarrow> None
                 | Some fs \<Rightarrow>
                     (let f1 = f\<lparr>fm_outgoing_frag_size := fs\<rparr>
                      in if b_len buf > fs * MAX_FRAGS then Some (f1, buf\<lparr>b_len := 0\<rparr>)
                         else (case buf_init (fm_outgoing f1) (fr_headroom frame) of
                                 (False, _) \<Rightarrow> None
                               | (True, o1) \<Rightarrow>
                                   (case buf_copy o1 buf of
                                      (False, _) \<Rightarrow> None
                                    | (True, o2) \<Rightarrow>
                                        (case modulo_add (fm_outgoing_seq_id f1) 1 N_SEQ_ID of
                                           None \<Rightarrow> None
                                         | Some s \<Rightarrow>
                                             (case fragment_ready_to_send frame
                                                     (f1\<lparr>fm_outgoing := o2, fm_outgoing_seq_id := s,
                                                         fm_outgoing_frag_id := 0\<rparr>)
                                                     (buf\<lparr>b_len := 0\<rparr>) of
                                                Some (True, f2, b) \<Rightarrow> Some (f2, b)
                                              | _ \<Rightarrow> None))))))
           else (case fragment_prepend_flags buf FRAG_WHOLE 0 0 0 of
                   None \<Rightarrow> None
                 | Some b \<Rightarrow> Some (f, b))
      else Some (f, buf))"

definition fragment_ttl_reap :: "time_t \<Rightarrow> fragment_master \<Rightarrow> fragment_master" where
  "fragment_ttl_reap now f =
     f\<lparr>fm_incoming := (fm_incoming f)\<lparr>fli_fragments :=
        map (\<lambda>g. if fg_defined g \<and> fg_timestamp g + FRAG_TTL_SEC \<le> now then g\<lparr>fg_defined := False\<rparr> else g)
          (fli_fragments (fm_incoming f))\<rparr>\<rparr>"

definition fragment_wakeup :: "time_t \<Rightarrow> fragment_master \<Rightarrow> fragment_master" where
  "fragment_wakeup now f = fragment_ttl_reap now f"

definition fragment_housekeeping ::
    "time_t \<Rightarrow> fragment_master \<Rightarrow> timeval option \<Rightarrow> fragment_master \<times> timeval option" where
  "fragment_housekeeping now f tv =
     (case event_timeout_trigger now (fm_wakeup f) tv ETT_DEFAULT of
        (ret, et, tv1) \<Rightarrow>
          (let f1 = f\<lparr>fm_wakeup := et\<rparr> in (if ret then fragment_wakeup now f1 else f1, tv1)))"


section \<open>The fragment header\<close>

lemma field_high: "(w :: u32) AND mask k = w \<Longrightarrow> k \<le> n \<Longrightarrow> \<not> bit w n"
  by (metis bit_and_iff bit_mask_iff not_le)

lemma fragment_header_fields:
  fixes t q i z :: u32
  assumes "t AND mask 2 = t" "q AND mask 8 = q" "i AND mask 5 = i" "z AND mask 14 = z"
  defines "w \<equiv> t OR push_bit 2 q OR push_bit 10 i OR push_bit 15 z"
  shows "w AND mask 2 = t" and "drop_bit 2 w AND mask 8 = q" and "drop_bit 10 w AND mask 5 = i"
    and "drop_bit 15 w AND mask 14 = z"
  by (auto intro!: bit_word_eqI simp: w_def bit_simps field_high [OF assms(1)]
      field_high [OF assms(2)] field_high [OF assms(3)] field_high [OF assms(4)])
    (rule ccontr, simp add: field_high [OF assms(1)] field_high [OF assms(2)]
      field_high [OF assms(3)] field_high [OF assms(4)])+

lemma word_of_int_field: "0 \<le> x \<Longrightarrow> x < 2 ^ k \<Longrightarrow> (word_of_int x :: u32) AND mask k = word_of_int x"
  by (metis take_bit_eq_mask take_bit_int_eq_self take_bit_of_int)

lemma frag_masks:
  "(FRAG_TYPE_MASK :: u32) = mask 2" "(FRAG_SEQ_ID_MASK :: u32) = mask 8"
  "(FRAG_ID_MASK :: u32) = mask 5" "(FRAG_SIZE_MASK :: u32) = mask 14"
  by (simp_all add: frag_consts mask_eq_exp_minus_1)

lemma fragment_flags_decode:
  assumes "ftype = FRAG_YES_NOTLAST \<or> ftype = FRAG_YES_LAST"
    and "0 \<le> q" "q < 256" "0 \<le> i" "i < 32" "0 \<le> sz" "sz < 2 ^ 16" "sz mod 4 = 0"
  defines "w \<equiv> fragment_flags ftype q i sz"
  shows "drop_bit FRAG_TYPE_SHIFT w AND FRAG_TYPE_MASK = ftype"
    and "uint (drop_bit FRAG_SEQ_ID_SHIFT w AND FRAG_SEQ_ID_MASK) = q"
    and "uint (drop_bit FRAG_ID_SHIFT w AND FRAG_ID_MASK) = i"
    and "ftype = FRAG_YES_LAST \<Longrightarrow>
      uint (push_bit FRAG_SIZE_ROUND_SHIFT (drop_bit FRAG_SIZE_SHIFT w AND FRAG_SIZE_MASK)) = sz"
proof -
  define z :: u32 where
    "z = (if ftype = FRAG_YES_LAST then word_of_int (drop_bit 2 sz) else 0)"
  have ft: "ftype AND mask 2 = ftype" "ftype \<noteq> FRAG_WHOLE"
    using assms(1) by (auto simp: frag_consts mask_eq_exp_minus_1)
  have f: "(word_of_int q :: u32) AND mask 8 = word_of_int q" "(word_of_int i :: u32) AND mask 5 = word_of_int i"
    using assms by (auto intro!: word_of_int_field)
  have z: "z AND mask 14 = z"
    using assms(6,7) by (auto simp: z_def drop_bit_eq_div intro!: word_of_int_field)
  have w: "w = ftype OR push_bit 2 (word_of_int q) OR push_bit 10 (word_of_int i) OR push_bit 15 z"
    using ft f z assms(1)
    by (auto simp: w_def fragment_flags_def Let_def frag_masks z_def FRAG_TYPE_SHIFT_def
        FRAG_SEQ_ID_SHIFT_def FRAG_ID_SHIFT_def FRAG_SIZE_SHIFT_def FRAG_SIZE_ROUND_SHIFT_def
        FRAG_YES_LAST_def FRAG_YES_NOTLAST_def or.assoc simp del: push_bit_and)
  note h = fragment_header_fields [OF ft(1) f z, folded w]
  show "drop_bit FRAG_TYPE_SHIFT w AND FRAG_TYPE_MASK = ftype"
    using h(1) by (simp add: frag_masks FRAG_TYPE_SHIFT_def)
  show "uint (drop_bit FRAG_SEQ_ID_SHIFT w AND FRAG_SEQ_ID_MASK) = q"
    using h(2) assms by (simp add: frag_masks FRAG_SEQ_ID_SHIFT_def uint_of_int_small)
  show "uint (drop_bit FRAG_ID_SHIFT w AND FRAG_ID_MASK) = i"
    using h(3) assms by (simp add: frag_masks FRAG_ID_SHIFT_def uint_of_int_small)
  show "uint (push_bit FRAG_SIZE_ROUND_SHIFT (drop_bit FRAG_SIZE_SHIFT w AND FRAG_SIZE_MASK)) = sz"
    if "ftype = FRAG_YES_LAST"
  proof -
    have "sz div 4 * 4 = sz" using assms(8) by presburger
    then have "(word_of_int (sz div 4) :: u32) * 4 = word_of_int sz"
      by (metis of_int_mult of_int_numeral)
    then have "push_bit 2 z = word_of_int sz"
      using that by (simp add: z_def push_bit_eq_mult drop_bit_eq_div)
    then show ?thesis
      using h(4) assms by (simp add: frag_masks FRAG_SIZE_SHIFT_def FRAG_SIZE_ROUND_SHIFT_def uint_of_int_small)
  qed
qed

section \<open>A slot\<close>

text \<open>
  A datagram \<open>D\<close> cut into fragments of \<open>s\<close> bytes: their number, and the bytes of fragment
  \<open>n\<close>. A slot holds the set \<open>S\<close> of its fragments.
\<close>

definition frag_count :: "nat \<Rightarrow> u8 list \<Rightarrow> nat" where
  "frag_count s D = (length D + s - 1) div s"

definition frag_chunk :: "nat \<Rightarrow> u8 list \<Rightarrow> nat \<Rightarrow> u8 list" where
  "frag_chunk s D n = memget D (n * s) s"

definition dgram_ok :: "int \<Rightarrow> nat \<Rightarrow> u8 list \<Rightarrow> bool" where
  "dgram_ok cap s D = (4 \<le> s \<and> s < 2 ^ 16 \<and> s mod 4 = 0 \<and> 0 < length D
     \<and> int (length D) \<le> cap \<and> length D \<le> 32 * s)"

definition has_part :: "int \<Rightarrow> nat \<Rightarrow> u8 list \<Rightarrow> u8 list \<Rightarrow> nat \<Rightarrow> bool" where
  "has_part hr s D m n = (\<forall>j. n * s \<le> j \<longrightarrow> j < (n + 1) * s \<longrightarrow> j < length D \<longrightarrow> m ! (nat hr + j) = D ! j)"

definition part_map :: "nat \<Rightarrow> nat set \<Rightarrow> u32 \<Rightarrow> bool" where
  "part_map k S w = (\<forall>n < 32. bit w n \<longleftrightarrow> (n \<in> S \<or> (k - 1 \<in> S \<and> k - 1 \<le> n)))"

definition slot_holds :: "int \<Rightarrow> int \<Rightarrow> nat \<Rightarrow> u8 list \<Rightarrow> nat set \<Rightarrow> fragment \<Rightarrow> bool" where
  "slot_holds hr cap s D S g =
     (buf_wf (fg_buf g) \<and> 0 \<le> hr \<and> hr + cap \<le> b_capacity (fg_buf g) \<and>
      (if fg_defined g
       then b_offset (fg_buf g) = hr \<and> fg_max_frag_size g = int s \<and> S \<subset> {..<frag_count s D}
         \<and> part_map (frag_count s D) S (fg_map g)
         \<and> b_len (fg_buf g) \<le> int (length D)
         \<and> (frag_count s D - 1 \<in> S \<longrightarrow> b_len (fg_buf g) = int (length D))
         \<and> (\<forall>n \<in> S. has_part hr s D (buf_mem (fg_buf g)) n)
       else S = {}))"

lemma frag_count_bounds:
  assumes "dgram_ok cap s D"
  shows "0 < frag_count s D" "frag_count s D \<le> 32"
    "n < frag_count s D \<longleftrightarrow> n * s < length D"
    "(frag_count s D - 1) * s < length D" "length D \<le> frag_count s D * s"
proof -
  have s: "0 < s" "0 < length D" "length D \<le> 32 * s" using assms by (auto simp: dgram_ok_def)
  have lt: "n < frag_count s D \<longleftrightarrow> n * s < length D" for n
  proof -
    have "n < frag_count s D \<longleftrightarrow> Suc n * s \<le> length D + s - 1"
      unfolding frag_count_def using s(1) by (simp add: Suc_le_eq [symmetric] less_eq_div_iff_mult_less_eq)
    also have "\<dots> \<longleftrightarrow> n * s < length D" using s(1,2) by (cases D) auto
    finally show ?thesis .
  qed
  show "n < frag_count s D \<longleftrightarrow> n * s < length D" by (rule lt)
  show pos: "0 < frag_count s D" using lt [of 0] s by simp
  have "\<not> 32 < frag_count s D" using lt [of 32] s by simp
  then show "frag_count s D \<le> 32" by simp
  show "(frag_count s D - 1) * s < length D" using lt [of "frag_count s D - 1"] pos by simp
  show "length D \<le> frag_count s D * s" using lt [of "frag_count s D"] by simp
qed

lemma length_frag_chunk:
  "length (frag_chunk s D n) = min s (length D - n * s)"
  by (simp add: frag_chunk_def memget_def)

lemma frag_chunk_last:
  assumes "dgram_ok cap s D" and "n < frag_count s D"
  shows "n = frag_count s D - 1 \<longleftrightarrow> length D \<le> (n + 1) * s"
    and "n \<noteq> frag_count s D - 1 \<Longrightarrow> length (frag_chunk s D n) = s"
    and "n * s + length (frag_chunk s D n) \<le> length D"
    and "n = frag_count s D - 1 \<Longrightarrow> n * s + length (frag_chunk s D n) = length D"
    and "0 < length (frag_chunk s D n)"
proof -
  note b = frag_count_bounds [OF assms(1)]
  have n: "n * s < length D" using b(3) assms(2) by simp
  show l: "n = frag_count s D - 1 \<longleftrightarrow> length D \<le> (n + 1) * s"
    using b(1) b(3) [of "n + 1"] assms(2) by auto
  show "n \<noteq> frag_count s D - 1 \<Longrightarrow> length (frag_chunk s D n) = s"
    using l n by (auto simp: length_frag_chunk)
  show "n * s + length (frag_chunk s D n) \<le> length D"
    using n by (auto simp: length_frag_chunk)
  show "n = frag_count s D - 1 \<Longrightarrow> n * s + length (frag_chunk s D n) = length D"
    using l n by (auto simp: length_frag_chunk)
  show "0 < length (frag_chunk s D n)"
    using n assms(1) by (auto simp: length_frag_chunk dgram_ok_def)
qed

lemma nth_frag_chunk:
  "n * s + j < length D \<Longrightarrow> j < s \<Longrightarrow> frag_chunk s D n ! j = D ! (n * s + j)"
  by (simp add: frag_chunk_def memget_def)

lemma frag_map_mask: "FRAG_MAP_MASK = mask 32"
  by (simp add: FRAG_MAP_MASK_def mask_eq_exp_minus_1)

lemma bit_frag_map_mask [simp]: "bit FRAG_MAP_MASK n \<longleftrightarrow> n < 32"
  by (simp add: frag_map_mask bit_simps)

lemma part_map_full:
  assumes "part_map k S w" and "S \<subseteq> {..<k}" and "0 < k" and "k \<le> 32"
  shows "w AND FRAG_MAP_MASK = FRAG_MAP_MASK \<longleftrightarrow> S = {..<k}"
proof -
  have "w AND FRAG_MAP_MASK = FRAG_MAP_MASK \<longleftrightarrow> (\<forall>n < 32. bit w n)"
    by (simp add: bit_eq_iff [of "w AND FRAG_MAP_MASK"] bit_and_iff)
  also have "\<dots> \<longleftrightarrow> S = {..<k}"
  proof
    assume all: "\<forall>n < 32. bit w n"
    have "n \<in> S" if "n < k" for n
    proof -
      have "n \<in> S \<or> (k - 1 \<in> S \<and> k - 1 \<le> n)"
        using all assms(1,4) that by (simp add: part_map_def)
      moreover have "n = k - 1" if "k - 1 \<le> n" using that \<open>n < k\<close> by linarith
      ultimately show ?thesis by blast
    qed
    with assms(2) show "S = {..<k}" by blast
  next
    assume S: "S = {..<k}"
    have "n \<in> S \<or> (k - 1 \<in> S \<and> k - 1 \<le> n)" for n
      using assms(3) unfolding S by (cases "n < k") simp_all
    then show "\<forall>n < 32. bit w n" using assms(1) by (simp add: part_map_def)
  qed
  finally show ?thesis .
qed

lemma part_map_insert:
  assumes "part_map k S w" and "n < k" and "k \<le> 32" and "is_last \<longleftrightarrow> n = k - 1"
  shows "part_map k (insert n S) (w OR push_bit n (if is_last then FRAG_MAP_MASK else 1))"
  using assms by (auto simp: part_map_def bit_simps)

lemma has_parts_all:
  assumes "dgram_ok cap s D" and "\<forall>n \<in> {..<frag_count s D}. has_part hr s D m n"
    and "nat hr + length D \<le> length m"
  shows "memget m (nat hr) (length D) = D"
proof (rule nth_equalityI)
  show "length (memget m (nat hr) (length D)) = length D" using assms(3) by simp
  fix j assume "j < length (memget m (nat hr) (length D))"
  then have j: "j < length D" using assms(3) by simp
  have s: "0 < s" using assms(1) by (simp add: dgram_ok_def)
  have "j div s * s \<le> j" "j < (j div s + 1) * s"
    using s by (simp_all add: dividend_less_div_times)
  moreover from this(1) j have "j div s * s < length D" by linarith
  then have "j div s < frag_count s D"
    by (simp add: frag_count_bounds(3) [OF assms(1)])
  ultimately have "m ! (nat hr + j) = D ! j"
    using assms(2) j by (auto simp: has_part_def)
  then show "memget m (nat hr) (length D) ! j = D ! j"
    using j assms(3) by (simp add: memget_def)
qed

lemma buf_copy_range_fits:
  assumes "buf_wf dst" and "buf_wf src" and "0 \<le> i" and "b_offset dst + i + b_len src \<le> b_capacity dst"
  shows "buf_copy_range dst i src 0 (b_len src) =
    (True, (buf_poke dst (nat (b_offset dst + i)) (buf_bytes src))\<lparr>b_len := max (b_len dst) (i + b_len src)\<rparr>)"
proof -
  note f = buf_wf_facts [OF assms(1)] buf_wf_facts [OF assms(2)]
  have "memget (buf_mem src) (nat (b_offset src)) (nat (b_len src)) = buf_bytes src"
    by (simp add: buf_bytes_def f)
  then show ?thesis
    using assms f
    by (simp add: buf_copy_range_def Let_def max_def) (simp add: buf_poke_def)
qed

lemma poke_wf:
  assumes "buf_wf dst" and "nat (b_offset dst + i) + length bs \<le> nat (b_capacity dst)" and "0 \<le> i"
    and "0 \<le> n" and "b_offset dst + n \<le> b_capacity dst"
  shows "buf_wf ((buf_poke dst (nat (b_offset dst + i)) bs)\<lparr>b_len := n\<rparr>)"
  using assms by (auto simp: buf_wf_def buf_poke_def split: option.splits)

lemma fragment_start:
  assumes "slot_holds hr cap s D S g" and "dgram_ok cap s D" and "fr_headroom fr = hr"
  shows "\<exists>g1. (if \<not> fg_defined g \<or> fg_max_frag_size g \<noteq> int s
         then (case buf_init (fg_buf g) (fr_headroom fr) of
                 (ok, b) \<Rightarrow> (ok, g\<lparr>fg_defined := True, fg_max_frag_size := int s,
                                       fg_map := 0, fg_buf := b\<rparr>))
         else (True, g)) = (True, g1) \<and> fg_defined g1 \<and> slot_holds hr cap s D S g1"
proof (cases "fg_defined g")
  case True
  with assms show ?thesis by (auto simp: slot_holds_def)
next
  case False
  have b: "buf_wf (fg_buf g)" "0 \<le> hr" "hr \<le> b_capacity (fg_buf g)" "S = {}"
    using assms(1,2) False by (auto simp: slot_holds_def dgram_ok_def split: if_splits)
  have "{} \<subset> {..<frag_count s D}" using frag_count_bounds(1) [OF assms(2)] by auto
  with False assms b show ?thesis
    by (auto simp: slot_holds_def buf_init_eq part_map_def intro!: buf_init_wf)
qed

lemma has_part_new:
  assumes "nat hr + length D \<le> length m" and "n * s + length (frag_chunk s D n) \<le> length D"
  shows "has_part hr s D (memput m (nat hr + n * s) (frag_chunk s D n)) n"
  unfolding has_part_def
proof (intro allI impI)
  fix j assume j: "n * s \<le> j" "j < (n + 1) * s" "j < length D"
  have "memput m (nat hr + n * s) (frag_chunk s D n) ! (nat hr + j) = frag_chunk s D n ! (j - n * s)"
    using j assms by (subst nth_memput) (auto simp: length_frag_chunk)
  also have "\<dots> = D ! j"
    using j by (subst nth_frag_chunk) auto
  finally show "memput m (nat hr + n * s) (frag_chunk s D n) ! (nat hr + j) = D ! j" .
qed

lemma has_part_other:
  assumes "has_part hr s D m i" and "i \<noteq> n" and "nat hr + length D \<le> length m"
    and "n * s + length bs \<le> length D" and "length bs \<le> s"
  shows "has_part hr s D (memput m (nat hr + n * s) bs) i"
  unfolding has_part_def
proof (intro allI impI)
  fix j assume j: "i * s \<le> j" "j < (i + 1) * s" "j < length D"
  have "\<not> (n * s \<le> j \<and> j < n * s + length bs)"
  proof (cases "i < n")
    case True
    then have "(i + 1) * s \<le> n * s" by (intro mult_le_mono1) simp
    with j show ?thesis by linarith
  next
    case False
    with assms(2) have "(n + 1) * s \<le> i * s" by (intro mult_le_mono1) simp
    with j assms(5) show ?thesis by (simp add: algebra_simps)
  qed
  then have "memput m (nat hr + n * s) bs ! (nat hr + j) = m ! (nat hr + j)"
    using j assms(3,4) by (subst nth_memput) auto
  with assms(1) j show "memput m (nat hr + n * s) bs ! (nat hr + j) = D ! j"
    by (simp add: has_part_def)
qed

lemma fragment_enter_ok:
  assumes "slot_holds hr cap s D S g" and "dgram_ok cap s D" and "fr_headroom fr = hr"
    and "buf_wf buf" and "buf_bytes buf = frag_chunk s D n" and "n < frag_count s D"
  shows "\<exists>g' b. fragment_enter now fr (n = frag_count s D - 1) n (int s) g buf = Some (g', b)
    \<and> buf_wf b
    \<and> (if insert n S = {..<frag_count s D} then buf_bytes b = D \<and> slot_holds hr cap s D {} g'
       else b_len b = 0 \<and> slot_holds hr cap s D (insert n S) g')"
proof -
  let ?k = "frag_count s D"
  let ?last = "n = ?k - 1"
  obtain g1 where g1: "(if \<not> fg_defined g \<or> fg_max_frag_size g \<noteq> int s
         then (case buf_init (fg_buf g) (fr_headroom fr) of
                 (ok, b) \<Rightarrow> (ok, g\<lparr>fg_defined := True, fg_max_frag_size := int s,
                                       fg_map := 0, fg_buf := b\<rparr>))
         else (True, g)) = (True, g1)" "fg_defined g1" "slot_holds hr cap s D S g1"
    using fragment_start [OF assms(1-3)] by blast
  let ?b = "fg_buf g1"
  note k = frag_count_bounds [OF assms(2)]
  note c = frag_chunk_last [OF assms(2,6)]
  have h: "buf_wf ?b" "0 \<le> hr" "hr + cap \<le> b_capacity ?b" "b_offset ?b = hr"
    "fg_max_frag_size g1 = int s" "S \<subset> {..<?k}" "part_map ?k S (fg_map g1)"
    "b_len ?b \<le> int (length D)" "?k - 1 \<in> S \<longrightarrow> b_len ?b = int (length D)"
    "\<And>i. i \<in> S \<Longrightarrow> has_part hr s D (buf_mem ?b) i"
    using g1(2,3) by (auto simp: slot_holds_def)
  have L: "int (length D) \<le> cap" using assms(2) by (simp add: dgram_ok_def)
  have bl: "b_len buf = int (length (frag_chunk s D n))"
    using length_buf_bytes_int [OF assms(4)] assms(5) by simp
  have fits: "b_offset ?b + int n * int s + b_len buf \<le> b_capacity ?b"
    using c(3) h(3,4) L bl by (simp flip: of_nat_mult of_nat_add)
  let ?e = "max (b_len ?b) (int n * int s + b_len buf)"
  let ?b' = "(buf_poke ?b (nat (b_offset ?b + int n * int s)) (buf_bytes buf))\<lparr>b_len := ?e\<rparr>"
  have copy: "buf_copy_range ?b (int n * int s) buf 0 (b_len buf) = (True, ?b')"
    using buf_copy_range_fits [OF h(1) assms(4) _ fits] by simp
  let ?g = "g1\<lparr>fg_buf := ?b', fg_map := fg_map g1 OR push_bit n (if ?last then FRAG_MAP_MASK else 1),
      fg_timestamp := now\<rparr>"
  have e: "?e \<le> int (length D)" "?k - 1 \<in> insert n S \<longrightarrow> ?e = int (length D)"
    using h(8,9) c(3,4) bl by (auto simp flip: of_nat_mult of_nat_add)
  have mem: "buf_mem ?b' = memput (buf_mem ?b) (nat hr + n * s) (frag_chunk s D n)"
    using h(1,2,4) assms(5)
    by (auto elim!: buf_wfE simp: buf_mem_def buf_poke_def nat_add_distrib nat_mult_distrib)
  have lenm: "length (buf_mem ?b) = nat (b_capacity ?b)"
    using h(1) by (auto elim!: buf_wfE simp: buf_mem_def)
  have room: "nat hr + length D \<le> length (buf_mem ?b)"
    using lenm h(2,3) L by linarith
  have pos: "nat (b_offset ?b + int n * int s) = nat hr + n * s"
    using h(2,4) by (simp add: nat_add_distrib nat_mult_distrib)
  have wf': "buf_wf ?b'"
  proof (rule poke_wf [OF h(1)])
    show "nat (b_offset ?b + int n * int s) + length (buf_bytes buf) \<le> nat (b_capacity ?b)"
      using pos c(3) room lenm assms(5) by simp
    show "0 \<le> int n * int s" "0 \<le> ?e" using buf_wf_facts(4) [OF h(1)] by simp_all
    show "b_offset ?b + ?e \<le> b_capacity ?b" using e(1) L h(3,4) by linarith
  qed
  have parts: "has_part hr s D (buf_mem ?b') i" if "i \<in> insert n S" for i
  proof (cases "i = n")
    case True
    show ?thesis
      unfolding mem True by (intro has_part_new) (use c(3) room in auto)
  next
    case False
    with that h(10) have "has_part hr s D (buf_mem ?b) i" by blast
    then show ?thesis
      unfolding mem by (intro has_part_other) (use False c(3) room in \<open>auto simp: length_frag_chunk\<close>)
  qed
  have map': "part_map ?k (insert n S) (fg_map ?g)"
    using part_map_insert [OF h(7) assms(6) k(2), of ?last] by simp
  have sub: "insert n S \<subseteq> {..<?k}" using h(6) assms(6) by auto
  have full: "fg_map ?g AND FRAG_MAP_MASK = FRAG_MAP_MASK \<longleftrightarrow> insert n S = {..<?k}"
    by (rule part_map_full [OF map' sub k(1,2)])
  have eval: "fragment_enter now fr ?last n (int s) g buf =
      (if insert n S = {..<?k} then Some (?g\<lparr>fg_defined := False\<rparr>, ?b') else Some (?g, buf\<lparr>b_len := 0\<rparr>))"
    unfolding fragment_enter_def g1(1) using copy full by (simp add: Let_def)
  show ?thesis
  proof (cases "insert n S = {..<?k}")
    case True
    have "?e = int (length D)" using e(2) True k(1) by auto
    moreover have "memget (buf_mem ?b') (nat hr) (length D) = D"
      by (rule has_parts_all [OF assms(2)]) (use parts True mem room c(3) in auto)
    ultimately have "buf_bytes ?b' = D"
      using wf' by (simp add: buf_bytes_def buf_wf_facts h(4)) (simp add: buf_poke_def h(4))
    then show ?thesis
      using eval True wf' h(2,3) by (auto simp: slot_holds_def buf_poke_def)
  next
    case False
    then have "slot_holds hr cap s D (insert n S) ?g"
      using wf' h(2,3,4,5) sub map' e parts g1(2) by (auto simp: slot_holds_def buf_poke_def)
    then show ?thesis
      using eval False assms(4) by (auto simp: buf_wf_def split: option.splits)
  qed
qed

section \<open>The window of slots\<close>

text \<open>
  The datagrams are numbered by integers that do not wrap; the sequence number on the wire is
  the number modulo 256. The window reaches from the highest number \<open>hi\<close> down 25 numbers,
  and \<open>H q\<close> is the set of fragments of datagram \<open>q\<close> held by the receiver.
\<close>

definition slot_index :: "fragment_list \<Rightarrow> int \<Rightarrow> int \<Rightarrow> nat" where
  "slot_index l hi q = nat ((fli_index l + (q - hi)) mod 25)"

definition list_inv :: "int \<Rightarrow> int \<Rightarrow> (int \<Rightarrow> nat) \<Rightarrow> (int \<Rightarrow> u8 list) \<Rightarrow> fragment_list \<Rightarrow> int
    \<Rightarrow> (int \<Rightarrow> nat set) \<Rightarrow> bool" where
  "list_inv hr cap s D l hi H =
     (length (fli_fragments l) = 25 \<and> 0 \<le> fli_index l \<and> fli_index l < 25
      \<and> fli_seq_id l = hi mod 256
      \<and> (\<forall>q. hi - 25 < q \<and> q \<le> hi \<longrightarrow>
           slot_holds hr cap (s q) (D q) (H q) (fli_fragments l ! slot_index l hi q)))"

text \<open>The abstract window: what one arriving fragment does to it.\<close>

definition window_move :: "int \<Rightarrow> (int \<Rightarrow> nat set) \<Rightarrow> int \<Rightarrow> int \<times> (int \<Rightarrow> nat set)" where
  "window_move hi H q =
     (if \<bar>q - hi\<bar> \<ge> 25 then (q, \<lambda>_. {})
      else (max hi q, \<lambda>x. if hi < x then {} else H x))"

lemma slot_holds_undefined:
  "slot_holds hr cap s D S g \<Longrightarrow> slot_holds hr cap s' D' {} (g\<lparr>fg_defined := False\<rparr>)"
  by (simp add: slot_holds_def)

lemma slot_index_bound: "slot_index l hi q < 25"
  by (simp add: slot_index_def nat_less_iff)

lemma slot_index_inj:
  assumes "slot_index l hi q = slot_index l hi r" and "\<bar>q - r\<bar> < 25"
  shows "q = r"
proof -
  have "(fli_index l + (q - hi)) mod 25 = (fli_index l + (r - hi)) mod 25"
    using assms(1) by (simp add: slot_index_def nat_eq_iff)
  then have "((fli_index l + (q - hi)) - (fli_index l + (r - hi))) mod 25 = 0"
    by (simp add: mod_eq_dvd_iff dvd_eq_mod_eq_0)
  then have d: "25 dvd (q - r)" by (simp add: dvd_eq_mod_eq_0)
  show ?thesis
  proof (rule ccontr)
    assume "q \<noteq> r"
    then have "\<bar>25 :: int\<bar> \<le> \<bar>q - r\<bar>" by (intro dvd_imp_le_int [OF _ d]) simp
    with assms(2) show False by simp
  qed
qed

lemma modulo_subtract_near:
  assumes "\<bar>q - hi\<bar> \<le> 128"
  shows "\<exists>d. modulo_subtract (q mod 256) (hi mod 256) 256 = Some d
    \<and> (d = q - hi \<or> \<bar>d\<bar> = 128 \<and> \<bar>q - hi\<bar> = 128)"
proof -
  obtain d where d: "modulo_subtract (q mod 256) (hi mod 256) 256 = Some d"
    by (simp add: modulo_subtract_def Let_def)
  have "(q mod 256 - d) mod 256 = hi mod 256" "2 * \<bar>d\<bar> \<le> 256"
    using modulo_subtract_shortest [OF d] by blast+
  then have "((q - d) - hi) mod 256 = 0" and le: "\<bar>d\<bar> \<le> 128"
    by (simp_all add: mod_simps mod_eq_dvd_iff dvd_eq_mod_eq_0 [symmetric])
  then have dvd: "256 dvd (q - d - hi)" by (simp add: dvd_eq_mod_eq_0)
  have "d = q - hi \<or> \<bar>d\<bar> = 128 \<and> \<bar>q - hi\<bar> = 128"
  proof (cases "d = q - hi")
    case False
    then have "\<bar>256 :: int\<bar> \<le> \<bar>q - d - hi\<bar>" by (intro dvd_imp_le_int [OF _ dvd]) simp
    with assms le show ?thesis by linarith
  qed simp
  with d show ?thesis by blast
qed

lemma list_inv_advance1:
  assumes "list_inv hr cap s D l hi H"
  shows "\<exists>l'. fragment_list_advance (Suc 0) l = Some l'
    \<and> list_inv hr cap s D l' (hi + 1) (\<lambda>x. if hi < x then {} else H x)
    \<and> (\<forall>d. fragment_list_advance (Suc d) l = fragment_list_advance d l')"
proof -
  let ?i = "(fli_index l + 1) mod 25"
  let ?l = "l\<lparr>fli_index := ?i, fli_seq_id := (fli_seq_id l + 1) mod 256,
     fli_fragments := (fli_fragments l)[nat ?i := (fli_fragments l ! nat ?i)\<lparr>fg_defined := False\<rparr>]\<rparr>"
  have l: "length (fli_fragments l) = 25" "0 \<le> fli_index l" "fli_index l < 25" "fli_seq_id l = hi mod 256"
    and h: "\<And>q. hi - 25 < q \<Longrightarrow> q \<le> hi \<Longrightarrow>
           slot_holds hr cap (s q) (D q) (H q) (fli_fragments l ! slot_index l hi q)"
    using assms by (auto simp: list_inv_def)
  have step: "fragment_list_advance (Suc d) l = fragment_list_advance d ?l" for d
    using l by (simp add: frag_consts modulo_add_eq)
  have idx: "slot_index ?l (hi + 1) q = slot_index l hi q" for q
    by (simp add: slot_index_def mod_simps)
  have i: "nat ?i = slot_index l hi (hi + 1)" by (simp add: slot_index_def)
  have i': "nat ?i = slot_index l hi (hi - 24)"
    using mod_add_self2 [of "fli_index l - 24" 25] by (simp add: slot_index_def add.commute)
  have "slot_holds hr cap (s q) (D q) (if hi < q then {} else H q)
      (fli_fragments ?l ! slot_index ?l (hi + 1) q)"
    if "hi + 1 - 25 < q" "q \<le> hi + 1" for q
  proof (cases "q = hi + 1")
    case True
    have "slot_holds hr cap (s q) (D q) {} ((fli_fragments l ! nat ?i)\<lparr>fg_defined := False\<rparr>)"
      using h [of "hi - 24"] i' by (auto intro: slot_holds_undefined)
    moreover have "slot_index ?l (hi + 1) (hi + 1) = nat ?i" by (rule trans [OF idx i [symmetric]])
    moreover have "nat ?i < 25" by (simp only: i slot_index_bound)
    ultimately show ?thesis
      using l(1) True by simp
  next
    case False
    then have "slot_index l hi q \<noteq> nat ?i"
      using slot_index_inj [of l hi q "hi + 1"] that i by auto
    with False that h [of q] show ?thesis by (simp add: idx)
  qed
  then have "list_inv hr cap s D ?l (hi + 1) (\<lambda>x. if hi < x then {} else H x)"
    using l by (simp add: list_inv_def mod_simps)
  with step show ?thesis by auto
qed

lemma list_inv_advance:
  "list_inv hr cap s D l hi H \<Longrightarrow>
   \<exists>l'. fragment_list_advance d l = Some l'
     \<and> list_inv hr cap s D l' (hi + int d) (\<lambda>x. if hi < x then {} else H x)"
proof (induction d arbitrary: l hi H)
  case 0
  then show ?case by (auto simp: list_inv_def)
next
  case (Suc d)
  obtain l' where l': "list_inv hr cap s D l' (hi + 1) (\<lambda>x. if hi < x then {} else H x)"
    "\<And>d. fragment_list_advance (Suc d) l = fragment_list_advance d l'"
    using list_inv_advance1 [OF Suc.prems] by blast
  from Suc.IH [OF l'(1)] obtain l'' where l'':
    "fragment_list_advance d l' = Some l''"
    "list_inv hr cap s D l'' (hi + 1 + int d)
       (\<lambda>x. if hi + 1 < x then {} else if hi < x then {} else H x)" by blast
  have "(\<lambda>x. if hi + 1 < x then {} else if hi < x then {} else H x) = (\<lambda>x. if hi < x then {} else H x)"
    by (auto simp: fun_eq_iff)
  with l'' l'(2) [of d] show ?case by (simp add: add_ac)
qed

lemma fragment_list_get_buf_ok:
  assumes "list_inv hr cap s D l hi H" and "\<bar>q - hi\<bar> \<le> 128"
  shows "\<exists>i l' hi' H'. fragment_list_get_buf l (q mod 256) = Some (i, l')
    \<and> window_move hi H q = (hi', H') \<and> list_inv hr cap s D l' hi' H'
    \<and> i = slot_index l' hi' q \<and> hi' - 25 < q \<and> q \<le> hi'"
proof -
  have l: "fli_seq_id l = hi mod 256" "0 \<le> fli_index l" "fli_index l < 25"
    using assms(1) by (auto simp: list_inv_def)
  obtain d where ms: "modulo_subtract (q mod 256) (fli_seq_id l) N_SEQ_ID = Some d"
    and d: "d = q - hi \<or> \<bar>d\<bar> = 128 \<and> \<bar>q - hi\<bar> = 128"
    using modulo_subtract_near [OF assms(2)] l by (auto simp: N_SEQ_ID_def)
  consider (far) "\<bar>q - hi\<bar> \<ge> 25" | (new) "hi < q" "q < hi + 25" | (old) "q \<le> hi" "hi - 25 < q"
    by linarith
  then show ?thesis
  proof cases
    case far
    let ?l = "l\<lparr>fli_fragments := map (\<lambda>g. g\<lparr>fg_defined := False\<rparr>) (fli_fragments l),
                         fli_index := 0, fli_seq_id := q mod 256\<rparr>"
    have "slot_holds hr cap (s r) (D r) {} (fli_fragments ?l ! slot_index ?l q r)" for r
    proof -
      let ?i = "slot_index ?l q r"
      let ?r = "hi - (fli_index l - int ?i) mod 25"
      have i: "?i < 25" by (rule slot_index_bound)
      have "slot_index l hi ?r = ?i"
        using i by (simp add: slot_index_def mod_simps)
      moreover have "hi - 25 < ?r" "?r \<le> hi" by simp_all
      ultimately have "slot_holds hr cap (s ?r) (D ?r) (H ?r) (fli_fragments l ! ?i)"
        using assms(1) unfolding list_inv_def by metis
      from slot_holds_undefined [OF this] show ?thesis
        using i assms(1) by (simp add: list_inv_def)
    qed
    then have "list_inv hr cap s D ?l q (\<lambda>_. {})"
      using assms(1) by (simp add: list_inv_def)
    moreover have "\<bar>d\<bar> \<ge> 25" using far d by auto
    ultimately show ?thesis
      using far by (simp add: fragment_list_get_buf_def ms Let_def window_move_def N_FRAG_BUF_def
          modulo_add_eq slot_index_def)
  next
    case new
    obtain l' where l': "fragment_list_advance (nat (q - hi)) l = Some l'"
      "list_inv hr cap s D l' q (\<lambda>x. if hi < x then {} else H x)"
      using list_inv_advance [OF assms(1), of "nat (q - hi)"] new by auto
    moreover have "0 \<le> fli_index l'" "fli_index l' < 25" using l'(2) by (auto simp: list_inv_def)
    moreover have "d = q - hi" using new d by auto
    ultimately show ?thesis
      using new by (simp add: fragment_list_get_buf_def ms Let_def window_move_def N_FRAG_BUF_def
          modulo_add_eq slot_index_def max_def)
  next
    case old
    have "list_inv hr cap s D l hi (\<lambda>x. if hi < x then {} else H x)"
      using assms(1) by (auto simp: list_inv_def)
    moreover have "d = q - hi" using old d by auto
    ultimately show ?thesis
      using old l(2,3)
      by (simp add: fragment_list_get_buf_def ms Let_def window_move_def N_FRAG_BUF_def
          modulo_add_eq slot_index_def max_def)
  qed
qed

definition window_take :: "(int \<Rightarrow> nat) \<Rightarrow> (int \<Rightarrow> u8 list) \<Rightarrow> int \<Rightarrow> (int \<Rightarrow> nat set) \<Rightarrow> int \<Rightarrow> nat
    \<Rightarrow> int \<times> (int \<Rightarrow> nat set) \<times> bool" where
  "window_take s D hi H q n =
     (case window_move hi H q of
        (hi', H') \<Rightarrow>
          (let S = insert n (H' q)
           in if S = {..<frag_count (s q) (D q)} then (hi', H'(q := {}), True)
              else (hi', H'(q := S), False)))"

text \<open>The packet that carries fragment \<open>n\<close> of datagram \<open>q\<close>.\<close>

definition frag_wire :: "(int \<Rightarrow> nat) \<Rightarrow> (int \<Rightarrow> u8 list) \<Rightarrow> int \<Rightarrow> nat \<Rightarrow> u8 list" where
  "frag_wire s D q n =
     u32_bytes (fragment_flags (if n = frag_count (s q) (D q) - 1 then FRAG_YES_LAST else FRAG_YES_NOTLAST)
                  (q mod 256) (int n) (int (s q)))
     @ frag_chunk (s q) (D q) n"

lemma int_and_round_mask: "x AND FRAG_SIZE_ROUND_MASK = x mod 4"
proof -
  have "FRAG_SIZE_ROUND_MASK = mask 2"
    by (simp add: FRAG_SIZE_ROUND_MASK_def FRAG_SIZE_ROUND_SHIFT_def mask_eq_exp_minus_1 push_bit_eq_mult)
  then have "x AND FRAG_SIZE_ROUND_MASK = take_bit 2 x" by (simp only: take_bit_eq_mask)
  then show ?thesis by (simp add: take_bit_eq_mod)
qed

lemma fragment_incoming_ok:
  assumes inv: "list_inv hr cap s D (fm_incoming f) hi H" and near: "\<bar>q - hi\<bar> \<le> 128"
    and ok: "dgram_ok cap (s q) (D q)" and n: "n < frag_count (s q) (D q)"
    and fr: "fr_headroom fr = hr" and buf: "buf_wf buf" "buf_bytes buf = frag_wire s D q n"
  shows "\<exists>l' b. fragment_incoming now fr f buf = Some (f\<lparr>fm_incoming := l'\<rparr>, b) \<and> buf_wf b
    \<and> (case window_take s D hi H q n of (hi', H', full) \<Rightarrow>
         list_inv hr cap s D l' hi' H' \<and> (if full then buf_bytes b = D q else b_len b = 0))"
proof -
  let ?k = "frag_count (s q) (D q)"
  define L where "L \<longleftrightarrow> n = ?k - 1"
  define t where "t = (if L then FRAG_YES_LAST else FRAG_YES_NOTLAST)"
  define w where "w = fragment_flags t (q mod 256) (int n) (int (s q))"
  have wire: "frag_wire s D q n = u32_bytes w @ frag_chunk (s q) (D q) n"
    by (simp add: frag_wire_def w_def t_def L_def)
  have s: "int (s q) < 2 ^ 16" "int (s q) mod 4 = 0" "4 \<le> s q"
    using ok by (auto simp: dgram_ok_def)
  have n32: "int n < 32" using n frag_count_bounds(2) [OF ok] by simp
  note dec = fragment_flags_decode [of t "q mod 256" "int n" "int (s q)", folded w_def]
  have d: "drop_bit FRAG_TYPE_SHIFT w AND FRAG_TYPE_MASK = t"
    "uint (drop_bit FRAG_SEQ_ID_SHIFT w AND FRAG_SEQ_ID_MASK) = q mod 256"
    "unat (drop_bit FRAG_ID_SHIFT w AND FRAG_ID_MASK) = n"
    "L \<Longrightarrow> uint (push_bit FRAG_SIZE_ROUND_SHIFT (drop_bit FRAG_SIZE_SHIFT w AND FRAG_SIZE_MASK)) = int (s q)"
    using dec s n32 by (auto simp: unat_eq_nat_uint t_def)
  have t: "t \<noteq> FRAG_WHOLE" "t = FRAG_YES_NOTLAST \<or> t = FRAG_YES_LAST" "t = FRAG_YES_LAST \<longleftrightarrow> L"
    by (auto simp: frag_consts t_def)
  define b where "b = buf_skip buf 4"
  have len: "b_len buf = 4 + int (length (frag_chunk (s q) (D q) n))"
    using length_buf_bytes_int [OF buf(1)] buf(2) by (simp add: wire)
  have rd: "buf_read buf 4 = (Some (u32_bytes w), b)"
    using buf len by (simp add: buf_read_eq wire b_def)
  have b: "buf_wf b" "buf_bytes b = frag_chunk (s q) (D q) n"
    using buf len by (auto simp: buf_skip_wf buf_skip_bytes wire b_def)
  have sz: "\<not> L \<Longrightarrow> b_len b = int (s q)"
    using frag_chunk_last(2) [OF ok n] len by (simp add: L_def b_def)
  obtain i l' hi' H' where gb: "fragment_list_get_buf (fm_incoming f) (q mod 256) = Some (i, l')"
    "window_move hi H q = (hi', H')" "list_inv hr cap s D l' hi' H'" "i = slot_index l' hi' q"
    "hi' - 25 < q" "q \<le> hi'"
    using fragment_list_get_buf_ok [OF inv near] by blast
  let ?g = "fli_fragments l' ! i"
  have slot: "slot_holds hr cap (s q) (D q) (H' q) ?g"
    using gb(3-6) by (simp add: list_inv_def)
  from fragment_enter_ok [OF slot ok fr b n, folded L_def] obtain g' b' where
    en: "fragment_enter now fr L n (int (s q)) ?g b = Some (g', b')" "buf_wf b'"
    and res: "if insert n (H' q) = {..<?k} then buf_bytes b' = D q \<and> slot_holds hr cap (s q) (D q) {} g'
       else b_len b' = 0 \<and> slot_holds hr cap (s q) (D q) (insert n (H' q)) g'" by blast
  let ?l = "l'\<lparr>fli_fragments := (fli_fragments l')[i := g']\<rparr>"
  have part: "fragment_incoming_part now fr w f b = Some (f\<lparr>fm_incoming := ?l\<rparr>, b')"
    using gb(1) en(1) sz s(2)
    by (cases L) (simp_all add: fragment_incoming_part_def Let_def d t(3) int_and_round_mask del: push_bit_and)
  have run: "fragment_incoming now fr f buf = Some (f\<lparr>fm_incoming := ?l\<rparr>, b')"
    using len rd part t by (simp add: fragment_incoming_def Let_def d(1))
  have upd: "list_inv hr cap s D ?l hi' (H'(q := S))" if "slot_holds hr cap (s q) (D q) S g'" for S
  proof -
    have "slot_holds hr cap (s r) (D r) ((H'(q := S)) r) (fli_fragments ?l ! slot_index ?l hi' r)"
      if r: "hi' - 25 < r" "r \<le> hi'" for r
    proof (cases "r = q")
      case True
      then show ?thesis
        using \<open>slot_holds hr cap (s q) (D q) S g'\<close> gb(3,4) slot_index_bound [of l' hi' q]
        by (simp add: slot_index_def list_inv_def)
    next
      case False
      moreover have "\<bar>r - q\<bar> < 25" using r gb(5,6) by linarith
      ultimately have "slot_index l' hi' r \<noteq> i"
        using slot_index_inj [of l' hi' r q] gb(4) by auto
      with False r gb(3) show ?thesis by (simp add: slot_index_def list_inv_def)
    qed
    then show ?thesis using gb(3) by (simp add: list_inv_def)
  qed
  show ?thesis
    using run en(2) res upd by (auto simp: window_take_def gb(2) Let_def split: if_splits)
qed

section \<open>Runs of the receiver\<close>

text \<open>The datagrams (or nothing) that a list of incoming packets leaves in the buffers.\<close>

fun fragment_receive_all :: "time_t \<Rightarrow> frame \<Rightarrow> fragment_master \<Rightarrow> buffer list
    \<Rightarrow> (fragment_master \<times> u8 list list) option" where
  "fragment_receive_all now fr f [] = Some (f, [])"
| "fragment_receive_all now fr f (b # bs) =
     (case fragment_incoming now fr f b of
        None \<Rightarrow> None
      | Some (f', b') \<Rightarrow>
          (case fragment_receive_all now fr f' bs of
             None \<Rightarrow> None
           | Some (f'', outs) \<Rightarrow> Some (f'', buf_bytes b' # outs)))"

definition carries :: "(int \<Rightarrow> nat) \<Rightarrow> (int \<Rightarrow> u8 list) \<Rightarrow> int \<Rightarrow> buffer \<Rightarrow> int \<times> nat \<Rightarrow> bool" where
  "carries s D cap b x = (dgram_ok cap (s (fst x)) (D (fst x)) \<and> snd x < frag_count (s (fst x)) (D (fst x))
     \<and> buf_wf b \<and> buf_bytes b = frag_wire s D (fst x) (snd x))"

lemma buf_bytes_empty: "buf_wf b \<Longrightarrow> b_len b = 0 \<Longrightarrow> buf_bytes b = []"
  by (simp add: length_buf_bytes flip: length_0_conv)

lemma fragment_receive_step:
  assumes inv: "list_inv hr cap s D (fm_incoming f) hi H" and "\<bar>fst x - hi\<bar> \<le> 128"
    and "carries s D cap b x" and "fr_headroom fr = hr"
  obtains f' b' hi' H' full where "fragment_incoming now fr f b = Some (f', b')" "buf_wf b'"
    "window_take s D hi H (fst x) (snd x) = (hi', H', full)" "list_inv hr cap s D (fm_incoming f') hi' H'"
    "buf_bytes b' = (if full then D (fst x) else [])"
proof -
  obtain hi' H' full where w: "window_take s D hi H (fst x) (snd x) = (hi', H', full)"
    by (metis prod_cases3)
  from fragment_incoming_ok [OF inv assms(2)] assms(3,4) w
  obtain l' b' where "fragment_incoming now fr f b = Some (f\<lparr>fm_incoming := l'\<rparr>, b')" "buf_wf b'"
    "list_inv hr cap s D l' hi' H'" "if full then buf_bytes b' = D (fst x) else b_len b' = 0"
    unfolding carries_def by fastforce
  with w show thesis
    by (intro that [of "f\<lparr>fm_incoming := l'\<rparr>" b' hi' H' full]) (auto simp: buf_bytes_empty)
qed

lemma window_take_hi: "window_take s D hi H q n = (hi', H', full) \<Longrightarrow> hi' = hi \<or> hi' = q"
  by (auto simp: window_take_def window_move_def Let_def max_def split: if_splits)

lemma fragment_receive_outputs:
  assumes "list_inv hr cap s D (fm_incoming f) hi H" and "list_all2 (carries s D cap) bs xs"
    and "fr_headroom fr = hr" and "lo \<le> hi" "hi \<le> lo + 128"
    and "\<forall>x \<in> set xs. lo \<le> fst x \<and> fst x \<le> lo + 128"
  shows "\<exists>f' outs. fragment_receive_all now fr f bs = Some (f', outs)
    \<and> list_all2 (\<lambda>out x. out = [] \<or> out = D (fst x)) outs xs"
  using assms(2,1,4-6)
proof (induction bs xs arbitrary: f hi H rule: list_all2_induct)
  case (Cons b bs x xs)
  have near: "\<bar>fst x - hi\<bar> \<le> 128" using Cons.prems(2-4) by (auto simp: abs_le_iff)
  obtain f' b' hi' H' full where st: "fragment_incoming now fr f b = Some (f', b')"
    "window_take s D hi H (fst x) (snd x) = (hi', H', full)" "list_inv hr cap s D (fm_incoming f') hi' H'"
    "buf_bytes b' = (if full then D (fst x) else [])"
    using fragment_receive_step [OF Cons.prems(1) near Cons.hyps(1) assms(3)] by metis
  have "lo \<le> hi'" "hi' \<le> lo + 128"
    using window_take_hi [OF st(2)] Cons.prems(2-4) by auto
  with Cons.IH [OF st(3)] Cons.prems(4) obtain f'' outs where
    "fragment_receive_all now fr f' bs = Some (f'', outs)"
    "list_all2 (\<lambda>out x. out = [] \<or> out = D (fst x)) outs xs" by auto
  with st show ?case by auto
qed simp

text \<open>The fragments of one datagram, each once, in any order.\<close>

lemma fragment_receive_one:
  assumes "list_inv hr cap s D (fm_incoming f) hi H" and "list_all2 (carries s D cap) bs (map (Pair q) ns)"
    and "fr_headroom fr = hr" and "\<bar>q - hi\<bar> \<le> 128"
    and "distinct ns" and "snd (window_move hi H q) q \<inter> set ns = {}"
    and "snd (window_move hi H q) q \<union> set ns = {..<frag_count (s q) (D q)}" and "ns \<noteq> []"
  shows "\<exists>f'. fragment_receive_all now fr f bs = Some (f', replicate (length ns - 1) [] @ [D q])"
  using assms(1,2,4-8)
proof (induction ns arbitrary: f hi H bs)
  case (Cons n ns)
  obtain b bs' where bs: "bs = b # bs'" "carries s D cap b (q, n)"
    "list_all2 (carries s D cap) bs' (map (Pair q) ns)"
    using Cons.prems(2) by (auto simp: list_all2_Cons2)
  obtain f' b' hi' H' full where st: "fragment_incoming now fr f b = Some (f', b')"
    "window_take s D hi H q n = (hi', H', full)" "list_inv hr cap s D (fm_incoming f') hi' H'"
    "buf_bytes b' = (if full then D q else [])"
    using fragment_receive_step [OF Cons.prems(1) _ bs(2) assms(3)] Cons.prems(3) by (metis fst_conv snd_conv)
  let ?S = "snd (window_move hi H q) q"
  let ?all = "{..<frag_count (s q) (D q)}"
  have full: "full \<longleftrightarrow> insert n ?S = ?all"
    using st(2) by (auto simp: window_take_def Let_def split: prod.splits if_splits)
  show ?case
  proof (cases "ns = []")
    case True
    with Cons.prems(6) full st bs show ?thesis by auto
  next
    case False
    then obtain m where "m \<in> set ns" by (cases ns) auto
    then have "m \<notin> insert n ?S" using Cons.prems(4,5) by auto
    moreover have "m \<in> ?all" using \<open>m \<in> set ns\<close> unfolding Cons.prems(6) [symmetric] by simp
    ultimately have nd: "insert n ?S \<noteq> ?all" by blast
    with full have "\<not> full" by simp
    have H': "H' q = insert n ?S" "hi' = fst (window_move hi H q)"
      using st(2) nd by (auto simp: window_take_def Let_def split: prod.splits if_splits)
    have near: "\<bar>q - hi'\<bar> < 25" and move: "window_move hi' H' q = (hi', \<lambda>x. if hi' < x then {} else H' x)"
      using H'(2) by (auto simp: window_move_def max_def split: if_splits)
    have "q \<le> hi'" using H'(2) by (auto simp: window_move_def split: if_splits)
    with move H'(1) have S': "snd (window_move hi' H' q) q = insert n ?S" by simp
    have "\<exists>f''. fragment_receive_all now fr f' bs' = Some (f'', replicate (length ns - 1) [] @ [D q])"
      by (rule Cons.IH [OF st(3) bs(3)]) (use near Cons.prems(4-6) S' False in auto)
    moreover have "replicate (length ns) [] = [] # replicate (length ns - 1) ([] :: u8 list)"
      using False by (cases ns) auto
    ultimately show ?thesis
      using st(1,4) bs(1) \<open>\<not> full\<close> by auto
  qed
qed simp

section \<open>The sender\<close>

lemma round_down: "x AND NOT FRAG_SIZE_ROUND_MASK = x div 4 * 4"
proof -
  have "FRAG_SIZE_ROUND_MASK = mask 2"
    by (simp add: FRAG_SIZE_ROUND_MASK_def FRAG_SIZE_ROUND_SHIFT_def mask_eq_exp_minus_1 push_bit_eq_mult)
  moreover have "x AND NOT (mask 2) = push_bit 2 (drop_bit 2 x)"
    by (rule bit_eqI) (auto simp: bit_simps le_Suc_ex simp del: add_2_eq_Suc dest!: le_Suc_ex)
  ultimately show ?thesis by (simp add: push_bit_eq_mult drop_bit_eq_div)
qed

lemma sdiv_nonneg: "0 \<le> a \<Longrightarrow> 0 < b \<Longrightarrow> a sdiv b = a div (b :: int)"
  by (cases "a = 0") (simp_all add: signed_divide_int_def)

lemma smod_nonneg: "0 \<le> a \<Longrightarrow> 0 < b \<Longrightarrow> a smod b = a mod (b :: int)"
  by (cases "a = 0") (simp_all add: signed_modulo_int_def)

lemma ceil_div:
  assumes "0 < f" and "c * f < len" and "len \<le> (c + 1) * f"
  shows "(len + f - 1) div f = (c + 1 :: int)"
  by (rule int_div_pos_eq [of _ _ _ "len - 1 - c * f"]) (use assms in \<open>auto simp: algebra_simps\<close>)

lemma optimal_fragment_size_ok:
  assumes "4 \<le> mx" and "mx < len"
  shows "\<exists>fs. optimal_fragment_size len mx = Some fs \<and> fs mod 4 = 0 \<and> 4 \<le> fs \<and> fs \<le> mx
    \<and> (len + fs - 1) div fs = (len + mx div 4 * 4 - 1) div (mx div 4 * 4)"
proof -
  define a where "a = mx div 4 * 4"
  have a: "a mod 4 = 0" "4 \<le> a" "a \<le> mx"
    using assms by (simp_all add: a_def)
  define dv md where "dv = len div a" and "md = len mod a"
  have len: "len = dv * a + md" "0 \<le> md" "md < a" "0 < dv"
    using a assms by (simp_all add: dv_def md_def pos_imp_zdiv_pos_iff)
  define e where "e = (mx - md) div (dv + 1)"
  define opt where "opt = (mx - e + 3) div 4 * 4"
  define fs where "fs = (if md > 0 \<and> md < a * 3 div 4 then min a opt else a)"
  have "(mx - md) sdiv (dv + 1) = e" using a(3) len by (simp add: sdiv_nonneg e_def)
  moreover have "a * 3 sdiv 4 = a * 3 div 4" "len sdiv a = dv" "len smod a = md"
    using a(2) assms by (simp_all add: sdiv_nonneg smod_nonneg dv_def md_def)
  moreover have "(mx - e + FRAG_SIZE_ROUND_MASK) div 4 * 4 = opt"
    by (simp add: opt_def FRAG_SIZE_ROUND_MASK_def FRAG_SIZE_ROUND_SHIFT_def push_bit_eq_mult)
  ultimately have eval: "optimal_fragment_size len mx = Some fs"
    using a len(4) by (simp add: optimal_fragment_size_def Let_def round_down a_def [symmetric] fs_def
        min_int_def min_def)
  have opt: "mx - e \<le> opt" "opt mod 4 = 0" unfolding opt_def by simp_all
  have "(dv + 1) * ((mx - md) div (dv + 1)) + (mx - md) mod (dv + 1) = mx - md"
    by (rule mult_div_mod_eq)
  moreover have "0 \<le> (mx - md) mod (dv + 1)" using len(4) by simp
  ultimately have "(dv + 1) * e \<le> mx - md" unfolding e_def by linarith
  moreover have "(dv + 1) * (mx - e) \<le> (dv + 1) * opt"
    using opt(1) len(4) by (intro mult_left_mono) auto
  moreover have "dv * a \<le> dv * mx" using a(3) len(4) by (intro mult_left_mono) auto
  ultimately have "len \<le> (dv + 1) * opt" using len(1) by (simp add: algebra_simps)
  moreover have "len \<le> (dv + 1) * a" using len by (simp add: algebra_simps)
  ultimately have up: "len \<le> (dv + 1) * fs" by (auto simp: fs_def min_def)
  have fs4: "fs mod 4 = 0" "fs \<le> a" using a(1) opt(2) by (auto simp: fs_def min_def)
  have "0 < len" using assms by simp
  with up len(4) have "0 < fs" by (smt (verit) mult_nonneg_nonpos)
  with fs4(1) have "4 \<le> fs" by presburger
  moreover have "(len + fs - 1) div fs = (len + a - 1) div a"
  proof (cases "md > 0")
    case True
    have "dv * fs \<le> dv * a" using fs4(2) len(4) by (intro mult_left_mono) auto
    with True len(1) have "dv * fs < len" by linarith
    with True up len \<open>0 < fs\<close> a(2) show ?thesis
      by (subst (1 2) ceil_div [of _ dv]) (auto simp: algebra_simps)
  qed (simp add: fs_def)
  ultimately show ?thesis using eval a(3) fs4 by (auto simp: a_def)
qed

text \<open>The sender about to send fragment \<open>n\<close>.\<close>

definition snd_state :: "int \<Rightarrow> (int \<Rightarrow> nat) \<Rightarrow> (int \<Rightarrow> u8 list) \<Rightarrow> int \<Rightarrow> nat \<Rightarrow> fragment_master \<Rightarrow> bool" where
  "snd_state hr s D q n f =
     (buf_wf (fm_outgoing f) \<and> buf_bytes (fm_outgoing f) = drop (n * s q) (D q)
      \<and> fm_outgoing_frag_size f = int (s q) \<and> fm_outgoing_seq_id f = q mod 256
      \<and> fm_outgoing_frag_id f = int n \<and> buf_wf (fm_outgoing_return f)
      \<and> 4 \<le> hr \<and> hr + int (s q) \<le> b_capacity (fm_outgoing_return f))"

lemma fragment_ready_to_send_ok:
  assumes st: "snd_state hr s D q n f" and ok: "dgram_ok cap (s q) (D q)" and fr: "fr_headroom fr = hr"
  shows "if n < frag_count (s q) (D q)
    then \<exists>f' b. fragment_ready_to_send fr f buf = Some (True, f', b) \<and> snd_state hr s D q (Suc n) f'
           \<and> buf_wf b \<and> buf_bytes b = frag_wire s D q n
    else fragment_ready_to_send fr f buf = Some (False, f, buf)"
proof -
  let ?k = "frag_count (s q) (D q)"
  let ?out = "fm_outgoing f"
  let ?ret = "fm_outgoing_return f"
  have o: "buf_wf ?out" "buf_bytes ?out = drop (n * s q) (D q)" "fm_outgoing_frag_size f = int (s q)"
    "fm_outgoing_seq_id f = q mod 256" "fm_outgoing_frag_id f = int n" "buf_wf ?ret" "4 \<le> hr"
    "hr + int (s q) \<le> b_capacity ?ret"
    using st by (auto simp: snd_state_def)
  have len: "b_len ?out = int (length (D q) - n * s q)"
    using length_buf_bytes_int [OF o(1)] o(2) by simp
  show ?thesis
  proof (cases "n < ?k")
    case False
    then have "\<not> n * s q < length (D q)" using frag_count_bounds(3) [OF ok] by blast
    with False len show ?thesis by (simp add: fragment_ready_to_send_def fragment_outgoing_defined_def)
  next
    case True
    define L where "L \<longleftrightarrow> n = ?k - 1"
    let ?c = "frag_chunk (s q) (D q) n"
    have nl: "n * s q < length (D q)" using True frag_count_bounds(3) [OF ok] by blast
    have L: "b_len ?out \<le> int (s q) \<longleftrightarrow> L"
      unfolding len of_nat_le_iff L_def frag_chunk_last(1) [OF ok True]
      by (simp add: le_diff_conv)
    define sz where "sz = (if L then b_len ?out else int (s q))"
    have L': "length (D q) - n * s q \<le> s q \<longleftrightarrow> L"
      unfolding L_def frag_chunk_last(1) [OF ok True] by (simp add: le_diff_conv)
    then have c: "length ?c = (if L then length (D q) - n * s q else s q)"
      "length ?c \<le> length (D q) - n * s q" "length ?c \<le> s q"
      by (auto simp: length_frag_chunk)
    then have "sz = int (length ?c)" unfolding sz_def len by simp
    moreover have "int (length ?c) \<le> b_len ?out" unfolding len of_nat_le_iff by (rule c(2))
    ultimately have sz: "sz = int (length ?c)" "0 \<le> sz" "sz \<le> b_len ?out" "sz \<le> int (s q)"
      using c(3) by simp_all
    let ?b0 = "?ret\<lparr>b_len := 0, b_offset := hr\<rparr>"
    have b0: "buf_init ?ret hr = (True, ?b0)" "buf_wf ?b0" "buf_bytes ?b0 = []" "buf_tailroom ?b0 = b_capacity ?ret - hr"
      using o(6,7,8) by (auto simp: buf_init_eq buf_init_wf buf_init_bytes buf_tailroom_def)
    have cp: "take (nat sz) (buf_bytes ?out) = ?c"
      using sz(1) o(2) by (simp add: frag_chunk_def memget_def) (metis length_drop take_all_iff min_def nat_le_linear)
    have copy: "buf_copy_n ?b0 ?out sz = (True, buf_push ?b0 ?c, buf_skip ?out (nat sz))"
      unfolding cp [symmetric] by (rule buf_copy_n_eq) (use b0 o(1,8) sz in auto)
    have p: "buf_wf (buf_push ?b0 ?c)" "buf_bytes (buf_push ?b0 ?c) = ?c" "b_offset (buf_push ?b0 ?c) = hr"
      using b0 o(8) sz by (auto simp: buf_push_wf buf_push_bytes)
    let ?w = "u32_bytes (fragment_flags (if L then FRAG_YES_LAST else FRAG_YES_NOTLAST) (q mod 256) (int n) (int (s q)))"
    have pre: "fragment_prepend_flags (buf_push ?b0 ?c) (if L then FRAG_YES_LAST else FRAG_YES_NOTLAST)
        (q mod 256) (int n) (int (s q)) = Some (buf_unshift (buf_push ?b0 ?c) ?w)"
      using p(1,3) o(7) by (simp add: fragment_prepend_flags_def buf_write_prepend_eq)
    let ?f = "f\<lparr>fm_outgoing := buf_skip ?out (nat sz), fm_outgoing_frag_id := int n + 1\<rparr>"
    have posn: "0 < b_len ?out" unfolding len of_nat_0_less_iff using nl by simp
    have fin: "\<not> L \<or> b_len (buf_skip ?out (nat sz)) = 0" using sz(2) by (auto simp: sz_def)
    have last: "b_len ?out \<le> int (s q) \<longleftrightarrow> L" "(if L then b_len ?out else int (s q)) = sz"
      using L by (simp_all add: sz_def)
    have run: "fragment_ready_to_send fr f buf = Some (True, ?f, buf_unshift (buf_push ?b0 ?c) ?w)"
      using posn fin
      by (simp only: fragment_ready_to_send_def fragment_outgoing_defined_def Let_def last fr b0(1) copy pre
          o(3-5) prod.case bool.case option.case if_True if_False not_True_eq_False)
    have "buf_bytes (buf_skip ?out (nat sz)) = drop (Suc n * s q) (D q)"
      using o(1,2) sz len nl by (simp add: buf_skip_bytes) (simp add: length_frag_chunk add.commute min_def)
    then have "snd_state hr s D q (Suc n) ?f"
      using o sz by (simp add: snd_state_def buf_skip_wf)
    moreover have "buf_wf (buf_unshift (buf_push ?b0 ?c) ?w)"
      "buf_bytes (buf_unshift (buf_push ?b0 ?c) ?w) = frag_wire s D q n"
      using p o(7) by (auto simp: buf_unshift_wf buf_unshift_bytes frag_wire_def L_def)
    ultimately show ?thesis using run True by auto
  qed
qed

text \<open>The rest of the fragments, taken one after the other.\<close>

fun fragment_flush :: "nat \<Rightarrow> frame \<Rightarrow> fragment_master \<Rightarrow> (fragment_master \<times> u8 list list) option" where
  "fragment_flush 0 fr f = Some (f, [])"
| "fragment_flush (Suc fuel) fr f =
     (case fragment_ready_to_send fr f clear_buf of
        None \<Rightarrow> None
      | Some (False, f', _) \<Rightarrow> Some (f', [])
      | Some (True, f', b) \<Rightarrow>
          (case fragment_flush fuel fr f' of
             None \<Rightarrow> None
           | Some (f'', ps) \<Rightarrow> Some (f'', buf_bytes b # ps)))"

lemma fragment_flush_ok:
  assumes "dgram_ok cap (s q) (D q)" and "fr_headroom fr = hr"
  shows "snd_state hr s D q n f \<Longrightarrow> frag_count (s q) (D q) - n \<le> fuel \<Longrightarrow> n \<le> frag_count (s q) (D q) \<Longrightarrow>
    \<exists>f'. fragment_flush fuel fr f = Some (f', map (frag_wire s D q) [n..<frag_count (s q) (D q)])"
proof (induction fuel arbitrary: n f)
  case (Suc fuel)
  show ?case
  proof (cases "n < frag_count (s q) (D q)")
    case True
    with fragment_ready_to_send_ok [OF Suc.prems(1) assms] obtain f1 b where
      b: "fragment_ready_to_send fr f clear_buf = Some (True, f1, b)" "snd_state hr s D q (Suc n) f1"
      "buf_bytes b = frag_wire s D q n" by (metis (no_types, lifting))
    have "frag_count (s q) (D q) - Suc n \<le> fuel" "Suc n \<le> frag_count (s q) (D q)"
      using Suc.prems(2) True by simp_all
    from Suc.IH [OF b(2) this] obtain f2 where
      "fragment_flush fuel fr f1 = Some (f2, map (frag_wire s D q) [Suc n..<frag_count (s q) (D q)])" by blast
    with b True show ?thesis by (simp add: upt_conv_Cons)
  next
    case False
    with fragment_ready_to_send_ok [OF Suc.prems(1) assms, of clear_buf] show ?thesis by simp
  qed
qed simp

definition frame_ok :: "frame \<Rightarrow> bool" where
  "frame_ok fr = (4 \<le> fr_headroom fr \<and> 0 \<le> fr_payload_size fr \<and> 0 \<le> fr_tailroom fr
     \<and> BUF_SIZE fr < int BUF_SIZE_MAX \<and> 4 \<le> fr_max_fragment_size fr
     \<and> fr_max_fragment_size fr < 2 ^ 16
     \<and> fr_max_fragment_size fr \<le> fr_payload_size fr + fr_tailroom fr)"

lemma fragment_outgoing_ok:
  assumes fr: "frame_ok fr" and f: "buf_wf (fm_outgoing f)" "buf_wf (fm_outgoing_return f)"
    "b_capacity (fm_outgoing f) = BUF_SIZE fr" "b_capacity (fm_outgoing_return f) = BUF_SIZE fr"
    "fm_outgoing_seq_id f = (q - 1) mod 256"
    and buf: "buf_wf buf" "buf_bytes buf = D q" "fr_max_fragment_size fr < b_len buf"
    "b_len buf \<le> fr_payload_size fr + fr_tailroom fr"
    and fs: "optimal_fragment_size (b_len buf) (fr_max_fragment_size fr) = Some (int (s q))"
    "length (D q) \<le> s q * 32"
  shows "dgram_ok (fr_payload_size fr + fr_tailroom fr) (s q) (D q)"
    and "\<exists>f' b. fragment_outgoing fr f buf = Some (f', b) \<and> snd_state (fr_headroom fr) s D q 1 f'
      \<and> buf_wf b \<and> buf_bytes b = frag_wire s D q 0"
proof -
  let ?hr = "fr_headroom fr"
  have F: "4 \<le> ?hr" "BUF_SIZE fr = ?hr + (fr_payload_size fr + fr_tailroom fr)"
    "4 \<le> fr_max_fragment_size fr" "fr_max_fragment_size fr < 2 ^ 16"
    "fr_max_fragment_size fr \<le> fr_payload_size fr + fr_tailroom fr"
    using fr by (auto simp: frame_ok_def BUF_SIZE_def)
  have len: "b_len buf = int (length (D q))" using length_buf_bytes_int [OF buf(1)] buf(2) by simp
  have s: "int (s q) mod 4 = 0" "4 \<le> int (s q)" "int (s q) \<le> fr_max_fragment_size fr"
    using optimal_fragment_size_ok [OF F(3) buf(3)] fs(1) by auto
  show ok: "dgram_ok (fr_payload_size fr + fr_tailroom fr) (s q) (D q)"
    using s F buf(3,4) len fs(2) by (auto simp: dgram_ok_def) presburger
  let ?o1 = "(fm_outgoing f)\<lparr>b_len := 0, b_offset := ?hr\<rparr>"
  have o1: "buf_init (fm_outgoing f) ?hr = (True, ?o1)" "buf_wf ?o1" "buf_bytes ?o1 = []"
    "buf_tailroom ?o1 = fr_payload_size fr + fr_tailroom fr"
    using f F by (auto simp: buf_init_eq buf_init_wf buf_init_bytes buf_tailroom_def)
  let ?o2 = "buf_push ?o1 (D q)"
  have o2: "buf_copy ?o1 buf = (True, ?o2)" "buf_wf ?o2" "buf_bytes ?o2 = D q"
    using o1 buf len by (auto simp: buf_copy_def buf_write_eq buf_push_wf buf_push_bytes)
  have seq: "modulo_add (fm_outgoing_seq_id f) 1 N_SEQ_ID = Some (q mod 256)"
    using f(5) by (simp add: N_SEQ_ID_def modulo_add_eq mod_simps)
  let ?f = "f\<lparr>fm_outgoing_frag_size := int (s q), fm_outgoing := ?o2, fm_outgoing_seq_id := q mod 256,
     fm_outgoing_frag_id := 0\<rparr>"
  have st: "snd_state ?hr s D q 0 ?f"
    using o2 f F s by (simp add: snd_state_def)
  obtain f' b where snd: "fragment_ready_to_send fr ?f (buf\<lparr>b_len := 0\<rparr>) = Some (True, f', b)"
    "snd_state ?hr s D q (Suc 0) f'" "buf_wf b" "buf_bytes b = frag_wire s D q 0"
    using fragment_ready_to_send_ok [OF st ok refl, of "buf\<lparr>b_len := 0\<rparr>"] frag_count_bounds(1) [OF ok]
    by auto
  have "int (length (D q)) \<le> int (s q) * 32"
    using fs(2) by (metis of_nat_le_iff of_nat_mult of_nat_numeral)
  then have few: "\<not> b_len buf > int (s q) * 32" using len by simp
  have pos: "0 < b_len buf" using buf(3) F(3) by simp
  have sel: "fm_outgoing (f\<lparr>fm_outgoing_frag_size := int (s q)\<rparr>) = fm_outgoing f"
    "fm_outgoing_seq_id (f\<lparr>fm_outgoing_frag_size := int (s q)\<rparr>) = fm_outgoing_seq_id f" by simp_all
  have "fragment_outgoing fr f buf = Some (f', b)"
    using pos few
    by (simp only: fragment_outgoing_def Let_def MAX_FRAGS_def buf(3) fs(1) o1(1) o2(1) seq snd(1) sel
        option.case prod.case bool.case if_True if_False not_False_eq_True)
  with snd show "\<exists>f' b. fragment_outgoing fr f buf = Some (f', b) \<and> snd_state ?hr s D q 1 f'
      \<and> buf_wf b \<and> buf_bytes b = frag_wire s D q 0" by auto
qed

section \<open>Arbitrary input\<close>

definition flist_wf :: "int \<Rightarrow> fragment_list \<Rightarrow> bool" where
  "flist_wf hr l = (length (fli_fragments l) = 25 \<and> 0 \<le> fli_index l \<and> fli_index l < 25
     \<and> 0 \<le> fli_seq_id l \<and> fli_seq_id l < 256 \<and> 0 \<le> hr
     \<and> (\<forall>g \<in> set (fli_fragments l). buf_wf (fg_buf g) \<and> hr \<le> b_capacity (fg_buf g)
          \<and> (fg_defined g \<longrightarrow> b_offset (fg_buf g) = hr)))"

lemma flist_wf_advance:
  "flist_wf hr l \<Longrightarrow> \<exists>l'. fragment_list_advance d l = Some l' \<and> flist_wf hr l'"
proof (induction d arbitrary: l)
  case (Suc d)
  let ?i = "(fli_index l + 1) mod 25"
  let ?l = "l\<lparr>fli_index := ?i, fli_seq_id := (fli_seq_id l + 1) mod 256,
     fli_fragments := (fli_fragments l)[nat ?i := (fli_fragments l ! nat ?i)\<lparr>fg_defined := False\<rparr>]\<rparr>"
  have l: "length (fli_fragments l) = 25" "0 \<le> fli_index l" "fli_index l < 25" "0 \<le> fli_seq_id l" "fli_seq_id l < 256" "0 \<le> hr"
    and g: "\<And>g. g \<in> set (fli_fragments l) \<Longrightarrow> buf_wf (fg_buf g) \<and> hr \<le> b_capacity (fg_buf g)
          \<and> (fg_defined g \<longrightarrow> b_offset (fg_buf g) = hr)"
    using Suc.prems unfolding flist_wf_def by blast+
  have "fli_fragments l ! nat ?i \<in> set (fli_fragments l)" using l(1) by (simp add: nat_less_iff)
  then have "flist_wf hr ?l"
    using l g by (auto simp: flist_wf_def dest!: set_update_subset_insert [THEN subsetD])
  with Suc.IH l show ?case by (simp add: frag_consts modulo_add_eq)
qed simp

lemma flist_wf_get_buf:
  assumes "flist_wf hr l" and "0 \<le> x" and "x < 256"
  shows "\<exists>i l'. fragment_list_get_buf l x = Some (i, l') \<and> flist_wf hr l' \<and> i < 25"
proof -
  obtain d where d: "modulo_subtract x (fli_seq_id l) 256 = Some d"
    using assms by (simp add: flist_wf_def modulo_subtract_def Let_def)
  define far where "far \<longleftrightarrow> \<bar>d\<bar> \<ge> 25"
  define l0 where "l0 = (if far then l\<lparr>fli_fragments := map (\<lambda>g. g\<lparr>fg_defined := False\<rparr>) (fli_fragments l),
                         fli_index := 0, fli_seq_id := x\<rparr> else l)"
  define e where "e = (if far then 0 else d)"
  have "flist_wf hr l0" using assms by (auto simp: l0_def flist_wf_def)
  from flist_wf_advance [OF this] obtain l1 where
    l1: "fragment_list_advance (nat e) l0 = Some l1" "flist_wf hr l1" by blast
  have "\<bar>e\<bar> < 25" by (simp add: e_def far_def)
  moreover have "0 \<le> fli_index l1" "fli_index l1 < 25" using l1(2) by (auto simp: flist_wf_def)
  ultimately have "modulo_add (fli_index l1) (if e > 0 then 0 else e) 25 = Some ((fli_index l1 + (if e > 0 then 0 else e)) mod 25)"
    by (simp add: modulo_add_eq)
  moreover have "(if N_FRAG_BUF \<le> \<bar>d\<bar> then (0, l\<lparr>fli_fragments := map (\<lambda>g. g\<lparr>fg_defined := False\<rparr>) (fli_fragments l),
                         fli_index := 0, fli_seq_id := x\<rparr>) else (d, l)) = (e, l0)"
    by (simp add: e_def l0_def far_def N_FRAG_BUF_def)
  ultimately show ?thesis
    using d l1 by (simp add: fragment_list_get_buf_def N_SEQ_ID_def N_FRAG_BUF_def nat_less_iff Let_def)
qed

lemma buf_copy_range_wf:
  assumes "buf_wf dst" and "buf_wf src"
  shows "buf_wf (snd (buf_copy_range dst i src 0 (b_len src)))"
    and "b_capacity (snd (buf_copy_range dst i src 0 (b_len src))) = b_capacity dst"
    and "b_offset (snd (buf_copy_range dst i src 0 (b_len src))) = b_offset dst"
proof -
  note f = buf_wf_facts [OF assms(1)] buf_wf_facts [OF assms(2)]
  have "buf_wf (snd (buf_copy_range dst i src 0 (b_len src)))
    \<and> b_capacity (snd (buf_copy_range dst i src 0 (b_len src))) = b_capacity dst
    \<and> b_offset (snd (buf_copy_range dst i src 0 (b_len src))) = b_offset dst"
  proof (cases "0 \<le> i \<and> b_offset dst + i + b_len src \<le> b_capacity dst")
    case True
    have "nat (b_offset dst + i) + length (buf_bytes src) \<le> nat (b_capacity dst)"
      using True f(5) length_buf_bytes_int [OF assms(2)] by linarith
    moreover have "b_offset dst + max (b_len dst) (i + b_len src) \<le> b_capacity dst"
      using True f by (simp add: max_def)
    ultimately have "buf_wf ((buf_poke dst (nat (b_offset dst + i)) (buf_bytes src))
        \<lparr>b_len := max (b_len dst) (i + b_len src)\<rparr>)"
      using True f by (intro poke_wf [OF assms(1)]) auto
    with True show ?thesis
      using buf_copy_range_fits [OF assms, of i] by (simp add: buf_poke_def)
  next
    case False
    with assms f show ?thesis by (auto simp: buf_copy_range_def)
  qed
  then show "buf_wf (snd (buf_copy_range dst i src 0 (b_len src)))"
    "b_capacity (snd (buf_copy_range dst i src 0 (b_len src))) = b_capacity dst"
    "b_offset (snd (buf_copy_range dst i src 0 (b_len src))) = b_offset dst" by blast+
qed

lemma fragment_enter_wf:
  assumes "buf_wf (fg_buf g)" "0 \<le> hr" "hr \<le> b_capacity (fg_buf g)" "fg_defined g \<longrightarrow> b_offset (fg_buf g) = hr"
    and "buf_wf buf" and "fr_headroom fr = hr"
  shows "\<exists>g' b. fragment_enter now fr L n sz g buf = Some (g', b) \<and> buf_wf b \<and> buf_wf (fg_buf g')
    \<and> hr \<le> b_capacity (fg_buf g') \<and> b_offset (fg_buf g') = hr"
proof -
  have "\<exists>g1. (if \<not> fg_defined g \<or> fg_max_frag_size g \<noteq> sz
         then (case buf_init (fg_buf g) (fr_headroom fr) of
                 (ok, b) \<Rightarrow> (ok, g\<lparr>fg_defined := True, fg_max_frag_size := sz,
                                       fg_map := 0, fg_buf := b\<rparr>))
         else (True, g)) = (True, g1) \<and> buf_wf (fg_buf g1) \<and> hr \<le> b_capacity (fg_buf g1)
       \<and> b_offset (fg_buf g1) = hr"
    by (cases "fg_defined g \<and> fg_max_frag_size g = sz")
      (use assms in \<open>auto simp: buf_init_eq intro!: buf_init_wf\<close>)
  then obtain g1 where g1: "(if \<not> fg_defined g \<or> fg_max_frag_size g \<noteq> sz
         then (case buf_init (fg_buf g) (fr_headroom fr) of
                 (ok, b) \<Rightarrow> (ok, g\<lparr>fg_defined := True, fg_max_frag_size := sz,
                                       fg_map := 0, fg_buf := b\<rparr>))
         else (True, g)) = (True, g1)" "buf_wf (fg_buf g1)" "hr \<le> b_capacity (fg_buf g1)"
    "b_offset (fg_buf g1) = hr" by blast
  obtain ok b where cp: "buf_copy_range (fg_buf g1) (int n * sz) buf 0 (b_len buf) = (ok, b)" by fastforce
  have b: "buf_wf b" "b_capacity b = b_capacity (fg_buf g1)" "b_offset b = hr"
    using buf_copy_range_wf [OF g1(2) assms(5), of "int n * sz"] cp g1(4) by simp_all
  have "buf_wf (buf\<lparr>b_len := 0\<rparr>)" using assms(5) by (auto simp: buf_wf_def split: option.splits)
  with b g1(3) show ?thesis
    unfolding fragment_enter_def g1(1) by (cases ok) (simp_all add: cp Let_def)
qed

section \<open>Properties\<close>

lemma fragment_init_lists:
  assumes "frame_ok fr" and "fragment_frame_init (fragment_init rnd t) fr = Some f"
  shows "\<forall>s D. list_inv (fr_headroom fr) (fr_payload_size fr + fr_tailroom fr) s D (fm_incoming f) 0 (\<lambda>_. {})"
    and "flist_wf (fr_headroom fr) (fm_incoming f)"
    and "buf_wf (fm_outgoing f)" "buf_wf (fm_outgoing_return f)"
    and "b_capacity (fm_outgoing f) = BUF_SIZE fr" "b_capacity (fm_outgoing_return f) = BUF_SIZE fr"
    and "fm_outgoing_seq_id f = rnd mod 256"
proof -
  have F: "4 \<le> fr_headroom fr" "0 \<le> BUF_SIZE fr" "BUF_SIZE fr < int BUF_SIZE_MAX" "fr_headroom fr \<le> BUF_SIZE fr"
    "fr_headroom fr + (fr_payload_size fr + fr_tailroom fr) = BUF_SIZE fr"
    using assms(1) by (auto simp: frame_ok_def BUF_SIZE_def)
  then have sz: "size_of_int (BUF_SIZE fr) = nat (BUF_SIZE fr)"
    by (intro size_of_int_nonneg) (auto simp: BUF_SIZE_MAX_def)
  obtain b where b: "alloc_buf (nat (BUF_SIZE fr)) = Some b"
    and f: "f = (fragment_init rnd t)\<lparr>fm_incoming := \<lparr>fli_seq_id = 0, fli_index = 0,
       fli_fragments = replicate 25 (fragment_zero\<lparr>fg_buf := b\<rparr>)\<rparr>, fm_outgoing := b, fm_outgoing_return := b\<rparr>"
    using assms(2) sz
    by (auto simp: fragment_frame_init_def fragment_list_buf_init_def fragment_init_def N_FRAG_BUF_def
        split: option.splits)
  have bw: "buf_wf b" "b_capacity b = BUF_SIZE fr"
    using b alloc_buf_wf F(2) by (auto simp: alloc_buf_def split: if_splits)
  have "slot_holds (fr_headroom fr) (fr_payload_size fr + fr_tailroom fr) s D {} (fragment_zero\<lparr>fg_buf := b\<rparr>)" for s D
    using bw F by (simp add: slot_holds_def fragment_zero_def)
  then show "\<forall>s D. list_inv (fr_headroom fr) (fr_payload_size fr + fr_tailroom fr) s D (fm_incoming f) 0 (\<lambda>_. {})"
    by (simp add: list_inv_def f slot_index_bound)
  show "flist_wf (fr_headroom fr) (fm_incoming f)"
    using bw F by (simp add: flist_wf_def f fragment_zero_def)
  show "buf_wf (fm_outgoing f)" "buf_wf (fm_outgoing_return f)"
    "b_capacity (fm_outgoing f) = BUF_SIZE fr" "b_capacity (fm_outgoing_return f) = BUF_SIZE fr"
    using bw by (simp_all add: f)
  have "(255 :: int) = mask 8" by (simp add: mask_eq_exp_minus_1)
  then have "rnd AND 255 = take_bit 8 rnd" by (simp only: take_bit_eq_mask)
  then show "fm_outgoing_seq_id f = rnd mod 256"
    by (simp add: f fragment_init_def N_SEQ_ID_def take_bit_eq_mod)
qed

lemma ceil_less_33:
  assumes "0 < (a :: int)"
  shows "(x + a - 1) div a < 33 \<longleftrightarrow> x \<le> 32 * a"
proof -
  define z d where "z = x + a - 1" and "d = (x + a - 1) div a"
  have z: "z = d * a + z mod a" "0 \<le> z mod a" "z mod a < a" using assms by (simp_all add: z_def d_def)
  show ?thesis
  proof
    assume "(x + a - 1) div a < 33"
    then have "d * a \<le> 32 * a" using assms by (intro mult_right_mono) (simp_all add: d_def)
    then show "x \<le> 32 * a" using z unfolding z_def by linarith
  next
    assume "x \<le> 32 * a"
    show "(x + a - 1) div a < 33"
    proof (rule ccontr)
      assume "\<not> (x + a - 1) div a < 33"
      then have "33 * a \<le> d * a" using assms by (intro mult_right_mono) (simp_all add: d_def)
      then show False using z \<open>x \<le> 32 * a\<close> unfolding z_def by linarith
    qed
  qed
qed

lemma mset_map_permuted:
  "image_mset g M = mset ys \<Longrightarrow> \<exists>xs. mset xs = M \<and> ys = map g xs"
proof (induction ys arbitrary: M)
  case (Cons y ys)
  then have "image_mset g M = add_mset y (mset ys)" by simp
  from msed_map_invR [OF this] obtain x N where
    x: "M = add_mset x N" "g x = y" "image_mset g N = mset ys" by blast
  with Cons.IH obtain xs where "mset xs = N" "ys = map g xs" by blast
  with x show ?case by (intro exI [of _ "x # xs"]) simp
qed simp

text \<open>
  C25: A datagram that is larger than the maximum fragment size and needs at most 32 fragments
  survives fragmentation: the fragments the sender emits for it, received once each in any
  order, make a freshly initialised receiver return exactly that datagram with the last
  fragment to arrive, and nothing before.
\<close>

theorem fragment_roundtrip:
  assumes fr: "frame_ok fr"
    and init: "fragment_frame_init (fragment_init rnd t) fr = Some snd0" "fragment_frame_init (fragment_init rnd' t') fr = Some rcv"
    and buf: "buf_wf buf" "fr_max_fragment_size fr < b_len buf" "b_len buf \<le> fr_payload_size fr + fr_tailroom fr"
      "b_len buf \<le> 32 * (fr_max_fragment_size fr div 4 * 4)"
  shows "\<exists>f1 b f2 ps. fragment_outgoing fr snd0 buf = Some (f1, b) \<and> fragment_flush 32 fr f1 = Some (f2, ps)
    \<and> (\<forall>bs. (\<forall>x \<in> set bs. buf_wf x) \<longrightarrow> mset (map buf_bytes bs) = mset (buf_bytes b # ps) \<longrightarrow>
         (\<exists>f3. fragment_receive_all now fr rcv bs = Some (f3, replicate (length ps) [] @ [buf_bytes buf])))"
proof -
  let ?hr = "fr_headroom fr" and ?cap = "fr_payload_size fr + fr_tailroom fr"
  have mx: "4 \<le> fr_max_fragment_size fr" using fr by (simp add: frame_ok_def)
  obtain fs where fs: "optimal_fragment_size (b_len buf) (fr_max_fragment_size fr) = Some fs" "4 \<le> fs"
    "(b_len buf + fs - 1) div fs = (b_len buf + fr_max_fragment_size fr div 4 * 4 - 1) div (fr_max_fragment_size fr div 4 * 4)"
    using optimal_fragment_size_ok [OF mx buf(2)] by blast
  define D where "D = (\<lambda>_ :: int. buf_bytes buf)"
  define s where "s = (\<lambda>_ :: int. nat fs)"
  define q0 where "q0 = (rnd mod 256 + 1) mod 256"
  define q where "q = (if q0 \<le> 128 then q0 else q0 - 256)"
  have q: "(q - 1) mod 256 = rnd mod 256" "\<bar>q - 0\<bar> \<le> 128"
    by (auto simp: q_def q0_def mod_simps) 
  have len: "b_len buf = int (length (D q))" using length_buf_bytes_int [OF buf(1)] by (simp add: D_def)
  have "(b_len buf + fs - 1) div fs < 33"
    unfolding fs(3) using mx buf(4) by (subst ceil_less_33) auto
  then have "b_len buf \<le> 32 * fs" using fs(2) by (subst (asm) ceil_less_33) auto
  then have few: "length (D q) \<le> s q * 32" using fs(2) len by (simp add: s_def)
  note i1 = fragment_init_lists [OF fr init(1)] and i2 = fragment_init_lists [OF fr init(2)]
  note out = fragment_outgoing_ok [OF fr i1(3,4,5,6) _ buf(1) _ buf(2,3), of q D s]
  have ok: "dgram_ok ?cap (s q) (D q)"
    and ex: "\<exists>f' b. fragment_outgoing fr snd0 buf = Some (f', b) \<and> snd_state ?hr s D q 1 f'
      \<and> buf_wf b \<and> buf_bytes b = frag_wire s D q 0"
    using out i1(7) q(1) fs few by (auto simp: D_def s_def)
  let ?k = "frag_count (s q) (D q)"
  note k = frag_count_bounds(1,2) [OF ok]
  from ex obtain f1 b where o: "fragment_outgoing fr snd0 buf = Some (f1, b)" "snd_state ?hr s D q 1 f1"
    "buf_bytes b = frag_wire s D q 0" by blast
  have "?k - 1 \<le> 32" "1 \<le> ?k" using k by simp_all
  then obtain f2 where fl: "fragment_flush 32 fr f1 = Some (f2, map (frag_wire s D q) [1..<?k])"
    using fragment_flush_ok [OF ok refl o(2)] by blast
  have all: "buf_bytes b # map (frag_wire s D q) [1..<?k] = map (frag_wire s D q) [0..<?k]"
    using k(1) o(3) by (simp add: upt_conv_Cons)
  have "\<exists>f3. fragment_receive_all now fr rcv bs = Some (f3, replicate (?k - 1) [] @ [buf_bytes buf])"
    if bs: "\<forall>x \<in> set bs. buf_wf x" "mset (map buf_bytes bs) = mset (buf_bytes b # map (frag_wire s D q) [1..<?k])" for bs
  proof -
    have "image_mset (frag_wire s D q) (mset [0..<?k]) = mset (map buf_bytes bs)"
      using bs(2) by (simp only: all mset_map)
    then obtain ns where ns: "mset ns = mset [0..<?k]" "map buf_bytes bs = map (frag_wire s D q) ns"
      using mset_map_permuted by blast
    have set: "set ns = {..<?k}" "distinct ns" "length ns = ?k"
      using mset_eq_setD [OF ns(1)] mset_eq_imp_distinct_iff [OF ns(1)] mset_eq_length [OF ns(1)]
      by (simp_all add: atLeast0LessThan)
    have "list_all2 (carries s D ?cap) bs (map (Pair q) ns)"
      unfolding list_all2_conv_all_nth
    proof (intro conjI allI impI)
      show "length bs = length (map (Pair q) ns)" using ns(2) by (metis length_map)
      fix i assume i: "i < length bs"
      then have "i < length ns" using ns(2) by (metis length_map)
      moreover from this have "ns ! i < ?k" using set(1) nth_mem by blast
      moreover have "buf_bytes (bs ! i) = frag_wire s D q (ns ! i)"
        using ns(2) i \<open>i < length ns\<close> by (metis nth_map)
      ultimately show "carries s D ?cap (bs ! i) (map (Pair q) ns ! i)"
        using ok bs(1) i by (simp add: carries_def)
    qed
    moreover have "snd (window_move 0 (\<lambda>_. {} :: nat set) q) q = {}" by (simp add: window_move_def)
    moreover have "ns \<noteq> []" using set(3) k(1) by auto
    ultimately have "\<exists>f3. fragment_receive_all now fr rcv bs = Some (f3, replicate (length ns - 1) [] @ [D q])"
      using fragment_receive_one [OF i2(1) [rule_format] _ refl q(2) set(2)] set(1) by simp
    then show ?thesis by (simp add: set(3) D_def)
  qed
  with o(1) fl k show ?thesis by (intro exI [of _ f1] exI [of _ b] exI [of _ f2] exI conjI) auto
qed

definition demo_frame :: frame where
  "demo_frame = \<lparr>fr_payload_size = 40, fr_headroom = 4, fr_tailroom = 0, fr_mss_fix = 0,
     fr_max_fragment_size = 9, fr_tun_mtu = 40, fr_tun_max_mtu = 40, fr_extra_tun = 0\<rparr>"

definition demo_datagram :: buffer where
  "demo_datagram = \<lparr>b_capacity = 44, b_offset = 4, b_len = 19, b_data = Some (replicate 44 7)\<rparr>"

lemma demo_frame_ok: "frame_ok demo_frame" and demo_datagram_wf: "buf_wf demo_datagram"
  by (simp_all add: frame_ok_def demo_frame_def BUF_SIZE_def BUF_SIZE_MAX_def demo_datagram_def buf_wf_def)

lemma demo_datagram_sizes:
  "fr_max_fragment_size demo_frame < b_len demo_datagram"
  "b_len demo_datagram \<le> fr_payload_size demo_frame + fr_tailroom demo_frame"
  "b_len demo_datagram \<le> 32 * (fr_max_fragment_size demo_frame div 4 * 4)"
  by (simp_all add: demo_frame_def demo_datagram_def)

lemma demo_frame_init:
  "fragment_frame_init (fragment_init rnd t) demo_frame = Some (the (fragment_frame_init (fragment_init rnd t) demo_frame))"
  by (simp add: fragment_frame_init_def fragment_list_buf_init_def demo_frame_def BUF_SIZE_def alloc_buf_def
      buf_size_valid_def BUF_SIZE_MAX_def)

theorem fragment_roundtrip_witness:
  "\<exists>f1 b f2 ps. fragment_outgoing demo_frame (the (fragment_frame_init (fragment_init 255 0) demo_frame)) demo_datagram = Some (f1, b)
    \<and> fragment_flush 32 demo_frame f1 = Some (f2, ps)
    \<and> (\<forall>bs. (\<forall>x \<in> set bs. buf_wf x) \<longrightarrow> mset (map buf_bytes bs) = mset (buf_bytes b # ps) \<longrightarrow>
         (\<exists>f3. fragment_receive_all 0 demo_frame (the (fragment_frame_init (fragment_init 3 0) demo_frame)) bs
            = Some (f3, replicate (length ps) [] @ [replicate 19 7])))"
proof -
  have "buf_bytes demo_datagram = replicate 19 7"
    by (simp add: buf_bytes_def demo_datagram_def buf_len_def buf_valid_def buf_mem_def memget_def)
  with fragment_roundtrip [OF demo_frame_ok demo_frame_init demo_frame_init demo_datagram_wf demo_datagram_sizes,
      where now = 0]
  show ?thesis by simp
qed

text \<open>A fragment entered or given up by the expiry of its slot.\<close>

lemma fragment_ttl_reap_inv:
  assumes "list_inv hr cap s D (fm_incoming f) hi H"
  shows "\<exists>H'. list_inv hr cap s D (fm_incoming (fragment_ttl_reap now f)) hi H'"
proof -
  let ?l = "fm_incoming f" and ?l' = "fm_incoming (fragment_ttl_reap now f)"
  let ?reap = "\<lambda>g. fg_defined g \<and> fg_timestamp g + FRAG_TTL_SEC \<le> now"
  let ?H = "\<lambda>q. if ?reap (fli_fragments ?l ! slot_index ?l hi q) then {} else H q"
  have idx: "slot_index ?l' hi q = slot_index ?l hi q" for q
    by (simp add: slot_index_def fragment_ttl_reap_def)
  have len: "length (fli_fragments ?l) = 25" using assms by (simp add: list_inv_def)
  have slot: "fli_fragments ?l' ! i = (if ?reap (fli_fragments ?l ! i)
      then (fli_fragments ?l ! i)\<lparr>fg_defined := False\<rparr> else fli_fragments ?l ! i)" if "i < 25" for i
    using len that by (simp add: fragment_ttl_reap_def)
  have "slot_holds hr cap (s q) (D q) (?H q) (fli_fragments ?l' ! slot_index ?l' hi q)"
    if "hi - 25 < q" "q \<le> hi" for q
  proof -
    have "slot_holds hr cap (s q) (D q) (H q) (fli_fragments ?l ! slot_index ?l hi q)"
      using assms that by (simp add: list_inv_def)
    then show ?thesis
      by (simp add: idx slot [OF slot_index_bound] slot_holds_undefined)
  qed
  then have "list_inv hr cap s D ?l' hi ?H"
    using assms by (simp add: list_inv_def) (simp add: fragment_ttl_reap_def)
  then show ?thesis by (rule exI [of _ ?H])
qed

text \<open>A run with the periodic housekeeping: each event is a packet, or the wakeup at a time.\<close>

fun fragment_run :: "frame \<Rightarrow> fragment_master \<Rightarrow> (time_t \<times> buffer option) list \<Rightarrow> u8 list list option" where
  "fragment_run fr f [] = Some []"
| "fragment_run fr f ((now, None) # es) = fragment_run fr (fragment_wakeup now f) es"
| "fragment_run fr f ((now, Some b) # es) =
     (case fragment_incoming now fr f b of
        None \<Rightarrow> None
      | Some (f', b') \<Rightarrow> map_option ((#) (buf_bytes b')) (fragment_run fr f' es))"

definition event_ok :: "(int \<Rightarrow> nat) \<Rightarrow> (int \<Rightarrow> u8 list) \<Rightarrow> int \<Rightarrow> int \<Rightarrow> time_t \<times> buffer option \<Rightarrow> bool" where
  "event_ok s D cap lo e = (case snd e of None \<Rightarrow> True
     | Some b \<Rightarrow> (\<exists>q n. lo \<le> q \<and> q \<le> lo + 128 \<and> carries s D cap b (q, n)))"

lemma fragment_run_ok:
  assumes "fr_headroom fr = hr"
  shows "list_inv hr cap s D (fm_incoming f) hi H \<Longrightarrow> lo \<le> hi \<Longrightarrow> hi \<le> lo + 128 \<Longrightarrow>
    \<forall>e \<in> set es. event_ok s D cap lo e \<Longrightarrow>
    \<exists>outs. fragment_run fr f es = Some outs \<and> (\<forall>out \<in> set outs. out = [] \<or> (\<exists>q. lo \<le> q \<and> q \<le> lo + 128 \<and> out = D q))"
proof (induction es arbitrary: f hi H)
  case (Cons e es)
  obtain now p where e: "e = (now, p)" by fastforce
  show ?case
  proof (cases p)
    case None
    obtain H' where "list_inv hr cap s D (fm_incoming (fragment_wakeup now f)) hi H'"
      using fragment_ttl_reap_inv [OF Cons.prems(1)] by (auto simp: fragment_wakeup_def)
    from Cons.IH [OF this Cons.prems(2,3)] Cons.prems(4) e None show ?thesis by simp
  next
    case (Some b)
    then obtain q n where q: "lo \<le> q" "q \<le> lo + 128" "carries s D cap b (q, n)"
      using Cons.prems(4) e by (auto simp: event_ok_def)
    have near: "\<bar>fst (q, n) - hi\<bar> \<le> 128" using q Cons.prems(2,3) by (auto simp: abs_le_iff)
    obtain f' b' hi' H' full where st: "fragment_incoming now fr f b = Some (f', b')"
      "window_take s D hi H q n = (hi', H', full)" "list_inv hr cap s D (fm_incoming f') hi' H'"
      "buf_bytes b' = (if full then D q else [])"
      using fragment_receive_step [OF Cons.prems(1) near q(3) assms] by (metis fst_conv snd_conv)
    have "lo \<le> hi'" "hi' \<le> lo + 128"
      using window_take_hi [OF st(2)] Cons.prems(2,3) q by auto
    from Cons.IH [OF st(3) this] Cons.prems(4) obtain outs where
      outs: "fragment_run fr f' es = Some outs"
      "\<forall>out \<in> set outs. out = [] \<or> (\<exists>q. lo \<le> q \<and> q \<le> lo + 128 \<and> out = D q)" by auto
    have "buf_bytes b' = [] \<or> (\<exists>q. lo \<le> q \<and> q \<le> lo + 128 \<and> buf_bytes b' = D q)"
      using st(4) q by auto
    with outs st(1) e Some show ?thesis by simp
  qed
qed simp


definition demo_packets :: "(int \<times> nat) list" where
  "demo_packets = [(1, 0), (2, 1), (1, 1), (2, 0)]"

definition demo_event :: "int \<times> nat \<Rightarrow> time_t \<times> buffer option" where
  "demo_event x = (0, alloc_buf 40 \<bind> (\<lambda>b. Some (snd (buf_write b
     (frag_wire (\<lambda>_. 4) (\<lambda>q. [word_of_int q, 1, 2, 3, 4, 5]) (fst x) (snd x))))))"

lemma demo_event_ok:
  "n < 2 \<Longrightarrow> 0 \<le> q \<Longrightarrow> q \<le> 2 \<Longrightarrow> event_ok (\<lambda>_. 4) (\<lambda>q. [word_of_int q, 1, 2, 3, 4, 5]) 40 0 (demo_event (q, n))"
proof -
  assume n: "n < 2" "0 \<le> q" "q \<le> 2"
  let ?D = "\<lambda>q. [word_of_int q, 1, 2, 3, 4, 5] :: u8 list"
  obtain b where b: "alloc_buf 40 = Some b" "buf_wf b" "buf_bytes b = []" "buf_tailroom b = 40"
    by (simp add: alloc_buf_def buf_size_valid_def BUF_SIZE_MAX_def buf_wf_def buf_bytes_def buf_tailroom_def
        buf_len_def)
  have "length (frag_wire (\<lambda>_. 4) ?D q n) \<le> 40" by (simp add: frag_wire_def length_frag_chunk)
  with b have "buf_wf (snd (buf_write b (frag_wire (\<lambda>_. 4) ?D q n)))
      \<and> buf_bytes (snd (buf_write b (frag_wire (\<lambda>_. 4) ?D q n))) = frag_wire (\<lambda>_. 4) ?D q n"
    by (simp add: buf_write_eq buf_push_wf buf_push_bytes)
  with b(1) n show ?thesis
    by (auto simp: event_ok_def demo_event_def carries_def dgram_ok_def frag_count_def)
qed


text \<open>
  C27: Whatever bytes a packet carries, the reassembler fails no assertion, writes only inside
  its buffers and leaves a well-formed state and buffer.
\<close>

theorem fragment_incoming_total:
  assumes "flist_wf (fr_headroom fr) (fm_incoming f)" and "buf_wf buf"
  shows "\<exists>f' b. fragment_incoming now fr f buf = Some (f', b) \<and> buf_wf b \<and> flist_wf (fr_headroom fr) (fm_incoming f')"
proof -
  let ?hr = "fr_headroom fr"
  have wf0: "buf_wf (c\<lparr>b_len := 0\<rparr>)" if "buf_wf c" for c
    using that by (auto simp: buf_wf_def split: option.splits)
  have part: "\<exists>f' b. fragment_incoming_part now fr w f c = Some (f', b) \<and> buf_wf b \<and> flist_wf ?hr (fm_incoming f')"
    if c: "buf_wf c" for w c
  proof -
    define q where "q = uint (drop_bit FRAG_SEQ_ID_SHIFT w AND FRAG_SEQ_ID_MASK)"
    have "drop_bit FRAG_SEQ_ID_SHIFT w AND FRAG_SEQ_ID_MASK = take_bit 8 (drop_bit FRAG_SEQ_ID_SHIFT w)"
      by (simp add: frag_masks take_bit_eq_mask)
    then have "q = take_bit 8 (uint (drop_bit FRAG_SEQ_ID_SHIFT w))"
      unfolding q_def by (simp only: unsigned_take_bit_eq)
    then have "0 \<le> q" "q < 256" by (simp_all add: take_bit_eq_mod)
    from flist_wf_get_buf [OF assms(1) this] obtain i l where
      gb: "fragment_list_get_buf (fm_incoming f) q = Some (i, l)" "flist_wf ?hr l" "i < 25" by blast
    have "fli_fragments l ! i \<in> set (fli_fragments l)" using gb(2,3) by (simp add: flist_wf_def)
    then have g: "buf_wf (fg_buf (fli_fragments l ! i))" "0 \<le> ?hr" "?hr \<le> b_capacity (fg_buf (fli_fragments l ! i))"
      "fg_defined (fli_fragments l ! i) \<longrightarrow> b_offset (fg_buf (fli_fragments l ! i)) = ?hr"
      using gb(2) by (auto simp: flist_wf_def)
    have en: "\<exists>g' b. fragment_enter now fr L n sz (fli_fragments l ! i) c = Some (g', b) \<and> buf_wf b
        \<and> flist_wf ?hr (l\<lparr>fli_fragments := (fli_fragments l)[i := g']\<rparr>)" for L n sz
      using fragment_enter_wf [OF g c refl, of now L n sz] gb(2,3)
      by (fastforce simp: flist_wf_def dest!: set_update_subset_insert [THEN subsetD])
    define L where "L \<longleftrightarrow> drop_bit FRAG_TYPE_SHIFT w AND FRAG_TYPE_MASK = FRAG_YES_LAST"
    define n where "n = unat (drop_bit FRAG_ID_SHIFT w AND FRAG_ID_MASK)"
    define sz where "sz = (if L then uint (push_bit FRAG_SIZE_ROUND_SHIFT
        (drop_bit FRAG_SIZE_SHIFT w AND FRAG_SIZE_MASK)) else b_len c)"
    obtain g' b where g': "fragment_enter now fr L n sz (fli_fragments l ! i) c = Some (g', b)" "buf_wf b"
      "flist_wf ?hr (l\<lparr>fli_fragments := (fli_fragments l)[i := g']\<rparr>)"
      using en by blast
    have "fragment_incoming_part now fr w f c =
      (if sz AND FRAG_SIZE_ROUND_MASK \<noteq> 0 then Some (f\<lparr>fm_incoming := l\<rparr>, c\<lparr>b_len := 0\<rparr>)
       else Some (f\<lparr>fm_incoming := l\<lparr>fli_fragments := (fli_fragments l)[i := g']\<rparr>\<rparr>, b))"
      by (simp only: fragment_incoming_part_def Let_def q_def [symmetric] L_def [symmetric] n_def [symmetric]
          sz_def [symmetric] gb(1) g'(1) option.case prod.case)
    then show ?thesis using g'(2,3) gb(2) wf0 [OF c] by simp
  qed
  show ?thesis
  proof (cases "b_len buf > 0")
    case True
    have "0 \<le> (4 :: int)" by simp
    from assms(2) this show ?thesis
      by (cases rule: buf_read_cases) (use True assms part wf0 in \<open>auto simp: fragment_incoming_def Let_def\<close>)
  qed (use assms in \<open>simp add: fragment_incoming_def\<close>)
qed

theorem fragment_incoming_total_witness:
  "\<exists>f' b. fragment_incoming 0 demo_frame (the (fragment_frame_init (fragment_init 7 0) demo_frame)) demo_datagram
    = Some (f', b) \<and> buf_wf b \<and> flist_wf 4 (fm_incoming f')"
  using fragment_incoming_total [OF fragment_init_lists(2) [OF demo_frame_ok demo_frame_init] demo_datagram_wf]
  by (simp add: demo_frame_def)

text \<open>
  The fragment size the sender chooses is a multiple of four not above the maximum, and
  cuts the datagram into exactly as many fragments as the largest possible size would.
\<close>

theorem optimal_fragment_size_count:
  assumes "4 \<le> mx" and "mx < len"
  shows "\<exists>fs. optimal_fragment_size len mx = Some fs \<and> fs mod 4 = 0 \<and> 4 \<le> fs \<and> fs \<le> mx
    \<and> (len + fs - 1) div fs = (len + mx div 4 * 4 - 1) div (mx div 4 * 4)"
  by (rule optimal_fragment_size_ok [OF assms])

theorem optimal_fragment_size_count_witness:
  "\<exists>fs. optimal_fragment_size 1500 1400 = Some fs \<and> fs mod 4 = 0 \<and> 4 \<le> fs \<and> fs \<le> 1400
    \<and> (1500 + fs - 1) div fs = (2 :: int)"
  using optimal_fragment_size_count [of 1400 1500] by simp

text \<open>
  C35: The check of an unfragmented packet looks only at the low eight bits of its header: the
  packet passes whenever they are zero, whatever fragment number and whatever upper sequence
  bits the header carries, and is dropped otherwise.
\<close>

theorem fragment_whole_check:
  assumes "buf_wf buf" and "buf_bytes buf = u32_bytes w @ p" and "w AND 3 = 0"
  shows "\<exists>b. fragment_incoming now fr f buf = Some (f, b)
    \<and> buf_bytes b = (if w AND 0xff = 0 then p else [])"
proof -
  have len: "b_len buf = 4 + int (length p)"
    using length_buf_bytes_int [OF assms(1)] assms(2) by simp
  have rd: "buf_read buf 4 = (Some (u32_bytes w), buf_skip buf 4)"
    using assms len by (simp add: buf_read_eq)
  have b: "buf_wf (buf_skip buf 4)" "buf_bytes (buf_skip buf 4) = p"
    using assms len by (simp_all add: buf_skip_wf buf_skip_bytes)
  then have "buf_wf ((buf_skip buf 4)\<lparr>b_len := 0\<rparr>)" by (auto simp: buf_wf_def split: option.splits)
  then have "buf_bytes ((buf_skip buf 4)\<lparr>b_len := 0\<rparr>) = []" by (simp add: buf_bytes_empty)
  then show ?thesis
    using assms(3) len rd b by (simp add: fragment_incoming_def frag_consts)
qed

theorem fragment_whole_check_witness:
  "\<exists>b. fragment_incoming 0 demo_frame (fragment_init 0 0)
      \<lparr>b_capacity = 6, b_offset = 0, b_len = 6, b_data = Some [0, 0, 0x7f, 0, 1, 2]\<rparr> = Some (fragment_init 0 0, b)
    \<and> buf_bytes b = [1, 2]"
proof -
  have "buf_wf \<lparr>b_capacity = 6, b_offset = 0, b_len = 6, b_data = Some [0, 0, 0x7f, 0, 1, 2]\<rparr>"
    by (simp add: buf_wf_def BUF_SIZE_MAX_def)
  moreover have "buf_bytes \<lparr>b_capacity = 6, b_offset = 0, b_len = 6, b_data = Some [0, 0, 0x7f, 0, 1, 2]\<rparr>
      = u32_bytes 0x7f00 @ [1, 2]"
    by code_simp
  ultimately show ?thesis
    using fragment_whole_check [of _ "0x7f00" "[1, 2]"] by simp
qed

end
