(* ===== verification/Proto.thy ===== *)
theory Proto
  imports Buffer "HOL-Library.Monad_Syntax"
begin

text \<open>
  The network headers of \<open>proto.h\<close> and \<open>proto.c\<close>: field access in the bytes of a packet, the
  incremental update of an internet checksum, the checksum computation, and the recognition of
  IPv4 and IPv6 packets behind a TUN or TAP device. A header structure laid over the packet is
  an offset into its content; a 16-bit field read without \<open>ntohs\<close> is in memory order, which is
  little-endian on the targets of the program.
\<close>

section \<open>Fields\<close>

definition raw16 :: "u8 list \<Rightarrow> nat \<Rightarrow> u16" where
  "raw16 bs k = ucast (bs ! k) OR push_bit 8 (ucast (bs ! (k + 1)))"

definition raw16_bytes :: "u16 \<Rightarrow> u8 list" where
  "raw16_bytes w = [ucast w, ucast (drop_bit 8 w)]"

definition htons :: "u16 \<Rightarrow> u16" where
  "htons w = push_bit 8 w OR drop_bit 8 w"

definition raw32 :: "u8 list \<Rightarrow> nat \<Rightarrow> u32" where
  "raw32 bs k = ucast (bs ! k) OR push_bit 8 (ucast (bs ! (k + 1))) OR push_bit 16 (ucast (bs ! (k + 2)))
     OR push_bit 24 (ucast (bs ! (k + 3)))"

definition raw32_bytes :: "u32 \<Rightarrow> u8 list" where
  "raw32_bytes w = [ucast w, ucast (drop_bit 8 w), ucast (drop_bit 16 w), ucast (drop_bit 24 w)]"

definition buf_set :: "buffer \<Rightarrow> nat \<Rightarrow> u8 list \<Rightarrow> buffer" where
  "buf_set b k bs = buf_poke b (nat (b_offset b) + k) bs"

definition OPENVPN_ETH_P_IPV4 :: u16 where "OPENVPN_ETH_P_IPV4 = 0x0800"
definition OPENVPN_ETH_P_IPV6 :: u16 where "OPENVPN_ETH_P_IPV6 = 0x86DD"
definition OPENVPN_ETH_P_8021Q :: u16 where "OPENVPN_ETH_P_8021Q = 0x8100"
definition OPENVPN_IPPROTO_TCP :: u8 where "OPENVPN_IPPROTO_TCP = 6"
definition OPENVPN_IPPROTO_UDP :: u8 where "OPENVPN_IPPROTO_UDP = 17"
definition OPENVPN_IP_OFFMASK :: u16 where "OPENVPN_IP_OFFMASK = 0x1fff"
definition OPENVPN_8021Q_MASK_VID :: u16 where "OPENVPN_8021Q_MASK_VID = htons 0x0FFF"

text \<open>Sizes of the packed structures, and the offsets of their fields.\<close>

definition sizeof_ethhdr :: int where "sizeof_ethhdr = 14"
definition sizeof_8021qhdr :: int where "sizeof_8021qhdr = 18"
definition sizeof_iphdr :: int where "sizeof_iphdr = 20"
definition sizeof_ipv6hdr :: int where "sizeof_ipv6hdr = 40"
definition sizeof_tcphdr :: int where "sizeof_tcphdr = 20"
definition sizeof_udphdr :: int where "sizeof_udphdr = 8"
definition SIZE_ETH_TO_8021Q_HDR :: int where
  "SIZE_ETH_TO_8021Q_HDR = sizeof_8021qhdr - sizeof_ethhdr"

definition OPENVPN_IPH_GET_VER :: "u8 \<Rightarrow> int" where
  "OPENVPN_IPH_GET_VER v = uint (drop_bit 4 v AND 0x0F)"

definition OPENVPN_IPH_GET_LEN :: "u8 \<Rightarrow> int" where
  "OPENVPN_IPH_GET_LEN v = push_bit 2 (uint (v AND 0x0F))"

definition OPENVPN_TCPH_GET_DOFF :: "u8 \<Rightarrow> int" where
  "OPENVPN_TCPH_GET_DOFF d = drop_bit 2 (uint (d AND 0xF0))"

lemmas proto_consts = OPENVPN_ETH_P_IPV4_def OPENVPN_ETH_P_IPV6_def OPENVPN_ETH_P_8021Q_def
  OPENVPN_IPPROTO_TCP_def OPENVPN_IPPROTO_UDP_def OPENVPN_IP_OFFMASK_def sizeof_ethhdr_def
  sizeof_8021qhdr_def sizeof_iphdr_def sizeof_ipv6hdr_def sizeof_tcphdr_def sizeof_udphdr_def
  SIZE_ETH_TO_8021Q_HDR_def

section \<open>Checksums\<close>

definition adjust_checksum :: "int \<Rightarrow> u16 \<Rightarrow> u16" where
  "adjust_checksum acc cksum =
     (let a = acc + uint cksum
      in if a < 0
         then (let a1 = - a;
                   a2 = drop_bit 16 a1 + (a1 AND 0xffff);
                   a3 = a2 + drop_bit 16 a2
               in word_of_int (NOT a3))
         else (let a2 = drop_bit 16 a + (a AND 0xffff);
                   a3 = a2 + drop_bit 16 a2
               in word_of_int a3))"

definition add_checksum_32 :: "int \<Rightarrow> u32 \<Rightarrow> int" where
  "add_checksum_32 acc w = acc + uint (w AND 0xffff) + uint (drop_bit 16 w)"

definition sub_checksum_32 :: "int \<Rightarrow> u32 \<Rightarrow> int" where
  "sub_checksum_32 acc w = acc - uint (w AND 0xffff) - uint (drop_bit 16 w)"

fun checksum_words :: "u8 list \<Rightarrow> u32 \<Rightarrow> u32" where
  "checksum_words [] s = s"
| "checksum_words [a] s = s + push_bit 8 (ucast a)"
| "checksum_words (a # b # bs) s = checksum_words bs (s + (push_bit 8 (ucast a) + ucast b))"

lemma carry_less: "drop_bit 16 s \<noteq> 0 \<Longrightarrow> unat ((s AND 0xFFFF) + drop_bit 16 (s :: u32)) < unat s"
proof -
  assume a: "drop_bit 16 s \<noteq> 0"
  have d: "unat (drop_bit 16 s) = unat s div 2 ^ 16" 
    by (simp only: unat_drop_bit_eq) (simp only: drop_bit_eq_div)
  have "s AND 0xFFFF = take_bit 16 s" by (simp add: take_bit_eq_mask mask_eq_exp_minus_1)
  then have m: "unat (s AND 0xFFFF) = unat s mod 2 ^ 16"
    by (simp only: unsigned_take_bit_eq) (simp only: take_bit_eq_mod)
  have s: "unat s < 2 ^ 32" using unsigned_less [of s, where 'a = nat] by simp
  have "unat s div 2 ^ 16 \<noteq> 0" using a d by (metis unat_eq_zero)
  moreover have "unat ((s AND 0xFFFF) + drop_bit 16 s) = unat s mod 2 ^ 16 + unat s div 2 ^ 16"
    using s by (simp add: unat_word_ariths d m)
  moreover have "q \<noteq> 0 \<Longrightarrow> r + q < q * 2 ^ 16 + r" for q r :: nat by simp
  ultimately show ?thesis by (metis div_mult_mod_eq)
qed

function checksum_carry :: "u32 \<Rightarrow> u32" where
  "checksum_carry s =
     (if drop_bit 16 s \<noteq> 0 then checksum_carry ((s AND 0xFFFF) + drop_bit 16 s) else s)"
  by auto
termination by (relation "measure unat") (auto intro: carry_less)

declare checksum_carry.simps [simp del]

datatype af = AF_UNSPEC | AF_INET | AF_INET6

definition ip_checksum :: "af \<Rightarrow> u8 list \<Rightarrow> u8 list \<Rightarrow> u8 list \<Rightarrow> int \<Rightarrow> u16" where
  "ip_checksum af payload src_addr dest_addr proto =
     (let addr_len = (if af = AF_INET then 4 else 16);
          s0 = checksum_words payload 0;
          s1 = checksum_words (take addr_len src_addr) s0;
          s2 = checksum_words (take addr_len dest_addr) s1;
          s3 = s2 + ucast (word_of_nat (length payload) :: u16);
          s4 = s3 + ucast (word_of_int proto :: u16)
      in NOT (ucast (checksum_carry s4)))"

section \<open>Packets of the tunnel device\<close>

datatype dev_type = DEV_TYPE_UNDEF | DEV_TYPE_NULL | DEV_TYPE_TUN | DEV_TYPE_TAP

definition get_tun_ip_ver :: "dev_type \<Rightarrow> buffer \<Rightarrow> int \<Rightarrow> int \<times> int" where
  "get_tun_ip_ver tunnel_type buf ip_hdr_offset =
     (let bs = buf_bytes buf
      in case tunnel_type of
           DEV_TYPE_TUN \<Rightarrow>
             (if buf_len buf \<ge> sizeof_iphdr then OPENVPN_IPH_GET_VER (bs ! 0) else -1, 0)
         | DEV_TYPE_TAP \<Rightarrow>
             (if buf_len buf \<ge> sizeof_ethhdr
              then (let proto = u16_of_bytes (memget bs 12 2)
                    in if proto = OPENVPN_ETH_P_IPV6 then 6
                       else if proto = OPENVPN_ETH_P_IPV4 then 4 else -1)
              else -1, sizeof_ethhdr)
         | _ \<Rightarrow> (-1, ip_hdr_offset))"

text \<open>The offset of the IP header, or nothing when the frame does not carry the version.\<close>

definition ip_header_offset :: "dev_type \<Rightarrow> buffer \<Rightarrow> int \<Rightarrow> int option" where
  "ip_header_offset tunnel_type buf ip_ver =
     (let bs = buf_bytes buf
      in case tunnel_type of
           DEV_TYPE_TUN \<Rightarrow> if buf_len buf < sizeof_iphdr then None else Some 0
         | DEV_TYPE_TAP \<Rightarrow>
             if buf_len buf < sizeof_ethhdr + sizeof_iphdr then None
             else (let tagged = (raw16 bs 12 = htons OPENVPN_ETH_P_8021Q);
                       proto = (if tagged then raw16 bs 16 else raw16 bs 12);
                       offset = (if tagged then sizeof_8021qhdr else sizeof_ethhdr)
                   in if tagged \<and> buf_len buf < sizeof_ethhdr + sizeof_iphdr then None
                      else if htons proto \<noteq> (if ip_ver = 6 then OPENVPN_ETH_P_IPV6 else OPENVPN_ETH_P_IPV4)
                      then None else Some offset)
         | _ \<Rightarrow> None)"

definition is_ipv_X :: "dev_type \<Rightarrow> buffer \<Rightarrow> int \<Rightarrow> bool \<times> buffer" where
  "is_ipv_X tunnel_type buf ip_ver =
     (case ip_header_offset tunnel_type buf ip_ver of
        None \<Rightarrow> (False, buf)
      | Some offset \<Rightarrow>
          if OPENVPN_IPH_GET_VER (buf_bytes buf ! nat offset) = ip_ver then buf_advance buf offset
          else (False, buf))"

definition is_ipv4 :: "dev_type \<Rightarrow> buffer \<Rightarrow> bool \<times> buffer" where
  "is_ipv4 tunnel_type buf = is_ipv_X tunnel_type buf 4"

definition is_ipv6 :: "dev_type \<Rightarrow> buffer \<Rightarrow> bool \<times> buffer" where
  "is_ipv6 tunnel_type buf = is_ipv_X tunnel_type buf 6"

section \<open>Field lemmas\<close>

lemma htons_htons [simp]: "htons (htons w) = w"
  by (rule bit_word_eqI) (auto simp: htons_def bit_simps)

lemma htons_u16_of_bytes: "htons (raw16 bs k) = u16_of_bytes [bs ! k, bs ! (k + 1)]"
  by (rule bit_word_eqI) (auto simp: htons_def raw16_def bit_simps)

lemma raw16_bytes_htons: "raw16_bytes (htons w) = u16_bytes w"
  by (auto intro!: bit_word_eqI simp: raw16_bytes_def u16_bytes_def htons_def bit_simps)

lemma length_raw16_bytes [simp]: "length (raw16_bytes w) = 2"
  by (simp add: raw16_bytes_def)

lemma length_raw32_bytes [simp]: "length (raw32_bytes w) = 4"
  by (simp add: raw32_bytes_def)

lemma raw16_of_bytes [simp]: "raw16 (raw16_bytes w) 0 = w"
  by (rule bit_word_eqI) (auto simp: raw16_bytes_def raw16_def bit_simps)

lemma uint_raw16: "uint (raw16 bs k) = uint (bs ! k) + 256 * uint (bs ! (k + 1))"
proof -
  have "uint (raw16 bs k) = uint (bs ! k) OR push_bit 8 (uint (bs ! (k + 1)))"
  proof (rule bit_eqI)
    fix n :: nat
    consider "n < 8" | "8 \<le> n" "n < 16" | "16 \<le> n" by linarith
    then show "bit (uint (raw16 bs k)) n = bit (uint (bs ! k) OR push_bit 8 (uint (bs ! (k + 1)))) n"
      by cases (auto simp: raw16_def bit_simps bit_uint_iff)
  qed
  also have "\<dots> = uint (bs ! k) + push_bit 8 (uint (bs ! (k + 1)))"
    by (rule disjunctive_add [symmetric]) (auto simp: bit_simps bit_uint_iff)
  finally show ?thesis by (simp add: push_bit_eq_mult)
qed

lemma buf_set_wf [wf_intros]: "buf_wf b \<Longrightarrow> int (k + length bs) \<le> b_len b \<Longrightarrow> buf_wf (buf_set b k bs)"
  by (auto simp: buf_wf_def buf_set_def buf_poke_def split: option.splits)

lemma buf_set_fields [simp]:
  "b_offset (buf_set b k bs) = b_offset b" "b_len (buf_set b k bs) = b_len b"
  "b_capacity (buf_set b k bs) = b_capacity b"
  by (simp_all add: buf_set_def buf_poke_def)

lemma buf_set_bytes:
  assumes "buf_wf b" and "int (k + length bs) \<le> b_len b"
  shows "buf_bytes (buf_set b k bs) = memput (buf_bytes b) k bs"
proof -
  note f = buf_wf_facts [OF assms(1)]
  obtain d where d: "b_data b = Some d" "int (length d) = b_capacity b"
    using assms(1) by (auto elim: buf_wfE)
  let ?o = "nat (b_offset b)" and ?n = "nat (b_len b)"
  have "?o + ?n \<le> length d" "k + length bs \<le> ?n" using d f assms(2) by linarith+
  then have "memget (memput d (?o + k) bs) ?o ?n = memput (memget d ?o ?n) k bs"
    by (intro memget_memput_inside) auto
  then show ?thesis
    using d f buf_wf_facts(1,3) [OF buf_set_wf [OF assms]]
    by (simp add: buf_bytes_def buf_mem_def buf_set_def buf_poke_def buf_len_def)
qed

section \<open>Incremental update of a checksum\<close>

lemma fold_carry_mod:
  assumes "0 \<le> a" and "a < 2 ^ 31"
  defines "f \<equiv> drop_bit 16 a + (a AND 0xffff)"
  defines "g \<equiv> f + drop_bit 16 f"
  shows "0 \<le> g mod 65536" and "g mod 65536 mod 65535 = a mod (65535 :: int)"
proof -
  have "x AND 0xffff = x mod 65536" for x :: int
  proof -
    have "x AND 0xffff = take_bit 16 x" by (simp add: take_bit_eq_mask mask_eq_exp_minus_1)
    then show ?thesis by (simp only: take_bit_eq_mod) simp
  qed
  then have f: "f = a div 65536 + a mod 65536" and g: "g = f + f div 65536"
    by (simp_all add: f_def g_def drop_bit_eq_div)
  define q r where "q = a div 65536" and "r = a mod 65536"
  have a: "a = q * 65536 + r" "0 \<le> r" "r < 65536" by (simp_all add: q_def r_def)
  have "a < 2147483648" using assms(2) by simp
  then have q: "0 \<le> q" "q < 32768" using assms(1) a by linarith+
  have fr: "f = q + r" by (simp add: f q_def r_def)
  show "0 \<le> g mod 65536" by simp
  have "a mod 65535 = (q + r) mod 65535"
    using mod_mult_self1 [of "q + r" q 65535] a(1) by (simp add: algebra_simps)
  moreover have "g mod 65536 = q + r \<or> g mod 65536 = q + r - 65535"
  proof (cases "q + r < 65536")
    case True
    with q a(2) show ?thesis by (simp add: g fr)
  next
    case False
    then have "f div 65536 = 1" using q a(3) fr by (intro div_pos_geq [THEN trans]) auto
    then have "g = (q + r - 65535) + 65536" by (simp add: g fr)
    then have "g mod 65536 = (q + r - 65535) mod 65536" by (metis mod_add_self2)
    also have "\<dots> = q + r - 65535" using False q a(3) by simp
    finally show ?thesis by simp
  qed
  moreover have "(q + r - 65535) mod 65535 = (q + r) mod 65535"
    using mod_add_self2 [of "q + r - 65535" 65535] by simp
  ultimately show "g mod 65536 mod 65535 = a mod (65535 :: int)" by auto
qed

text \<open>The sum of the 16-bit words of a byte sequence, in memory order, an odd byte padded.\<close>

fun word_sum :: "u8 list \<Rightarrow> int" where
  "word_sum [] = 0"
| "word_sum [a] = uint a"
| "word_sum (a # b # bs) = uint a + 256 * uint b + word_sum bs"

lemma word_sum_append: "even (length xs) \<Longrightarrow> word_sum (xs @ ys) = word_sum xs + word_sum ys"
  by (induction xs rule: word_sum.induct) auto

lemma word_sum_split:
  assumes "even k" and "k + 2 \<le> length bs"
  shows "word_sum bs = word_sum (take k bs) + uint (raw16 bs k) + word_sum (drop (k + 2) bs)"
proof -
  have "bs = take k bs @ [bs ! k, bs ! (k + 1)] @ drop (k + 2) bs"
    using assms(2) by (simp add: Cons_nth_drop_Suc)
  then have "word_sum bs = word_sum (take k bs @ [bs ! k, bs ! (k + 1)] @ drop (k + 2) bs)" by metis
  also have "\<dots> = word_sum (take k bs) + (uint (bs ! k) + 256 * uint (bs ! (k + 1)) + word_sum (drop (k + 2) bs))"
    using assms by (subst word_sum_append) (auto simp: min_def)
  finally show ?thesis by (simp add: uint_raw16)
qed

lemma word_sum_update:
  assumes "even k" and "k + 2 \<le> length bs"
  shows "word_sum (memput bs k (raw16_bytes w)) = word_sum bs - uint (raw16 bs k) + uint w"
proof -
  let ?m = "memput bs k (raw16_bytes w)"
  have m: "?m = take k bs @ raw16_bytes w @ drop (k + 2) bs" by (simp add: memput_def)
  have "raw16 ?m k = w"
    using assms(2) raw16_of_bytes [of w] by (simp add: raw16_def nth_memput raw16_bytes_def)
  moreover have "take k ?m = take k bs" "drop (k + 2) ?m = drop (k + 2) bs"
    using assms(2) by (simp_all add: m min_def)
  moreover have "length ?m = length bs" using assms(2) by simp
  ultimately show ?thesis
    using word_sum_split [OF assms] word_sum_split [OF assms(1), of ?m] assms(2) by simp
qed

lemma minus_one_mod: "(- x - 1) mod 65536 = 65535 - x mod (65536 :: int)"
proof (rule int_mod_pos_eq [where q = "- (x div 65536) - 1"])
  show "- x - 1 = 65536 * (- (x div 65536) - 1) + (65535 - x mod 65536)"
    unfolding minus_mult_div_eq_mod [symmetric] by simp
qed simp_all

lemma adjust_checksum_mod:
  assumes "\<bar>acc\<bar> < 2 ^ 30"
  shows "uint (adjust_checksum acc c) mod 65535 = (acc + uint c) mod 65535"
proof -
  have c: "0 \<le> uint c" "uint c < 65536" using unsigned_less [of c, where 'a = int] by simp_all
  have p: "2 ^ LENGTH(16) = (65536 :: int)" by simp
  have acc: "- 1073741824 < acc" "acc < 1073741824" using assms by simp_all
  show ?thesis
  proof (cases "acc + uint c < 0")
    case True
    let ?a = "- (acc + uint c)"
    let ?f = "drop_bit 16 ?a + (?a AND 0xffff)"
    let ?g = "?f + drop_bit 16 ?f"
    have g: "?g mod 65536 mod 65535 = ?a mod 65535"
    proof (rule fold_carry_mod(2))
      show "0 \<le> ?a" using True by simp
      have "?a < 2147483648" using acc c by linarith
      then show "?a < 2 ^ 31" by simp
    qed
    have "uint (adjust_checksum acc c) = (NOT ?g) mod 65536"
      by (simp only: adjust_checksum_def Let_def True if_True uint_word_of_int p)
    also have "(NOT ?g) mod 65536 = 65535 - ?g mod 65536"
    proof -
      have "NOT ?g = - ?g - 1" by (simp add: not_int_def)
      then show ?thesis by (simp only: minus_one_mod)
    qed
    finally have u: "uint (adjust_checksum acc c) = 65535 - ?g mod 65536" .
    have "(65535 - x) mod 65535 = (- x) mod 65535" for x :: int
      using mod_add_self2 [of "- x" 65535] by simp
    then have "uint (adjust_checksum acc c) mod 65535 = (- (?g mod 65536)) mod 65535" by (simp only: u)
    also have "\<dots> = (- (?g mod 65536 mod 65535)) mod 65535" by (simp only: mod_minus_eq)
    also have "\<dots> = (acc + uint c) mod 65535" by (simp only: g mod_minus_eq minus_minus)
    finally show ?thesis .
  next
    case False
    let ?a = "acc + uint c"
    let ?f = "drop_bit 16 ?a + (?a AND 0xffff)"
    let ?g = "?f + drop_bit 16 ?f"
    have "?g mod 65536 mod 65535 = ?a mod 65535"
    proof (rule fold_carry_mod(2))
      show "0 \<le> ?a" using False by simp
      have "?a < 2147483648" using acc c by linarith
      then show "?a < 2 ^ 31" by simp
    qed
    moreover have "uint (adjust_checksum acc c) = ?g mod 65536"
      by (simp only: adjust_checksum_def Let_def False if_False uint_word_of_int p)
    ultimately show ?thesis by simp
  qed
qed

text \<open>A checksum field corrected by the logged change.\<close>

lemma fix_sum:
  assumes "even k" and "k + 2 \<le> length xs" and "\<bar>acc\<bar> < 2 ^ 30"
  shows "word_sum (memput xs k (raw16_bytes (adjust_checksum acc (raw16 xs k)))) mod 65535
    = (word_sum xs + acc) mod 65535"
proof -
  let ?c = "raw16 xs k"
  have "word_sum (memput xs k (raw16_bytes (adjust_checksum acc ?c))) mod 65535
      = (word_sum xs - uint ?c + uint (adjust_checksum acc ?c)) mod 65535"
    by (simp add: word_sum_update [OF assms(1,2)])
  also have "\<dots> = (word_sum xs - uint ?c + uint (adjust_checksum acc ?c) mod 65535) mod 65535"
    by (simp only: mod_add_right_eq)
  also have "\<dots> = (word_sum xs + acc) mod 65535"
    by (simp only: adjust_checksum_mod [OF assms(3)] mod_add_right_eq) (simp add: algebra_simps)
  finally show ?thesis .
qed

section \<open>The computed checksum\<close>

fun be_sum :: "u8 list \<Rightarrow> int" where
  "be_sum [] = 0"
| "be_sum [a] = 256 * uint a"
| "be_sum (a # b # bs) = 256 * uint a + uint b + be_sum bs"

lemma uint_u8_bound: "uint (a :: u8) \<le> 255"
  using unsigned_less [of a, where 'a = int] by simp

lemma be_sum_bound: "0 \<le> be_sum bs \<and> be_sum bs \<le> 32768 * (int (length bs) + 1)"
proof (induction bs rule: be_sum.induct)
  case (2 a)
  then show ?case using uint_u8_bound [of a] by simp
next
  case (3 a b bs)
  then show ?case using uint_u8_bound [of a] uint_u8_bound [of b] by simp
qed simp

lemma u8_bit_low: "bit (a :: u8) n \<Longrightarrow> n < 8"
  using bit_imp_le_length [of a n] by simp

lemma uint_hi_byte: "uint (push_bit 8 (ucast (a :: u8)) :: u32) = 256 * uint a"
proof -
  have "uint (push_bit 8 (ucast a :: u32)) = push_bit 8 (uint a)"
    by (rule bit_eqI, auto simp: bit_simps bit_uint_iff) (auto dest!: u8_bit_low)
  then show ?thesis by (simp add: push_bit_eq_mult)
qed

lemma uint_add_small: "uint x + uint y < 2 ^ 32 \<Longrightarrow> uint (x + y :: u32) = uint x + uint y"
  by (simp add: uint_word_ariths)

lemma uint_ucast_u8: "uint (ucast (a :: u8) :: u32) = uint a"
  by (rule bit_eqI, auto simp: bit_simps bit_uint_iff) (auto dest!: u8_bit_low)

lemma checksum_words_sum:
  "uint s + be_sum bs < 2 ^ 32 \<Longrightarrow> uint (checksum_words bs s) = uint s + be_sum bs"
proof (induction bs s rule: checksum_words.induct)
  case (2 a s)
  then show ?case by (simp add: uint_add_small uint_hi_byte)
next
  case (3 a b bs s)
  have b: "0 \<le> be_sum bs" "0 \<le> uint s" using be_sum_bound by simp_all
  have w: "uint (push_bit 8 (ucast a) + ucast b :: u32) = 256 * uint a + uint b"
    using uint_u8_bound [of a] uint_u8_bound [of b]
    by (subst uint_add_small) (simp_all add: uint_hi_byte uint_ucast_u8)
  have "uint (s + (push_bit 8 (ucast a) + ucast b)) = uint s + (256 * uint a + uint b)"
    using 3(2) b w by (subst uint_add_small) simp_all
  with 3 show ?case by simp
qed simp

lemma checksum_carry_ok: "uint (checksum_carry s) mod 65535 = uint s mod 65535 \<and> uint (checksum_carry s) < 65536"
proof (induction s rule: checksum_carry.induct)
  case (1 s)
  have d: "uint (drop_bit 16 s) = uint s div 65536"
  proof -
    have "unat (drop_bit 16 s) = unat s div 65536"
      by (simp only: unat_drop_bit_eq) (simp add: drop_bit_eq_div)
    then show ?thesis by (metis of_nat_div of_nat_numeral uint_nat_eq)
  qed
  have "s AND 0xFFFF = take_bit 16 s" by (simp add: take_bit_eq_mask mask_eq_exp_minus_1)
  then have m: "uint (s AND 0xFFFF) = uint s mod 65536"
    by (simp only: unsigned_take_bit_eq) (simp add: take_bit_eq_mod)
  show ?case
  proof (cases "drop_bit 16 s = 0")
    case True
    then have "uint s div 65536 = 0" using d by simp
    then have "uint s < 65536" by (simp add: div_eq_0_iff) 
    with True show ?thesis by (subst (1 2) checksum_carry.simps) simp
  next
    case False
    have s: "0 \<le> uint s" "uint s < 4294967296" using unsigned_less [of s, where 'a = int] by simp_all
    define q r where "q = uint s div 65536" and "r = uint s mod 65536"
    have qr: "uint s = q * 65536 + r" "0 \<le> r" "r < 65536" by (simp_all add: q_def r_def)
    then have q: "q < 65536" using s by linarith
    have "uint ((s AND 0xFFFF) + drop_bit 16 s) = r + q"
      using q qr(3) by (subst uint_add_small; simp only: d m q_def [symmetric] r_def [symmetric]; simp)
    moreover have "(r + q) mod 65535 = uint s mod 65535"
      using mod_mult_self1 [of "q + r" q 65535] qr(1) by (simp add: algebra_simps)
    ultimately show ?thesis
      using 1 False by (subst (1 2) checksum_carry.simps) simp
  qed
qed

lemma uint_not_u16: "uint (NOT w :: u16) = 65535 - uint w"
proof -
  have "uint (NOT w) = take_bit 16 (NOT (uint w))" by (simp add: unsigned_not_eq)
  also have "\<dots> = (- uint w - 1) mod 65536" by (simp add: take_bit_eq_mod not_int_def)
  also have "\<dots> = 65535 - uint w"
    unfolding minus_one_mod using unsigned_less [of w, where 'a = int] by simp
  finally show ?thesis .
qed

section \<open>Properties\<close>

text \<open>
  The checksum written into a packet verifies: added to the 16-bit words of the payload,
  the pseudo header addresses, the length and the protocol, it makes the ones' complement sum
  zero.
\<close>

theorem ip_checksum_verifies:
  assumes "length payload < 65536" and "length src = (if af = AF_INET then 4 else 16)"
    and "length dst = length src" and "0 \<le> proto" and "proto < 65536"
  shows "(be_sum payload + be_sum src + be_sum dst + int (length payload) + proto
           + uint (ip_checksum af payload src dst proto)) mod 65535 = 0"
proof -
  let ?n = "if af = AF_INET then 4 else 16 :: nat"
  have tk: "take ?n src = src" "take ?n dst = dst" using assms(2,3) by auto
  define s1 where "s1 = checksum_words payload 0"
  define s2 where "s2 = checksum_words src s1"
  define s3 where "s3 = checksum_words dst s2"
  define l :: u32 where "l = ucast (word_of_nat (length payload) :: u16)"
  define p :: u32 where "p = ucast (word_of_int proto :: u16)"
  have len: "int (length src) \<le> 16" "int (length dst) \<le> 16" "int (length payload) \<le> 65535"
    using assms(1-3) by auto
  have b: "0 \<le> be_sum payload" "be_sum payload \<le> 2147483648" "0 \<le> be_sum src" "be_sum src \<le> 557056"
    "0 \<le> be_sum dst" "be_sum dst \<le> 557056"
    using be_sum_bound [of payload] be_sum_bound [of src] be_sum_bound [of dst] len by (simp_all add: order_trans [rotated])
  have s1: "uint s1 = be_sum payload" using b by (simp add: s1_def checksum_words_sum)
  have s2: "uint s2 = be_sum payload + be_sum src" using b s1 by (simp add: s2_def checksum_words_sum)
  have s3: "uint s3 = be_sum payload + be_sum src + be_sum dst" using b s2 by (simp add: s3_def checksum_words_sum)
  have l: "uint l = int (length payload)" and p: "uint p = proto"
    using assms by (simp_all add: l_def p_def unsigned_ucast_eq uint_word_of_int take_bit_eq_mod
        unsigned_of_nat unsigned_of_int)
  have t: "uint (s3 + l + p) = be_sum payload + be_sum src + be_sum dst + int (length payload) + proto"
    using b s3 l p assms by (simp add: uint_add_small)
  define c where "c = checksum_carry (s3 + l + p)"
  have c: "uint c mod 65535 = uint (s3 + l + p) mod 65535" "uint c < 65536"
    using checksum_carry_ok [of "s3 + l + p"] by (simp_all add: c_def)
  have res: "ip_checksum af payload src dst proto = NOT (ucast c)"
    using tk by (simp add: ip_checksum_def Let_def s1_def s2_def s3_def l_def p_def c_def)
  have "uint (ucast c :: u16) = uint c"
    using c(2) by (simp add: unsigned_ucast_eq take_bit_eq_mod)
  then have "uint (ip_checksum af payload src dst proto) = 65535 - uint c"
    unfolding res uint_not_u16 by simp
  then have "(uint (s3 + l + p) + uint (ip_checksum af payload src dst proto)) mod 65535
      = (uint (s3 + l + p) - uint c + 65535) mod 65535"
    by (intro arg_cong [where f = "\<lambda>x. x mod 65535"]) simp
  also have "\<dots> = (uint (s3 + l + p) mod 65535 - uint c mod 65535) mod 65535" by (simp add: mod_simps)
  finally show ?thesis using c(1) t by simp
qed

theorem ip_checksum_verifies_witness:
  "(be_sum [1, 2, 3] + be_sum [10, 0, 0, 1] + be_sum [10, 0, 0, 2] + 3 + 17
     + uint (ip_checksum AF_INET [1, 2, 3] [10, 0, 0, 1] [10, 0, 0, 2] 17)) mod 65535 = 0"
  using ip_checksum_verifies [of "[1, 2, 3]" "[10, 0, 0, 1]" AF_INET "[10, 0, 0, 2]" 17] by simp

text \<open>
  A packet recognised as IP version \<open>v\<close> starts at its IP header, whose version field is
  \<open>v\<close>, and the bytes skipped are the link-layer header only. The whole 20 bytes of an IPv4
  header are present behind TUN and behind an untagged frame; behind an 802.1Q frame only 16
  are guaranteed, because the length is checked against the size of an untagged frame.
\<close>

theorem is_ipv_X_header:
  assumes "buf_wf b" and "is_ipv_X dt b v = (True, b')"
  shows "\<exists>k. k \<in> {0, 14, 18} \<and> buf_wf b' \<and> buf_bytes b' = drop k (buf_bytes b)
    \<and> OPENVPN_IPH_GET_VER (buf_bytes b' ! 0) = v
    \<and> length (buf_bytes b') \<ge> (if k = 18 then 16 else 20)"
proof -
  obtain off where off: "ip_header_offset dt b v = Some off" "OPENVPN_IPH_GET_VER (buf_bytes b ! nat off) = v"
    "buf_advance b off = (True, b')"
    using assms(2) by (auto simp: is_ipv_X_def split: option.splits if_splits)
  have len: "buf_len b = int (length (buf_bytes b))"
    using assms(1) by (simp add: buf_wf_facts length_buf_bytes)
  have o: "off \<in> {0, 14, 18}" "length (buf_bytes b) \<ge> nat off + (if off = 18 then 16 else 20)"
    using off(1) len by (auto simp: ip_header_offset_def proto_consts Let_def split: dev_type.splits if_splits)
  have b': "b' = buf_skip b (nat off)" "nat off \<le> length (buf_bytes b)"
    using off(3) assms(1) o by (auto simp: buf_advance_eq split: if_splits)
  have "int (nat off) \<le> b_len b"
    using b'(2) length_buf_bytes_int [OF assms(1)] by linarith
  then have "buf_wf b'" "buf_bytes b' = drop (nat off) (buf_bytes b)"
    using assms(1) b'(1) by (simp_all add: buf_skip_wf buf_skip_bytes)
  with off(2) o show ?thesis
    by (intro exI [of _ "nat off"]) (auto split: if_splits)
qed

definition demo_8021q :: buffer where
  "demo_8021q = \<lparr>b_capacity = 34, b_offset = 0, b_len = 34, b_data = Some (replicate 12 0
     @ [0x81, 0, 0, 1, 8, 0, 0x45] @ replicate 15 0)\<rparr>"

theorem is_ipv_X_header_witness:
  "\<exists>b'. is_ipv_X DEV_TYPE_TAP demo_8021q 4 = (True, b') \<and> OPENVPN_IPH_GET_VER (buf_bytes b' ! 0) = 4
     \<and> length (buf_bytes b') = 16"
proof -
  have wf: "buf_wf demo_8021q" by (simp add: demo_8021q_def buf_wf_def BUF_SIZE_MAX_def)
  have r: "fst (is_ipv_X DEV_TYPE_TAP demo_8021q 4)" "length (buf_bytes (snd (is_ipv_X DEV_TYPE_TAP demo_8021q 4))) = 16"
    by code_simp+
  have "is_ipv_X DEV_TYPE_TAP demo_8021q 4 = (True, snd (is_ipv_X DEV_TYPE_TAP demo_8021q 4))"
    using r(1) by (simp add: prod_eq_iff)
  from is_ipv_X_header [OF wf this] r(2) this show ?thesis by blast
qed

end
