(* ===== verification/Vlan.thy ===== *)
theory Vlan
  imports Proto
begin

text \<open>
  802.1Q tags on the frames of a TAP server, \<open>vlan.c\<close>: reading and writing the VLAN
  identifier of a header, removing the tag of an incoming frame and adding one to an outgoing
  frame. A frame is dropped by setting its length to zero. The fields of the context the code
  reads are the arguments \<open>vlan_accept\<close> and \<open>vlan_pvid\<close>.
\<close>

section \<open>Operations\<close>

datatype vlan_acceptable_frames = VLAN_ONLY_TAGGED | VLAN_ONLY_UNTAGGED_OR_PRIORITY | VLAN_ALL

definition vlanhdr_get_vid :: "u8 list \<Rightarrow> u16" where
  "vlanhdr_get_vid hdr = htons (raw16 hdr 14 AND OPENVPN_8021Q_MASK_VID)"

definition vlanhdr_set_vid :: "buffer \<Rightarrow> u16 \<Rightarrow> buffer" where
  "vlanhdr_set_vid buf vid =
     buf_set buf 14 (raw16_bytes ((raw16 (buf_bytes buf) 14 AND NOT OPENVPN_8021Q_MASK_VID)
                                  OR (htons vid AND OPENVPN_8021Q_MASK_VID)))"

definition drop_frame :: "buffer \<Rightarrow> buffer" where
  "drop_frame buf = buf\<lparr>b_len := 0\<rparr>"

definition vlan_strip_tag :: "buffer \<Rightarrow> buffer" where
  "vlan_strip_tag buf =
     (let hdr = buf_bytes buf;
          proto = raw16 hdr 16;
          b1 = snd (buf_advance buf SIZE_ETH_TO_8021Q_HDR);
          b2 = buf_set b1 0 (memget hdr 0 (nat sizeof_ethhdr))
      in buf_set b2 12 (raw16_bytes proto))"

definition vlan_decapsulate ::
    "vlan_acceptable_frames \<Rightarrow> u16 \<Rightarrow> buffer \<Rightarrow> int \<times> buffer" where
  "vlan_decapsulate vlan_accept vlan_pvid buf =
     (if buf_len buf < sizeof_ethhdr then (-1, drop_frame buf)
      else if raw16 (buf_bytes buf) 12 \<noteq> htons OPENVPN_ETH_P_8021Q
      then (if vlan_accept = VLAN_ONLY_TAGGED then (-1, drop_frame buf) else (sint vlan_pvid, buf))
      else if buf_len buf < sizeof_8021qhdr then (-1, drop_frame buf)
      else (let vid = vlanhdr_get_vid (buf_bytes buf)
            in if vlan_accept = VLAN_ONLY_UNTAGGED_OR_PRIORITY \<and> vid \<noteq> 0 then (-1, drop_frame buf)
               else if vid = 0 then (sint vlan_pvid, buf)
               else (sint vid, vlan_strip_tag buf)))"

definition vlan_add_tag :: "buffer \<Rightarrow> buffer" where
  "vlan_add_tag buf =
     (let hdr = buf_bytes buf;
          proto = raw16 hdr 12;
          b1 = snd (buf_prepend buf SIZE_ETH_TO_8021Q_HDR);
          b2 = buf_set b1 0 (memget hdr 0 (nat sizeof_ethhdr));
          b3 = buf_set b2 12 (raw16_bytes (htons OPENVPN_ETH_P_8021Q));
          b4 = buf_set b3 14 (raw16_bytes 0)
      in buf_set b4 16 (raw16_bytes proto))"

definition vlan_encapsulate :: "u16 \<Rightarrow> buffer \<Rightarrow> buffer" where
  "vlan_encapsulate vlan_pvid buf =
     (if buf_len buf < sizeof_ethhdr then drop_frame buf
      else if raw16 (buf_bytes buf) 12 = htons OPENVPN_ETH_P_8021Q
      then (if buf_len buf < sizeof_8021qhdr then drop_frame buf
            else if vlanhdr_get_vid (buf_bytes buf) \<noteq> 0 then drop_frame buf
            else vlanhdr_set_vid buf vlan_pvid)
      else if buf_reverse_capacity buf < SIZE_ETH_TO_8021Q_HDR then drop_frame buf
      else vlanhdr_set_vid (vlan_add_tag buf) vlan_pvid)"

definition vlan_is_tagged :: "buffer \<Rightarrow> bool" where
  "vlan_is_tagged buf =
     (if buf_len buf < sizeof_8021qhdr then False
      else if htons (raw16 (buf_bytes buf) 12) \<noteq> OPENVPN_ETH_P_8021Q then False
      else vlanhdr_get_vid (buf_bytes buf) \<noteq> 0)"

text \<open>The port has its own identifier \<open>m_pvid\<close>, the client the identifier \<open>mi_pvid\<close>.\<close>

definition vlan_process_outgoing_tun ::
    "bool \<Rightarrow> vlan_acceptable_frames \<Rightarrow> u16 \<Rightarrow> u16 \<Rightarrow> buffer \<Rightarrow> buffer" where
  "vlan_process_outgoing_tun vlan_tagging vlan_accept m_pvid mi_pvid to_tun =
     (if \<not> vlan_tagging then to_tun
      else if vlan_accept = VLAN_ONLY_UNTAGGED_OR_PRIORITY
      then (if m_pvid \<noteq> mi_pvid then drop_frame to_tun else to_tun)
      else if vlan_accept = VLAN_ALL
      then (if m_pvid \<noteq> mi_pvid then vlan_encapsulate mi_pvid to_tun else to_tun)
      else vlan_encapsulate mi_pvid to_tun)"

section \<open>Lemmas\<close>

lemma get_set_vid:
  "htons (((w :: u16) AND NOT OPENVPN_8021Q_MASK_VID OR (htons v AND OPENVPN_8021Q_MASK_VID)) AND OPENVPN_8021Q_MASK_VID)
    = v AND 0x0FFF"
proof -
  have h: "htons (x AND y) = htons x AND htons y" for x y
    by (rule bit_word_eqI, auto simp: htons_def bit_simps) (auto dest!: bit_imp_le_length)
  have "((w AND NOT m) OR (x AND m)) AND m = x AND m" for m x :: u16
    by (rule bit_word_eqI) (auto simp: bit_simps)
  then show ?thesis by (simp add: h OPENVPN_8021Q_MASK_VID_def)
qed

lemma raw16_bytes_raw16: "raw16_bytes (raw16 bs k) = [bs ! k, bs ! (k + 1)]"
  by (auto intro!: bit_word_eqI simp: raw16_bytes_def raw16_def bit_simps)

lemma raw16_append: "k + 1 < length xs \<Longrightarrow> raw16 (xs @ ys) k = raw16 xs k"
  by (simp add: raw16_def nth_append)

text \<open>The bytes of an Ethernet frame: addresses, type, payload.\<close>

lemma frame_split:
  assumes "14 \<le> length bs"
  obtains a t p where "bs = a @ t @ p" "length a = 12" "length t = 2"
proof (rule that)
  show "bs = take 12 bs @ take 2 (drop 12 bs) @ drop 2 (drop 12 bs)"
    by (simp only: append_take_drop_id)
qed (use assms in simp_all)

lemma buf_prepend_bytes:
  assumes "buf_wf b" and "0 \<le> n" and "n \<le> b_offset b"
  obtains junk where "buf_wf (snd (buf_prepend b n))" "length junk = nat n"
    "buf_bytes (snd (buf_prepend b n)) = junk @ buf_bytes b"
    "b_offset (snd (buf_prepend b n)) = b_offset b - n" "b_len (snd (buf_prepend b n)) = b_len b + n"
proof -
  note f = buf_wf_facts [OF assms(1)]
  obtain d where d: "b_data b = Some d" "int (length d) = b_capacity b"
    using assms(1) by (auto elim: buf_wfE)
  let ?b = "b\<lparr>b_offset := b_offset b - n, b_len := b_len b + n\<rparr>"
  let ?junk = "memget d (nat (b_offset b - n)) (nat n)"
  have eq: "snd (buf_prepend b n) = ?b" using assms f by (simp add: buf_prepend_def Let_def)
  have wf: "buf_wf ?b" using assms f d by (simp add: buf_wf_def)
  have "nat (b_len b + n) = nat n + nat (b_len b)" "nat (b_offset b - n) + nat n = nat (b_offset b)"
    using assms f by linarith+
  then have "buf_bytes ?b = ?junk @ buf_bytes b"
    using wf f d by (simp add: buf_bytes_def buf_wf_facts buf_mem_def memget_append)
  moreover have "length ?junk = nat n" using assms f d by (intro length_memget) linarith
  ultimately show thesis using wf by (intro that [of ?junk]) (simp_all add: eq)
qed

lemma vlan_add_tag_bytes:
  assumes "buf_wf b" and "buf_bytes b = a @ t @ p" "length a = 12" "length t = 2" and "4 \<le> b_offset b"
  shows "buf_wf (vlan_add_tag b)" and "buf_bytes (vlan_add_tag b) = a @ [0x81, 0] @ [0, 0] @ t @ p"
    and "b_offset (vlan_add_tag b) = b_offset b - 4"
proof -
  obtain junk where j: "buf_wf (snd (buf_prepend b 4))" "length junk = 4"
    "buf_bytes (snd (buf_prepend b 4)) = junk @ a @ t @ p" "b_offset (snd (buf_prepend b 4)) = b_offset b - 4"
    "b_len (snd (buf_prepend b 4)) = b_len b + 4"
    using buf_prepend_bytes [OF assms(1), of 4] assms(2,5) by auto
  have len: "b_len b = 14 + int (length p)"
    using length_buf_bytes_int [OF assms(1)] assms(2-4) by simp
  obtain t0 t1 where t: "t = [t0, t1]" using assms(4) by (auto simp: length_Suc_conv numeral_2_eq_2)
  define b1 where "b1 = snd (buf_prepend b 4)"
  define b2 where "b2 = buf_set b1 0 (a @ t)"
  define b3 where "b3 = buf_set b2 12 (raw16_bytes (htons OPENVPN_ETH_P_8021Q))"
  define b4 where "b4 = buf_set b3 14 (raw16_bytes 0)"
  define b5 where "b5 = buf_set b4 16 t"
  have l: "b_len b1 = 18 + int (length p)" "b_len b2 = 18 + int (length p)" "b_len b3 = 18 + int (length p)"
    "b_len b4 = 18 + int (length p)"
    using j(5) len by (simp_all add: b1_def b2_def b3_def b4_def)
  have wf: "buf_wf b1" "buf_wf b2" "buf_wf b3" "buf_wf b4" "buf_wf b5"
    using j(1) l assms(3,4) by (simp_all add: b1_def b2_def b3_def b4_def b5_def buf_set_wf)
  have tag: "raw16_bytes (htons OPENVPN_ETH_P_8021Q) = [0x81, 0]" "raw16_bytes 0 = [0, 0]"
    unfolding raw16_bytes_htons by (simp_all add: u16_bytes_def OPENVPN_ETH_P_8021Q_def raw16_bytes_def)
  have "buf_bytes b2 = memput (junk @ a @ t @ p) 0 (a @ t)"
    using wf(1) l(1) assms(3,4) j(3) by (simp add: b2_def buf_set_bytes b1_def [symmetric])
  also have "\<dots> = a @ t @ drop 14 (junk @ a @ t @ p)"
    using assms(3,4) by (simp add: memput_def)
  finally have c2: "buf_bytes b2 = a @ t @ drop 10 a @ t @ p"
    using assms(3,4) j(2) by simp
  have c3: "buf_bytes b3 = a @ [0x81, 0] @ drop 10 a @ t @ p"
    using wf(2) l(2) assms(3,4) by (simp add: b3_def buf_set_bytes tag c2 memput_append)
  have c4: "buf_bytes b4 = a @ [0x81, 0] @ [0, 0] @ t @ p"
  proof -
    have "buf_bytes b4 = memput ((a @ [0x81, 0]) @ drop 10 a @ t @ p) 14 [0, 0]"
      using wf(3) l(3) by (simp add: b4_def buf_set_bytes tag c3)
    also have "\<dots> = (a @ [0x81, 0]) @ [0, 0] @ t @ p"
      by (rule memput_append) (use assms(3) in auto)
    finally show ?thesis by simp
  qed
  have c5: "buf_bytes b5 = a @ [0x81, 0] @ [0, 0] @ t @ p"
  proof -
    have "buf_bytes b5 = memput ((a @ [0x81, 0] @ [0, 0]) @ t @ p) 16 t"
      using wf(4) l(4) assms(4) by (simp add: b5_def buf_set_bytes c4)
    also have "\<dots> = (a @ [0x81, 0] @ [0, 0]) @ t @ p"
      by (rule memput_append) (use assms(3) in auto)
    finally show ?thesis by simp
  qed
  have "memget (buf_bytes b) 0 14 = a @ t" using assms(2-4) by (simp add: memget_def)
  moreover have "raw16_bytes (raw16 (buf_bytes b) 12) = t"
    using assms(2,3) t by (simp add: raw16_bytes_raw16 nth_append)
  ultimately have "vlan_add_tag b = b5"
    by (simp add: vlan_add_tag_def Let_def proto_consts b1_def b2_def b3_def b4_def b5_def)
  then show "buf_wf (vlan_add_tag b)" "buf_bytes (vlan_add_tag b) = a @ [0x81, 0] @ [0, 0] @ t @ p"
    "b_offset (vlan_add_tag b) = b_offset b - 4"
    using wf(5) c5 j(4) by (simp_all add: b1_def b2_def b3_def b4_def b5_def)
qed

lemma tag_type: "raw16 (a @ [0x81, 0] @ r) 12 = htons OPENVPN_ETH_P_8021Q" if "length a = 12"
  using that by (simp add: raw16_def nth_append) (simp add: htons_def OPENVPN_ETH_P_8021Q_def push_bit_eq_mult)

lemma set_vid_bytes:
  assumes "buf_wf b" and "buf_bytes b = a @ [0x81, 0] @ [c0, c1] @ r" and "length a = 12"
  obtains d0 d1 where "buf_wf (vlanhdr_set_vid b v)"
    "buf_bytes (vlanhdr_set_vid b v) = a @ [0x81, 0] @ [d0, d1] @ r"
    "vlanhdr_get_vid (buf_bytes (vlanhdr_set_vid b v)) = v AND 0x0FFF"
proof -
  let ?w = "(raw16 (buf_bytes b) 14 AND NOT OPENVPN_8021Q_MASK_VID) OR (htons v AND OPENVPN_8021Q_MASK_VID)"
  let ?s = "vlanhdr_set_vid b v"
  obtain d0 d1 where d: "raw16_bytes ?w = [d0, d1]" by (simp add: raw16_bytes_def)
  have len: "int (14 + length (raw16_bytes ?w)) \<le> b_len b"
    using length_buf_bytes_int [OF assms(1)] assms(2,3) by simp
  have wf: "buf_wf ?s" unfolding vlanhdr_set_vid_def by (rule buf_set_wf [OF assms(1) len])
  have "buf_bytes ?s = memput (buf_bytes b) 14 (raw16_bytes ?w)"
    unfolding vlanhdr_set_vid_def by (rule buf_set_bytes [OF assms(1) len])
  also have "\<dots> = memput ((a @ [0x81, 0]) @ [c0, c1] @ r) 14 [d0, d1]"
    unfolding d unfolding assms(2) by simp
  also have "\<dots> = (a @ [0x81, 0]) @ [d0, d1] @ r"
    by (rule memput_append) (use assms(3) in auto)
  finally have c: "buf_bytes ?s = a @ [0x81, 0] @ [d0, d1] @ r" by simp
  have "raw16 (buf_bytes ?s) 14 = raw16 (raw16_bytes ?w) 0"
    unfolding c d using assms(3) by (simp add: raw16_def nth_append)
  then have "vlanhdr_get_vid (buf_bytes ?s) = v AND 0x0FFF"
    unfolding vlanhdr_get_vid_def by (simp only: raw16_of_bytes get_set_vid)
  with wf c show thesis by (rule that)
qed

lemma vlan_strip_tag_bytes:
  assumes "buf_wf b" and "buf_bytes b = a @ g @ t @ p" "length a = 12" "length g = 4" "length t = 2"
  shows "buf_wf (vlan_strip_tag b)" and "buf_bytes (vlan_strip_tag b) = a @ t @ p"
proof -
  obtain t0 t1 where t: "t = [t0, t1]" using assms(5) by (auto simp: length_Suc_conv numeral_2_eq_2)
  have len: "b_len b = 18 + int (length p)"
    using length_buf_bytes_int [OF assms(1)] assms(2-5) by simp
  define b1 where "b1 = buf_skip b 4"
  have b1: "buf_advance b 4 = (True, b1)" "buf_wf b1" "b_len b1 = 14 + int (length p)"
    using assms(1) len by (simp_all add: buf_advance_eq b1_def buf_skip_wf)
  have c1: "buf_bytes b1 = drop 4 a @ g @ t @ p"
    using assms(1,2,3) len by (simp add: b1_def buf_skip_bytes)
  define b2 where "b2 = buf_set b1 0 (a @ take 2 g)"
  have b2: "buf_wf b2" "b_len b2 = 14 + int (length p)"
    using b1 assms(3,4) by (simp_all add: b2_def buf_set_wf)
  have c2: "buf_bytes b2 = a @ take 2 g @ p"
    using b1(2,3) assms(3,4,5) by (simp add: b2_def buf_set_bytes c1) (simp add: memput_def)
  define b3 where "b3 = buf_set b2 12 t"
  have b3: "buf_wf b3" "buf_bytes b3 = a @ t @ p"
    using b2 assms(3,4,5) by (simp_all add: b3_def buf_set_wf buf_set_bytes c2 memput_append)
  have m: "memget (buf_bytes b) 0 14 = a @ take 2 g" using assms(2-4) by (simp add: memget_def)
  have r: "raw16_bytes (raw16 (buf_bytes b) 16) = t"
    using assms(2-4) t by (simp add: raw16_bytes_raw16 nth_append)
  have "vlan_strip_tag b = b3"
    using b1(1) m r by (simp add: vlan_strip_tag_def Let_def proto_consts b3_def b2_def)
  with b3 show "buf_wf (vlan_strip_tag b)" "buf_bytes (vlan_strip_tag b) = a @ t @ p" by simp_all
qed

section \<open>Properties\<close>

text \<open>
  Tagging an untagged frame for a VLAN and removing the tag gives back the VLAN identifier
  and the frame, byte for byte; in between the frame counts as tagged, and a port that accepts
  only untagged frames drops it.
\<close>

theorem vlan_tag_roundtrip:
  assumes "buf_wf b" and "buf_bytes b = a @ t @ p" "length a = 12" "length t = 2"
    and "raw16 t 0 \<noteq> htons OPENVPN_ETH_P_8021Q" and "4 \<le> b_offset b" and "vid \<noteq> 0" and "vid AND 0x0FFF = vid"
    and "accept \<noteq> VLAN_ONLY_UNTAGGED_OR_PRIORITY"
  shows "vlan_is_tagged (vlan_encapsulate vid b)
    \<and> (\<exists>b'. vlan_decapsulate accept pvid (vlan_encapsulate vid b) = (sint vid, b') \<and> buf_bytes b' = a @ t @ p)
    \<and> fst (vlan_decapsulate VLAN_ONLY_UNTAGGED_OR_PRIORITY pvid (vlan_encapsulate vid b)) = -1"
proof -
  note f = buf_wf_facts [OF assms(1)]
  have len: "buf_len b = 14 + int (length p)"
    using length_buf_bytes_int [OF assms(1)] assms(2-4) f by simp
  have "raw16 (buf_bytes b) 12 = raw16 t 0"
    using assms(2-4) by (simp add: raw16_def nth_append)
  with assms(5,6) len f have enc: "vlan_encapsulate vid b = vlanhdr_set_vid (vlan_add_tag b) vid"
    by (simp add: vlan_encapsulate_def proto_consts(3-) buf_reverse_capacity_def)
  note tag = vlan_add_tag_bytes [OF assms(1-4,6)]
  obtain d0 d1 where e: "buf_wf (vlan_encapsulate vid b)"
    "buf_bytes (vlan_encapsulate vid b) = a @ [0x81, 0] @ [d0, d1] @ t @ p"
    "vlanhdr_get_vid (buf_bytes (vlan_encapsulate vid b)) = vid"
    using set_vid_bytes [OF tag(1,2) assms(3), of vid] unfolding enc assms(8) by blast
  have el: "buf_len (vlan_encapsulate vid b) = 18 + int (length p)"
    using length_buf_bytes_int [OF e(1)] e(2) assms(3,4) buf_wf_facts(3) [OF e(1)] by simp
  have ty: "raw16 (buf_bytes (vlan_encapsulate vid b)) 12 = htons OPENVPN_ETH_P_8021Q"
    unfolding e(2) by (rule tag_type [OF assms(3)])
  have "buf_bytes (vlan_encapsulate vid b) = a @ ([0x81, 0] @ [d0, d1]) @ t @ p" using e(2) by simp
  from vlan_strip_tag_bytes(2) [OF e(1) this assms(3) _ assms(4)]
  have "buf_bytes (vlan_strip_tag (vlan_encapsulate vid b)) = a @ t @ p" by simp
  then show ?thesis
    using el ty e(3) assms(7,9)
    by (simp add: vlan_is_tagged_def vlan_decapsulate_def sizeof_ethhdr_def sizeof_8021qhdr_def Let_def)
qed

definition demo_eth :: buffer where
  "demo_eth = \<lparr>b_capacity = 20, b_offset = 4, b_len = 16, b_data = Some (replicate 16 1 @ [8, 0, 5, 6])\<rparr>"

theorem vlan_tag_roundtrip_witness:
  "\<exists>b'. vlan_decapsulate VLAN_ALL 1 (vlan_encapsulate 100 demo_eth) = (100, b')
     \<and> buf_bytes b' = replicate 12 1 @ [8, 0] @ [5, 6]"
proof -
  have "buf_wf demo_eth" by (simp add: demo_eth_def buf_wf_def BUF_SIZE_MAX_def)
  moreover have "buf_bytes demo_eth = replicate 12 1 @ [8, 0] @ [5, 6]" by code_simp
  moreover have "raw16 [8, 0] 0 \<noteq> htons OPENVPN_ETH_P_8021Q" by code_simp
  moreover have "b_offset demo_eth = 4" by (simp add: demo_eth_def)
  moreover have "sint (100 :: u16) = 100" by code_simp
  ultimately show ?thesis
    using vlan_tag_roundtrip [of demo_eth "replicate 12 1" "[8, 0]" "[5, 6]" 100 VLAN_ALL 1] by simp
qed

end
