(* ===== verification/ClientNat.thy ===== *)
theory ClientNat
  imports Proto
begin

text \<open>
  Client NAT, \<open>clinat.c\<close>: a list of one-to-one address rules applied to the source and
  destination addresses of an IPv4 packet, with the incremental update of the IP, TCP and UDP
  checksums. Addresses are in network order, as in the packet.
\<close>

section \<open>The rules\<close>

definition MAX_CLIENT_NAT :: nat where "MAX_CLIENT_NAT = 64"
definition CN_OUTGOING :: nat where "CN_OUTGOING = 0"
definition CN_INCOMING :: nat where "CN_INCOMING = 1"
definition CN_SNAT :: nat where "CN_SNAT = 0"
definition CN_DNAT :: nat where "CN_DNAT = 1"

lemmas cn_consts = MAX_CLIENT_NAT_def CN_OUTGOING_def CN_INCOMING_def CN_SNAT_def CN_DNAT_def

record client_nat_entry =
  cn_type :: nat
  cn_network :: u32
  cn_netmask :: u32
  cn_foreign_network :: u32

type_synonym client_nat_option_list = "client_nat_entry list"

definition add_entry :: "client_nat_option_list \<Rightarrow> client_nat_entry \<Rightarrow> bool \<times> client_nat_option_list" where
  "add_entry dest e = (if length dest \<ge> MAX_CLIENT_NAT then (False, dest) else (True, dest @ [e]))"

definition new_client_nat_list :: client_nat_option_list where
  "new_client_nat_list = []"

definition clone_client_nat_option_list :: "client_nat_option_list \<Rightarrow> client_nat_option_list" where
  "clone_client_nat_option_list src = src"

fun copy_client_nat_option_list ::
    "client_nat_option_list \<Rightarrow> client_nat_option_list \<Rightarrow> client_nat_option_list" where
  "copy_client_nat_option_list dest [] = dest"
| "copy_client_nat_option_list dest (e # src) =
     (case add_entry dest e of
        (False, d) \<Rightarrow> d
      | (True, d) \<Rightarrow> copy_client_nat_option_list d src)"

text \<open>\<open>getaddr\<close> resolves a name to an address or fails.\<close>

definition add_client_nat_to_option_list ::
    "(string \<Rightarrow> u32 option) \<Rightarrow> client_nat_option_list \<Rightarrow> string \<Rightarrow> string \<Rightarrow> string \<Rightarrow> string
       \<Rightarrow> client_nat_option_list" where
  "add_client_nat_to_option_list getaddr dest ty network netmask foreign_network =
     (case (if ty = ''snat'' then Some CN_SNAT else if ty = ''dnat'' then Some CN_DNAT else None) of
        None \<Rightarrow> dest
      | Some t \<Rightarrow>
          (case getaddr network of
             None \<Rightarrow> dest
           | Some nw \<Rightarrow>
               (case getaddr netmask of
                  None \<Rightarrow> dest
                | Some nm \<Rightarrow>
                    (case getaddr foreign_network of
                       None \<Rightarrow> dest
                     | Some fn \<Rightarrow>
                         snd (add_entry dest \<lparr>cn_type = t, cn_network = nw, cn_netmask = nm,
                                              cn_foreign_network = fn\<rparr>)))))"

section \<open>The transformation\<close>

text \<open>
  The loop over the rules: the bytes of the packet, the accumulated change of the checksum and
  the log of the addresses already modified.
\<close>

definition cn_rule :: "nat \<Rightarrow> client_nat_entry \<Rightarrow> u8 list \<times> int \<times> nat \<Rightarrow> u8 list \<times> int \<times> nat" where
  "cn_rule direction e s =
     (case s of
        (bs, accumulate, alog) \<Rightarrow>
          (let (addr_ptr, amask) = (if cn_type e XOR direction \<noteq> 0 then (16, 2) else (12, 1));
               addr = raw32 bs addr_ptr;
               (from, to) = (if direction \<noteq> 0 then (cn_foreign_network e, cn_network e)
                             else (cn_network e, cn_foreign_network e))
           in if addr AND cn_netmask e = from \<and> amask AND alog = 0
              then (let acc1 = add_checksum_32 accumulate addr;
                        addr1 = (addr AND NOT (cn_netmask e)) OR to;
                        acc2 = sub_checksum_32 acc1 addr1
                    in (memput bs addr_ptr (raw32_bytes addr1), acc2, alog OR amask))
              else (bs, accumulate, alog)))"

definition cn_checksums :: "int \<Rightarrow> int \<Rightarrow> u8 list \<Rightarrow> u8 list" where
  "cn_checksums blen accumulate bs =
     (let fix_at = (\<lambda>k xs. memput xs k (raw16_bytes (adjust_checksum accumulate (raw16 xs k))));
          bs1 = fix_at 10 bs
      in if bs ! 9 = OPENVPN_IPPROTO_TCP
         then (if blen \<ge> sizeof_iphdr + sizeof_tcphdr then fix_at 36 bs1 else bs1)
         else if bs ! 9 = OPENVPN_IPPROTO_UDP
         then (if blen \<ge> sizeof_iphdr + sizeof_udphdr then fix_at 26 bs1 else bs1)
         else bs1)"

definition cn_transform :: "client_nat_option_list \<Rightarrow> nat \<Rightarrow> int \<Rightarrow> u8 list \<Rightarrow> u8 list" where
  "cn_transform lst direction blen bs =
     (case foldl (\<lambda>s e. cn_rule direction e s) (bs, 0, 0) lst of
        (bs1, accumulate, alog) \<Rightarrow>
          if alog \<noteq> 0 then cn_checksums blen accumulate bs1 else bs1)"

text \<open>
  The code relies on the caller for the presence of the IP header; without it the accesses
  leave the content, which is the \<open>None\<close> case.
\<close>

definition client_nat_transform :: "client_nat_option_list \<Rightarrow> buffer \<Rightarrow> nat \<Rightarrow> buffer option" where
  "client_nat_transform lst ipbuf direction =
     (if buf_len ipbuf < sizeof_iphdr then None
      else Some (buf_set ipbuf 0 (cn_transform lst direction (buf_len ipbuf) (buf_bytes ipbuf))))"

section \<open>Lemmas\<close>

lemma raw32_of_raw32_bytes: "raw32 (xs @ raw32_bytes w @ ys) (length xs) = w"
proof (rule bit_word_eqI)
  fix n :: nat assume "n < LENGTH(32)"
  then consider "n < 8" | "8 \<le> n" "n < 16" | "16 \<le> n" "n < 24" | "24 \<le> n" "n < 32" by force
  then show "bit (raw32 (xs @ raw32_bytes w @ ys) (length xs)) n = bit w n"
    by cases (auto simp: raw32_def raw32_bytes_def nth_append bit_simps)
qed

lemma plus_3: "k + 3 = Suc (Suc (Suc k))"
  by simp

lemma low_half: "(w :: u32) AND 0xffff = take_bit 16 w"
  by (simp add: take_bit_eq_mask mask_eq_exp_minus_1)

lemma raw32_halves:
  "raw32 bs k AND 0xffff = ucast (raw16 bs k)" "drop_bit 16 (raw32 bs k) = ucast (raw16 bs (k + 2))"
proof -
  show "raw32 bs k AND 0xffff = ucast (raw16 bs k)"
    unfolding low_half
  proof (rule bit_word_eqI)
    fix n :: nat assume "n < LENGTH(32)"
    then consider "n < 8" | "8 \<le> n" "n < 16" | "16 \<le> n" by force
    then show "bit (take_bit 16 (raw32 bs k)) n = bit (ucast (raw16 bs k) :: u32) n"
      by cases (auto simp: raw32_def raw16_def bit_simps)
  qed
  show "drop_bit 16 (raw32 bs k) = ucast (raw16 bs (k + 2))"
  proof (rule bit_word_eqI)
    fix n :: nat assume "n < LENGTH(32)"
    then consider "n < 8" | "8 \<le> n" "n < 16" | "16 \<le> n" by force
    then show "bit (drop_bit 16 (raw32 bs k)) n = bit (ucast (raw16 bs (k + 2)) :: u32) n"
      by cases (auto simp: raw32_def raw16_def bit_simps plus_3)
  qed
qed

lemma uint_ucast_u16: "uint (ucast (w :: u16) :: u32) = uint w"
  by (rule bit_eqI, auto simp: bit_simps bit_uint_iff) (auto dest!: bit_imp_le_length)

lemma raw32_words: "raw32 (memput xs k (raw32_bytes w)) k = w" if "k + 4 \<le> length xs"
  using raw32_of_raw32_bytes [of "take k xs" w "drop (k + 4) xs"] that by (simp add: memput_def min_def)

lemma word_sum_raw32: "word_sum (memget xs k 4) = uint (raw32 xs k AND 0xffff) + uint (drop_bit 16 (raw32 xs k))"
  if "k + 4 \<le> length xs"
proof -
  have "memget xs k 4 = [xs ! k, xs ! (k + 1), xs ! (k + 2), xs ! (k + 3)]"
    using that by (intro nth_equalityI) (auto simp: nth_memget numeral_eq_Suc less_Suc_eq nth_Cons' add.commute)
  then show ?thesis
    unfolding raw32_halves uint_ucast_u16 uint_raw16 by (simp add: plus_3)
qed

lemma checksum_32: "add_checksum_32 acc w = acc + (uint (w AND 0xffff) + uint (drop_bit 16 w))"
  "sub_checksum_32 acc w = acc - (uint (w AND 0xffff) + uint (drop_bit 16 w))"
  by (simp_all add: add_checksum_32_def sub_checksum_32_def)

text \<open>The rules change the two addresses only, and log the change of their word sum.\<close>

definition cn_inv :: "u8 list \<Rightarrow> u8 list \<times> int \<times> nat \<Rightarrow> bool" where
  "cn_inv bs s = (case s of (cs, acc, alog) \<Rightarrow>
     length cs = length bs \<and> take 12 cs = take 12 bs \<and> drop 20 cs = drop 20 bs
     \<and> acc = word_sum (memget bs 12 8) - word_sum (memget cs 12 8) \<and> (alog = 0 \<longrightarrow> cs = bs))"

lemma memget_8: "12 + 8 \<le> length xs \<Longrightarrow> word_sum (memget xs 12 8) = word_sum (memget xs 12 4) + word_sum (memget xs 16 4)"
  using memget_append [of xs 12 4 4] by (simp add: word_sum_append)

lemma cn_rule_inv:
  assumes "cn_inv bs s" and "20 \<le> length bs"
  shows "cn_inv bs (cn_rule direction e s)"
proof -
  obtain cs acc alog where s: "s = (cs, acc, alog)" by (metis prod_cases3)
  have i: "length cs = length bs" "take 12 cs = take 12 bs" "drop 20 cs = drop 20 bs"
    "acc = word_sum (memget bs 12 8) - word_sum (memget cs 12 8)"
    using assms(1) by (simp_all add: cn_inv_def s)
  have step: "cn_inv bs (memput cs k (raw32_bytes w), sub_checksum_32 (add_checksum_32 acc (raw32 cs k)) w, l)"
    if k: "k = 12 \<or> k = 16" and l: "l \<noteq> 0" for k w l
  proof -
    let ?cs = "memput cs k (raw32_bytes w)"
    have len: "length ?cs = length bs" using i(1) assms(2) k by auto
    have "take 12 ?cs = take 12 bs" "drop 20 ?cs = drop 20 bs"
      using i assms(2) k by (auto simp: memput_def min_def drop_Cons')
    moreover have "word_sum (memget ?cs 12 8) = word_sum (memget cs 12 8)
        - (uint (raw32 cs k AND 0xffff) + uint (drop_bit 16 (raw32 cs k))) + (uint (w AND 0xffff) + uint (drop_bit 16 w))"
      using k
    proof
      assume k12: "k = 12"
      have "memget ?cs 16 4 = memget cs 16 4" unfolding k12 using i(1) assms(2) by (intro memget_memput_after) auto
      moreover have "word_sum (memget ?cs 12 4) = uint (w AND 0xffff) + uint (drop_bit 16 w)"
        using i(1) assms(2) len by (subst word_sum_raw32) (simp_all add: k12 raw32_words)
      ultimately show ?thesis
        using i(1) assms(2) len word_sum_raw32 [of 12 cs] by (simp add: memget_8 k12)
    next
      assume k16: "k = 16"
      have "memget ?cs 12 4 = memget cs 12 4" unfolding k16 using i(1) assms(2) by (intro memget_memput_before) auto
      moreover have "word_sum (memget ?cs 16 4) = uint (w AND 0xffff) + uint (drop_bit 16 w)"
        using i(1) assms(2) len by (subst word_sum_raw32) (simp_all add: k16 raw32_words)
      ultimately show ?thesis
        using i(1) assms(2) len word_sum_raw32 [of 16 cs] by (simp add: memget_8 k16)
    qed
    ultimately show ?thesis using len i(4) l by (simp add: cn_inv_def checksum_32)
  qed
  show ?thesis
    using step [of 12 "alog OR 1"] step [of 16 "alog OR 2"] assms(1)
    by (auto simp: cn_rule_def s Let_def or_eq_0_iff split: prod.splits)
qed

lemma cn_rules_inv:
  "cn_inv bs s \<Longrightarrow> 20 \<le> length bs \<Longrightarrow> cn_inv bs (foldl (\<lambda>s e. cn_rule direction e s) s lst)"
  by (induction lst arbitrary: s) (simp_all add: cn_rule_inv)

lemma header_sum:
  assumes "20 \<le> length xs"
  shows "word_sum (take 20 xs) = word_sum (take 12 xs) + word_sum (memget xs 12 8)"
proof -
  have "take 20 xs = take 12 xs @ memget xs 12 8" using take_add [of 12 8 xs] by (simp add: memget_def)
  then show ?thesis using assms by (simp add: word_sum_append)
qed

lemma word_sum_8_bound: "length xs = 8 \<Longrightarrow> 0 \<le> word_sum xs \<and> word_sum xs \<le> 262140"
proof -
  have b: "0 \<le> word_sum ys \<and> word_sum ys \<le> 65535 * int ((length ys + 1) div 2)" for ys
  proof (induction ys rule: word_sum.induct)
    case (2 a)
    then show ?case using uint_u8_bound [of a] by simp
  next
    case (3 a b bs)
    then show ?case using uint_u8_bound [of a] uint_u8_bound [of b] by simp
  qed simp
  show "length xs = 8 \<Longrightarrow> ?thesis" using b [of xs] by simp
qed

lemma cn_acc_bound:
  assumes "cn_inv bs (cs, acc, alog)" and "20 \<le> length bs"
  shows "\<bar>acc\<bar> < 2 ^ 30"
proof -
  have "length cs = length bs" and acc: "acc = word_sum (memget bs 12 8) - word_sum (memget cs 12 8)"
    using assms(1) by (simp_all add: cn_inv_def)
  then have l: "length (memget bs 12 8) = 8" "length (memget cs 12 8) = 8" using assms(2) by simp_all
  have "\<bar>acc\<bar> < 1073741824"
    using word_sum_8_bound [OF l(1)] word_sum_8_bound [OF l(2)] unfolding acc by linarith
  then show ?thesis by simp
qed

section \<open>Properties\<close>

lemma cn_transform_cases:
  assumes "20 \<le> length bs"
  obtains cs acc alog where "foldl (\<lambda>s e. cn_rule direction e s) (bs, 0, 0) lst = (cs, acc, alog)"
    "cn_inv bs (cs, acc, alog)" "\<bar>acc\<bar> < 2 ^ 30"
    "cn_transform lst direction n bs = (if alog = 0 then bs else cn_checksums n acc cs)"
proof -
  obtain cs acc alog where f: "foldl (\<lambda>s e. cn_rule direction e s) (bs, 0, 0) lst = (cs, acc, alog)"
    by (metis prod_cases3)
  have "cn_inv bs (bs, 0, 0)" by (simp add: cn_inv_def)
  from cn_rules_inv [OF this assms] f have i: "cn_inv bs (cs, acc, alog)" by metis
  from cn_acc_bound [OF i assms] i f show thesis
    by (intro that [of cs acc alog]) (auto simp: cn_transform_def cn_inv_def)
qed

lemma drop_memput: "k \<le> i \<Longrightarrow> i + length ys \<le> length xs \<Longrightarrow> drop k (memput xs i ys) = memput (drop k xs) (i - k) ys"
  by (simp add: memput_def drop_take)

lemma take_memput: "i + length ys \<le> k \<Longrightarrow> k \<le> length xs \<Longrightarrow> take k (memput xs i ys) = memput (take k xs) i ys"
  by (simp add: memput_def min_absorb1 min_absorb2 drop_take)

lemma take_memput_before: "k \<le> i \<Longrightarrow> i \<le> length xs \<Longrightarrow> take k (memput xs i ys) = take k xs"
  by (simp add: memput_def min_def)

lemma drop_memput_after: "i + length ys \<le> k \<Longrightarrow> k \<le> length xs \<Longrightarrow> drop k (memput xs i ys) = drop k xs"
  by (simp add: memput_def min_absorb1 min_absorb2)

text \<open>
  C38: Client NAT keeps the checksums of a packet right. Whatever the rules, the ones'
  complement sum of the IP header is unchanged, so a valid header checksum stays valid; and for
  a TCP or UDP packet without IP options the sum of the pseudo header and the segment is
  unchanged too.
\<close>

theorem client_nat_checksums:
  assumes "20 \<le> length bs" and "n = int (length bs)" and out_def: "out = cn_transform lst direction n bs"
  shows "length out = length bs \<and> word_sum (take 20 out) mod 65535 = word_sum (take 20 bs) mod 65535
    \<and> (bs ! 9 = OPENVPN_IPPROTO_TCP \<and> 40 \<le> length bs \<or> bs ! 9 = OPENVPN_IPPROTO_UDP \<and> 28 \<le> length bs \<longrightarrow>
        (word_sum (memget out 12 8) + word_sum (drop 20 out)) mod 65535
          = (word_sum (memget bs 12 8) + word_sum (drop 20 bs)) mod 65535)"
proof -
  obtain cs acc alog where f: "cn_inv bs (cs, acc, alog)" "\<bar>acc\<bar> < 2 ^ 30"
    "out = (if alog = 0 then bs else cn_checksums n acc cs)"
    unfolding out_def by (rule cn_transform_cases [OF assms(1)])
  show ?thesis
  proof (cases "alog = 0")
    case True
    with f(3) show ?thesis by simp
  next
    case False
    have i: "length cs = length bs" "take 12 cs = take 12 bs" "drop 20 cs = drop 20 bs"
      "acc = word_sum (memget bs 12 8) - word_sum (memget cs 12 8)"
      using f(1) by (simp_all add: cn_inv_def)
    let ?fix = "\<lambda>k xs. memput xs k (raw16_bytes (adjust_checksum acc (raw16 xs k)))"
    have l1: "length (?fix 10 cs) = length bs" using i(1) assms(1) by simp
    have "take 12 cs ! 9 = cs ! 9" "take 12 bs ! 9 = bs ! 9" by simp_all
    with i(2) have p9: "cs ! 9 = bs ! 9" by simp
    have raw_take: "raw16 (take 20 cs) 10 = raw16 cs 10" by (simp add: raw16_def)
    have raw_drop: "raw16 (drop 20 xs) (k - 20) = raw16 xs k" if "20 \<le> k" "k + 1 < length xs" for xs :: "u8 list" and k
      using that by (simp add: raw16_def Suc_diff_le)
    have t20: "word_sum (take 20 (?fix 10 cs)) mod 65535 = word_sum (take 20 bs) mod 65535"
    proof -
      have "take 20 (?fix 10 cs) = memput (take 20 cs) 10 (raw16_bytes (adjust_checksum acc (raw16 (take 20 cs) 10)))"
        unfolding raw_take using i(1) assms(1) by (intro take_memput) simp_all
      then have "word_sum (take 20 (?fix 10 cs)) mod 65535 = (word_sum (take 20 cs) + acc) mod 65535"
        using fix_sum [OF _ _ f(2), of 10 "take 20 cs"] i(1) assms(1) by simp
      also have "word_sum (take 20 cs) + acc = word_sum (take 20 bs)"
        using header_sum [of cs] header_sum [of bs] i assms(1) by simp
      finally show ?thesis .
    qed
    have fixed: "length (?fix k (?fix 10 cs)) = length bs
      \<and> take 20 (?fix k (?fix 10 cs)) = take 20 (?fix 10 cs)
      \<and> (word_sum (memget (?fix k (?fix 10 cs)) 12 8) + word_sum (drop 20 (?fix k (?fix 10 cs)))) mod 65535
        = (word_sum (memget bs 12 8) + word_sum (drop 20 bs)) mod 65535"
      if k: "k = 36 \<and> 40 \<le> length bs \<or> k = 26 \<and> 28 \<le> length bs" for k
    proof -
      let ?y = "?fix 10 cs"
      have kk: "20 \<le> k" "even k" "k + 2 \<le> length bs" using k by auto
      have d: "drop 20 ?y = drop 20 bs" using i(1,3) assms(1) by (simp add: drop_memput_after)
      have m: "memget (?fix k ?y) 12 8 = memget cs 12 8"
        using kk i(1) assms(1) l1 by (simp add: memget_memput_before memget_memput_after)
      have "drop 20 (?fix k ?y) = memput (drop 20 ?y) (k - 20) (raw16_bytes (adjust_checksum acc (raw16 (drop 20 ?y) (k - 20))))"
        using kk l1 raw_drop [of k ?y] by (simp add: drop_memput)
      then have "drop 20 (?fix k ?y) = memput (drop 20 bs) (k - 20) (raw16_bytes (adjust_checksum acc (raw16 (drop 20 bs) (k - 20))))"
        by (simp only: d)
      then have "word_sum (drop 20 (?fix k ?y)) mod 65535 = (word_sum (drop 20 bs) + acc) mod 65535"
        using fix_sum [OF _ _ f(2), of "k - 20" "drop 20 bs"] kk by simp
      then have "(word_sum (memget cs 12 8) + word_sum (drop 20 (?fix k ?y))) mod 65535
          = (word_sum (memget cs 12 8) + (word_sum (drop 20 bs) + acc)) mod 65535"
        by (metis mod_add_right_eq)
      moreover have "word_sum (memget cs 12 8) + (word_sum (drop 20 bs) + acc)
          = word_sum (memget bs 12 8) + word_sum (drop 20 bs)" using i(4) by simp
      moreover have "take 20 (?fix k ?y) = take 20 ?y" using kk l1 by (intro take_memput_before) simp_all
      moreover have "length (?fix k ?y) = length bs" using kk l1 by simp
      ultimately show ?thesis unfolding m by presburger
    qed
    have tcp: "n \<ge> 40 \<longleftrightarrow> 40 \<le> length bs" and udp: "n \<ge> 28 \<longleftrightarrow> 28 \<le> length bs" using assms(2) by auto
    have "out = (if bs ! 9 = OPENVPN_IPPROTO_TCP then (if 40 \<le> length bs then ?fix 36 (?fix 10 cs) else ?fix 10 cs)
       else if bs ! 9 = OPENVPN_IPPROTO_UDP then (if 28 \<le> length bs then ?fix 26 (?fix 10 cs) else ?fix 10 cs)
       else ?fix 10 cs)"
      using f(3) False tcp udp by (simp only: cn_checksums_def Let_def p9 sizeof_iphdr_def sizeof_tcphdr_def
          sizeof_udphdr_def if_False) simp
    then show ?thesis
      using fixed [of 36] fixed [of 26] l1 t20 by (auto simp: OPENVPN_IPPROTO_TCP_def OPENVPN_IPPROTO_UDP_def)
  qed
qed

definition demo_udp :: "u8 list" where
  "demo_udp = [0x45, 0, 0, 28, 0, 0, 0, 0, 64, 17, 0, 0, 10, 0, 0, 5, 8, 8, 8, 8, 0, 53, 0, 53, 0, 8, 0, 0]"

definition demo_rule :: client_nat_entry where
  "demo_rule = \<lparr>cn_type = CN_SNAT, cn_network = 0x0a, cn_netmask = 0xff, cn_foreign_network = 0x0b\<rparr>"

lemma demo_udp_length: "20 \<le> length demo_udp" "28 \<le> length demo_udp" "length demo_udp = 28"
  by (simp_all add: demo_udp_def)

theorem client_nat_checksums_witness:
  "word_sum (take 20 (cn_transform [demo_rule] CN_OUTGOING 28 demo_udp)) mod 65535
    = word_sum (take 20 demo_udp) mod 65535"
  using client_nat_checksums [OF demo_udp_length(1), of 28 _ "[demo_rule]" CN_OUTGOING] demo_udp_length(3)
  by simp

lemma cn_checksums_rest:
  assumes "20 \<le> length cs" and "n = int (length cs)"
  shows "memget (cn_checksums n acc cs) 12 8 = memget cs 12 8" and "length (cn_checksums n acc cs) = length cs"
  using assms
  by (simp_all add: cn_checksums_def Let_def proto_consts memget_memput_before memget_memput_after)

lemma raw32_memget: "12 + 8 \<le> length xs \<Longrightarrow> k \<le> 4 \<Longrightarrow> raw32 xs (12 + k) = raw32 (memget xs 12 8) k"
  by (simp add: raw32_def nth_memget add.assoc)

lemma cn_one_rule:
  assumes "20 \<le> length bs" and "n = int (length bs)"
  shows "memget (cn_transform [e] direction n bs) 12 8 = memget (fst (cn_rule direction e (bs, 0, 0))) 12 8"
    and "length (cn_transform [e] direction n bs) = length bs"
proof -
  obtain cs acc alog where r: "cn_rule direction e (bs, 0, 0) = (cs, acc, alog)" by (metis prod_cases3)
  have "cn_inv bs (bs, 0, 0)" by (simp add: cn_inv_def)
  from cn_rule_inv [OF this assms(1), of direction e] r have i: "length cs = length bs" "alog = 0 \<longrightarrow> cs = bs"
    by (auto simp: cn_inv_def)
  then show "memget (cn_transform [e] direction n bs) 12 8 = memget (fst (cn_rule direction e (bs, 0, 0))) 12 8"
    "length (cn_transform [e] direction n bs) = length bs"
    using assms cn_checksums_rest [of cs n acc] by (auto simp: cn_transform_def r)
qed

text \<open>
  A source rule is undone on the way back: when the source address of an outgoing packet
  lies in the rule's network it leaves with the foreign network and the same host part, and a
  reply sent to that address arrives with the original address as its destination.
\<close>

theorem client_nat_reply:
  assumes "cn_type e = CN_SNAT" and "cn_network e AND cn_netmask e = cn_network e"
    and "cn_foreign_network e AND cn_netmask e = cn_foreign_network e"
    and "20 \<le> length bs" "n = int (length bs)" and "20 \<le> length reply" "m = int (length reply)"
    and "raw32 bs 12 AND cn_netmask e = cn_network e"
    and "raw32 reply 16 = raw32 (cn_transform [e] CN_OUTGOING n bs) 12"
  shows "raw32 (cn_transform [e] CN_OUTGOING n bs) 12 AND cn_netmask e = cn_foreign_network e
    \<and> raw32 (cn_transform [e] CN_INCOMING m reply) 16 = raw32 bs 12"
proof -
  let ?mask = "cn_netmask e"
  let ?a = "raw32 bs 12"
  let ?a1 = "(?a AND NOT ?mask) OR cn_foreign_network e"
  let ?out = "cn_transform [e] CN_OUTGOING n bs" and ?undone = "cn_transform [e] CN_INCOMING m reply"
  have r1: "fst (cn_rule CN_OUTGOING e (bs, 0, 0)) = memput bs 12 (raw32_bytes ?a1)"
    using assms(1,8) by (simp add: cn_rule_def cn_consts Let_def)
  have o: "raw32 ?out 12 = ?a1"
    using cn_one_rule [OF assms(4,5), of e CN_OUTGOING] raw32_memget [of ?out 0]
      raw32_memget [of "memput bs 12 (raw32_bytes ?a1)" 0] assms(4)
    by (simp add: r1 raw32_words)
  have m1: "?a1 AND ?mask = cn_foreign_network e"
  proof -
    have "?a1 AND ?mask = cn_foreign_network e AND ?mask"
      by (rule bit_word_eqI) (auto simp: bit_simps)
    then show ?thesis using assms(3) by simp
  qed
  have undo: "(?a1 AND NOT ?mask) OR cn_network e = ?a"
  proof -
    have "(?a1 AND NOT ?mask) = ?a AND NOT ?mask"
    proof -
      have "?a1 AND NOT ?mask = (?a AND NOT ?mask) OR (cn_foreign_network e AND ?mask) AND NOT ?mask"
        using assms(3) by (intro bit_word_eqI) (auto simp: bit_simps)
      also have "\<dots> = ?a AND NOT ?mask" by (rule bit_word_eqI) (auto simp: bit_simps)
      finally show ?thesis .
    qed
    moreover have "(?a AND NOT ?mask) OR (?a AND ?mask) = ?a"
      by (rule bit_word_eqI) (auto simp: bit_simps)
    ultimately show ?thesis using assms(8) by simp
  qed
  have r2: "fst (cn_rule CN_INCOMING e (reply, 0, 0)) = memput reply 16 (raw32_bytes ?a)"
    using assms(1,9) o m1 undo by (simp add: cn_rule_def cn_consts Let_def)
  have "raw32 ?undone 16 = ?a"
    using cn_one_rule [OF assms(6,7), of e CN_INCOMING] raw32_memget [of ?undone 4]
      raw32_memget [of "memput reply 16 (raw32_bytes ?a)" 4] assms(6)
    by (simp add: r2 raw32_words)
  with o m1 show ?thesis by simp
qed

text \<open>
  A UDP packet without a checksum does not stay without one: when the rules change its
  addresses the zero in its checksum field is adjusted like a checksum, and the packet leaves
  with a nonzero and wrong one.
\<close>

theorem client_nat_udp_zero:
  assumes "28 \<le> length bs" and "n = int (length bs)" and out_def: "out = cn_transform lst direction n bs"
    and "bs ! 9 = OPENVPN_IPPROTO_UDP" and "raw16 bs 26 = 0"
    and "word_sum (memget out 12 8) mod 65535 \<noteq> word_sum (memget bs 12 8) mod 65535"
  shows "raw16 out 26 \<noteq> 0"
proof -
  have l20: "20 \<le> length bs" using assms(1) by simp
  obtain cs acc alog where f: "cn_inv bs (cs, acc, alog)" "\<bar>acc\<bar> < 2 ^ 30"
    "out = (if alog = 0 then bs else cn_checksums n acc cs)"
    unfolding out_def by (rule cn_transform_cases [OF l20])
  have i: "length cs = length bs" "take 12 cs = take 12 bs" "drop 20 cs = drop 20 bs"
    "acc = word_sum (memget bs 12 8) - word_sum (memget cs 12 8)"
    using f(1) by (simp_all add: cn_inv_def)
  have o: "out = cn_checksums n acc cs" using f(3) assms(6) by (auto split: if_splits)
  have "memget out 12 8 = memget cs 12 8" using cn_checksums_rest(1) [of cs n acc] i(1) l20 assms(2) by (simp add: o)
  then have acc: "acc mod 65535 \<noteq> 0"
    using assms(6) i(4) by (metis mod_eq_dvd_iff dvd_eq_mod_eq_0)
  have "take 12 cs ! 9 = cs ! 9" "take 12 bs ! 9 = bs ! 9" by simp_all
  with i(2) have p9: "cs ! 9 = OPENVPN_IPPROTO_UDP" using assms(4) by simp
  have raw: "raw16 xs 26 = raw16 (drop 20 xs) 6" if "28 \<le> length xs" for xs :: "u8 list"
    using that by (simp add: raw16_def)
  let ?y = "memput cs 10 (raw16_bytes (adjust_checksum acc (raw16 cs 10)))"
  have y: "length ?y = length bs" "drop 20 ?y = drop 20 bs"
    using i(1,3) assms(1) by (simp_all add: drop_memput_after)
  then have "raw16 ?y 26 = 0" using raw [of ?y] raw [of bs] assms(1,5) by simp
  then have "out = memput ?y 26 (raw16_bytes (adjust_checksum acc 0))"
    using assms(1,2) by (simp add: o cn_checksums_def Let_def p9 OPENVPN_IPPROTO_UDP_def OPENVPN_IPPROTO_TCP_def
        sizeof_iphdr_def sizeof_udphdr_def)
  then have "raw16 out 26 = adjust_checksum acc 0"
    using raw16_of_bytes [of "adjust_checksum acc 0"] y(1) assms(1) by (simp add: raw16_def nth_memput)
  moreover have "uint (adjust_checksum acc 0) mod 65535 \<noteq> 0"
    using adjust_checksum_mod [OF f(2), of 0] acc by simp
  ultimately show ?thesis by auto
qed

lemma demo_udp_facts:
  "demo_udp ! 9 = OPENVPN_IPPROTO_UDP" "raw16 demo_udp 26 = 0" "raw32 demo_udp 12 AND 0xff = 0x0a"
  by code_simp+

lemma demo_nat:
  "memget (cn_transform [demo_rule] CN_OUTGOING 28 demo_udp) 12 8 = [11, 0, 0, 5, 8, 8, 8, 8]"
proof -
  have a: "raw32 demo_udp 12 = 0x0500000a" by (simp add: raw32_def demo_udp_def push_bit_eq_mult)
  have w: "raw32_bytes 0x0500000b = [11, 0, 0, 5]" by (simp add: raw32_bytes_def drop_bit_eq_div)
  have "fst (cn_rule CN_OUTGOING demo_rule (demo_udp, 0, 0)) = memput demo_udp 12 (raw32_bytes 0x0500000b)"
    by (simp add: cn_rule_def demo_rule_def cn_consts Let_def a)
  then have "memget (fst (cn_rule CN_OUTGOING demo_rule (demo_udp, 0, 0))) 12 8 = [11, 0, 0, 5, 8, 8, 8, 8]"
    by (simp add: w demo_udp_def memput_def memget_def)
  then show ?thesis using cn_one_rule(1) [of demo_udp 28 demo_rule CN_OUTGOING] demo_udp_length by simp
qed

theorem client_nat_udp_zero_witness:
  "raw16 (cn_transform [demo_rule] CN_OUTGOING 28 demo_udp) 26 \<noteq> 0"
  by (rule client_nat_udp_zero [OF demo_udp_length(2) _ refl demo_udp_facts(1,2)])
    (simp_all only: demo_nat, simp_all add: demo_udp_length(3) demo_udp_def memget_def)

definition demo_reply :: "u8 list" where
  "demo_reply = [0x45, 0, 0, 28, 0, 0, 0, 0, 64, 17, 0, 0, 8, 8, 8, 8, 11, 0, 0, 5, 0, 53, 0, 53, 0, 8, 0, 0]"

lemma demo_reply_dest: "raw32 demo_reply 16 = raw32 (cn_transform [demo_rule] CN_OUTGOING 28 demo_udp) 12"
proof -
  have l: "12 + 8 \<le> length (cn_transform [demo_rule] CN_OUTGOING 28 demo_udp)"
    using cn_one_rule(2) [of demo_udp 28 demo_rule CN_OUTGOING] demo_udp_length by simp
  have "raw32 (cn_transform [demo_rule] CN_OUTGOING 28 demo_udp) (12 + 0) = raw32 [11, 0, 0, 5, 8, 8, 8, 8] 0"
    unfolding raw32_memget [OF l le0] demo_nat ..
  then show ?thesis by (simp add: raw32_def demo_reply_def)
qed

lemma demo_rule_ok:
  "cn_type demo_rule = CN_SNAT" "cn_network demo_rule AND cn_netmask demo_rule = cn_network demo_rule"
  "cn_foreign_network demo_rule AND cn_netmask demo_rule = cn_foreign_network demo_rule"
  "raw32 demo_udp 12 AND cn_netmask demo_rule = cn_network demo_rule"
  using demo_udp_facts(3) by (simp_all add: demo_rule_def)

lemma demo_lengths: "28 = int (length demo_udp)" "20 \<le> length demo_reply" "28 = int (length demo_reply)"
  by (simp_all add: demo_udp_def demo_reply_def)

theorem client_nat_reply_witness:
  "raw32 (cn_transform [demo_rule] CN_INCOMING 28 demo_reply) 16 = raw32 demo_udp 12"
  by (rule client_nat_reply [OF demo_rule_ok(1-3) demo_udp_length(1) demo_lengths demo_rule_ok(4)
        demo_reply_dest, THEN conjunct2])

end
