(* ===== verification/Mss.thy ===== *)
theory Mss
  imports Proto
begin

text \<open>
  MSS clamping of \<open>mss.c\<close>: the maximum segment size option of a TCP SYN packet in the tunnel is
  lowered to the configured value and the TCP checksum is corrected. The option loop works on
  the bytes of the TCP segment; a pointer to an option is its index.
\<close>

section \<open>Operations\<close>

definition OPENVPN_TCPOPT_EOL :: u8 where "OPENVPN_TCPOPT_EOL = 0"
definition OPENVPN_TCPOPT_NOP :: u8 where "OPENVPN_TCPOPT_NOP = 1"
definition OPENVPN_TCPOPT_MAXSEG :: u8 where "OPENVPN_TCPOPT_MAXSEG = 2"
definition OPENVPN_TCPOLEN_MAXSEG :: int where "OPENVPN_TCPOLEN_MAXSEG = 4"
definition OPENVPN_TCPH_SYN_MASK :: u8 where "OPENVPN_TCPH_SYN_MASK = 2"

lemmas tcpopt_consts = OPENVPN_TCPOPT_EOL_def OPENVPN_TCPOPT_NOP_def OPENVPN_TCPOPT_MAXSEG_def
  OPENVPN_TCPOLEN_MAXSEG_def OPENVPN_TCPH_SYN_MASK_def

definition mss_value :: "u8 list \<Rightarrow> nat \<Rightarrow> u16" where
  "mss_value seg i = push_bit 8 (ucast (seg ! (i + 2))) + ucast (seg ! (i + 3))"

definition mss_clamp :: "u16 \<Rightarrow> u8 list \<Rightarrow> nat \<Rightarrow> u8 list" where
  "mss_clamp maxmss seg i =
     (let mssval = mss_value seg i
      in if mssval > maxmss
         then (let accumulate = uint (htons mssval);
                   seg1 = seg[i + 2 := ucast (drop_bit 8 maxmss), i + 3 := ucast maxmss];
                   acc1 = accumulate - uint (htons maxmss)
               in memput seg1 16 (raw16_bytes (adjust_checksum acc1 (raw16 seg1 16))))
         else seg)"

lemma uint_pos: "uint (w :: 'a::len word) \<noteq> 0 \<Longrightarrow> 0 < uint w"
  using uint_ge_0 [of w] by linarith

function mss_opts :: "u16 \<Rightarrow> u8 list \<Rightarrow> int \<Rightarrow> nat \<Rightarrow> u8 list" where
  "mss_opts maxmss seg olen i =
     (if olen > 1
      then if seg ! i = OPENVPN_TCPOPT_EOL then seg
           else if seg ! i = OPENVPN_TCPOPT_NOP then mss_opts maxmss seg (olen - 1) (i + 1)
           else (let optlen = uint (seg ! (i + 1))
                 in if optlen \<le> 0 \<or> optlen > olen then seg
                    else mss_opts maxmss
                           (if seg ! i = OPENVPN_TCPOPT_MAXSEG \<and> optlen = OPENVPN_TCPOLEN_MAXSEG
                            then mss_clamp maxmss seg i else seg)
                           (olen - optlen) (i + nat optlen))
      else seg)"
  by auto
termination by (relation "measure (\<lambda>(_, _, olen, _). nat olen)") (auto intro: uint_pos)

declare mss_opts.simps [simp del]

definition mss_fixup_dowork :: "u8 list \<Rightarrow> u16 \<Rightarrow> u8 list" where
  "mss_fixup_dowork seg maxmss =
     (if int (length seg) < sizeof_tcphdr then seg
      else (let hlen = OPENVPN_TCPH_GET_DOFF (seg ! 12)
            in if hlen \<le> sizeof_tcphdr \<or> hlen > int (length seg) then seg
               else mss_opts maxmss seg (hlen - sizeof_tcphdr) (nat sizeof_tcphdr)))"

definition mss_fixup_ipv4 :: "buffer \<Rightarrow> int \<Rightarrow> buffer" where
  "mss_fixup_ipv4 buf maxmss =
     (if buf_len buf < sizeof_iphdr then buf
      else
        (let bs = buf_bytes buf;
             hlen = OPENVPN_IPH_GET_LEN (bs ! 0)
         in if bs ! 9 = OPENVPN_IPPROTO_TCP
               \<and> uint (htons (raw16 bs 2)) = buf_len buf
               \<and> htons (raw16 bs 6) AND OPENVPN_IP_OFFMASK = 0
               \<and> hlen \<le> buf_len buf
               \<and> buf_len buf - hlen \<ge> sizeof_tcphdr
            then (let seg = drop (nat hlen) bs
                  in if seg ! 13 AND OPENVPN_TCPH_SYN_MASK \<noteq> 0
                     then buf_set buf (nat hlen) (mss_fixup_dowork seg (word_of_int maxmss))
                     else buf)
            else buf))"

definition mss_fixup_ipv6 :: "buffer \<Rightarrow> int \<Rightarrow> buffer" where
  "mss_fixup_ipv6 buf maxmss =
     (if buf_len buf < sizeof_ipv6hdr then buf
      else
        (let bs = buf_bytes buf
         in if buf_len buf \<noteq> uint (htons (raw16 bs 4)) + 40 then buf
            else if bs ! 6 \<noteq> OPENVPN_IPPROTO_TCP then buf
            else (let seg = drop 40 bs
                  in if int (length seg) \<ge> sizeof_tcphdr \<and> seg ! 13 AND OPENVPN_TCPH_SYN_MASK \<noteq> 0
                     then buf_set buf 40
                            (mss_fixup_dowork seg (word_of_int (uint (word_of_int maxmss :: u16) - 20)))
                     else buf)))"

section \<open>The options of a segment\<close>

text \<open>The MSS options the loop visits: position and value.\<close>

function mss_options :: "u8 list \<Rightarrow> int \<Rightarrow> nat \<Rightarrow> (nat \<times> u16) list" where
  "mss_options seg olen i =
     (if olen > 1 \<and> seg ! i \<noteq> OPENVPN_TCPOPT_EOL
      then if seg ! i = OPENVPN_TCPOPT_NOP then mss_options seg (olen - 1) (i + 1)
           else (let optlen = uint (seg ! (i + 1))
                 in if optlen \<le> 0 \<or> optlen > olen then []
                    else (if seg ! i = OPENVPN_TCPOPT_MAXSEG \<and> optlen = OPENVPN_TCPOLEN_MAXSEG
                          then [(i, mss_value seg i)] else [])
                         @ mss_options seg (olen - optlen) (i + nat optlen))
      else [])"
  by auto
termination by (relation "measure (\<lambda>(_, olen, _). nat olen)") (auto intro: uint_pos)

declare mss_options.simps [simp del]

definition segment_mss :: "u8 list \<Rightarrow> (nat \<times> u16) list" where
  "segment_mss seg =
     (let hlen = OPENVPN_TCPH_GET_DOFF (seg ! 12)
      in if int (length seg) < sizeof_tcphdr \<or> hlen > int (length seg) then []
         else mss_options seg (hlen - sizeof_tcphdr) (nat sizeof_tcphdr))"

lemma mss_value_bytes:
  fixes w :: u16
  assumes "i + 3 < length seg"
  shows "mss_value (seg[i + 2 := ucast (drop_bit 8 w), i + 3 := ucast w]) i = w"
proof -
  have "push_bit 8 (ucast (ucast (drop_bit 8 w) :: u8)) + ucast (ucast w :: u8) =
     (push_bit 8 (ucast (ucast (drop_bit 8 w) :: u8)) OR ucast (ucast w :: u8) :: u16)"
    by (rule disjunctive_add) (simp add: bit_simps)
  also have "\<dots> = w"
  proof (rule bit_word_eqI)
    fix n :: nat assume "n < LENGTH(16)"
    then consider "n < 8" | "8 \<le> n" "n < 16" by force
    then show "bit (push_bit 8 (ucast (ucast (drop_bit 8 w) :: u8)) OR ucast (ucast w :: u8) :: u16) n = bit w n"
      by cases (simp_all add: bit_simps, auto)
  qed
  finally show ?thesis using assms by (simp add: mss_value_def)
qed

lemma mss_clamp_bytes:
  assumes "20 \<le> i" and "i + 4 \<le> length seg"
  shows "length (mss_clamp maxmss seg i) = length seg"
    and "18 \<le> j \<Longrightarrow> j < length seg \<Longrightarrow> j \<noteq> i + 2 \<Longrightarrow> j \<noteq> i + 3 \<Longrightarrow> mss_clamp maxmss seg i ! j = seg ! j"
    and "j < 16 \<Longrightarrow> mss_clamp maxmss seg i ! j = seg ! j"
    and "mss_value (mss_clamp maxmss seg i) i = min maxmss (mss_value seg i)"
proof -
  let ?s = "seg[i + 2 := ucast (drop_bit 8 maxmss), i + 3 := ucast maxmss]"
  show l: "length (mss_clamp maxmss seg i) = length seg"
    using assms by (simp add: mss_clamp_def Let_def)
  show "18 \<le> j \<Longrightarrow> j < length seg \<Longrightarrow> j \<noteq> i + 2 \<Longrightarrow> j \<noteq> i + 3 \<Longrightarrow> mss_clamp maxmss seg i ! j = seg ! j"
    using assms by (auto simp: mss_clamp_def Let_def nth_memput)
  show "j < 16 \<Longrightarrow> mss_clamp maxmss seg i ! j = seg ! j"
    using assms by (auto simp: mss_clamp_def Let_def nth_memput)
  have "mss_value (memput ?s 16 (raw16_bytes w)) i = maxmss" for w
    using assms mss_value_bytes [of i seg maxmss] by (simp add: mss_value_def nth_memput)
  then show "mss_value (mss_clamp maxmss seg i) i = min maxmss (mss_value seg i)"
    by (auto simp: mss_clamp_def Let_def min_def)
qed

lemma mss_options_cong:
  "(\<And>j. i \<le> j \<Longrightarrow> int j < int i + olen \<Longrightarrow> a ! j = b ! j) \<Longrightarrow> mss_options a olen i = mss_options b olen i"
proof (induction a olen i rule: mss_options.induct)
  case (1 a olen i)
  show ?case
  proof (cases "olen > 1 \<and> a ! i \<noteq> OPENVPN_TCPOPT_EOL")
    case False
    then show ?thesis using 1(3) [of i] by (subst (1 2) mss_options.simps) auto
  next
    case True
    have e: "a ! i = b ! i" "a ! (i + 1) = b ! (i + 1)" using 1(3) True by auto
    show ?thesis
    proof (cases "a ! i = OPENVPN_TCPOPT_NOP")
      case nop: True
      have "mss_options a (olen - 1) (i + 1) = mss_options b (olen - 1) (i + 1)"
        by (rule 1(1)) (use True nop 1(3) in auto)
      then show ?thesis using True nop e by (subst (1 2) mss_options.simps) simp
    next
      case opt: False
      let ?l = "uint (a ! (i + 1))"
      show ?thesis
      proof (cases "?l \<le> 0 \<or> ?l > olen")
        case True
        then show ?thesis using \<open>olen > 1 \<and> _\<close> opt e by (subst (1 2) mss_options.simps) (simp add: Let_def)
      next
        case False
        have r: "mss_options a (olen - ?l) (i + nat ?l) = mss_options b (olen - ?l) (i + nat ?l)"
          by (rule 1(2)) (use True opt False 1(3) in auto)
        have "mss_value a i = mss_value b i" if "?l = OPENVPN_TCPOLEN_MAXSEG"
          using that False 1(3) [of "i + 2"] 1(3) [of "i + 3"] by (simp add: mss_value_def tcpopt_consts)
        then show ?thesis
          using True opt e False r by (subst (1 2) mss_options.simps) (simp add: Let_def)
      qed
    qed
  qed
qed

lemma mss_opts_bytes:
  "20 \<le> i \<Longrightarrow> int i + olen \<le> int (length seg) \<Longrightarrow>
   length (mss_opts maxmss seg olen i) = length seg
   \<and> (\<forall>j. j < 16 \<or> 18 \<le> j \<and> j < i + 2 \<longrightarrow> mss_opts maxmss seg olen i ! j = seg ! j)"
proof (induction maxmss seg olen i rule: mss_opts.induct)
  case (1 maxmss seg olen i)
  show ?case
  proof (cases "olen > 1 \<and> seg ! i \<noteq> OPENVPN_TCPOPT_EOL")
    case False
    then show ?thesis by (subst (1 2) mss_opts.simps) auto
  next
    case True
    show ?thesis
    proof (cases "seg ! i = OPENVPN_TCPOPT_NOP")
      case nop: True
      have "length (mss_opts maxmss seg (olen - 1) (i + 1)) = length seg
        \<and> (\<forall>j. j < 16 \<or> 18 \<le> j \<and> j < i + 1 + 2 \<longrightarrow> mss_opts maxmss seg (olen - 1) (i + 1) ! j = seg ! j)"
        by (rule 1(1)) (use True nop 1(3,4) in auto)
      then show ?thesis using True nop by (subst (1 2) mss_opts.simps) auto
    next
      case opt: False
      let ?l = "uint (seg ! (i + 1))"
      show ?thesis
      proof (cases "?l \<le> 0 \<or> ?l > olen")
        case bad: True
        then show ?thesis using True opt by (subst (1 2) mss_opts.simps) (auto simp: Let_def)
      next
        case False
        define c where "c \<longleftrightarrow> seg ! i = OPENVPN_TCPOPT_MAXSEG \<and> ?l = OPENVPN_TCPOLEN_MAXSEG"
        define s where "s = (if c then mss_clamp maxmss seg i else seg)"
        have four: "i + 4 \<le> length seg" "?l = 4" if c
          using that False 1(4) by (auto simp: c_def tcpopt_consts)
        have s: "length s = length seg" "\<And>j. j < 16 \<or> 18 \<le> j \<and> j < i + 2 \<Longrightarrow> s ! j = seg ! j"
          using mss_clamp_bytes [OF 1(3) four(1)] 1(3,4) True by (auto simp: s_def)
        have "length (mss_opts maxmss s (olen - ?l) (i + nat ?l)) = length s
          \<and> (\<forall>j. j < 16 \<or> 18 \<le> j \<and> j < i + nat ?l + 2 \<longrightarrow> mss_opts maxmss s (olen - ?l) (i + nat ?l) ! j = s ! j)"
          unfolding s_def c_def by (rule 1(2)) (use True opt False 1(3,4) s(1) in \<open>auto simp: s_def c_def\<close>)
        moreover have "mss_opts maxmss seg olen i = mss_opts maxmss s (olen - ?l) (i + nat ?l)"
          using True opt False by (subst mss_opts.simps) (simp add: Let_def s_def c_def)
        ultimately show ?thesis using s by auto
      qed
    qed
  qed
qed

lemma mss_opts_clamps:
  "20 \<le> i \<Longrightarrow> int i + olen \<le> int (length seg) \<Longrightarrow>
   mss_options (mss_opts maxmss seg olen i) olen i = map (\<lambda>(j, v). (j, min maxmss v)) (mss_options seg olen i)"
proof (induction maxmss seg olen i rule: mss_opts.induct)
  case (1 maxmss seg olen i)
  show ?case
  proof (cases "olen > 1 \<and> seg ! i \<noteq> OPENVPN_TCPOPT_EOL")
    case False
    then have "mss_opts maxmss seg olen i = seg" by (subst mss_opts.simps) auto
    moreover have "mss_options seg olen i = []"
      using False by (subst mss_options.simps) auto
    ultimately show ?thesis by simp
  next
    case True
    show ?thesis
    proof (cases "seg ! i = OPENVPN_TCPOPT_NOP")
      case nop: True
      define r where "r = mss_opts maxmss seg (olen - 1) (i + 1)"
      have ih: "mss_options r (olen - 1) (i + 1) = map (\<lambda>(j, v). (j, min maxmss v)) (mss_options seg (olen - 1) (i + 1))"
        unfolding r_def by (rule 1(1)) (use True nop 1(3,4) in auto)
      have r: "mss_opts maxmss seg olen i = r" using True nop by (subst mss_opts.simps) (simp add: r_def)
      have "r ! i = seg ! i"
        using mss_opts_bytes [of "i + 1" "olen - 1" seg maxmss] 1(3,4) by (auto simp: r_def)
      then show ?thesis
        unfolding r mss_options.simps [of r olen i] mss_options.simps [of seg olen i]
        using True nop ih by simp
    next
      case opt: False
      let ?l = "uint (seg ! (i + 1))"
      show ?thesis
      proof (cases "?l \<le> 0 \<or> ?l > olen")
        case bad: True
        then have "mss_opts maxmss seg olen i = seg"
          using True opt by (subst mss_opts.simps) (auto simp: Let_def)
        moreover have "mss_options seg olen i = []"
          using True opt bad by (subst mss_options.simps) (auto simp: Let_def)
        ultimately show ?thesis by simp
      next
        case False
        define c where "c \<longleftrightarrow> seg ! i = OPENVPN_TCPOPT_MAXSEG \<and> ?l = OPENVPN_TCPOLEN_MAXSEG"
        define s where "s = (if c then mss_clamp maxmss seg i else seg)"
        define r where "r = mss_opts maxmss s (olen - ?l) (i + nat ?l)"
        have four: "i + 4 \<le> length seg" "?l = 4" if c
          using that False 1(4) by (auto simp: c_def tcpopt_consts)
        note cl = mss_clamp_bytes [where maxmss = maxmss, OF 1(3) four(1)]
        have s: "length s = length seg"
          using cl(1) by (auto simp: s_def)
        have l0: "0 < ?l" using False by linarith
        have rs: "r ! j = s ! j" if "18 \<le> j" "j < i + nat ?l + 2" for j
          using mss_opts_bytes [of "i + nat ?l" "olen - ?l" s maxmss] that 1(3,4) False l0 s
          by (auto simp: r_def)
        have two: "s ! i = seg ! i" "s ! (i + 1) = seg ! (i + 1)"
          using cl(2) [of i] cl(2) [of "i + 1"] 1(3,4) four(1) by (auto simp: s_def)
        have nat2: "1 < nat ?l" if c using four(2) that by simp
        have ih: "mss_options r (olen - ?l) (i + nat ?l)
            = map (\<lambda>(j, v). (j, min maxmss v)) (mss_options s (olen - ?l) (i + nat ?l))"
          unfolding r_def s_def c_def
          by (rule 1(2)) (use True opt False 1(3,4) s in \<open>auto simp: s_def c_def\<close>)
        have "mss_options s (olen - ?l) (i + nat ?l) = mss_options seg (olen - ?l) (i + nat ?l)"
        proof (rule mss_options_cong)
          fix j assume j: "i + nat ?l \<le> j" "int j < int (i + nat ?l) + (olen - ?l)"
          have "int j < int (length seg)" using j(2) 1(4) l0 by simp
          moreover have "i + 4 \<le> j" if c
            using j(1) by (simp only: four(2) [OF that] nat_numeral)
          ultimately show "s ! j = seg ! j"
            using cl(2) [of j] 1(3) by (auto simp: s_def)
        qed
        with ih have tail: "mss_options r (olen - ?l) (i + nat ?l)
            = map (\<lambda>(j, v). (j, min maxmss v)) (mss_options seg (olen - ?l) (i + nat ?l))" by simp
        have r: "mss_opts maxmss seg olen i = r"
          using True opt False by (subst mss_opts.simps) (simp add: Let_def s_def c_def r_def)
        have r2: "r ! i = seg ! i" "r ! (i + 1) = seg ! (i + 1)"
          using rs [of i] rs [of "i + 1"] two 1(3) l0 by auto
        have val: "mss_value r i = min maxmss (mss_value seg i)" if c
        proof -
          have "nat ?l = 4" by (simp only: four(2) [OF that] nat_numeral)
          then have "r ! (i + 2) = s ! (i + 2)" "r ! (i + 3) = s ! (i + 3)"
            by (intro rs; use 1(3) in linarith)+
          then have "mss_value r i = mss_value s i" unfolding mss_value_def by (simp only:)
          then show ?thesis using cl(4) [OF that] that by (simp add: s_def)
        qed
        show ?thesis
          unfolding r mss_options.simps [of r olen i] mss_options.simps [of seg olen i] Let_def r2
          using True opt False tail val by (simp add: c_def)
      qed
    qed
  qed
qed

text \<open>The checksum: a clamp keeps the sum of the words when the option is at an even index.\<close>

lemma mss_value_raw16: "htons (mss_value seg i) = raw16 seg (i + 2)"
proof -
  have "push_bit 8 (ucast a) + ucast b = (push_bit 8 (ucast a) OR ucast b :: u16)" for a b :: u8
    by (rule disjunctive_add) (auto simp: bit_simps dest!: u8_bit_low)
  then have "mss_value seg i = u16_of_bytes [seg ! (i + 2), seg ! (i + 3)]"
    by (simp add: mss_value_def eval_nat_numeral)
  also have "\<dots> = htons (raw16 seg (i + 2))"
    by (simp add: htons_u16_of_bytes eval_nat_numeral)
  finally show ?thesis by simp
qed

lemma clamp_bytes_memput:
  "seg[i + 2 := ucast (drop_bit 8 m), i + 3 := ucast m] = memput seg (i + 2) (raw16_bytes (htons m))"
  if "i + 4 \<le> length seg"
  by (rule nth_equalityI) (use that in \<open>auto simp: nth_memput raw16_bytes_htons u16_bytes_def nth_list_update nth_Cons'\<close>)

lemma u16_diff_bound: "\<bar>uint (a :: u16) - uint (b :: u16)\<bar> < 2 ^ 30"
proof -
  have "uint a < 65536" "uint b < 65536"
    using unsigned_less [of a, where 'a = int] unsigned_less [of b, where 'a = int] by simp_all
  then have "\<bar>uint a - uint b\<bar> < 1073741824"
    using uint_ge_0 [of a] uint_ge_0 [of b] by arith
  then show ?thesis by simp
qed

lemma mss_clamp_sum:
  assumes "20 \<le> i" and "i + 4 \<le> length seg" and "even i"
  shows "word_sum (mss_clamp m seg i) mod 65535 = word_sum seg mod 65535"
proof (cases "mss_value seg i > m")
  case True
  define s where "s = memput seg (i + 2) (raw16_bytes (htons m))"
  define acc where "acc = uint (htons (mss_value seg i)) - uint (htons m)"
  have "\<bar>acc\<bar> < 2 ^ 30" unfolding acc_def by (rule u16_diff_bound)
  moreover have "length s = length seg" using assms by (simp add: s_def)
  ultimately have "word_sum (memput s 16 (raw16_bytes (adjust_checksum acc (raw16 s 16)))) mod 65535
      = (word_sum s + acc) mod 65535"
    using assms by (intro fix_sum) simp_all
  also have "word_sum s + acc = word_sum seg"
    using assms by (simp add: s_def acc_def word_sum_update mss_value_raw16)
  finally show ?thesis
    by (simp only: mss_clamp_def Let_def True if_True s_def acc_def clamp_bytes_memput [OF assms(2)])
next
  case False
  then show ?thesis by (simp add: mss_clamp_def)
qed

text \<open>What a pass over the options leaves alone.\<close>

lemma mss_opts_frame:
  "20 \<le> i \<Longrightarrow> int i + olen \<le> int (length seg) \<Longrightarrow>
   (\<forall>j < length seg. j \<noteq> 16 \<and> j \<noteq> 17 \<and> (\<forall>(k, v) \<in> set (mss_options seg olen i). j \<noteq> k + 2 \<and> j \<noteq> k + 3)
      \<longrightarrow> mss_opts maxmss seg olen i ! j = seg ! j)
   \<and> ((\<forall>(k, v) \<in> set (mss_options seg olen i). even k)
      \<longrightarrow> word_sum (mss_opts maxmss seg olen i) mod 65535 = word_sum seg mod 65535)"
proof (induction maxmss seg olen i rule: mss_opts.induct)
  case (1 maxmss seg olen i)
  show ?case
  proof (cases "olen > 1 \<and> seg ! i \<noteq> OPENVPN_TCPOPT_EOL")
    case False
    then have "mss_opts maxmss seg olen i = seg" by (subst mss_opts.simps) auto
    then show ?thesis by simp
  next
    case True
    show ?thesis
    proof (cases "seg ! i = OPENVPN_TCPOPT_NOP")
      case nop: True
      have "mss_opts maxmss seg olen i = mss_opts maxmss seg (olen - 1) (i + 1)"
        using True nop by (subst mss_opts.simps) simp
      moreover have "mss_options seg olen i = mss_options seg (olen - 1) (i + 1)"
        using True nop by (subst mss_options.simps) simp
      ultimately show ?thesis
        by (simp only:) (rule 1(1), use True nop 1(3,4) in auto)
    next
      case opt: False
      let ?l = "uint (seg ! (i + 1))"
      show ?thesis
      proof (cases "?l \<le> 0 \<or> ?l > olen")
        case bad: True
        then have "mss_opts maxmss seg olen i = seg"
          using True opt by (subst mss_opts.simps) (auto simp: Let_def)
        then show ?thesis by simp
      next
        case False
        define c where "c \<longleftrightarrow> seg ! i = OPENVPN_TCPOPT_MAXSEG \<and> ?l = OPENVPN_TCPOLEN_MAXSEG"
        define s where "s = (if c then mss_clamp maxmss seg i else seg)"
        define n where "n = nat ?l"
        have four: "i + 4 \<le> length seg" "n = 4" if c
          using that False 1(4) by (auto simp: c_def tcpopt_consts n_def)
        note cl = mss_clamp_bytes [where maxmss = maxmss, OF 1(3) four(1)]
        have s: "length s = length seg" using cl(1) by (auto simp: s_def)
        have "0 < ?l" using False by linarith
        then have l: "?l = int n" "0 < n" by (simp_all only: n_def zero_less_nat_eq nat_0_le less_imp_le)
        have o: "mss_options s (olen - ?l) (i + n) = mss_options seg (olen - ?l) (i + n)"
        proof (rule mss_options_cong)
          fix j assume "i + n \<le> j" "int j < int (i + n) + (olen - ?l)"
          then show "s ! j = seg ! j"
            using cl(2) [of j] 1(3,4) four(2) l by (auto simp: s_def)
        qed
        have r: "mss_opts maxmss seg olen i = mss_opts maxmss s (olen - ?l) (i + n)"
          using True opt False by (subst mss_opts.simps) (simp add: Let_def s_def c_def n_def)
        have os: "mss_options seg olen i
            = (if c then [(i, mss_value seg i)] else []) @ mss_options seg (olen - ?l) (i + n)"
          using True opt False by (subst mss_options.simps) (simp add: Let_def c_def n_def)
        have ih: "(\<forall>j < length s. j \<noteq> 16 \<and> j \<noteq> 17
              \<and> (\<forall>(k, v) \<in> set (mss_options s (olen - ?l) (i + n)). j \<noteq> k + 2 \<and> j \<noteq> k + 3)
                \<longrightarrow> mss_opts maxmss s (olen - ?l) (i + n) ! j = s ! j)
            \<and> ((\<forall>(k, v) \<in> set (mss_options s (olen - ?l) (i + n)). even k)
                \<longrightarrow> word_sum (mss_opts maxmss s (olen - ?l) (i + n)) mod 65535 = word_sum s mod 65535)"
          unfolding s_def c_def n_def
          by (rule 1(2)) (use True opt False 1(3,4) s in \<open>auto simp: s_def c_def\<close>)
        have sj: "s ! j = seg ! j"
          if "j < length seg" "j \<noteq> 16" "j \<noteq> 17" "c \<longrightarrow> j \<noteq> i + 2 \<and> j \<noteq> i + 3" for j
        proof (cases "c \<and> 18 \<le> j")
          case True
          then show ?thesis using cl(2) [of j] that by (simp add: s_def)
        next
          case False
          then show ?thesis using cl(3) [of j] that by (auto simp: s_def)
        qed
        have sum: "word_sum s mod 65535 = word_sum seg mod 65535" if "c \<longrightarrow> even i"
          using mss_clamp_sum [OF 1(3) four(1)] that by (auto simp: s_def)
        define t where "t = mss_options seg (olen - ?l) (i + n)"
        define q where "q = mss_opts maxmss s (olen - ?l) (i + n)"
        have ih1: "q ! j = s ! j" if "j < length seg" "j \<noteq> 16" "j \<noteq> 17"
          "\<forall>(k, v) \<in> set t. j \<noteq> k + 2 \<and> j \<noteq> k + 3" for j
          using ih that unfolding o s t_def [symmetric] q_def [symmetric] by blast
        have ih2: "word_sum q mod 65535 = word_sum s mod 65535" if "\<forall>(k, v) \<in> set t. even k"
          using ih that unfolding o s t_def [symmetric] q_def [symmetric] by blast
        have hd: "P (i, mss_value seg i)"
          if "\<forall>x \<in> set (mss_options seg olen i). P x" and "c" for P
          using that unfolding os t_def by auto
        have tl': "\<forall>x \<in> set t. P x" if "\<forall>x \<in> set (mss_options seg olen i). P x" for P
          using that unfolding os t_def by auto
        show ?thesis unfolding r q_def [symmetric]
        proof (intro conjI allI impI; (elim conjE)?)
          fix j assume j: "j < length seg" "j \<noteq> 16" "j \<noteq> 17"
            and f: "\<forall>(k, v) \<in> set (mss_options seg olen i). j \<noteq> k + 2 \<and> j \<noteq> k + 3"
          have "c \<longrightarrow> j \<noteq> i + 2 \<and> j \<noteq> i + 3" using hd [OF f] by auto
          then show "q ! j = seg ! j" using ih1 [OF j tl' [OF f]] sj [OF j] by simp
        next
          assume f: "\<forall>(k, v) \<in> set (mss_options seg olen i). even k"
          have "c \<longrightarrow> even i" using hd [OF f] by auto
          then show "word_sum q mod 65535 = word_sum seg mod 65535" using ih2 [OF tl' [OF f]] sum by simp
        qed
      qed
    qed
  qed
qed

text \<open>At an odd index the two bytes of the value belong to different words of the sum.\<close>

lemma word_sum_byte:
  "j < length xs \<Longrightarrow> word_sum (xs[j := b]) = word_sum xs + (if even j then 1 else 256) * (uint b - uint (xs ! j))"
proof (induction xs arbitrary: j rule: word_sum.induct)
  case (3 a c xs)
  consider "j = 0" | "j = 1" | k where "j = Suc (Suc k)" "k < length xs"
    using 3(2) by (cases j rule: nat.exhaust; cases "j - 1") auto
  then show ?case by cases (use 3(1) in \<open>auto simp: algebra_simps\<close>)
qed auto

lemma mss_clamp_odd_sum:
  assumes "20 \<le> i" and "i + 4 \<le> length seg" and "odd i" and "mss_value seg i > m"
  shows "word_sum (mss_clamp m seg i) mod 65535 = (word_sum seg + 255 *
    ((uint (ucast (drop_bit 8 m) :: u8) - uint (seg ! (i + 2))) - (uint (ucast m :: u8) - uint (seg ! (i + 3)))))
      mod 65535"
proof -
  let ?h = "ucast (drop_bit 8 m) :: u8" and ?l = "ucast m :: u8"
  define s where "s = seg[i + 2 := ?h, i + 3 := ?l]"
  define acc where "acc = uint (htons (mss_value seg i)) - uint (htons m)"
  have "word_sum (seg[i + 2 := ?h]) = word_sum seg + 256 * (uint ?h - uint (seg ! (i + 2)))"
    using word_sum_byte [of "i + 2" seg ?h] assms(2,3) by simp
  moreover have "word_sum s = word_sum (seg[i + 2 := ?h]) + (uint ?l - uint (seg ! (i + 3)))"
    using word_sum_byte [of "i + 3" "seg[i + 2 := ?h]" ?l] assms(2,3) by (simp add: s_def)
  ultimately have s: "word_sum s
      = word_sum seg + 256 * (uint ?h - uint (seg ! (i + 2))) + (uint ?l - uint (seg ! (i + 3)))" by simp
  have "htons m = raw16 [?h, ?l] 0"
    using mss_value_raw16 [of "[0, 0, ?h, ?l]" 0] mss_value_bytes [of 0 "[0, 0, 0, 0]" m]
    by (simp add: raw16_def eval_nat_numeral)
  then have a: "acc = (uint (seg ! (i + 2)) + 256 * uint (seg ! (i + 3))) - (uint ?h + 256 * uint ?l)"
    by (simp add: acc_def mss_value_raw16 uint_raw16 eval_nat_numeral)
  have "\<bar>acc\<bar> < 2 ^ 30" unfolding acc_def by (rule u16_diff_bound)
  moreover have "length s = length seg" by (simp add: s_def)
  ultimately have "word_sum (memput s 16 (raw16_bytes (adjust_checksum acc (raw16 s 16)))) mod 65535
      = (word_sum s + acc) mod 65535"
    using assms by (intro fix_sum) simp_all
  moreover have "mss_clamp m seg i = memput s 16 (raw16_bytes (adjust_checksum acc (raw16 s 16)))"
    using assms(4) by (simp only: mss_clamp_def Let_def if_True s_def acc_def)
  moreover have "word_sum s + acc = word_sum seg
      + 255 * ((uint ?h - uint (seg ! (i + 2))) - (uint ?l - uint (seg ! (i + 3))))"
    unfolding s a by (simp add: algebra_simps)
  ultimately show ?thesis by simp
qed

section \<open>Properties\<close>

text \<open>
  C36: Clamping lowers the value of every MSS option of a TCP segment to the maximum and leaves
  the position of the options as it is; the segment keeps its length and every byte that is
  neither in the checksum nor in the value of an MSS option; and when the MSS options sit at
  even offsets of the segment the ones' complement sum that the TCP checksum is the complement
  of is preserved.
\<close>

theorem mss_fixup_dowork_clamps:
  "segment_mss (mss_fixup_dowork seg m) = map (\<lambda>(j, v). (j, min m v)) (segment_mss seg)
   \<and> length (mss_fixup_dowork seg m) = length seg
   \<and> (\<forall>j < length seg. j \<noteq> 16 \<and> j \<noteq> 17 \<and> (\<forall>(k, v) \<in> set (segment_mss seg). j \<noteq> k + 2 \<and> j \<noteq> k + 3)
        \<longrightarrow> mss_fixup_dowork seg m ! j = seg ! j)
   \<and> ((\<forall>(k, v) \<in> set (segment_mss seg). even k)
        \<longrightarrow> word_sum (mss_fixup_dowork seg m) mod 65535 = word_sum seg mod 65535)"
proof -
  let ?h = "OPENVPN_TCPH_GET_DOFF (seg ! 12)"
  let ?n = "?h - sizeof_tcphdr" and ?i = "nat sizeof_tcphdr"
  consider "int (length seg) < sizeof_tcphdr \<or> ?h > int (length seg)"
    | "int (length seg) \<ge> sizeof_tcphdr" "?h \<le> sizeof_tcphdr"
    | "int (length seg) \<ge> sizeof_tcphdr" "sizeof_tcphdr < ?h" "?h \<le> int (length seg)"
    by linarith
  then show ?thesis
  proof cases
    case 1
    then have "mss_fixup_dowork seg m = seg" "segment_mss seg = []"
      by (auto simp: mss_fixup_dowork_def segment_mss_def Let_def)
    then show ?thesis by simp
  next
    case 2
    then have "mss_fixup_dowork seg m = seg" "segment_mss seg = []"
      by (auto simp: mss_fixup_dowork_def segment_mss_def Let_def mss_options.simps)
    then show ?thesis by simp
  next
    case 3
    then have f: "mss_fixup_dowork seg m = mss_opts m seg ?n ?i" "segment_mss seg = mss_options seg ?n ?i"
      by (auto simp: mss_fixup_dowork_def segment_mss_def Let_def)
    have b: "20 \<le> ?i" "int ?i + ?n \<le> int (length seg)"
      using 3 by (simp_all add: sizeof_tcphdr_def)
    have len: "length (mss_opts m seg ?n ?i) = length seg" and twelve: "mss_opts m seg ?n ?i ! 12 = seg ! 12"
      using mss_opts_bytes [OF b, of m] by auto
    have "segment_mss (mss_opts m seg ?n ?i) = mss_options (mss_opts m seg ?n ?i) ?n ?i"
      using 3 by (simp add: segment_mss_def Let_def len twelve)
    then show ?thesis
      unfolding f using mss_opts_clamps [OF b] mss_opts_frame [OF b] len by simp
  qed
qed

text \<open>A SYN segment with a maximum segment size of 1460 at offset 20, clamped to 1300.\<close>

definition demo_syn :: "u8 list" where
  "demo_syn = [0x30, 0x39, 0, 80, 0, 0, 0, 1, 0, 0, 0, 0, 0x60, 2, 0xFF, 0xFF, 0x12, 0x34, 0, 0, 2, 4, 5, 0xB4]"

theorem mss_fixup_dowork_clamps_witness:
  "segment_mss demo_syn = [(20, 1460)] \<and> segment_mss (mss_fixup_dowork demo_syn 1300) = [(20, 1300)]
   \<and> word_sum (mss_fixup_dowork demo_syn 1300) mod 65535 = word_sum demo_syn mod 65535
   \<and> mss_fixup_dowork demo_syn 1300 ! 23 = 0x14"
proof -
  have s: "segment_mss demo_syn = [(20, 1460)]"
    by code_simp
  moreover have "mss_fixup_dowork demo_syn 1300 ! 23 = 0x14" by code_simp
  ultimately show ?thesis
    using mss_fixup_dowork_clamps [of demo_syn 1300] by simp
qed

text \<open>
  C37: When an MSS option starts at an odd offset the checksum correction is wrong: the change
  of the value is accounted for as if its two bytes formed one word of the sum, so the sum of
  the segment is off by 255 times the difference of the changes of the two bytes, and unless
  257 divides this difference a valid SYN leaves with an invalid checksum.
\<close>

theorem mss_clamp_odd_offset:
  assumes "20 \<le> i" and "i + 4 \<le> length seg" and "odd i" and "mss_value seg i > m"
    and "d = (uint (ucast (drop_bit 8 m) :: u8) - uint (seg ! (i + 2))) - (uint (ucast m :: u8) - uint (seg ! (i + 3)))"
  shows "word_sum (mss_clamp m seg i) mod 65535 = word_sum seg mod 65535 \<longleftrightarrow> 257 dvd d"
proof -
  have "word_sum (mss_clamp m seg i) mod 65535 = word_sum seg mod 65535
      \<longleftrightarrow> (word_sum seg + 255 * d) mod 65535 = word_sum seg mod 65535"
    using mss_clamp_odd_sum [OF assms(1-4)] assms(5) by simp
  also have "\<dots> \<longleftrightarrow> 65535 dvd 255 * d" by (simp add: mod_eq_dvd_iff)
  also have "\<dots> \<longleftrightarrow> 255 * 257 dvd 255 * d" by simp
  also have "\<dots> \<longleftrightarrow> 257 dvd d" by (simp only: dvd_mult_cancel_left) simp
  finally show ?thesis .
qed

text \<open>The same option after a NOP: 1460 becomes 1300, 05 B4 becomes 05 14.\<close>

definition demo_syn_nop :: "u8 list" where
  "demo_syn_nop = [0x30, 0x39, 0, 80, 0, 0, 0, 1, 0, 0, 0, 0, 0x70, 2, 0xFF, 0xFF, 0x12, 0x34, 0, 0,
     1, 2, 4, 5, 0xB4, 0, 0, 0]"

theorem mss_clamp_odd_offset_witness:
  "segment_mss demo_syn_nop = [(21, 1460)]
   \<and> word_sum (mss_clamp 1300 demo_syn_nop 21) mod 65535 \<noteq> word_sum demo_syn_nop mod 65535"
proof -
  have v: "segment_mss demo_syn_nop = [(21, 1460)]" by code_simp
  have "20 \<le> (21 :: nat)" and "21 + 4 \<le> length demo_syn_nop" and "odd (21 :: nat)"
    by (simp_all add: demo_syn_nop_def)
  moreover have "mss_value demo_syn_nop 21 > 1300" by code_simp
  moreover have "160 = (uint (ucast (drop_bit 8 (1300 :: u16)) :: u8) - uint (demo_syn_nop ! (21 + 2)))
      - (uint (ucast (1300 :: u16) :: u8) - uint (demo_syn_nop ! (21 + 3)))" by code_simp
  ultimately show ?thesis using mss_clamp_odd_offset [of 21 demo_syn_nop 1300 160] v by simp
qed

end
