(* ===== verification/FrameSize.thy ===== *)
theory FrameSize
  imports Mtu PacketId Proto
begin

text \<open>
  The packet size computations of \<open>mtu.c\<close> and \<open>mss.c\<close>: how many bytes the data channel adds
  to a packet (\<open>crypto.c\<close>, \<open>socket.h\<close>), and the maximum segment and fragment sizes that keep
  the packets on the wire within the configured limits. The sizes of the cipher and the digest
  are the answers of the crypto library, a record; overhead sums, a few hundred bytes at most,
  are integers, while the \<open>unsigned int\<close> subtractions from the configured limits are at their
  width.
\<close>

section \<open>Options and key type\<close>

datatype link_proto = PROTO_NONE | PROTO_UDP | PROTO_TCP | PROTO_TCP_SERVER | PROTO_TCP_CLIENT

datatype comp_alg = COMP_ALG_UNDEF | COMP_ALG_STUB | COMP_ALG_LZO | COMP_ALG_SNAPPY | COMP_ALG_LZ4
  | COMP_ALGV2_UNCOMPRESSED | COMP_ALGV2_LZ4

text \<open>The answers of the crypto library about a \<open>struct key_type\<close>.\<close>

record key_type =
  kt_mode_cbc :: bool
  kt_mode_aead :: bool
  kt_mode_ofb_cfb :: bool
  kt_cipher_defined :: bool
  kt_md_defined :: bool
  kt_block_size :: int
  kt_iv_size :: int
  kt_tag_size :: int
  kt_md_size :: int

text \<open>The members of \<open>struct options\<close> and its connection entry the computations read.\<close>

record size_options =
  so_tls_server :: bool
  so_tls_client :: bool
  so_shared_secret_file :: bool
  so_use_peer_id :: bool
  so_ciphername :: string
  so_authname :: string
  so_comp_alg :: comp_alg
  so_socks_proxy_server :: bool
  so_proto :: link_proto
  so_af :: af
  so_tun_mtu :: int
  so_fragment :: int
  so_fragment_encap :: bool
  so_mssfix :: int
  so_mssfix_encap :: bool
  so_mssfix_fixed :: bool

section \<open>Overhead\<close>

definition proto_is_udp :: "link_proto \<Rightarrow> bool" where
  "proto_is_udp proto \<longleftrightarrow> proto = PROTO_UDP"

definition proto_is_tcp :: "link_proto \<Rightarrow> bool" where
  "proto_is_tcp proto \<longleftrightarrow> proto = PROTO_TCP_CLIENT \<or> proto = PROTO_TCP_SERVER"

definition datagram_overhead :: "af \<Rightarrow> link_proto \<Rightarrow> int" where
  "datagram_overhead af proto =
     (if proto = PROTO_UDP then 8 else 20) + (if af = AF_INET then 20 else 40)"

definition calculate_crypto_overhead :: "key_type \<Rightarrow> int \<Rightarrow> bool \<Rightarrow> int" where
  "calculate_crypto_overhead kt pkt_id_size occ =
     (let o1 = (if \<not> kt_mode_cbc kt then pkt_id_size else 0)
      in if kt_mode_aead kt
         then o1 + kt_tag_size kt + (if occ then kt_iv_size kt + kt_block_size kt else 0)
         else o1 + (if kt_cipher_defined kt
                    then (if occ then kt_block_size kt else 0) + kt_iv_size kt else 0)
                 + (if kt_md_defined kt then kt_md_size kt else 0))"

definition calc_packet_id_size_dc :: "size_options \<Rightarrow> key_type \<Rightarrow> int" where
  "calc_packet_id_size_dc options kt =
     (let tlsmode = so_tls_server options \<or> so_tls_client options;
          packet_id_long_form = (\<not> tlsmode \<or> kt_mode_ofb_cfb kt)
      in packet_id_size packet_id_long_form)"

definition frame_calculate_protocol_header_size :: "key_type \<Rightarrow> size_options \<Rightarrow> bool \<Rightarrow> int" where
  "frame_calculate_protocol_header_size kt options occ =
     (let tlsmode = so_tls_server options \<or> so_tls_client options;
          h1 = (if so_socks_proxy_server options \<and> proto_is_udp (so_proto options) then 10 else 0);
          h2 = h1 + (if proto_is_tcp (so_proto options) then 2 else 0);
          h3 = h2 + (if tlsmode then (if so_use_peer_id options then 4 else 1) else 0);
          pkt_id_size = calc_packet_id_size_dc options kt
      in h3 + calculate_crypto_overhead kt pkt_id_size occ)"

definition frame_calculate_payload_overhead :: "int \<Rightarrow> size_options \<Rightarrow> key_type \<Rightarrow> int" where
  "frame_calculate_payload_overhead extra_tun options kt =
     extra_tun
     + (if so_comp_alg options \<in> {COMP_ALG_LZ4, COMP_ALG_STUB, COMP_ALG_LZO} then 1 else 0)
     + (if so_fragment options \<noteq> 0 then 4 else 0)
     + (if kt_mode_cbc kt then calc_packet_id_size_dc options kt else 0)"

definition frame_calculate_payload_size :: "frame \<Rightarrow> size_options \<Rightarrow> key_type \<Rightarrow> int" where
  "frame_calculate_payload_size frame options kt =
     so_tun_mtu options + frame_calculate_payload_overhead (fr_extra_tun frame) options kt"

text \<open>\<open>init_key_type\<close> looks the names of a cipher and a digest up in the crypto library.\<close>

definition calc_options_string_link_mtu ::
    "(string \<Rightarrow> string \<Rightarrow> bool \<Rightarrow> key_type) \<Rightarrow> size_options \<Rightarrow> frame \<Rightarrow> int" where
  "calc_options_string_link_mtu init_key_type opt frame =
     (if \<not> so_tls_client opt \<and> \<not> so_tls_server opt \<and> \<not> so_shared_secret_file opt
      then frame_calculate_payload_size frame opt (init_key_type ''none'' ''none'' False)
      else
        (let bf = (so_ciphername opt = ''BF-CBC'');
             ciphername = (if bf then ''none'' else so_ciphername opt);
             overhead = (if bf then 64 div 8 + 64 div 8 else 0);
             occ_kt = init_key_type ciphername (so_authname opt) True;
             payload = frame_calculate_payload_size frame opt occ_kt
         in payload + (overhead + frame_calculate_protocol_header_size occ_kt opt True)))"

section \<open>Limits\<close>

definition round_down_uint :: "u32 \<Rightarrow> u32 \<Rightarrow> u32" where
  "round_down_uint num multiple = (num div multiple) * multiple"

definition adjust_payload_max_cbc :: "key_type \<Rightarrow> u32 \<Rightarrow> u32" where
  "adjust_payload_max_cbc kt target =
     (if \<not> kt_mode_cbc kt then target
      else round_down_uint target (word_of_int (kt_block_size kt)) - 1)"

text \<open>The address family and protocol of an established link, if there is one.\<close>

type_synonym link_socket_info = "(af \<times> link_proto) option"

definition get_ip_encap_overhead :: "size_options \<Rightarrow> link_socket_info \<Rightarrow> int" where
  "get_ip_encap_overhead options lsi =
     (case lsi of
        Some (af, proto) \<Rightarrow> datagram_overhead af proto
      | None \<Rightarrow> datagram_overhead (so_af options) (so_proto options))"

definition frame_calculate_fragment :: "frame \<Rightarrow> key_type \<Rightarrow> size_options \<Rightarrow> link_socket_info \<Rightarrow> frame" where
  "frame_calculate_fragment frame kt options lsi =
     (let overhead = frame_calculate_protocol_header_size kt options False
                     + (if so_fragment_encap options then get_ip_encap_overhead options lsi else 0);
          target = word_of_int (so_fragment options) - word_of_int overhead :: u32;
          m1 = sint (adjust_payload_max_cbc kt target - 4);
          m2 = (if kt_mode_cbc kt then m1 - calc_packet_id_size_dc options kt else m1)
      in frame\<lparr>fr_max_fragment_size := m2\<rparr>)"

definition frame_calculate_mssfix :: "frame \<Rightarrow> key_type \<Rightarrow> size_options \<Rightarrow> link_socket_info \<Rightarrow> frame" where
  "frame_calculate_mssfix frame kt options lsi =
     (if so_mssfix_fixed options
      then frame\<lparr>fr_mss_fix := word_of_int (so_mssfix options - (20 + 20))\<rparr>
      else
        (let overhead = frame_calculate_protocol_header_size kt options False;
             payload_overhead = frame_calculate_payload_overhead (fr_extra_tun frame) options kt;
             overhead1 = overhead + (if so_mssfix_encap options then get_ip_encap_overhead options lsi else 0);
             payload_overhead1 = payload_overhead + 20 + 20;
             target = word_of_int (so_mssfix options) - word_of_int overhead1
         in frame\<lparr>fr_mss_fix := adjust_payload_max_cbc kt target - word_of_int payload_overhead1\<rparr>))"

definition frame_calculate_dynamic :: "frame \<Rightarrow> key_type \<Rightarrow> size_options \<Rightarrow> link_socket_info \<Rightarrow> frame" where
  "frame_calculate_dynamic frame kt options lsi =
     (let f1 = (if so_fragment options > 0 then frame_calculate_fragment frame kt options lsi else frame)
      in if so_mssfix options > 0 then frame_calculate_mssfix f1 kt options lsi else f1)"

text \<open>The options, the frame of the tunnel and the frame of the fragments.\<close>

definition frame_adjust_path_mtu ::
    "int \<Rightarrow> af \<Rightarrow> link_proto \<Rightarrow> key_type \<Rightarrow> size_options \<times> frame \<times> frame \<Rightarrow> size_options \<times> frame \<times> frame" where
  "frame_adjust_path_mtu pmtu af proto kt s =
     (case s of
        (opt, frame, frame_fragment) \<Rightarrow>
          (let lsi = Some (af, proto);
               encap_overhead = datagram_overhead af proto;
               (o1, f1) =
                 (if pmtu < so_mssfix opt \<or> so_mssfix_encap opt \<and> pmtu < so_mssfix opt + encap_overhead
                  then (let o1 = opt\<lparr>so_mssfix := pmtu, so_mssfix_encap := True\<rparr>
                        in (o1, frame_calculate_dynamic frame kt o1 lsi))
                  else (opt, frame));
               (o2, ff1) =
                 (if pmtu < so_fragment o1 \<or> so_fragment_encap o1 \<and> pmtu < so_fragment o1 + encap_overhead
                  then (let o2 = o1\<lparr>so_fragment := pmtu, so_fragment_encap := True\<rparr>
                        in (o2, frame_calculate_dynamic frame_fragment kt o2 lsi))
                  else (o1, frame_fragment))
           in (o2, f1, ff1)))"

section \<open>The buffers of the tunnel\<close>

text \<open>
  The members of the connection entry \<open>frame_finalize_options\<close> reads besides those above. Its
  sums are in \<open>size_t\<close>, and the MTU becomes an \<open>int\<close> again when it is stored.
\<close>

record mtu_options =
  mo_size :: size_options
  mo_tun_mtu_defined :: bool
  mo_tun_mtu_max :: int
  mo_tun_mtu_extra :: int
  mo_link_mtu_defined :: bool
  mo_link_mtu :: int
  mo_tls_mtu :: int

definition int_of_size :: "nat \<Rightarrow> int" where
  "int_of_size n = sint (word_of_nat n :: u32)"

definition crypto_max_overhead :: nat where
  "crypto_max_overhead = nat (packet_id_size True) + 16 + 32 + nat (max_int 64 16)"

definition get_frame_mtu :: "key_type \<Rightarrow> mtu_options \<Rightarrow> nat option" where
  "get_frame_mtu kt o' =
     (let mtu =
        (if mo_link_mtu_defined o'
         then Some (size_of_int (mo_link_mtu o' - frame_calculate_protocol_header_size kt (mo_size o') True))
         else if mo_tun_mtu_defined o' then Some (size_of_int (so_tun_mtu (mo_size o')))
         else None)
      in case mtu of
           None \<Rightarrow> None
         | Some m \<Rightarrow> if m < 100 then None else Some m)"

definition frame_finalize_options :: "key_type \<Rightarrow> mtu_options \<Rightarrow> frame \<Rightarrow> frame option" where
  "frame_finalize_options kt o' frame =
     (case get_frame_mtu kt o' of
        None \<Rightarrow> None
      | Some mtu \<Rightarrow>
          (let tun_mtu = int_of_size mtu;
               tun_max_mtu = max_int 1600 (max_int tun_mtu (mo_tun_mtu_max o'));
               p1 = size_of_int (max_int tun_max_mtu (mo_tls_mtu o'));
               p2 = (if mo_tun_mtu_defined o' then p1 + size_of_int (mo_tun_mtu_extra o') else p1);
               headroom = (crypto_max_overhead + 4 + 10 + (1 + 1) + 3) div 4 * 4;
               payload_size = p2 + 32 + headroom;
               tailroom = headroom + (payload_size div 6 + 128 + 3 + 1)
           in Some (frame\<lparr>fr_tun_mtu := tun_mtu, fr_tun_max_mtu := tun_max_mtu,
                fr_payload_size := int_of_size payload_size, fr_headroom := int_of_size headroom,
                fr_tailroom := int_of_size tailroom\<rparr>)))"

section \<open>Word arithmetic\<close>

lemma u32_of_int: "0 \<le> x \<Longrightarrow> x < 2 ^ 32 \<Longrightarrow> uint (word_of_int x :: u32) = x"
  by (simp add: uint_word_of_int)

lemma sint_u32_of_int: "- (2 ^ 31) \<le> x \<Longrightarrow> x < 2 ^ 31 \<Longrightarrow> sint (word_of_int x :: u32) = x"
  by (simp only: sint_sbintrunc') (simp add: signed_take_bit_int_eq_self)

lemma u32_sub: "0 \<le> y \<Longrightarrow> y \<le> x \<Longrightarrow> x < 2 ^ 32 \<Longrightarrow> uint (word_of_int x - word_of_int y :: u32) = x - y"
  by (subst wi_hom_sub) (rule u32_of_int; simp)

lemma int_le_div_iff: "0 < b \<Longrightarrow> k \<le> t div b \<longleftrightarrow> k * b \<le> (t :: int)"
proof
  assume b: "0 < b" and "k \<le> t div b"
  then have "k * b \<le> t div b * b" by simp
  also have "\<dots> \<le> t" using pos_mod_sign [OF b, of t] div_mult_mod_eq [of t b] by linarith
  finally show "k * b \<le> t" .
next
  assume b: "0 < b" and "k * b \<le> t"
  then show "k \<le> t div b" using zdiv_mono1 [of "k * b" t b] by simp
qed

lemma cbc_round: "0 < b \<Longrightarrow> b \<le> t \<Longrightarrow> b \<le> t div b * b \<and> t div b * b \<le> t \<and> t - b < t div b * (b :: int)"
proof -
  assume b: "0 < b" "b \<le> t"
  have "0 \<le> t mod b" "t mod b < b" using b by simp_all
  moreover have "t div b * b + t mod b = t" by simp
  moreover have "1 \<le> t div b" using b by (simp add: pos_imp_zdiv_pos_iff int_one_le_iff_zero_less)
  then have "b \<le> t div b * b" using b(1) by simp
  ultimately show ?thesis by linarith
qed

text \<open>The largest plaintext the target leaves room for.\<close>

definition cbc_room :: "key_type \<Rightarrow> int \<Rightarrow> int" where
  "cbc_room kt t = (if kt_mode_cbc kt then t div kt_block_size kt * kt_block_size kt - 1 else t)"

text \<open>The size of its ciphertext: padding is at least one byte and fills the last block.\<close>

definition cipher_size :: "key_type \<Rightarrow> int \<Rightarrow> int" where
  "cipher_size kt p =
     (if kt_mode_cbc kt then (p div kt_block_size kt + 1) * kt_block_size kt else p)"

lemma adjust_payload_max_cbc_room:
  assumes "0 < kt_block_size kt" "kt_block_size kt \<le> t" "t < 2 ^ 32"
  shows "uint (adjust_payload_max_cbc kt (word_of_int t)) = cbc_room kt t"
    and "t - kt_block_size kt \<le> cbc_room kt t" "cbc_room kt t \<le> t"
proof -
  let ?b = "kt_block_size kt" and ?m = "t div kt_block_size kt * kt_block_size kt"
  note r = cbc_round [OF assms(1,2)]
  have u: "uint (word_of_int ?b :: u32) = ?b" "uint (word_of_int t :: u32) = t"
    using assms by (simp_all add: u32_of_int)
  have "uint (round_down_uint (word_of_int t) (word_of_int ?b)) = ?m"
  proof -
    have "word_of_int t div word_of_int ?b = (word_of_int (t div ?b) :: u32)"
      by (simp only: word_div_def u)
    then have "round_down_uint (word_of_int t) (word_of_int ?b) = word_of_int ?m"
      by (simp add: round_down_uint_def)
    then show ?thesis using r assms by (simp only:) (rule u32_of_int; linarith)
  qed
  moreover have "round_down_uint (word_of_int t) (word_of_int ?b) = word_of_int ?m"
    using calculation by (metis word_of_int_uint)
  moreover have "uint (word_of_int ?m - word_of_int 1 :: u32) = ?m - 1"
    using r assms by (intro u32_sub) linarith+
  ultimately show "uint (adjust_payload_max_cbc kt (word_of_int t)) = cbc_room kt t"
    using u(2) by (simp add: adjust_payload_max_cbc_def cbc_room_def)
  show "t - ?b \<le> cbc_room kt t" "cbc_room kt t \<le> t" using r assms by (simp_all add: cbc_room_def)
qed

lemma cipher_fits:
  assumes "0 < kt_block_size kt"
  shows "cipher_size kt p \<le> t \<longleftrightarrow> p \<le> cbc_room kt t"
proof (cases "kt_mode_cbc kt")
  case True
  let ?b = "kt_block_size kt"
  have "(p div ?b + 1) * ?b \<le> t \<longleftrightarrow> p div ?b + 1 \<le> t div ?b"
    using int_le_div_iff [OF assms] by simp
  also have "\<dots> \<longleftrightarrow> \<not> t div ?b \<le> p div ?b" by auto
  also have "\<dots> \<longleftrightarrow> p < t div ?b * ?b" using int_le_div_iff [OF assms] by auto
  finally show ?thesis using True by (auto simp: cipher_size_def cbc_room_def)
qed (simp add: cipher_size_def cbc_room_def)

section \<open>Properties\<close>

text \<open>
  The size on the wire of a data channel packet with \<open>p\<close> bytes of plaintext, with the
  encapsulating IP and UDP or TCP headers when the limit counts them.
\<close>

definition wire_size :: "key_type \<Rightarrow> size_options \<Rightarrow> bool \<Rightarrow> link_socket_info \<Rightarrow> int \<Rightarrow> int" where
  "wire_size kt options encap lsi p =
     frame_calculate_protocol_header_size kt options False
     + (if encap then get_ip_encap_overhead options lsi else 0) + cipher_size kt p"


definition demo_cbc :: key_type where
  "demo_cbc = \<lparr>kt_mode_cbc = True, kt_mode_aead = False, kt_mode_ofb_cfb = False, kt_cipher_defined = True,
     kt_md_defined = True, kt_block_size = 16, kt_iv_size = 16, kt_tag_size = 0, kt_md_size = 32\<rparr>"

definition demo_options :: size_options where
  "demo_options = \<lparr>so_tls_server = False, so_tls_client = True, so_shared_secret_file = False,
     so_use_peer_id = True, so_ciphername = ''AES-256-CBC'', so_authname = ''SHA256'',
     so_comp_alg = COMP_ALG_UNDEF, so_socks_proxy_server = False, so_proto = PROTO_UDP, so_af = AF_INET,
     so_tun_mtu = 1500, so_fragment = 0, so_fragment_encap = False, so_mssfix = 1492,
     so_mssfix_encap = True, so_mssfix_fixed = False\<rparr>"

definition demo_frame :: frame where
  "demo_frame = \<lparr>fr_payload_size = 1600, fr_headroom = 128, fr_tailroom = 128, fr_mss_fix = 0,
     fr_max_fragment_size = 0, fr_tun_mtu = 1500, fr_tun_max_mtu = 1600, fr_extra_tun = 0\<rparr>"

lemmas size_defs = demo_cbc_def demo_options_def demo_frame_def wire_size_def cipher_size_def
  frame_calculate_protocol_header_size_def frame_calculate_payload_overhead_def get_ip_encap_overhead_def
  datagram_overhead_def calculate_crypto_overhead_def calc_packet_id_size_dc_def packet_id_size_def
  proto_is_udp_def proto_is_tcp_def Let_def


text \<open>
  The maximum fragment size is exact in the same sense: a fragment of a payload, with its
  four byte fragment header and in CBC mode the packet id, stays within the configured limit on
  the wire if and only if it carries at most that many bytes.
\<close>

theorem max_fragment_exact:
  assumes "so_fragment opt < 2 ^ 31" and "0 < kt_block_size kt"
    and "overhead = wire_size kt opt (so_fragment_encap opt) lsi 0 - cipher_size kt 0" and "0 \<le> overhead"
    and "extra = 4 + (if kt_mode_cbc kt then calc_packet_id_size_dc opt kt else 0)"
    and "overhead + extra + kt_block_size kt \<le> so_fragment opt"
    and "m = fr_max_fragment_size (frame_calculate_fragment frame kt opt lsi)"
  shows "0 \<le> m \<and> (wire_size kt opt (so_fragment_encap opt) lsi (n + extra) \<le> so_fragment opt \<longleftrightarrow> n \<le> m)"
proof -
  let ?t = "so_fragment opt - overhead" and ?r = "cbc_room kt (so_fragment opt - overhead)"
  have ex: "4 \<le> extra" using assms(5) by (simp add: calc_packet_id_size_dc_def packet_id_size_def Let_def)
  have t: "kt_block_size kt \<le> ?t" "?t < 2 ^ 31" using assms(1,4,6) ex by simp_all
  note room = adjust_payload_max_cbc_room [OF assms(2) t(1)]
  have t32: "?t < 2 ^ 32" using t(2) by simp
  have "adjust_payload_max_cbc kt (word_of_int ?t) = word_of_int ?r"
    by (metis room(1) [OF t32] word_of_int_uint)
  moreover have "sint (word_of_int ?r - 4 :: u32) = ?r - 4"
  proof -
    have "word_of_int ?r - 4 = (word_of_int (?r - 4) :: u32)" by simp
    moreover have "sint (word_of_int (?r - 4) :: u32) = ?r - 4"
      by (rule sint_u32_of_int) (use room(2,3) [OF t32] t(2) assms(4,6) ex in linarith)+
    ultimately show ?thesis by simp
  qed
  ultimately have m: "m = ?r - extra"
    using assms(3,5,7) by (simp add: frame_calculate_fragment_def wire_size_def Let_def algebra_simps)
  have "wire_size kt opt (so_fragment_encap opt) lsi (n + extra) \<le> so_fragment opt
      \<longleftrightarrow> cipher_size kt (n + extra) \<le> ?t"
    using assms(3) by (auto simp: wire_size_def)
  also have "\<dots> \<longleftrightarrow> n \<le> m" unfolding cipher_fits [OF assms(2)] m by linarith
  finally show ?thesis using m room(2) [OF t32] assms(6) by linarith
qed

theorem max_fragment_exact_witness:
  "fr_max_fragment_size (frame_calculate_fragment demo_frame demo_cbc (demo_options\<lparr>so_fragment := 1300\<rparr>) None) = 1239
   \<and> wire_size demo_cbc (demo_options\<lparr>so_fragment := 1300\<rparr>) False None (1239 + 8) \<le> 1300"
proof -
  let ?o = "demo_options\<lparr>so_fragment := 1300\<rparr>"
  let ?m = "fr_max_fragment_size (frame_calculate_fragment demo_frame demo_cbc ?o None)"
  have m: "0 \<le> ?m \<and> (wire_size demo_cbc ?o False None (n + 8) \<le> 1300 \<longleftrightarrow> n \<le> ?m)" for n
    using max_fragment_exact [of ?o demo_cbc 52 None 8 ?m demo_frame n] by (simp add: size_defs)
  have "wire_size demo_cbc ?o False None (1239 + 8) \<le> 1300" "\<not> wire_size demo_cbc ?o False None (1240 + 8) \<le> 1300"
    by (simp_all add: size_defs)
  then show ?thesis using m [of 1239] m [of 1240] by linarith
qed

text \<open>
  C40: Path MTU discovery adjusts in the wrong case. The check adds the encapsulation overhead
  when the limit already counts it: a limit that fits the path but for less than that overhead
  is raised to the path MTU, above what was configured; and without the \<open>mtu\<close> flag a limit
  between the path MTU less the overhead and the path MTU stays, although a full segment no
  longer fits.
\<close>

theorem frame_adjust_path_mtu_case:
  assumes "so_mssfix opt < pmtu" and "pmtu < so_mssfix opt + datagram_overhead af proto"
    and "frame_adjust_path_mtu pmtu af proto kt (opt, f, ff) = (opt', f', ff')"
  shows "(so_mssfix_encap opt \<longrightarrow> so_mssfix opt' = pmtu \<and> so_mssfix opt < so_mssfix opt')
    \<and> (\<not> so_mssfix_encap opt \<longrightarrow> so_mssfix opt' = so_mssfix opt \<and> f' = f
         \<and> pmtu < so_mssfix opt + get_ip_encap_overhead opt (Some (af, proto)))"
  using assms
  by (auto simp: frame_adjust_path_mtu_def get_ip_encap_overhead_def Let_def split: if_splits)

theorem frame_adjust_path_mtu_case_witness:
  "so_mssfix (fst (frame_adjust_path_mtu 1500 AF_INET PROTO_UDP demo_cbc (demo_options, demo_frame, demo_frame))) = 1500
   \<and> so_mssfix demo_options = 1492"
proof -
  obtain opt' f' ff' where
    r: "frame_adjust_path_mtu 1500 AF_INET PROTO_UDP demo_cbc (demo_options, demo_frame, demo_frame) = (opt', f', ff')"
    by (metis prod_cases3)
  have "so_mssfix_encap demo_options" "so_mssfix demo_options = 1492" by (simp_all add: demo_options_def)
  moreover have "datagram_overhead AF_INET PROTO_UDP = 28" by (simp add: datagram_overhead_def)
  ultimately show ?thesis
    using frame_adjust_path_mtu_case [OF _ _ r] r by simp
qed


text \<open>The buffers of the tunnel hold every packet of the tunnel device with its headers.\<close>

definition mtu_options_ok :: "mtu_options \<Rightarrow> bool" where
  "mtu_options_ok o' \<longleftrightarrow> mo_tun_mtu_max o' < 200000 \<and> mo_tls_mtu o' < 200000
     \<and> (mo_tun_mtu_defined o' \<longrightarrow> 0 \<le> mo_tun_mtu_extra o' \<and> mo_tun_mtu_extra o' < 200000)"

lemma int_of_size_id: "n < 2 ^ 31 \<Longrightarrow> int_of_size n = int n"
proof -
  assume "n < 2 ^ 31"
  then have n: "int n < 2 ^ 31" by simp
  have "int_of_size n = sint (word_of_int (int n) :: u32)" by (simp add: int_of_size_def)
  also have "\<dots> = int n" using n by (intro sint_u32_of_int) simp_all
  finally show ?thesis .
qed

lemma frame_finalize_buffers:
  assumes "frame_finalize_options kt o' frame0 = Some frame" and "mtu_options_ok o'" and "fr_tun_mtu frame < 200000"
  shows "fr_headroom frame = 136" and "fr_tun_max_mtu frame + 168 \<le> fr_payload_size frame"
    and "268 \<le> fr_tailroom frame" and "BUF_SIZE frame < int BUF_SIZE_MAX" and "1600 \<le> fr_tun_max_mtu frame"
    and "fr_tun_mtu frame \<le> fr_tun_max_mtu frame"
proof -
  obtain mtu where mtu: "get_frame_mtu kt o' = Some mtu"
    using assms(1) by (auto simp: frame_finalize_options_def split: option.splits)
  let ?tm = "max_int 1600 (max_int (int_of_size mtu) (mo_tun_mtu_max o'))"
  let ?p1 = "size_of_int (max_int ?tm (mo_tls_mtu o'))"
  let ?p2 = "if mo_tun_mtu_defined o' then ?p1 + size_of_int (mo_tun_mtu_extra o') else ?p1"
  have co: "crypto_max_overhead = 120" by (simp add: crypto_max_overhead_def packet_id_size_def max_int_def)
  have fr: "frame = frame0\<lparr>fr_tun_mtu := int_of_size mtu, fr_tun_max_mtu := ?tm,
      fr_payload_size := int_of_size (?p2 + 32 + 136), fr_headroom := int_of_size 136,
      fr_tailroom := int_of_size (136 + ((?p2 + 32 + 136) div 6 + 128 + 3 + 1))\<rparr>"
    using assms(1) mtu by (simp add: frame_finalize_options_def Let_def co)
  have tm: "1600 \<le> ?tm" "?tm < 200000" "int_of_size mtu \<le> ?tm"
    using assms(2,3) fr by (auto simp: mtu_options_ok_def max_int_def)
  have m: "?tm \<le> max_int ?tm (mo_tls_mtu o')" "max_int ?tm (mo_tls_mtu o') < 200000"
    using tm assms(2) by (auto simp: mtu_options_ok_def max_int_def)
  then have p1: "int ?p1 = max_int ?tm (mo_tls_mtu o')" using tm(1) by simp
  have p2: "?p1 \<le> ?p2" "?p2 < 400000"
    using p1 m assms(2) by (auto simp: mtu_options_ok_def)
  have i: "int_of_size (?p2 + 32 + 136) = int ?p2 + 168" "int_of_size 136 = 136"
    "int_of_size (136 + ((?p2 + 32 + 136) div 6 + 128 + 3 + 1)) = int ((?p2 + 168) div 6) + 268"
    using p2(2) by (subst int_of_size_id; simp)+
  show "fr_headroom frame = 136" "1600 \<le> fr_tun_max_mtu frame" "fr_tun_mtu frame \<le> fr_tun_max_mtu frame"
    using fr i tm by simp_all
  show "fr_tun_max_mtu frame + 168 \<le> fr_payload_size frame" using fr i(1) p1 p2(1) m(1) by simp
  show "268 \<le> fr_tailroom frame" using fr i(3) by simp
  have "int ((?p2 + 168) div 6) \<le> int (?p2 + 168)" by simp
  then show "BUF_SIZE frame < int BUF_SIZE_MAX" using fr i p2(2) by (simp add: BUF_SIZE_def BUF_SIZE_MAX_def)
qed

end
