(* ===== verification/Crypto.thy ===== *)
theory Crypto
  imports ReplayWindow Mtu
begin

text \<open>
  The data channel of \<open>crypto.c\<close>: encryption and authentication of a packet, in AEAD mode and
  in the CBC, OFB, CFB and no-cipher modes, and the checks of an incoming packet in the order
  the code makes them. The crypto library is an argument, a record of the functions of
  \<open>crypto_backend.h\<close> the code calls: \<open>'k\<close> is a cipher context initialised with its key,
  \<open>'s\<close> the state of the operation that \<open>cipher_ctx_reset\<close> starts with an IV, and \<open>'h\<close> an HMAC
  context with its key. A failing function is \<open>None\<close> there; a failed \<open>ASSERT\<close>, which ends the
  process, is the result \<open>None\<close> of the model.
\<close>

section \<open>Contexts\<close>

record ('k, 's, 'h) crypto_api =
  cipher_ctx_iv_length :: "'k \<Rightarrow> int"
  cipher_ctx_block_size :: "'k \<Rightarrow> int"
  ctx_mode_aead :: "'k \<Rightarrow> bool"
  ctx_mode_cbc :: "'k \<Rightarrow> bool"
  ctx_mode_ofb_cfb :: "'k \<Rightarrow> bool"
  cipher_ctx_reset :: "'k \<Rightarrow> u8 list \<Rightarrow> 's option"
  cipher_ctx_update_ad :: "'s \<Rightarrow> u8 list \<Rightarrow> 's option"
  cipher_ctx_update :: "'s \<Rightarrow> u8 list \<Rightarrow> ('s \<times> u8 list) option"
  cipher_ctx_final :: "'s \<Rightarrow> ('s \<times> u8 list) option"
  cipher_ctx_get_tag :: "'s \<Rightarrow> nat \<Rightarrow> u8 list option"
  cipher_ctx_final_check_tag :: "'s \<Rightarrow> u8 list \<Rightarrow> ('s \<times> u8 list) option"
  hmac_ctx_size :: "'h \<Rightarrow> int"
  hmac_ctx_compute :: "'h \<Rightarrow> u8 list \<Rightarrow> u8 list"

record ('k, 'h) key_ctx =
  kc_cipher :: "'k option"
  kc_hmac :: "'h option"
  kc_implicit_iv :: "u8 list"

record ('k, 'h) crypto_options =
  co_encrypt :: "('k, 'h) key_ctx"
  co_decrypt :: "('k, 'h) key_ctx"
  co_packet_id :: packet_id
  co_pid_persist :: "packet_id_persist option"
  co_long_form :: bool
  co_ignore_packet_id :: bool

definition OPENVPN_AEAD_TAG_LENGTH :: nat where "OPENVPN_AEAD_TAG_LENGTH = 16"
definition OPENVPN_MAX_IV_LENGTH :: nat where "OPENVPN_MAX_IV_LENGTH = 16"
definition OPENVPN_AEAD_MIN_IV_LEN :: int where "OPENVPN_AEAD_MIN_IV_LEN = 4 + 8"

lemmas crypto_consts = OPENVPN_AEAD_TAG_LENGTH_def OPENVPN_MAX_IV_LENGTH_def OPENVPN_AEAD_MIN_IV_LEN_def

definition packet_id_initialized :: "packet_id \<Rightarrow> bool" where
  "packet_id_initialized pid = r_initialized (pid_rec pid)"

definition assert_opt :: "bool \<Rightarrow> unit option" where
  "assert_opt c = (if c then Some () else None)"

text \<open>\<open>ASSERT\<close> on the result of a buffer operation.\<close>

definition assert_ok :: "bool \<times> 'a \<Rightarrow> 'a option" where
  "assert_ok r = (case r of (True, b) \<Rightarrow> Some b | (False, _) \<Rightarrow> None)"

text \<open>
  An IV array is the block of a buffer of its length; the code's arrays have the maximum
  length, of which the buffer covers the first \<open>iv_len\<close> bytes.
\<close>

text \<open>
  Bytes the crypto library writes after the content of a buffer, followed by \<open>buf_inc_len\<close>;
  bytes beyond the block are the \<open>None\<close> case.
\<close>

definition buf_out :: "buffer \<Rightarrow> u8 list \<Rightarrow> buffer option" where
  "buf_out b bs = assert_ok (buf_write b bs)"

definition with_send :: "('k, 'h) crypto_options \<Rightarrow> packet_id_send \<Rightarrow> ('k, 'h) crypto_options" where
  "with_send opt s = opt\<lparr>co_packet_id := (co_packet_id opt)\<lparr>pid_send := s\<rparr>\<rparr>"

definition with_replay ::
    "('k, 'h) crypto_options \<Rightarrow> packet_id \<times> packet_id_persist option \<Rightarrow> ('k, 'h) crypto_options" where
  "with_replay opt st = opt\<lparr>co_packet_id := fst st, co_pid_persist := snd st\<rparr>"

definition drop_packet :: "buffer \<Rightarrow> buffer" where
  "drop_packet buf = buf\<lparr>b_len := 0\<rparr>"

section \<open>Encryption\<close>

definition openvpn_encrypt_aead ::
    "('k, 's, 'h) crypto_api \<Rightarrow> time_t \<Rightarrow> buffer \<Rightarrow> buffer \<Rightarrow> ('k, 'h) crypto_options
       \<Rightarrow> (buffer \<times> ('k, 'h) crypto_options) option" where
  "openvpn_encrypt_aead api now buf work opt =
     (let ctx = co_encrypt opt; mac_len = OPENVPN_AEAD_TAG_LENGTH; implicit_iv_len = int (length (kc_implicit_iv ctx)) in
      do {
        c \<leftarrow> kc_cipher ctx;
        assert_opt (packet_id_initialized (co_packet_id opt));
        let iv_len = cipher_ctx_iv_length api c;
        assert_opt (iv_len \<ge> OPENVPN_AEAD_MIN_IV_LEN \<and> iv_len \<le> int OPENVPN_MAX_IV_LENGTH);
        iv_buffer \<leftarrow> buf_set_write clear_buf (Some (replicate (nat iv_len) 0)) iv_len;
        case packet_id_write now (pid_send (co_packet_id opt)) iv_buffer False False of
          (False, snd', _) \<Rightarrow> Some (drop_packet buf, with_send opt snd')
        | (True, snd', iv_buffer1) \<Rightarrow>
            do {
              iv_buffer2 \<leftarrow> assert_ok (buf_write iv_buffer1 (kc_implicit_iv ctx));
              assert_opt (b_len iv_buffer2 = iv_len);
              let iv = buf_mem iv_buffer2;
              work1 \<leftarrow> assert_ok (buf_write work (take (nat (iv_len - implicit_iv_len)) iv));
              s0 \<leftarrow> cipher_ctx_reset api c iv;
              case buf_write_alloc work1 mac_len of
                (None, _) \<Rightarrow> None
              | (Some mac_out, work2) \<Rightarrow>
                  if \<not> buf_safe work2 (size_of_int (b_len buf + cipher_ctx_block_size api c))
                  then Some (drop_packet buf, with_send opt snd')
                  else do {
                    s1 \<leftarrow> cipher_ctx_update_ad api s0 (take (nat (buf_len work2 - int mac_len)) (buf_bytes work2));
                    (s2, out1) \<leftarrow> cipher_ctx_update api s1 (buf_bytes buf);
                    work3 \<leftarrow> buf_out work2 out1;
                    (s3, out2) \<leftarrow> cipher_ctx_final api s2;
                    work4 \<leftarrow> buf_out work3 out2;
                    tag \<leftarrow> cipher_ctx_get_tag api s3 mac_len;
                    Some (buf_poke work4 mac_out tag, with_send opt snd')
                  }
            }
      })"

text \<open>
  CBC, OFB and CFB modes: \<open>iv_rand\<close> is what \<open>prng_bytes\<close> returns. The result holds the work
  buffer, the index of the space reserved for the HMAC and the index where the authenticated
  bytes start, or nothing on an error.
\<close>

type_synonym ('k, 'h) v1_sealed = "((buffer \<times> nat \<times> nat) option \<times> ('k, 'h) crypto_options) option"

definition encrypt_v1_iv ::
    "('k, 's, 'h) crypto_api \<Rightarrow> time_t \<Rightarrow> u8 list \<Rightarrow> 'k \<Rightarrow> buffer \<Rightarrow> ('k, 'h) crypto_options
       \<Rightarrow> (bool \<times> u8 list \<times> buffer \<times> ('k, 'h) crypto_options) option" where
  "encrypt_v1_iv api now iv_rand c buf opt =
     (let iv_size = cipher_ctx_iv_length api c; send = pid_send (co_packet_id opt) in
      if ctx_mode_cbc api c
      then (if packet_id_initialized (co_packet_id opt)
            then (case packet_id_write now send buf (co_long_form opt) True of
                    (ok, snd', buf1) \<Rightarrow> Some (ok, iv_rand, buf1, with_send opt snd'))
            else Some (True, iv_rand, buf, opt))
      else if ctx_mode_ofb_cfb api c
      then do {
        assert_opt (packet_id_initialized (co_packet_id opt));
        b \<leftarrow> buf_set_write clear_buf (Some (replicate (nat iv_size) 0)) iv_size;
        case packet_id_write now send b True False of
          (ok, snd', b1) \<Rightarrow> do {
            assert_opt ok;
            Some (True, buf_mem b1, buf, with_send opt snd')
          }
      }
      else None)"

definition encrypt_v1_cipher ::
    "('k, 's, 'h) crypto_api \<Rightarrow> time_t \<Rightarrow> u8 list \<Rightarrow> 'k \<Rightarrow> buffer \<Rightarrow> buffer \<Rightarrow> ('k, 'h) crypto_options
       \<Rightarrow> ('k, 'h) v1_sealed" where
  "encrypt_v1_cipher api now iv_rand c buf work opt =
     do {
       (mac_out, work1) \<leftarrow> (case kc_hmac (co_encrypt opt) of
          None \<Rightarrow> Some (0, work)
        | Some h \<Rightarrow> (case buf_write_alloc work (nat (hmac_ctx_size api h)) of
                       (None, _) \<Rightarrow> None
                     | (Some i, w) \<Rightarrow> Some (i, w)));
       let hmac_start = nat (b_offset work1 + b_len work1);
       (ok, iv, buf1, opt1) \<leftarrow> encrypt_v1_iv api now iv_rand c buf opt;
       if \<not> ok then Some (None, opt1)
       else do {
         work2 \<leftarrow> assert_ok (buf_write work1 iv);
         s0 \<leftarrow> cipher_ctx_reset api c iv;
         if \<not> buf_safe work2 (size_of_int (b_len buf1 + cipher_ctx_block_size api c))
         then Some (None, opt1)
         else do {
           (s1, out1) \<leftarrow> cipher_ctx_update api s0 (buf_bytes buf1);
           work3 \<leftarrow> buf_out work2 out1;
           (s2, out2) \<leftarrow> cipher_ctx_final api s1;
           work4 \<leftarrow> buf_out work3 out2;
           assert_opt (\<not> ctx_mode_cbc api c \<or> int (length out2) = cipher_ctx_iv_length api c);
           Some (Some (work4, mac_out, hmac_start), opt1)
         }
       }
     }"

definition encrypt_v1_plain ::
    "('k, 's, 'h) crypto_api \<Rightarrow> time_t \<Rightarrow> buffer \<Rightarrow> buffer \<Rightarrow> ('k, 'h) crypto_options
       \<Rightarrow> ('k, 'h) v1_sealed" where
  "encrypt_v1_plain api now buf work opt =
     (case (if packet_id_initialized (co_packet_id opt)
            then packet_id_write now (pid_send (co_packet_id opt)) buf (co_long_form opt) True
            else (True, pid_send (co_packet_id opt), buf)) of
        (False, snd', _) \<Rightarrow> Some (None, with_send opt snd')
      | (True, snd', buf1) \<Rightarrow>
          do {
            let hmac_start = nat (b_offset buf1);
            (mac_out, buf2) \<leftarrow> (case kc_hmac (co_encrypt opt) of
               None \<Rightarrow> Some (0, buf1)
             | Some h \<Rightarrow> (case buf_prepend buf1 (hmac_ctx_size api h) of
                            (None, _) \<Rightarrow> None
                          | (Some i, b) \<Rightarrow> Some (i, b)));
            let buf3 = (if buf_len work \<noteq> 0 then snd (buf_write_prepend buf2 (buf_bytes work)) else buf2);
            Some (Some (buf3, mac_out, hmac_start), with_send opt snd')
          })"

definition openvpn_encrypt_v1 ::
    "('k, 's, 'h) crypto_api \<Rightarrow> time_t \<Rightarrow> u8 list \<Rightarrow> buffer \<Rightarrow> buffer \<Rightarrow> ('k, 'h) crypto_options
       \<Rightarrow> (buffer \<times> ('k, 'h) crypto_options) option" where
  "openvpn_encrypt_v1 api now iv_rand buf work opt =
     (if \<not> b_len buf > 0 then Some (buf, opt)
      else do {
        (r, opt1) \<leftarrow> (case kc_cipher (co_encrypt opt) of
            Some c \<Rightarrow> encrypt_v1_cipher api now iv_rand c buf work opt
          | None \<Rightarrow> encrypt_v1_plain api now buf work opt);
        case r of
          None \<Rightarrow> Some (drop_packet buf, opt1)
        | Some (work1, mac_out, hmac_start) \<Rightarrow>
            (case kc_hmac (co_encrypt opt) of
               None \<Rightarrow> Some (work1, opt1)
             | Some h \<Rightarrow>
                 (let bend = nat (b_offset work1 + b_len work1);
                      mac = hmac_ctx_compute api h (memget (buf_mem work1) hmac_start (bend - hmac_start))
                  in Some (buf_poke work1 mac_out mac, opt1)))
      })"

definition key_mode_aead :: "('k, 's, 'h) crypto_api \<Rightarrow> ('k, 'h) key_ctx \<Rightarrow> bool" where
  "key_mode_aead api ctx = (case kc_cipher ctx of None \<Rightarrow> False | Some c \<Rightarrow> ctx_mode_aead api c)"

definition openvpn_encrypt ::
    "('k, 's, 'h) crypto_api \<Rightarrow> time_t \<Rightarrow> u8 list \<Rightarrow> buffer \<Rightarrow> buffer \<Rightarrow> ('k, 'h) crypto_options option
       \<Rightarrow> (buffer \<times> ('k, 'h) crypto_options option) option" where
  "openvpn_encrypt api now iv_rand buf work opt0 =
     (case opt0 of
        Some opt \<Rightarrow>
          if b_len buf > 0
          then map_option (\<lambda>(b, opt1). (b, Some opt1))
                 (if key_mode_aead api (co_encrypt opt) then openvpn_encrypt_aead api now buf work opt
                  else openvpn_encrypt_v1 api now iv_rand buf work opt)
          else Some (buf, opt0)
      | None \<Rightarrow> Some (buf, opt0))"

section \<open>Decryption\<close>

text \<open>\<open>ad_start\<close> is a pointer into the block of \<open>buf\<close>, an index.\<close>

definition openvpn_decrypt_aead ::
    "('k, 's, 'h) crypto_api \<Rightarrow> time_t \<Rightarrow> buffer \<Rightarrow> buffer \<Rightarrow> ('k, 'h) crypto_options \<Rightarrow> frame \<Rightarrow> nat
       \<Rightarrow> (bool \<times> buffer \<times> ('k, 'h) crypto_options) option" where
  "openvpn_decrypt_aead api now buf work opt frame ad_start =
     (let ctx = co_decrypt opt; tag_size = OPENVPN_AEAD_TAG_LENGTH; implicit_iv_len = int (length (kc_implicit_iv ctx));
          error_exit = (\<lambda>b. Some (False, drop_packet b, opt)) in
      do {
        assert_opt (b_len buf > 0);
        c \<leftarrow> kc_cipher ctx;
        assert_opt (int ad_start \<le> b_offset buf);
        work0 \<leftarrow> assert_ok (buf_init work (fr_headroom frame));
        assert_opt (packet_id_initialized (co_packet_id opt));
        let iv_len = cipher_ctx_iv_length api c;
        assert_opt (implicit_iv_len \<le> iv_len);
        if b_len buf + implicit_iv_len < iv_len then error_exit buf
        else case cipher_ctx_reset api c
               (take (nat (iv_len - implicit_iv_len)) (buf_bytes buf) @ kc_implicit_iv ctx) of
          None \<Rightarrow> error_exit buf
        | Some s0 \<Rightarrow>
            (case packet_id_read buf False of
               (False, _, buf1) \<Rightarrow> error_exit buf1
             | (True, pin, buf1) \<Rightarrow>
                 if b_len buf1 < int tag_size then error_exit buf1
                 else do {
                   let tag = take tag_size (buf_bytes buf1);
                   buf2 \<leftarrow> assert_ok (buf_advance buf1 (int tag_size));
                   if b_len buf2 < 1 then error_exit buf2
                   else if \<not> buf_safe work0 (size_of_int (b_len buf2 + cipher_ctx_block_size api c))
                   then error_exit buf2
                   else do {
                     let ad_size = b_offset buf2 - int ad_start - int tag_size;
                     s1 \<leftarrow> cipher_ctx_update_ad api s0 (memget (buf_mem buf2) ad_start (nat ad_size));
                     case cipher_ctx_update api s1 (buf_bytes buf2) of
                       None \<Rightarrow> error_exit buf2
                     | Some (s2, out1) \<Rightarrow>
                         do {
                           work1 \<leftarrow> buf_out work0 out1;
                           case cipher_ctx_final_check_tag api s2 tag of
                             None \<Rightarrow> error_exit buf2
                           | Some (s3, out2) \<Rightarrow>
                               do {
                                 work2 \<leftarrow> buf_out work1 out2;
                                 (ok, st) \<leftarrow> crypto_check_replay now (co_long_form opt)
                                              (co_packet_id opt, co_pid_persist opt) pin;
                                 Some (if ok then (True, work2, with_replay opt st)
                                       else (False, drop_packet buf2, with_replay opt st))
                               }
                         }
                   }
                 })
      })"

text \<open>The HMAC check of the other modes: the verdict and the buffer behind the HMAC.\<close>

definition decrypt_v1_hmac ::
    "('k, 's, 'h) crypto_api \<Rightarrow> 'h option \<Rightarrow> buffer \<Rightarrow> (bool \<times> buffer) option" where
  "decrypt_v1_hmac api hm buf =
     (case hm of
        None \<Rightarrow> Some (True, buf)
      | Some h \<Rightarrow>
          (let hmac_len = hmac_ctx_size api h in
           if b_len buf < hmac_len then Some (False, buf)
           else if hmac_ctx_compute api h (drop (nat hmac_len) (buf_bytes buf)) \<noteq> take (nat hmac_len) (buf_bytes buf)
           then Some (False, buf)
           else map_option (Pair True) (assert_ok (buf_advance buf hmac_len))))"

text \<open>
  The packet id of a decrypted packet, read from the plaintext (CBC) or the IV (OFB and CFB):
  the verdict, the id if the mode has one, and the plaintext behind it.
\<close>

definition decrypt_v1_pin ::
    "('k, 's, 'h) crypto_api \<Rightarrow> 'k \<Rightarrow> u8 list \<Rightarrow> buffer \<Rightarrow> ('k, 'h) crypto_options
       \<Rightarrow> (bool \<times> packet_id_net option \<times> buffer) option" where
  "decrypt_v1_pin api c iv work opt =
     (if ctx_mode_cbc api c
      then (if packet_id_initialized (co_packet_id opt)
            then (case packet_id_read work (co_long_form opt) of (ok, pin, work1) \<Rightarrow> Some (ok, Some pin, work1))
            else Some (True, None, work))
      else if ctx_mode_ofb_cfb api c
      then do {
        assert_opt (packet_id_initialized (co_packet_id opt));
        b \<leftarrow> buf_set_read clear_buf (Some iv) (length iv);
        case packet_id_read b True of (ok, pin, _) \<Rightarrow> Some (ok, Some pin, work)
      }
      else None)"

text \<open>
  The result of a decryption before the replay check: the remaining input buffer and, unless an
  error occurred, the plaintext and the packet id to check.
\<close>

type_synonym v1_opened = "(buffer \<times> (buffer \<times> packet_id_net option) option) option"

definition decrypt_v1_cipher ::
    "('k, 's, 'h) crypto_api \<Rightarrow> 'k \<Rightarrow> buffer \<Rightarrow> buffer \<Rightarrow> ('k, 'h) crypto_options \<Rightarrow> frame \<Rightarrow> v1_opened" where
  "decrypt_v1_cipher api c buf work opt frame =
     (let iv_size = cipher_ctx_iv_length api c in
      do {
        work0 \<leftarrow> assert_ok (buf_init work (fr_headroom frame));
        if b_len buf < iv_size then Some (buf, None)
        else do {
          let iv = take (nat iv_size) (buf_bytes buf);
          buf1 \<leftarrow> assert_ok (buf_advance buf iv_size);
          if b_len buf1 < 1 then Some (buf1, None)
          else case cipher_ctx_reset api c iv of
            None \<Rightarrow> Some (buf1, None)
          | Some s0 \<Rightarrow>
              if \<not> buf_safe work0 (size_of_int (b_len buf1 + cipher_ctx_block_size api c))
              then Some (buf1, None)
              else (case cipher_ctx_update api s0 (buf_bytes buf1) of
                      None \<Rightarrow> Some (buf1, None)
                    | Some (s1, out1) \<Rightarrow> do {
                        work1 \<leftarrow> buf_out work0 out1;
                        case cipher_ctx_final api s1 of
                          None \<Rightarrow> Some (buf1, None)
                        | Some (s2, out2) \<Rightarrow> do {
                            work2 \<leftarrow> buf_out work1 out2;
                            (ok, pin, work3) \<leftarrow> decrypt_v1_pin api c iv work2 opt;
                            Some (buf1, if ok then Some (work3, pin) else None)
                          }
                      })
        }
      })"

definition decrypt_v1_plain :: "buffer \<Rightarrow> ('k, 'h) crypto_options \<Rightarrow> v1_opened" where
  "decrypt_v1_plain buf opt =
     (if packet_id_initialized (co_packet_id opt)
      then (case packet_id_read buf (co_long_form opt) of
              (False, _, _) \<Rightarrow> Some (buf, None)
            | (True, pin, work) \<Rightarrow>
                Some (buf, Some (work, if co_ignore_packet_id opt then None else Some pin)))
      else Some (buf, Some (buf, None)))"

definition openvpn_decrypt_v1 ::
    "('k, 's, 'h) crypto_api \<Rightarrow> time_t \<Rightarrow> buffer \<Rightarrow> buffer \<Rightarrow> ('k, 'h) crypto_options \<Rightarrow> frame
       \<Rightarrow> (bool \<times> buffer \<times> ('k, 'h) crypto_options) option" where
  "openvpn_decrypt_v1 api now buf work opt frame =
     (if \<not> b_len buf > 0 then Some (True, buf, opt)
      else do {
        (ok, buf1) \<leftarrow> decrypt_v1_hmac api (kc_hmac (co_decrypt opt)) buf;
        if \<not> ok then Some (False, drop_packet buf1, opt)
        else do {
          (buf2, r) \<leftarrow> (case kc_cipher (co_decrypt opt) of
              Some c \<Rightarrow> decrypt_v1_cipher api c buf1 work opt frame
            | None \<Rightarrow> decrypt_v1_plain buf1 opt);
          case r of
            None \<Rightarrow> Some (False, drop_packet buf2, opt)
          | Some (work1, None) \<Rightarrow> Some (True, work1, opt)
          | Some (work1, Some pin) \<Rightarrow>
              do {
                (fresh, st) \<leftarrow> crypto_check_replay now (co_long_form opt) (co_packet_id opt, co_pid_persist opt) pin;
                Some (if fresh then (True, work1, with_replay opt st)
                      else (False, drop_packet buf2, with_replay opt st))
              }
        }
      })"

definition openvpn_decrypt ::
    "('k, 's, 'h) crypto_api \<Rightarrow> time_t \<Rightarrow> buffer \<Rightarrow> buffer \<Rightarrow> ('k, 'h) crypto_options option \<Rightarrow> frame \<Rightarrow> nat
       \<Rightarrow> (bool \<times> buffer \<times> ('k, 'h) crypto_options option) option" where
  "openvpn_decrypt api now buf work opt0 frame ad_start =
     (case opt0 of
        Some opt \<Rightarrow>
          if b_len buf > 0
          then map_option (\<lambda>(ok, b, opt1). (ok, b, Some opt1))
                 (if key_mode_aead api (co_decrypt opt) then openvpn_decrypt_aead api now buf work opt frame ad_start
                  else openvpn_decrypt_v1 api now buf work opt frame)
          else Some (True, buf, opt0)
      | None \<Rightarrow> Some (True, buf, opt0))"

end
