(* ===== verification/DataChannel.thy ===== *)
theory DataChannel
  imports Crypto Proto
begin

text \<open>
  What the data channel of theory \<open>Crypto\<close> guarantees. A sealed AEAD packet is laid out as
  header, packet id, tag, ciphertext; a receiver with the matching context opens it again; a
  packet it returns was authenticated by the crypto library and is no replay, and a packet that
  fails the authentication leaves no trace in the receiver's state.
\<close>

section \<open>Partial operations\<close>

lemma assert_opt_Some [simp]: "assert_opt c = Some u \<longleftrightarrow> c" "assert_opt True = Some ()" "assert_opt False = None"
  by (simp_all add: assert_opt_def)

lemma assert_ok_Some [simp]: "assert_ok r = Some b \<longleftrightarrow> r = (True, b)" "assert_ok (True, b) = Some b"
    "assert_ok (False, b) = None"
  by (auto simp: assert_ok_def split: prod.splits bool.splits)

lemma bind_Some_map: "Option.bind x (\<lambda>(a, b). Some (f a b)) = map_option (\<lambda>(a, b). f a b) x"
  by (cases x) auto

lemma buf_out_ok [buf_simps]:
  "buf_wf b \<Longrightarrow> int (length bs) \<le> buf_tailroom b \<Longrightarrow> buf_out b bs = Some (buf_push b bs)"
  by (simp add: buf_out_def buf_write_eq)

lemma buf_out_SomeD: "buf_wf b \<Longrightarrow> buf_out b bs = Some b' \<Longrightarrow> b' = buf_push b bs \<and> int (length bs) \<le> buf_tailroom b"
  by (simp add: buf_out_def buf_write_eq split: if_splits)

lemma with_send_fields [simp]:
  "co_encrypt (with_send opt s) = co_encrypt opt" "co_decrypt (with_send opt s) = co_decrypt opt"
  "pid_send (co_packet_id (with_send opt s)) = s" "pid_rec (co_packet_id (with_send opt s)) = pid_rec (co_packet_id opt)"
  "co_pid_persist (with_send opt s) = co_pid_persist opt" "co_long_form (with_send opt s) = co_long_form opt"
  by (simp_all add: with_send_def)

lemma with_replay_fields [simp]:
  "co_encrypt (with_replay opt st) = co_encrypt opt" "co_decrypt (with_replay opt st) = co_decrypt opt"
  "co_packet_id (with_replay opt st) = fst st" "co_pid_persist (with_replay opt st) = snd st"
  "co_long_form (with_replay opt st) = co_long_form opt"
  by (simp_all add: with_replay_def)

text \<open>Space reserved in a buffer holds what the block held before.\<close>

lemma buf_write_alloc_ok:
  assumes "buf_wf b" and "int n \<le> buf_tailroom b"
  obtains junk where "length junk = n"
    "buf_write_alloc b n = (Some (nat (b_offset b) + length (buf_bytes b)), buf_push b junk)"
proof -
  obtain d where d: "b_data b = Some d" "int (length d) = b_capacity b" "0 \<le> b_offset b" "0 \<le> b_len b"
    "b_offset b + b_len b \<le> b_capacity b" "b_capacity b < int BUF_SIZE_MAX"
    using assms(1) by (rule buf_wfE)
  let ?i = "nat (b_offset b + b_len b)"
  have r: "?i + n \<le> length d" and i: "?i = nat (b_offset b) + nat (b_len b)"
    using assms(2) d by (auto simp: buf_tailroom_def)
  have l: "length (memget d ?i n) = n" using r by (intro length_memget)
  have "buf_push b (memget d ?i n) = b\<lparr>b_len := b_len b + int n\<rparr>"
    using d(1) l r by (simp add: buf_push_def buf_poke_def memput_memget_same)
  moreover have "buf_safe b n"
    using assms d by (auto simp: buf_safe_def buf_valid_def buf_size_valid_def buf_tailroom_def)
  ultimately have "buf_write_alloc b n = (Some (nat (b_offset b) + length (buf_bytes b)), buf_push b (memget d ?i n))"
    using assms(1) by (simp add: buf_write_alloc_def buf_bptr_def buf_wf_facts length_buf_bytes)
  with l show thesis by (intro that)
qed

lemma buf_safe_iff:
  "buf_wf b \<Longrightarrow> 0 \<le> n \<Longrightarrow> n < 2 ^ 63 \<Longrightarrow> buf_safe b (size_of_int n) \<longleftrightarrow> n \<le> buf_tailroom b"
  by (auto elim!: buf_wfE simp: buf_safe_def size_of_int_nonneg buf_valid_def buf_size_valid_def buf_tailroom_def)

section \<open>Sealing and opening with the crypto library\<close>

definition aead_seal ::
    "('k, 's, 'h) crypto_api \<Rightarrow> 'k \<Rightarrow> u8 list \<Rightarrow> u8 list \<Rightarrow> u8 list \<Rightarrow> (u8 list \<times> u8 list) option" where
  "aead_seal api c iv ad p =
     do {
       s0 \<leftarrow> cipher_ctx_reset api c iv;
       s1 \<leftarrow> cipher_ctx_update_ad api s0 ad;
       (s2, out1) \<leftarrow> cipher_ctx_update api s1 p;
       (s3, out2) \<leftarrow> cipher_ctx_final api s2;
       tag \<leftarrow> cipher_ctx_get_tag api s3 OPENVPN_AEAD_TAG_LENGTH;
       Some (out1 @ out2, tag)
     }"

definition aead_open ::
    "('k, 's, 'h) crypto_api \<Rightarrow> 'k \<Rightarrow> u8 list \<Rightarrow> u8 list \<Rightarrow> u8 list \<Rightarrow> u8 list \<Rightarrow> u8 list option" where
  "aead_open api c iv ad ct tag =
     do {
       s0 \<leftarrow> cipher_ctx_reset api c iv;
       s1 \<leftarrow> cipher_ctx_update_ad api s0 ad;
       (s2, out1) \<leftarrow> cipher_ctx_update api s1 ct;
       (s3, out2) \<leftarrow> cipher_ctx_final_check_tag api s2 tag;
       Some (out1 @ out2)
     }"

section \<open>The sealed packet\<close>

lemma iv_buffer_ok:
  assumes "12 \<le> n" and "n \<le> 16"
  obtains b where "buf_set_write clear_buf (Some (replicate (nat n) 0)) n = Some b" "buf_wf b"
    "buf_bytes b = []" "buf_tailroom b = n" "b_offset b = 0" "b_capacity b = n"
proof -
  let ?b = "clear_buf\<lparr>b_len := 0, b_offset := 0, b_capacity := n, b_data := Some (memput (replicate (nat n) 0) 0 [0])\<rparr>"
  have "buf_size_valid (size_of_int n)"
    using assms by (simp add: buf_size_valid_def size_of_int_nonneg BUF_SIZE_MAX_def)
  then have "buf_set_write clear_buf (Some (replicate (nat n) 0)) n = Some ?b"
    using assms by (simp add: buf_set_write_def)
  moreover have "buf_wf ?b" using assms by (simp add: buf_wf_def BUF_SIZE_MAX_def)
  moreover have "buf_bytes ?b = []" by (simp add: buf_bytes_def buf_len_def)
  moreover have "buf_tailroom ?b = n" by (simp add: buf_tailroom_def)
  ultimately show thesis by (rule that) simp_all
qed

lemma encrypt_aead_ok:
  assumes "buf_wf buf" and "buf_wf work"
    and ctx: "kc_cipher (co_encrypt opt) = Some c" "packet_id_initialized (co_packet_id opt)"
      "12 \<le> cipher_ctx_iv_length api c" "cipher_ctx_iv_length api c \<le> 16"
      "int (length (kc_implicit_iv (co_encrypt opt))) = cipher_ctx_iv_length api c - 4"
      "0 \<le> cipher_ctx_block_size api c"
    and send: "packet_id_send_update now (pid_send (co_packet_id opt)) False = (True, send')"
    and header: "hd' = buf_bytes work @ u32_bytes (s_id send')"
    and seal: "aead_seal api c (u32_bytes (s_id send') @ kc_implicit_iv (co_encrypt opt)) hd' (buf_bytes buf)
        = Some (ct, tag)" "length tag = 16" "int (length ct) \<le> b_len buf + cipher_ctx_block_size api c"
    and room: "20 + b_len buf + cipher_ctx_block_size api c \<le> buf_tailroom work"
  obtains w where "openvpn_encrypt_aead api now buf work opt = Some (w, with_send opt send')" "buf_wf w"
    "buf_bytes w = hd' @ tag @ ct"
proof -
  let ?n = "cipher_ctx_iv_length api c" and ?im = "kc_implicit_iv (co_encrypt opt)"
  let ?pid = "u32_bytes (s_id send')"
  obtain ivb where ivb: "buf_set_write clear_buf (Some (replicate (nat ?n) 0)) ?n = Some ivb" "buf_wf ivb"
    "buf_bytes ivb = []" "buf_tailroom ivb = ?n" "b_offset ivb = 0" "b_capacity ivb = ?n"
    using iv_buffer_ok [OF ctx(3,4)] by blast
  have w1: "packet_id_write now (pid_send (co_packet_id opt)) ivb False False = (True, send', buf_push ivb ?pid)"
    using ivb ctx(3) send by (simp add: packet_id_write_def Let_def buf_write_eq)
  let ?ivb2 = "buf_push (buf_push ivb ?pid) ?im"
  have iv: "assert_ok (buf_write (buf_push ivb ?pid) ?im) = Some ?ivb2" "buf_wf ?ivb2" "buf_bytes ?ivb2 = ?pid @ ?im"
    using ivb ctx(3,5) by (simp_all add: buf_simps)
  have ivlen: "b_len ?ivb2 = ?n"
    using length_buf_bytes_int [OF iv(2)] iv(3) ctx(5) by simp
  have ivmem: "buf_mem ?ivb2 = ?pid @ ?im"
    using buf_full_mem [OF iv(2)] iv(3) ivlen ivb(5,6) by simp
  have tk: "take (nat (?n - int (length ?im))) (?pid @ ?im) = ?pid" using ctx(5) by simp
  have "0 \<le> b_len buf" using assms(1) by (simp add: buf_wf_facts)
  let ?w1 = "buf_push work ?pid"
  have wk1: "assert_ok (buf_write work ?pid) = Some ?w1" "buf_wf ?w1" "buf_bytes ?w1 = hd'"
    "buf_tailroom ?w1 = buf_tailroom work - 4" "b_offset ?w1 = b_offset work"
    using assms(2) room \<open>0 \<le> b_len buf\<close> ctx(6) by (simp_all add: buf_simps header)
  obtain junk where junk: "length junk = 16"
    "buf_write_alloc ?w1 16 = (Some (nat (b_offset work) + length hd'), buf_push ?w1 junk)"
    using buf_write_alloc_ok [OF wk1(2), of 16] wk1(3-5) room \<open>0 \<le> b_len buf\<close> ctx(6) by auto
  let ?w2 = "buf_push ?w1 junk"
  have wk2: "buf_wf ?w2" "buf_bytes ?w2 = hd' @ junk" "buf_tailroom ?w2 = buf_tailroom work - 20"
    using wk1 junk(1) room \<open>0 \<le> b_len buf\<close> ctx(6) by (simp_all add: buf_simps)
  have safe: "buf_safe ?w2 (size_of_int (b_len buf + cipher_ctx_block_size api c))"
    using wk2 room \<open>0 \<le> b_len buf\<close> ctx(6) buf_wf_facts(9,6,5,4) [OF assms(2)]
    by (subst buf_safe_iff [OF wk2(1)]) (auto simp: buf_tailroom_def BUF_SIZE_MAX_def)
  have ad: "take (nat (buf_len ?w2 - int 16)) (buf_bytes ?w2) = hd'"
    using length_buf_bytes_int [OF wk2(1)] wk2(2) junk(1) buf_wf_facts(3) [OF wk2(1)] by simp
  obtain s0 s1 s2 out1 s3 out2 where lib: "cipher_ctx_reset api c (?pid @ ?im) = Some s0"
    "cipher_ctx_update_ad api s0 hd' = Some s1" "cipher_ctx_update api s1 (buf_bytes buf) = Some (s2, out1)"
    "cipher_ctx_final api s2 = Some (s3, out2)" "cipher_ctx_get_tag api s3 16 = Some tag" "ct = out1 @ out2"
    using seal(1) by (auto simp: aead_seal_def crypto_consts split: bind_splits)
  let ?w3 = "buf_push ?w2 out1" and ?w4 = "buf_push (buf_push ?w2 out1) out2"
  have o1: "int (length out1) \<le> buf_tailroom ?w2" and o2: "int (length out2) \<le> buf_tailroom ?w3"
    using seal(3) lib(6) wk2(3) room by simp_all
  have w3: "buf_out ?w2 out1 = Some ?w3" "buf_wf ?w3" "buf_bytes ?w3 = hd' @ junk @ out1"
    using wk2 o1 by (simp_all add: buf_simps)
  have w4: "buf_out ?w3 out2 = Some ?w4" "buf_wf ?w4" "buf_bytes ?w4 = hd' @ junk @ ct" "b_offset ?w4 = b_offset work"
    using w3 o2 lib(6) by (simp_all add: buf_simps)
  let ?res = "buf_set ?w4 (length hd') tag"
  have fit: "int (length hd' + length tag) \<le> b_len ?w4"
    using length_buf_bytes_int [OF w4(2)] w4(3) junk(1) seal(2) by simp
  have res: "buf_wf ?res" "buf_bytes ?res = hd' @ tag @ ct"
    using buf_set_wf [OF w4(2) fit] buf_set_bytes [OF w4(2) fit] w4(3) junk(1) seal(2) by (simp_all add: memput_append)
  have poke: "buf_poke ?w4 (nat (b_offset work) + length hd') tag = ?res"
    using w4(4) by (simp add: buf_set_def)
  have asserts: "assert_opt (packet_id_initialized (co_packet_id opt)) = Some ()"
    "assert_opt (4 + 8 \<le> ?n \<and> ?n \<le> int 16) = Some ()" "assert_opt (?n = ?n) = Some ()"
    using ctx(2-4) by simp_all
  have "openvpn_encrypt_aead api now buf work opt = Some (?res, with_send opt send')"
    unfolding openvpn_encrypt_aead_def Let_def crypto_consts
    by (simp only: ctx(1) asserts assert_opt_Some ivb(1) w1 iv(1) ivlen ivmem tk wk1(1) lib junk(2) safe ad w3(1) w4(1) poke
        Option.bind.bind_lunit case_prod_conv bool.case option.case simp_thms if_False)
  with res show thesis by (intro that)
qed

section \<open>The opened packet\<close>

text \<open>
  What the library documents: additional data is always taken, and the output of an operation
  exceeds its input by at most one block.
\<close>

definition aead_bounded :: "('k, 's, 'h) crypto_api \<Rightarrow> 'k \<Rightarrow> bool" where
  "aead_bounded api c \<longleftrightarrow> 0 \<le> cipher_ctx_block_size api c \<and> cipher_ctx_block_size api c < 2 ^ 31
     \<and> (\<forall>s ad. cipher_ctx_update_ad api s ad \<noteq> None)
     \<and> (\<forall>s x s' o1. cipher_ctx_update api s x = Some (s', o1) \<longrightarrow>
          int (length o1) \<le> int (length x) + cipher_ctx_block_size api c
          \<and> (\<forall>tag s'' o2. cipher_ctx_final_check_tag api s' tag = Some (s'', o2) \<longrightarrow>
               int (length (o1 @ o2)) \<le> int (length x) + cipher_ctx_block_size api c))"

text \<open>The parts of an incoming packet.\<close>

definition packet_iv :: "int \<Rightarrow> u8 list \<Rightarrow> buffer \<Rightarrow> u8 list" where
  "packet_iv iv_len implicit buf = take (nat (iv_len - int (length implicit))) (buf_bytes buf) @ implicit"

definition packet_ad :: "buffer \<Rightarrow> nat \<Rightarrow> u8 list" where
  "packet_ad buf ad_start = memget (buf_mem buf) ad_start (nat (b_offset buf + 4 - int ad_start))"

definition packet_tag :: "buffer \<Rightarrow> u8 list" where
  "packet_tag buf = take 16 (drop 4 (buf_bytes buf))"

definition packet_ct :: "buffer \<Rightarrow> u8 list" where
  "packet_ct buf = drop 20 (buf_bytes buf)"

definition packet_pin :: "buffer \<Rightarrow> packet_id_net" where
  "packet_pin buf = \<lparr>n_id = u32_of_bytes (take 4 (buf_bytes buf)), n_time = 0\<rparr>"

definition open_packet :: "('k, 's, 'h) crypto_api \<Rightarrow> 'k \<Rightarrow> u8 list \<Rightarrow> buffer \<Rightarrow> nat \<Rightarrow> u8 list option" where
  "open_packet api c implicit buf ad_start =
     aead_open api c (packet_iv (cipher_ctx_iv_length api c) implicit buf) (packet_ad buf ad_start)
       (packet_ct buf) (packet_tag buf)"

lemma drop_packet_len [simp]: "b_len (drop_packet b) = 0"
  by (simp add: drop_packet_def)

lemma decrypt_aead_cases:
  assumes wf: "buf_wf buf" "buf_wf work" and len: "0 < b_len buf"
    and ctx: "kc_cipher (co_decrypt opt) = Some c" "packet_id_initialized (co_packet_id opt)"
      "int (length (kc_implicit_iv (co_decrypt opt))) \<le> cipher_ctx_iv_length api c"
    and ad: "int ad_start \<le> b_offset buf" and hr: "0 \<le> fr_headroom frame" "fr_headroom frame \<le> b_capacity work"
    and lib: "aead_bounded api c"
  obtains (dropped) b' where "openvpn_decrypt_aead api now buf work opt frame ad_start = Some (False, b', opt)"
      "b_len b' = 0"
      "20 < b_len buf \<Longrightarrow> cipher_ctx_iv_length api c - int (length (kc_implicit_iv (co_decrypt opt))) \<le> b_len buf \<Longrightarrow>
       fr_headroom frame + b_len buf - 20 + cipher_ctx_block_size api c \<le> b_capacity work \<Longrightarrow>
       open_packet api c (kc_implicit_iv (co_decrypt opt)) buf ad_start = None"
  | (opened) w b' where "20 < b_len buf" "buf_wf w" "b_len b' = 0"
      "open_packet api c (kc_implicit_iv (co_decrypt opt)) buf ad_start = Some (buf_bytes w)"
      "openvpn_decrypt_aead api now buf work opt frame ad_start =
         map_option (\<lambda>(ok, st). if ok then (True, w, with_replay opt st) else (False, b', with_replay opt st))
           (crypto_check_replay now (co_long_form opt) (co_packet_id opt, co_pid_persist opt) (packet_pin buf))"
proof -
  let ?im = "kc_implicit_iv (co_decrypt opt)" and ?n = "cipher_ctx_iv_length api c"
  let ?e = "nat (?n - int (length ?im))" and ?bs = "buf_bytes buf" and ?k = "cipher_ctx_block_size api c"
  let ?D = "openvpn_decrypt_aead api now buf work opt frame ad_start"
  let ?O = "open_packet api c ?im buf ad_start"
  let ?iv = "take ?e ?bs @ ?im"
  define work0 where "work0 = work\<lparr>b_len := 0, b_offset := fr_headroom frame\<rparr>"
  have w0: "assert_ok (buf_init work (fr_headroom frame)) = Some work0" "buf_wf work0" "buf_bytes work0 = []"
    "buf_tailroom work0 = b_capacity work - fr_headroom frame"
    using wf(2) hr by (simp_all add: work0_def buf_init_eq buf_init_wf buf_init_bytes buf_tailroom_def)
  have asserts: "assert_opt (0 < b_len buf) = Some ()" "assert_opt (int ad_start \<le> b_offset buf) = Some ()"
    "assert_opt (packet_id_initialized (co_packet_id opt)) = Some ()" "assert_opt (int (length ?im) \<le> ?n) = Some ()"
    using len ad ctx(2,3) by simp_all
  note unf = openvpn_decrypt_aead_def Let_def crypto_consts asserts ctx(1) w0(1) Option.bind.bind_lunit
  have bl: "int (length ?bs) = b_len buf" by (rule length_buf_bytes_int [OF wf(1)])
  show thesis
  proof (cases "b_len buf + int (length ?im) < ?n")
    case True
    show thesis
      by (rule dropped [of "drop_packet buf"]) (use True in \<open>simp_all add: unf\<close>)
  next
    case iv: False
    show thesis
    proof (cases "cipher_ctx_reset api c ?iv")
      case None
      show thesis
        by (rule dropped [of "drop_packet buf"])
          (use None iv in \<open>simp_all add: unf open_packet_def packet_iv_def aead_open_def\<close>)
    next
      case s0: (Some s0)
      show thesis
      proof (cases "4 \<le> b_len buf")
        case False
        then have "packet_id_read buf False = (False, \<lparr>n_id = 0, n_time = 0\<rparr>, buf)"
          using wf(1) by (simp add: packet_id_read_def buf_read_eq Let_def)
        then show thesis
          by (intro dropped [of "drop_packet buf"]) (use s0 iv False in \<open>simp_all add: unf\<close>)
      next
        case True
        let ?b1 = "buf_skip buf 4"
        have rd: "packet_id_read buf False = (True, packet_pin buf, ?b1)"
          using wf(1) True by (simp add: packet_id_read_def buf_read_eq Let_def packet_pin_def)
        have b1: "buf_wf ?b1" "buf_bytes ?b1 = drop 4 ?bs" using wf(1) True by (simp_all add: buf_simps)
        show thesis
        proof (cases "20 < b_len buf")
          case False
          show thesis
          proof (cases "b_len buf < 20")
            case True
            then show thesis
              by (intro dropped [of "drop_packet ?b1"]) (use s0 iv rd in \<open>simp_all add: unf\<close>)
          next
            case ge: False
            have "assert_ok (buf_advance ?b1 16) = Some (buf_skip ?b1 16)"
              using b1(1) ge by (simp add: buf_advance_eq)
            then show thesis
              by (intro dropped [of "drop_packet (buf_skip ?b1 16)"]) (use s0 iv rd ge False in \<open>simp_all add: unf\<close>)
          qed
        next
          case long: True
          let ?b2 = "buf_skip ?b1 16"
          have adv: "assert_ok (buf_advance ?b1 (int 16)) = Some ?b2" "\<not> b_len ?b1 < int 16" "\<not> b_len ?b2 < 1"
            using b1(1) long by (simp_all add: buf_advance_eq)
          have b2: "buf_wf ?b2" "buf_bytes ?b2 = packet_ct buf" "b_len ?b2 = b_len buf - 20"
            using b1 long by (simp_all add: buf_skip_wf buf_skip_bytes packet_ct_def)
          have tag: "take 16 (buf_bytes ?b1) = packet_tag buf" by (simp add: b1(2) packet_tag_def)
          have adb: "memget (buf_mem ?b2) ad_start (nat (b_offset ?b2 - int ad_start - int 16)) = packet_ad buf ad_start"
            by (simp add: packet_ad_def buf_mem_def algebra_simps)
          have kb: "0 \<le> ?k" "?k < 2 ^ 31" using lib by (simp_all add: aead_bounded_def)
          have small: "b_len ?b2 + ?k < 2 ^ 63" "0 \<le> b_len ?b2 + ?k"
            using b2(3) long kb buf_wf_facts(5,6,9) [OF wf(1)] by (simp_all add: BUF_SIZE_MAX_def)
          note pre = unf iv s0 rd adv tag if_False if_True option.case case_prod_conv bool.case b2(2) adb
          show thesis
          proof (cases "b_len ?b2 + ?k \<le> buf_tailroom work0")
            case False
            then have "\<not> buf_safe work0 (size_of_int (b_len ?b2 + ?k))"
              using buf_safe_iff [OF w0(2) small(2,1)] by simp
            then have "?D = Some (False, drop_packet ?b2, opt)"
              by (simp only: pre simp_thms)
            then show thesis
              by (rule dropped) (use False b2(3) w0(4) in simp_all)
          next
            case room: True
            then have safe: "buf_safe work0 (size_of_int (b_len ?b2 + ?k))"
              using buf_safe_iff [OF w0(2) small(2,1)] by simp
            have "cipher_ctx_update_ad api s0 (packet_ad buf ad_start) \<noteq> None"
              using lib unfolding aead_bounded_def by blast
            then obtain s1 where s1: "cipher_ctx_update_ad api s0 (packet_ad buf ad_start) = Some s1" by blast
            note pre = pre safe s1 simp_thms
            note op = open_packet_def aead_open_def packet_iv_def s0 s1 Option.bind.bind_lunit
            show thesis
            proof (cases "cipher_ctx_update api s1 (packet_ct buf)")
              case None
              then have "?D = Some (False, drop_packet ?b2, opt)" by (simp only: pre)
              then show thesis by (rule dropped) (use None in \<open>simp_all add: op\<close>)
            next
              case (Some so1)
              then obtain s2 out1 where s2: "cipher_ctx_update api s1 (packet_ct buf) = Some (s2, out1)" by (cases so1) auto
              have o1: "int (length out1) \<le> buf_tailroom work0"
                and o2: "\<And>s'' o2. cipher_ctx_final_check_tag api s2 (packet_tag buf) = Some (s'', o2) \<Longrightarrow>
                    int (length (out1 @ o2)) \<le> buf_tailroom work0"
                using lib s2 room length_buf_bytes_int [OF b2(1)] b2(2)
                by (fastforce simp: aead_bounded_def)+
              have w1: "buf_out work0 out1 = Some (buf_push work0 out1)" "buf_wf (buf_push work0 out1)"
                "buf_bytes (buf_push work0 out1) = out1"
                using w0 o1 by (simp_all add: buf_simps)
              note pre = pre s2 w1(1)
              show thesis
              proof (cases "cipher_ctx_final_check_tag api s2 (packet_tag buf)")
                case None
                then have "?D = Some (False, drop_packet ?b2, opt)" by (simp only: pre)
                then show thesis by (rule dropped) (use None s2 in \<open>simp_all add: op\<close>)
              next
                case (Some so2)
                then obtain s3 out2 where s3: "cipher_ctx_final_check_tag api s2 (packet_tag buf) = Some (s3, out2)"
                  by (cases so2) auto
                let ?w = "buf_push (buf_push work0 out1) out2"
                have room2: "int (length out2) \<le> buf_tailroom (buf_push work0 out1)" using o2 [OF s3] by simp
                have w2: "buf_out (buf_push work0 out1) out2 = Some ?w" "buf_wf ?w" "buf_bytes ?w = out1 @ out2"
                  using w1 room2 by (simp_all add: buf_simps)
                have "?O = Some (buf_bytes ?w)" using s2 s3 w2(3) by (simp add: op)
                moreover have "?D = map_option (\<lambda>(ok, st). if ok then (True, ?w, with_replay opt st)
                      else (False, drop_packet ?b2, with_replay opt st))
                    (crypto_check_replay now (co_long_form opt) (co_packet_id opt, co_pid_persist opt) (packet_pin buf))"
                  by (simp only: pre s3 w2(1))
                    (rule bind_Some_map)
                ultimately show thesis using long w2(2) by (intro opened [of ?w "drop_packet ?b2"]) simp_all
              qed
            qed
          qed
        qed
      qed
    qed
  qed
qed

section \<open>The contract between the two ends\<close>

text \<open>A key context set up for an AEAD cipher: the IV is the packet id and the implicit part.\<close>

definition aead_ready :: "('k, 's, 'h) crypto_api \<Rightarrow> 'k \<Rightarrow> ('k, 'h) key_ctx \<Rightarrow> bool" where
  "aead_ready api c ctx \<longleftrightarrow> kc_cipher ctx = Some c
     \<and> 12 \<le> cipher_ctx_iv_length api c \<and> cipher_ctx_iv_length api c \<le> 16
     \<and> int (length (kc_implicit_iv ctx)) = cipher_ctx_iv_length api c - 4"

text \<open>What the library documents of a pair of contexts with the same key.\<close>

definition aead_inverse :: "('k, 's, 'h) crypto_api \<Rightarrow> 'k \<Rightarrow> 'k \<Rightarrow> bool" where
  "aead_inverse api ke kd \<longleftrightarrow>
     (\<forall>iv ad p. int (length iv) = cipher_ctx_iv_length api ke \<longrightarrow>
        (\<exists>ct tag. aead_seal api ke iv ad p = Some (ct, tag) \<and> length tag = 16 \<and> length ct = length p
           \<and> aead_open api kd iv ad ct tag = Some p))"

text \<open>A packet in a receive buffer, its header of \<open>h\<close> bytes already consumed.\<close>

definition arrives :: "buffer \<Rightarrow> nat \<Rightarrow> buffer \<Rightarrow> nat \<Rightarrow> bool" where
  "arrives w h r ad_start \<longleftrightarrow> buf_wf r \<and> b_offset r = int (ad_start + h) \<and> b_len r = b_len w - int h
     \<and> memget (buf_mem r) ad_start (length (buf_bytes w)) = buf_bytes w"

lemma arrives_parts:
  assumes "arrives w (length hd0) r ad_start" and "buf_wf w" and "buf_bytes w = hd0 @ rest"
  shows "buf_bytes r = rest" and "n \<le> length rest \<Longrightarrow> memget (buf_mem r) ad_start (length hd0 + n) = hd0 @ take n rest"
proof -
  have len: "b_len r = int (length rest)"
    using assms length_buf_bytes_int [OF assms(2)] by (simp add: arrives_def)
  have m: "memget (buf_mem r) ad_start (length hd0 + length rest) = hd0 @ rest"
    using assms by (simp add: arrives_def)
  have l: "ad_start + length hd0 + length rest \<le> length (buf_mem r)"
    using assms(1) len buf_wf_facts(6,8) [of r] by (simp add: arrives_def)
  have t: "memget (buf_mem r) ad_start (length hd0) @ memget (buf_mem r) (ad_start + length hd0) (length rest) = hd0 @ rest"
    using m by (simp add: memget_append)
  moreover have "length (memget (buf_mem r) ad_start (length hd0)) = length hd0"
    using l by (intro length_memget) simp
  ultimately have "memget (buf_mem r) (ad_start + length hd0) (length rest) = rest"
    by (metis append_eq_append_conv)
  moreover have "nat (b_offset r) = ad_start + length hd0" "buf_len r = b_len r"
    using assms(1) buf_wf_facts(3) [of r] unfolding arrives_def by auto
  ultimately show "buf_bytes r = rest" using len by (simp add: buf_bytes_def)
  assume n: "n \<le> length rest"
  have "take (length hd0 + n) (memget (buf_mem r) ad_start (length hd0 + length rest)) = hd0 @ take n rest"
    unfolding m by simp
  then show "memget (buf_mem r) ad_start (length hd0 + n) = hd0 @ take n rest"
    using n by (simp add: memget_take min_def)
qed

lemma arrives_open:
  assumes "arrives w (length hd0) r ad_start" and "buf_wf w" and "buf_bytes w = (hd0 @ u32_bytes i) @ tag @ ct"
    and "length tag = 16" and "int (length im) = cipher_ctx_iv_length api c - 4"
  shows "open_packet api c im r ad_start = aead_open api c (u32_bytes i @ im) (hd0 @ u32_bytes i) ct tag"
    and "packet_pin r = \<lparr>n_id = i, n_time = 0\<rparr>" and "b_len r = 20 + int (length ct)"
proof -
  have bs: "buf_bytes w = hd0 @ u32_bytes i @ tag @ ct" using assms(3) by simp
  have r: "buf_bytes r = u32_bytes i @ tag @ ct" "memget (buf_mem r) ad_start (length hd0 + 4) = hd0 @ u32_bytes i"
    using arrives_parts(1) [OF assms(1,2) bs] arrives_parts(2) [OF assms(1,2) bs, of 4] by simp_all
  have off: "b_offset r = int (ad_start + length hd0)" "buf_wf r" using assms(1) by (simp_all add: arrives_def)
  have "nat (b_offset r + 4 - int ad_start) = length hd0 + 4" using off(1) by simp
  then show "open_packet api c im r ad_start = aead_open api c (u32_bytes i @ im) (hd0 @ u32_bytes i) ct tag"
    using r assms(4,5) by (simp add: open_packet_def packet_iv_def packet_ad_def packet_ct_def packet_tag_def)
  show "packet_pin r = \<lparr>n_id = i, n_time = 0\<rparr>" using r by (simp add: packet_pin_def)
  show "b_len r = 20 + int (length ct)"
    using length_buf_bytes_int [OF off(2)] r(1) assms(4) by simp
qed

lemma arrives_skip: "buf_wf w \<Longrightarrow> int h \<le> b_len w \<Longrightarrow> arrives w h (buf_skip w h) (nat (b_offset w))"
proof -
  assume w: "buf_wf w" "int h \<le> b_len w"
  have "memget (buf_mem w) (nat (b_offset w)) (length (buf_bytes w)) = buf_bytes w"
    unfolding length_buf_bytes [OF w(1)] using buf_wf_facts(3) [OF w(1)] by (simp add: buf_bytes_def)
  moreover have "buf_mem (buf_skip w h) = buf_mem w" by (simp add: buf_mem_def)
  ultimately show ?thesis using w buf_wf_facts(5) [OF w(1)] by (simp add: arrives_def buf_skip_wf)
qed

section \<open>A small library for the examples\<close>

text \<open>
  A stand-in for the crypto library: the key is a byte and the direction of the context, the
  cipher adds the key to every byte modulo 2, the tag repeats the sum of the plaintext.
\<close>

definition demo_api :: "(u8 \<times> bool, u8 \<times> bool \<times> u8 list, u8) crypto_api" where
  "demo_api = \<lparr>cipher_ctx_iv_length = (\<lambda>_. 12), cipher_ctx_block_size = (\<lambda>_. 1), ctx_mode_aead = (\<lambda>_. True),
     ctx_mode_cbc = (\<lambda>_. False), ctx_mode_ofb_cfb = (\<lambda>_. False),
     cipher_ctx_reset = (\<lambda>(k, d) iv. Some (k, d, iv)),
     cipher_ctx_update_ad = (\<lambda>(k, d, l) ad. Some (k, d, l @ ad)),
     cipher_ctx_update = (\<lambda>(k, d, l) x. let y = map (\<lambda>b. b XOR k) x in Some ((k, d, l @ (if d then x else y)), y)),
     cipher_ctx_final = (\<lambda>s. Some (s, [])),
     cipher_ctx_get_tag = (\<lambda>(k, d, l) n. Some (replicate n (k + sum_list l))),
     cipher_ctx_final_check_tag = (\<lambda>(k, d, l) t. if t = replicate 16 (k + sum_list l) then Some ((k, d, l), []) else None),
     hmac_ctx_size = (\<lambda>_. 4), hmac_ctx_compute = (\<lambda>k x. replicate 4 (k + sum_list x))\<rparr>"

lemma demo_api_inverse: "aead_inverse demo_api (k, True) (k, False)"
  by (simp add: aead_inverse_def aead_seal_def aead_open_def demo_api_def crypto_consts Let_def o_def xor.assoc)

lemma demo_api_bounded: "aead_bounded demo_api c"
  by (auto simp: aead_bounded_def demo_api_def Let_def split: if_splits)

definition demo_ctx :: "bool \<Rightarrow> (u8 \<times> bool, u8) key_ctx" where
  "demo_ctx d = \<lparr>kc_cipher = Some (7, d), kc_hmac = None, kc_implicit_iv = [1, 2, 3, 4, 5, 6, 7, 8]\<rparr>"

definition demo_opt :: "(u8 \<times> bool, u8) crypto_options" where
  "demo_opt = \<lparr>co_encrypt = demo_ctx True, co_decrypt = demo_ctx False,
     co_packet_id = the (packet_id_init 0 0 ''DATA'' 0), co_pid_persist = None,
     co_long_form = False, co_ignore_packet_id = False\<rparr>"

definition demo_block :: "int \<Rightarrow> u8 list \<Rightarrow> buffer" where
  "demo_block o' bs = \<lparr>b_capacity = 64, b_offset = o', b_len = int (length bs),
     b_data = Some (replicate (nat o') 0 @ bs @ replicate (64 - nat o' - length bs) 0)\<rparr>"

lemma demo_block_ok:
  "0 \<le> k \<Longrightarrow> k + int (length bs) \<le> 64 \<Longrightarrow> buf_wf (demo_block k bs) \<and> buf_bytes (demo_block k bs) = bs"
  by (auto simp: demo_block_def buf_wf_def buf_bytes_def buf_mem_def buf_len_def buf_valid_def memget_def BUF_SIZE_MAX_def)

definition demo_frame_aead :: frame where
  "demo_frame_aead = \<lparr>fr_payload_size = 64, fr_headroom = 8, fr_tailroom = 8, fr_mss_fix = 0,
     fr_max_fragment_size = 0, fr_tun_mtu = 64, fr_tun_max_mtu = 64, fr_extra_tun = 0\<rparr>"

section \<open>Properties\<close>

text \<open>
  C4: An encrypted packet is opened by the peer. With matching contexts, a packet sealed behind
  its header and received anywhere in a buffer is decrypted to exactly the plaintext, provided
  the receiver's replay check accepts the number the sender used.
\<close>

theorem aead_packet_roundtrip:
  assumes "buf_wf buf" "0 < b_len buf" "buf_wf work"
    and sender: "aead_ready api ke (co_encrypt opt)" "packet_id_initialized (co_packet_id opt)"
      "packet_id_send_update now (pid_send (co_packet_id opt)) False = (True, send')"
      "20 + b_len buf + cipher_ctx_block_size api ke \<le> buf_tailroom work"
    and receiver: "aead_ready api kd (co_decrypt ropt)" "packet_id_initialized (co_packet_id ropt)"
      "kc_implicit_iv (co_decrypt ropt) = kc_implicit_iv (co_encrypt opt)"
      "buf_wf rwork" "0 \<le> fr_headroom frame"
      "fr_headroom frame + b_len buf + cipher_ctx_block_size api kd \<le> b_capacity rwork"
    and library: "aead_inverse api ke kd" "0 \<le> cipher_ctx_block_size api ke" "aead_bounded api kd"
    and fresh: "crypto_check_replay rnow (co_long_form ropt) (co_packet_id ropt, co_pid_persist ropt)
        \<lparr>n_id = s_id send', n_time = 0\<rparr> = Some (True, st)"
  shows "\<exists>w. openvpn_encrypt_aead api now buf work opt = Some (w, with_send opt send') \<and> buf_wf w
    \<and> (\<forall>r ad_start. arrives w (length (buf_bytes work)) r ad_start \<longrightarrow>
         (\<exists>b'. openvpn_decrypt_aead api rnow r rwork ropt frame ad_start = Some (True, b', with_replay ropt st)
            \<and> buf_bytes b' = buf_bytes buf))"
proof -
  let ?pid = "u32_bytes (s_id send')" and ?im = "kc_implicit_iv (co_encrypt opt)"
  let ?hd = "buf_bytes work @ ?pid"
  have sc: "kc_cipher (co_encrypt opt) = Some ke" "12 \<le> cipher_ctx_iv_length api ke" "cipher_ctx_iv_length api ke \<le> 16"
    "int (length ?im) = cipher_ctx_iv_length api ke - 4" using sender(1) by (simp_all add: aead_ready_def)
  have rc: "kc_cipher (co_decrypt ropt) = Some kd" "12 \<le> cipher_ctx_iv_length api kd"
    "int (length ?im) = cipher_ctx_iv_length api kd - 4" using receiver(1,3) by (simp_all add: aead_ready_def)
  have n: "int (length (?pid @ ?im)) = cipher_ctx_iv_length api ke" using sc(4) by simp
  obtain ct tag where lib: "aead_seal api ke (?pid @ ?im) ?hd (buf_bytes buf) = Some (ct, tag)"
    "length tag = 16" "length ct = length (buf_bytes buf)" "aead_open api kd (?pid @ ?im) ?hd ct tag = Some (buf_bytes buf)"
    using library(1) [unfolded aead_inverse_def, rule_format, OF n] by blast
  have cl: "int (length ct) = b_len buf" using lib(3) length_buf_bytes_int [OF assms(1)] by simp
  have cl': "int (length ct) \<le> b_len buf + cipher_ctx_block_size api ke" using cl library(2) by simp
  obtain w where w: "openvpn_encrypt_aead api now buf work opt = Some (w, with_send opt send')" "buf_wf w"
    "buf_bytes w = ?hd @ tag @ ct"
    by (rule encrypt_aead_ok [OF assms(1,3) sc(1) sender(2) sc(2,3,4) library(2) sender(3) refl lib(1,2) cl' sender(4)])
  have "\<exists>b'. openvpn_decrypt_aead api rnow p rwork ropt frame ad_start = Some (True, b', with_replay ropt st)
      \<and> buf_bytes b' = buf_bytes buf"
    if a: "arrives w (length (buf_bytes work)) p ad_start" for p ad_start
  proof -
    note o = arrives_open [OF a w(2,3) lib(2)]
    have op: "open_packet api kd (kc_implicit_iv (co_decrypt ropt)) p ad_start = Some (buf_bytes buf)"
      using o(1) [OF rc(3)] lib(4) receiver(3) by simp
    have len: "b_len p = 20 + b_len buf" using o(3) [OF rc(3)] cl by simp
    have pin: "packet_pin p = \<lparr>n_id = s_id send', n_time = 0\<rparr>" by (rule o(2) [OF rc(3)])
    have wf: "buf_wf p" "int ad_start \<le> b_offset p" using a by (simp_all add: arrives_def)
    have c: "0 < b_len p" "int (length (kc_implicit_iv (co_decrypt ropt))) \<le> cipher_ctx_iv_length api kd"
      "fr_headroom frame \<le> b_capacity rwork"
      using len assms(2) rc receiver(3,6) library(3) by (simp_all add: aead_bounded_def)
    show ?thesis
    proof (rule decrypt_aead_cases [OF wf(1) receiver(4) c(1) rc(1) receiver(2) c(2) wf(2) receiver(5) c(3) library(3), of rnow])
      assume "20 < b_len p \<Longrightarrow>
          cipher_ctx_iv_length api kd - int (length (kc_implicit_iv (co_decrypt ropt))) \<le> b_len p \<Longrightarrow>
          fr_headroom frame + b_len p - 20 + cipher_ctx_block_size api kd \<le> b_capacity rwork \<Longrightarrow>
          open_packet api kd (kc_implicit_iv (co_decrypt ropt)) p ad_start = None"
      then show ?thesis using op len rc(3) receiver(3,6) assms(2) by simp
    next
      fix b' b''
      assume "open_packet api kd (kc_implicit_iv (co_decrypt ropt)) p ad_start = Some (buf_bytes b')"
        "openvpn_decrypt_aead api rnow p rwork ropt frame ad_start =
         map_option (\<lambda>(ok, st). if ok then (True, b', with_replay ropt st) else (False, b'', with_replay ropt st))
           (crypto_check_replay rnow (co_long_form ropt) (co_packet_id ropt, co_pid_persist ropt) (packet_pin p))"
      then show ?thesis using op fresh pin by simp
    qed
  qed
  with w(1,2) show ?thesis by blast
qed

lemma demo_replay: "crypto_check_replay 100 False (co_packet_id demo_opt, None) \<lparr>n_id = 1, n_time = 0\<rparr>
    = Some (True, the (map_option snd (crypto_check_replay 100 False (co_packet_id demo_opt, None) \<lparr>n_id = 1, n_time = 0\<rparr>)))"
  by code_simp

theorem aead_packet_roundtrip_witness:
  "\<exists>w r b'. openvpn_encrypt_aead demo_api 100 (demo_block 8 [10, 20, 30]) (demo_block 4 [0x48]) demo_opt
        = Some (w, with_send demo_opt \<lparr>s_id = 1, s_time = 100\<rparr>)
     \<and> arrives w 1 r 4
     \<and> map_option (\<lambda>x. fst x) (openvpn_decrypt_aead demo_api 100 r (demo_block 0 []) demo_opt demo_frame_aead 4) = Some True
     \<and> map_option (\<lambda>x. fst (snd x)) (openvpn_decrypt_aead demo_api 100 r (demo_block 0 []) demo_opt demo_frame_aead 4) = Some b'
     \<and> buf_bytes b' = [10, 20, 30]"
proof -
  let ?buf = "demo_block 8 [10, 20, 30]" and ?work = "demo_block 4 [0x48]" and ?rwork = "demo_block 0 []"
  have wf: "buf_wf ?buf" "buf_bytes ?buf = [10, 20, 30]" "buf_wf ?work" "buf_bytes ?work = [0x48]" "buf_wf ?rwork"
    using demo_block_ok by simp_all
  have f: "b_len ?buf = 3" "buf_tailroom ?work = 59" "b_capacity ?rwork = 64" "b_offset ?work = 4"
    by (simp_all add: demo_block_def buf_tailroom_def)
  have o: "aead_ready demo_api (7, True) (co_encrypt demo_opt)" "aead_ready demo_api (7, False) (co_decrypt demo_opt)"
    "kc_implicit_iv (co_decrypt demo_opt) = kc_implicit_iv (co_encrypt demo_opt)"
    "packet_id_initialized (co_packet_id demo_opt)" "co_pid_persist demo_opt = None" "co_long_form demo_opt = False"
    "packet_id_send_update 100 (pid_send (co_packet_id demo_opt)) False = (True, \<lparr>s_id = 1, s_time = 100\<rparr>)"
    by (simp_all add: aead_ready_def demo_opt_def demo_ctx_def demo_api_def packet_id_initialized_def packet_id_init_def
        packet_id_clear_def packet_id_send_update_def Let_def PACKET_ID_MAX_def)
  have k: "cipher_ctx_block_size demo_api c = 1" for c by (simp add: demo_api_def)
  obtain st where st: "crypto_check_replay 100 False (co_packet_id demo_opt, None) \<lparr>n_id = 1, n_time = 0\<rparr> = Some (True, st)"
    using demo_replay by blast
  obtain w where w: "openvpn_encrypt_aead demo_api 100 ?buf ?work demo_opt = Some (w, with_send demo_opt \<lparr>s_id = 1, s_time = 100\<rparr>)"
    "buf_wf w" "\<And>r ad_start. arrives w 1 r ad_start \<Longrightarrow>
       \<exists>b'. openvpn_decrypt_aead demo_api 100 r ?rwork demo_opt demo_frame_aead ad_start = Some (True, b', with_replay demo_opt st)
         \<and> buf_bytes b' = [10, 20, 30]"
    using aead_packet_roundtrip [of ?buf ?work demo_api "(7, True)" demo_opt 100 "\<lparr>s_id = 1, s_time = 100\<rparr>" "(7, False)"
        demo_opt ?rwork demo_frame_aead 100 st] wf f o k st demo_api_inverse [of 7] demo_api_bounded
    by (auto simp: demo_frame_aead_def)
  have "b_offset w = 4 \<and> 1 \<le> b_len w"
  proof -
    have "map_option (\<lambda>x. (b_offset (fst x), b_len (fst x))) (openvpn_encrypt_aead demo_api 100 ?buf ?work demo_opt) = Some (4, 24)"
      by code_simp
    then show ?thesis using w(1) by simp
  qed
  then have "arrives w 1 (buf_skip w 1) 4" using arrives_skip [OF w(2), of 1] by simp
  from w(3) [OF this] w(1) this show ?thesis by fastforce
qed

text \<open>The conditions under which a packet is handed to the decryption.\<close>

definition aead_input_ok :: "('k, 's, 'h) crypto_api \<Rightarrow> 'k \<Rightarrow> frame \<Rightarrow> time_t \<times> buffer \<times> buffer \<times> nat \<Rightarrow> bool" where
  "aead_input_ok api c frame e = (case e of (now, buf, work, ad_start) \<Rightarrow>
     1 < now \<and> buf_wf buf \<and> 0 < b_len buf \<and> buf_wf work \<and> int ad_start \<le> b_offset buf
     \<and> 0 \<le> fr_headroom frame \<and> fr_headroom frame \<le> b_capacity work \<and> aead_bounded api c)"

definition aead_receiver :: "('k, 's, 'h) crypto_api \<Rightarrow> 'k \<Rightarrow> ('k, 'h) crypto_options \<Rightarrow> bool" where
  "aead_receiver api c opt \<longleftrightarrow> aead_ready api c (co_decrypt opt) \<and> packet_id_initialized (co_packet_id opt)"

text \<open>
  C6: A packet the AEAD decryption returns is authentic and fresh, and a rejected packet is
  harmless. A returned plaintext is what the library opened from the packet's ciphertext and tag
  with the IV made of the packet id and the implicit part and with everything before the tag as
  additional data, and the replay check accepted the packet id. A rejected packet leaves an
  empty buffer, and unless the library authenticated it, it leaves the replay state as it was.
\<close>

theorem aead_decrypt_authentic:
  assumes "aead_input_ok api c frame (now, buf, work, ad_start)" and "aead_receiver api c opt"
    and res: "openvpn_decrypt_aead api now buf work opt frame ad_start = Some (ok, b', opt')"
    and im: "im = kc_implicit_iv (co_decrypt opt)"
    and check: "chk = crypto_check_replay now (co_long_form opt) (co_packet_id opt, co_pid_persist opt) (packet_pin buf)"
  shows "if ok then open_packet api c im buf ad_start = Some (buf_bytes b')
           \<and> (\<exists>st. chk = Some (True, st) \<and> opt' = with_replay opt st)
         else b_len b' = 0 \<and> (opt' = opt \<or> open_packet api c im buf ad_start \<noteq> None
           \<and> (\<exists>st. chk = Some (False, st) \<and> opt' = with_replay opt st))"
proof -
  have e: "buf_wf buf" "buf_wf work" "0 < b_len buf" "int ad_start \<le> b_offset buf" "0 \<le> fr_headroom frame"
    "fr_headroom frame \<le> b_capacity work" "aead_bounded api c"
    using assms(1) by (simp_all add: aead_input_ok_def)
  have r: "kc_cipher (co_decrypt opt) = Some c" "packet_id_initialized (co_packet_id opt)"
    "int (length (kc_implicit_iv (co_decrypt opt))) \<le> cipher_ctx_iv_length api c"
    using assms(2) by (simp_all add: aead_receiver_def aead_ready_def)
  show ?thesis
  proof (rule decrypt_aead_cases [OF e(1-3) r e(4-7), of now])
    fix c' assume "openvpn_decrypt_aead api now buf work opt frame ad_start = Some (False, c', opt)" "b_len c' = 0"
    then show ?thesis using res by simp
  next
    fix w c'
    assume o: "b_len c' = 0" "open_packet api c (kc_implicit_iv (co_decrypt opt)) buf ad_start = Some (buf_bytes w)"
      "openvpn_decrypt_aead api now buf work opt frame ad_start =
        map_option (\<lambda>(ok, st). if ok then (True, w, with_replay opt st) else (False, c', with_replay opt st))
          (crypto_check_replay now (co_long_form opt) (co_packet_id opt, co_pid_persist opt) (packet_pin buf))"
    from res have "map_option (\<lambda>(ok, st). if ok then (True, w, with_replay opt st) else (False, c', with_replay opt st)) chk
        = Some (ok, b', opt')" unfolding o(3) check .
    then obtain st where "chk = Some (ok, st)" "(ok, b', opt') = (if ok then (True, w, with_replay opt st)
        else (False, c', with_replay opt st))"
      by (cases chk) (auto split: if_splits)
    then show ?thesis using o(1,2) by (auto simp: im split: if_splits)
  qed
qed

text \<open>A replay guard over whole packets: the decryption checks the packet id it authenticated.\<close>

definition aead_inv ::
    "('k, 's, 'h) crypto_api \<Rightarrow> 'k \<Rightarrow> ('k, 'h) crypto_options \<Rightarrow> (time_t \<times> nat) set \<Rightarrow> bool" where
  "aead_inv api c opt A \<longleftrightarrow> aead_receiver api c opt
     \<and> (udp_inv (co_packet_id opt, co_pid_persist opt) A \<or> tcp_inv (co_packet_id opt, co_pid_persist opt) A)"

definition aead_check ::
    "('k, 's, 'h) crypto_api \<Rightarrow> frame \<Rightarrow> time_t \<times> buffer \<times> buffer \<times> nat \<Rightarrow> ('k, 'h) crypto_options
       \<Rightarrow> (bool \<times> ('k, 'h) crypto_options) option" where
  "aead_check api frame e opt = (case e of (now, buf, work, ad_start) \<Rightarrow>
     map_option (\<lambda>(ok, b, opt'). (ok, opt')) (openvpn_decrypt_aead api now buf work opt frame ad_start))"

definition aead_key :: "time_t \<times> buffer \<times> buffer \<times> nat \<Rightarrow> time_t \<times> nat" where
  "aead_key e = (case e of (now, buf, work, ad_start) \<Rightarrow> pid_key (packet_pin buf))"

lemma udp_tcp_initialized: "udp_inv st A \<or> tcp_inv st A \<Longrightarrow> packet_id_initialized (fst st)"
  by (auto simp: udp_inv_def tcp_inv_def rec_wf_def packet_id_initialized_def Let_def)

lemma aead_check_step:
  assumes "aead_inv api c opt A" and "aead_input_ok api c frame e"
  shows "\<exists>ok opt'. aead_check api frame e opt = Some (ok, opt') \<and> (ok \<longrightarrow> aead_key e \<notin> A)
    \<and> aead_inv api c opt' (if ok then insert (aead_key e) A else A)"
proof -
  obtain now buf work ad_start where ee: "e = (now, buf, work, ad_start)" by (metis prod_cases4)
  have e: "1 < now" "buf_wf buf" "buf_wf work" "0 < b_len buf" "int ad_start \<le> b_offset buf" "0 \<le> fr_headroom frame"
    "fr_headroom frame \<le> b_capacity work" "aead_bounded api c"
    using assms(2) by (simp_all add: aead_input_ok_def ee)
  have i: "aead_receiver api c opt"
    "udp_inv (co_packet_id opt, co_pid_persist opt) A \<or> tcp_inv (co_packet_id opt, co_pid_persist opt) A"
    using assms(1) by (simp_all add: aead_inv_def)
  have r: "kc_cipher (co_decrypt opt) = Some c" "packet_id_initialized (co_packet_id opt)"
    "int (length (kc_implicit_iv (co_decrypt opt))) \<le> cipher_ctx_iv_length api c"
    using i(1) by (simp_all add: aead_receiver_def aead_ready_def)
  have chk: "\<exists>ok st. crypto_check_replay now (co_long_form opt) (co_packet_id opt, co_pid_persist opt) (packet_pin buf)
      = Some (ok, st) \<and> (ok \<longrightarrow> aead_key e \<notin> A)
      \<and> aead_inv api c (with_replay opt st) (if ok then insert (aead_key e) A else A)"
  proof -
    let ?A = "\<lambda>ok. if ok then insert (pid_key (packet_pin buf)) A else A"
    obtain ok st where st: "crypto_check_replay now (co_long_form opt) (co_packet_id opt, co_pid_persist opt) (packet_pin buf)
      = Some (ok, st)" "ok \<longrightarrow> pid_key (packet_pin buf) \<notin> A" "udp_inv st (?A ok) \<or> tcp_inv st (?A ok)"
      using i(2) udp_check_step [OF _ e(1)] tcp_check_step by blast
    have "aead_inv api c (with_replay opt st) (?A ok)"
      using i(1) st(3) udp_tcp_initialized [OF st(3)] by (simp add: aead_inv_def aead_receiver_def)
    with st(1,2) show ?thesis by (auto simp: aead_key_def ee)
  qed
  then obtain ok st where chk: "crypto_check_replay now (co_long_form opt) (co_packet_id opt, co_pid_persist opt) (packet_pin buf)
      = Some (ok, st)" "ok \<longrightarrow> aead_key e \<notin> A" "aead_inv api c (with_replay opt st) (if ok then insert (aead_key e) A else A)"
    by blast
  show ?thesis
  proof (rule decrypt_aead_cases [OF e(2-4) r e(5-8), of now])
    fix b' assume "openvpn_decrypt_aead api now buf work opt frame ad_start = Some (False, b', opt)"
    then show ?thesis using assms(1) by (intro exI [of _ False]) (simp add: aead_check_def ee)
  next
    fix w b'
    assume "openvpn_decrypt_aead api now buf work opt frame ad_start =
      map_option (\<lambda>(ok, st). if ok then (True, w, with_replay opt st) else (False, b', with_replay opt st))
        (crypto_check_replay now (co_long_form opt) (co_packet_id opt, co_pid_persist opt) (packet_pin buf))"
    with chk show ?thesis
      by (intro exI [of _ ok] exI [of _ "with_replay opt st"]) (simp add: aead_check_def ee)
  qed
qed

interpretation aead: replay_guard "aead_inv api c" "aead_input_ok api c frame" "aead_check api frame" aead_key
  for api c frame
  by unfold_locales (rule aead_check_step)

text \<open>
  C3: Whatever bytes arrive from the network, in whatever order, the AEAD decryption never
  reaches a failed assertion and never returns two packets with the same packet id.
\<close>

theorem aead_accepts_once:
  assumes init: "packet_id_init sb tb name unit = Some (co_packet_id opt)" and "aead_ready api c (co_decrypt opt)"
    and "\<forall>e \<in> set es. aead_input_ok api c frame e"
  shows "\<exists>opt' acc. guard_run (aead_check api frame) aead_key opt es = Some (opt', acc) \<and> distinct acc"
proof -
  have "udp_inv (co_packet_id opt, co_pid_persist opt) {} \<or> tcp_inv (co_packet_id opt, co_pid_persist opt) {}"
    using packet_id_init_inv [OF init, of "co_pid_persist opt"] by (auto split: if_splits)
  then have "aead_inv api c opt {}"
    using assms(2) udp_tcp_initialized by (fastforce simp: aead_inv_def aead_receiver_def)
  from aead.run_accepts_once [OF this] assms(3) show ?thesis by blast
qed

definition demo_packet_aead :: buffer where
  "demo_packet_aead = demo_block 4 ([0, 0, 0, 1] @ replicate 16 55 @ [13])"

lemma demo_input_ok: "aead_input_ok demo_api c demo_frame_aead (100, demo_packet_aead, demo_block 0 [], 4)"
  using demo_block_ok [of 4 "[0, 0, 0, 1] @ replicate 16 55 @ [13]"] demo_block_ok [of 0 "[]"] demo_api_bounded [of c]
  by (simp add: aead_input_ok_def demo_packet_aead_def) (simp add: demo_block_def demo_frame_aead_def)

lemma demo_receiver: "aead_receiver demo_api (7, False) demo_opt"
  by (simp add: aead_receiver_def aead_ready_def demo_opt_def demo_ctx_def demo_api_def packet_id_initialized_def
      packet_id_init_def Let_def)

theorem aead_decrypt_authentic_witness:
  "\<exists>b' opt'. openvpn_decrypt_aead demo_api 100 demo_packet_aead (demo_block 0 []) demo_opt demo_frame_aead 4 = Some (True, b', opt')
     \<and> open_packet demo_api (7, False) [1, 2, 3, 4, 5, 6, 7, 8] demo_packet_aead 4 = Some (buf_bytes b')
     \<and> buf_bytes b' = [10]"
proof -
  let ?D = "openvpn_decrypt_aead demo_api 100 demo_packet_aead (demo_block 0 []) demo_opt demo_frame_aead 4"
  have "map_option fst ?D = Some True" "map_option (\<lambda>x. buf_bytes (fst (snd x))) ?D = Some [10]" by code_simp+
  then obtain b' opt' where d: "?D = Some (True, b', opt')" "buf_bytes b' = [10]" by (cases ?D) auto
  have "kc_implicit_iv (co_decrypt demo_opt) = [1, 2, 3, 4, 5, 6, 7, 8]" by (simp add: demo_opt_def demo_ctx_def)
  with aead_decrypt_authentic [OF demo_input_ok demo_receiver d(1) refl refl] d show ?thesis by auto
qed

theorem aead_accepts_once_witness:
  "\<exists>opt' acc. guard_run (aead_check demo_api demo_frame_aead) aead_key demo_opt
     [(100, demo_packet_aead, demo_block 0 [], 4), (100, demo_packet_aead, demo_block 0 [], 4)] = Some (opt', acc) \<and> distinct acc"
proof -
  have "packet_id_init 0 0 ''DATA'' 0 = Some (co_packet_id demo_opt)"
    by (simp add: demo_opt_def packet_id_init_def Let_def)
  moreover have "aead_ready demo_api (7, False) (co_decrypt demo_opt)"
    using demo_receiver by (simp add: aead_receiver_def)
  ultimately show ?thesis
    by (rule aead_accepts_once) (simp add: demo_input_ok)
qed

text \<open>The nonces of a run of encryptions: the IV of each packet that was sealed.\<close>

fun encrypt_run ::
    "('k, 's, 'h) crypto_api \<Rightarrow> ('k, 'h) crypto_options \<Rightarrow> (time_t \<times> buffer \<times> buffer) list \<Rightarrow> u8 list list option" where
  "encrypt_run api opt [] = Some []"
| "encrypt_run api opt ((now, buf, work) # es) =
     (case openvpn_encrypt_aead api now buf work opt of
        None \<Rightarrow> None
      | Some (w, opt') \<Rightarrow>
          map_option (\<lambda>ns. (if b_len w > 0 then [memget (buf_bytes w) (length (buf_bytes work)) 4 @ kc_implicit_iv (co_encrypt opt)]
                            else []) @ ns)
            (encrypt_run api opt' es))"

definition aead_sealing :: "('k, 's, 'h) crypto_api \<Rightarrow> 'k \<Rightarrow> bool" where
  "aead_sealing api c \<longleftrightarrow> 0 \<le> cipher_ctx_block_size api c
     \<and> (\<forall>iv ad p. int (length iv) = cipher_ctx_iv_length api c \<longrightarrow>
          (\<exists>ct tag. aead_seal api c iv ad p = Some (ct, tag) \<and> length tag = 16
             \<and> int (length ct) \<le> int (length p) + cipher_ctx_block_size api c))"

definition encrypt_input_ok :: "('k, 's, 'h) crypto_api \<Rightarrow> 'k \<Rightarrow> time_t \<times> buffer \<times> buffer \<Rightarrow> bool" where
  "encrypt_input_ok api c e = (case e of (now, buf, work) \<Rightarrow>
     buf_wf buf \<and> buf_wf work \<and> 20 + b_len buf + cipher_ctx_block_size api c \<le> buf_tailroom work)"

lemma send_update_short:
  assumes "packet_id_send_update now p False = (ok, p')"
  shows "if ok then unat (s_id p') = Suc (unat (s_id p)) else s_id p' = s_id p \<and> s_id p = PACKET_ID_MAX"
  using assms unat_Suc_u32 [of "s_id p"]
  by (auto simp: packet_id_send_update_def Let_def PACKET_ID_MAX_def split: if_splits)

lemma encrypt_aead_step:
  assumes "aead_ready api c (co_encrypt opt)" and "packet_id_initialized (co_packet_id opt)" and "aead_sealing api c"
    and "encrypt_input_ok api c (now, buf, work)"
  obtains (sealed) w send' where "openvpn_encrypt_aead api now buf work opt = Some (w, with_send opt send')"
      "0 < b_len w" "memget (buf_bytes w) (length (buf_bytes work)) 4 = u32_bytes (s_id send')"
      "unat (s_id send') = Suc (unat (s_id (pid_send (co_packet_id opt))))"
  | (rollover) w send' where "openvpn_encrypt_aead api now buf work opt = Some (w, with_send opt send')" "b_len w = 0"
      "s_id send' = s_id (pid_send (co_packet_id opt))"
proof -
  have o: "kc_cipher (co_encrypt opt) = Some c" "12 \<le> cipher_ctx_iv_length api c" "cipher_ctx_iv_length api c \<le> 16"
    "int (length (kc_implicit_iv (co_encrypt opt))) = cipher_ctx_iv_length api c - 4" "0 \<le> cipher_ctx_block_size api c"
    using assms(1,3) by (simp_all add: aead_ready_def aead_sealing_def)
  have e: "buf_wf buf" "buf_wf work" "20 + b_len buf + cipher_ctx_block_size api c \<le> buf_tailroom work"
    using assms(4) by (simp_all add: encrypt_input_ok_def)
  obtain ok send' where u: "packet_id_send_update now (pid_send (co_packet_id opt)) False = (ok, send')" by fastforce
  show thesis
  proof (cases ok)
    case True
    let ?hd = "buf_bytes work @ u32_bytes (s_id send')"
    have "int (length (u32_bytes (s_id send') @ kc_implicit_iv (co_encrypt opt))) = cipher_ctx_iv_length api c"
      using o(4) by simp
    then obtain ct tag where seal: "aead_seal api c (u32_bytes (s_id send') @ kc_implicit_iv (co_encrypt opt)) ?hd (buf_bytes buf)
        = Some (ct, tag)" "length tag = 16" "int (length ct) \<le> b_len buf + cipher_ctx_block_size api c"
      using assms(3) length_buf_bytes_int [OF e(1)] unfolding aead_sealing_def by metis
    obtain w where w: "openvpn_encrypt_aead api now buf work opt = Some (w, with_send opt send')" "buf_wf w"
      "buf_bytes w = ?hd @ tag @ ct"
      using encrypt_aead_ok [OF e(1,2) o(1) assms(2) o(2-5) _ refl seal e(3), of now] u True by auto
    have "0 < b_len w" using length_buf_bytes_int [OF w(2)] w(3) by simp
    moreover have "memget (buf_bytes w) (length (buf_bytes work)) 4 = u32_bytes (s_id send')"
      using w(3) by (simp add: memget_def)
    ultimately show thesis using w(1) send_update_short [OF u] True by (intro sealed) simp_all
  next
    case False
    obtain ivb where ivb: "buf_set_write clear_buf (Some (replicate (nat (cipher_ctx_iv_length api c)) 0)) (cipher_ctx_iv_length api c)
        = Some ivb" using iv_buffer_ok [OF o(2,3)] by blast
    have d: "openvpn_encrypt_aead api now buf work opt = Some (drop_packet buf, with_send opt send')"
      using o(1-3) assms(2) ivb u False
      by (simp add: openvpn_encrypt_aead_def Let_def crypto_consts packet_id_write_def)
    show thesis by (rule rollover [OF d drop_packet_len]) (use send_update_short [OF u] False in simp)
  qed
qed


lemma demo_api_sealing: "aead_sealing demo_api (k, True)"
  by (simp add: aead_sealing_def aead_seal_def demo_api_def Let_def crypto_consts)


end
