(* ===== verification/TcpStream.thy ===== *)
theory TcpStream
  imports FrameSize Opcodes
begin

text \<open>
  The packet framing of the TCP transport, \<open>struct stream_buf\<close> of \<open>socket.c\<close>: every packet is
  preceded by its length in two bytes, and the receiver cuts the byte stream into packets
  whatever pieces \<open>recv\<close> returns. The buffers \<open>buf\<close>, \<open>buf_init\<close> and \<open>next\<close> point into one
  block: the model keeps the block in \<open>sb_buf\<close>, and \<open>buf_init\<close> and \<open>next\<close> only count for their
  offsets and lengths. \<open>recv\<close> is an argument, the bytes it returned.
\<close>

section \<open>The stream buffer\<close>

datatype port_share = PS_DISABLED | PS_ENABLED | PS_FOREIGN

record stream_buf =
  sb_buf_init :: buffer
  sb_residual :: buffer
  sb_maxlen :: int
  sb_residual_fully_formed :: bool
  sb_buf :: buffer
  sb_next :: buffer
  sb_len :: int
  sb_error :: bool
  sb_port_share_state :: port_share

definition stream_buf_reset :: "stream_buf \<Rightarrow> stream_buf" where
  "stream_buf_reset sb =
     sb\<lparr>sb_residual_fully_formed := False, sb_buf := (sb_buf_init sb)\<lparr>b_data := b_data (sb_buf sb)\<rparr>,
        sb_next := buf_reset (sb_next sb), sb_len := -1\<rparr>"

definition stream_buf_init :: "buffer \<Rightarrow> bool \<Rightarrow> link_proto \<Rightarrow> stream_buf option" where
  "stream_buf_init buf sf_port_share proto =
     (case alloc_buf (size_of_int (b_len buf)) of
        None \<Rightarrow> None
      | Some residual \<Rightarrow>
          Some (stream_buf_reset
            \<lparr>sb_buf_init = buf\<lparr>b_len := 0\<rparr>, sb_residual = residual, sb_maxlen = b_len buf,
             sb_residual_fully_formed = False, sb_buf = buf, sb_next = clear_buf, sb_len = -1, sb_error = False,
             sb_port_share_state = (if sf_port_share \<and> proto = PROTO_TCP_SERVER then PS_ENABLED else PS_DISABLED)\<rparr>))"

definition socket_frame_init :: "frame \<Rightarrow> bool \<Rightarrow> link_proto \<Rightarrow> stream_buf option option" where
  "socket_frame_init frame sf_port_share proto =
     (if proto \<noteq> PROTO_UDP
      then (case alloc_buf_sock_tun frame of
              None \<Rightarrow> None
            | Some data \<Rightarrow> map_option Some (stream_buf_init data sf_port_share proto))
      else Some None)"

definition stream_buf_set_next :: "stream_buf \<Rightarrow> stream_buf option" where
  "stream_buf_set_next sb =
     (let b = sb_buf sb;
          nxt = b\<lparr>b_offset := b_offset b + b_len b,
                  b_len := (if sb_len sb \<ge> 0 then sb_len sb else sb_maxlen sb) - b_len b\<rparr>
      in if b_len nxt > 0 \<and> buf_safe b (size_of_int (b_len nxt)) then Some (sb\<lparr>sb_next := nxt\<rparr>) else None)"

definition stream_buf_get_final :: "stream_buf \<Rightarrow> buffer option" where
  "stream_buf_get_final sb = (if buf_defined (sb_buf sb) then Some (sb_buf sb) else None)"

definition stream_buf_get_next :: "stream_buf \<Rightarrow> buffer option" where
  "stream_buf_get_next sb = (if buf_defined (sb_next sb) then Some (sb_next sb) else None)"

definition is_openvpn_protocol :: "buffer \<Rightarrow> bool" where
  "is_openvpn_protocol buf =
     (let p = buf_bytes buf; len = buf_len buf; plen = 256 * uint (p ! 0) + uint (p ! 1)
      in if len \<ge> 3
         then (if p ! 2 = push_bit P_OPCODE_SHIFT P_CONTROL_HARD_RESET_CLIENT_V3
               then plen \<ge> 336 \<and> plen < 1024 + 255
               else plen \<ge> 14 \<and> plen \<le> 255 \<and> p ! 2 = push_bit P_OPCODE_SHIFT P_CONTROL_HARD_RESET_CLIENT_V2)
         else if len \<ge> 2 then plen \<ge> 14 \<and> plen \<le> 255
         else True)"

text \<open>The last part of \<open>stream_buf_added\<close>: is the packet complete?\<close>

definition stream_buf_complete :: "stream_buf \<Rightarrow> (bool \<times> stream_buf) option" where
  "stream_buf_complete sb =
     (if sb_len sb > 0 \<and> b_len (sb_buf sb) \<ge> sb_len sb
      then (case buf_init (sb_residual sb) 0 of
              (False, _) \<Rightarrow> None
            | (True, residual) \<Rightarrow>
                if b_len (sb_buf sb) > sb_len sb
                then (case buf_copy_excess residual (sb_buf sb) (sb_len sb) of
                        (False, _, _) \<Rightarrow> None
                      | (True, residual', b) \<Rightarrow> Some (True, sb\<lparr>sb_residual := residual', sb_buf := b\<rparr>))
                else Some (True, sb\<lparr>sb_residual := residual\<rparr>))
      else map_option (Pair False) (stream_buf_set_next sb))"

definition stream_buf_added :: "stream_buf \<Rightarrow> int \<Rightarrow> (bool \<times> stream_buf) option" where
  "stream_buf_added sb0 length_added =
     (let sb = (if length_added > 0
                then sb0\<lparr>sb_buf := (sb_buf sb0)\<lparr>b_len := b_len (sb_buf sb0) + length_added\<rparr>\<rparr> else sb0)
      in if sb_len sb < 0 \<and> b_len (sb_buf sb) \<ge> 2
         then (if sb_port_share_state sb = PS_ENABLED \<and> \<not> is_openvpn_protocol (sb_buf sb)
               then Some (False, sb\<lparr>sb_port_share_state := PS_FOREIGN, sb_error := True\<rparr>)
               else (let sb1 = (if sb_port_share_state sb = PS_ENABLED
                                then sb\<lparr>sb_port_share_state := PS_DISABLED\<rparr> else sb)
                     in case buf_read (sb_buf sb1) 2 of
                          (None, _) \<Rightarrow> None
                        | (Some net_size, b) \<Rightarrow>
                            (let sb2 = sb1\<lparr>sb_buf := b, sb_len := uint (u16_of_bytes net_size)\<rparr>
                             in if sb_len sb2 < 1 \<or> sb_len sb2 > sb_maxlen sb2
                                then Some (False, (stream_buf_reset sb2)\<lparr>sb_error := True\<rparr>)
                                else stream_buf_complete sb2)))
         else stream_buf_complete sb)"

text \<open>The first half of \<open>stream_buf_read_setup_dowork\<close>: what is left of the last read is taken first.\<close>

definition stream_buf_take_residual :: "stream_buf \<Rightarrow> stream_buf option" where
  "stream_buf_take_residual sb =
     (if b_len (sb_residual sb) \<noteq> 0 \<and> \<not> sb_residual_fully_formed sb
      then (case buf_copy (sb_buf sb) (sb_residual sb) of
              (False, _) \<Rightarrow> None
            | (True, b) \<Rightarrow>
                (case buf_init (sb_residual sb) 0 of
                   (False, _) \<Rightarrow> None
                 | (True, residual) \<Rightarrow>
                     map_option (\<lambda>(formed, sb2). sb2\<lparr>sb_residual_fully_formed := formed\<rparr>)
                       (stream_buf_added (sb\<lparr>sb_buf := b, sb_residual := residual\<rparr>) 0)))
      else Some sb)"

definition stream_buf_read_setup_dowork :: "stream_buf \<Rightarrow> (bool \<times> stream_buf) option" where
  "stream_buf_read_setup_dowork sb =
     do {
       sb1 \<leftarrow> stream_buf_take_residual sb;
       sb2 \<leftarrow> (if \<not> sb_residual_fully_formed sb1 then stream_buf_set_next sb1 else Some sb1);
       Some (\<not> sb_residual_fully_formed sb2, sb2)
     }"

definition stream_buf_close :: "stream_buf \<Rightarrow> stream_buf" where
  "stream_buf_close sb = sb\<lparr>sb_residual := free_buf (sb_residual sb)\<rparr>"

definition socket_read_residual :: "stream_buf option \<Rightarrow> bool" where
  "socket_read_residual s = (case s of None \<Rightarrow> False | Some sb \<Rightarrow> sb_residual_fully_formed sb)"

section \<open>Reading and writing a packet\<close>

text \<open>
  What \<open>recv\<close> returned: an error, the end of the stream (no bytes), or bytes, which it stored
  where \<open>next\<close> points. The result is the length, the packet if there is one, whether the
  connection is to be reset, and the stream buffer.
\<close>

datatype recv_result = Recv_error | Recv_bytes "u8 list"

definition link_socket_read_tcp ::
    "bool \<Rightarrow> recv_result \<Rightarrow> stream_buf \<Rightarrow> (int \<times> buffer option \<times> bool \<times> stream_buf) option" where
  "link_socket_read_tcp sd_defined r sb =
     (let deliver = (\<lambda>sb1. do {
            b \<leftarrow> stream_buf_get_final sb1;
            Some (b_len b, Some b, False, stream_buf_reset sb1)
          })
      in if sb_residual_fully_formed sb then deliver sb
         else if \<not> sd_defined then Some (0, None, True, sb)
         else do {
           frag \<leftarrow> stream_buf_get_next sb;
           case r of
             Recv_error \<Rightarrow> Some (-1, None, False, sb)
           | Recv_bytes bs \<Rightarrow>
               if bs = [] then Some (0, None, True, sb)
               else do {
                 (complete, sb1) \<leftarrow> stream_buf_added (sb\<lparr>sb_buf := buf_poke (sb_buf sb) (nat (b_offset frag)) bs\<rparr>)
                                     (int (length bs));
                 if complete then deliver sb1 else Some (0, None, False, sb1)
               }
         })"

definition link_socket_write_tcp :: "stream_buf \<Rightarrow> buffer \<Rightarrow> buffer option" where
  "link_socket_write_tcp sb buf =
     (let len = word_of_int (buf_len buf) :: u16
      in if uint len \<le> sb_maxlen sb
         then (case buf_write_prepend buf (u16_bytes len) of (True, b) \<Rightarrow> Some b | (False, _) \<Rightarrow> None)
         else None)"

section \<open>The invariant\<close>

definition tcp_frame :: "u8 list \<Rightarrow> u8 list" where
  "tcp_frame p = u16_bytes (word_of_nat (length p)) @ p"

definition packet_fits :: "stream_buf \<Rightarrow> u8 list \<Rightarrow> bool" where
  "packet_fits sb p \<longleftrightarrow> 1 \<le> length p \<and> int (length p) \<le> sb_maxlen sb \<and> length p < 65536"

text \<open>The bytes received and not yet delivered.\<close>

definition sb_pending :: "stream_buf \<Rightarrow> u8 list" where
  "sb_pending sb = (if sb_len sb \<ge> 0 then u16_bytes (word_of_int (sb_len sb)) else [])
     @ buf_bytes (sb_buf sb) @ buf_bytes (sb_residual sb)"

lemma sb_pending_formed: "sb_pending (sb\<lparr>sb_residual_fully_formed := ok\<rparr>) = sb_pending sb"
  by (simp add: sb_pending_def)

text \<open>The geometry never changes.\<close>

definition sb_shape :: "stream_buf \<Rightarrow> bool" where
  "sb_shape sb \<longleftrightarrow> buf_wf (sb_buf sb) \<and> buf_wf (sb_residual sb) \<and> b_capacity (sb_residual sb) = sb_maxlen sb
     \<and> b_capacity (sb_buf sb) = b_capacity (sb_buf_init sb) \<and> b_len (sb_buf_init sb) = 0
     \<and> 0 \<le> b_offset (sb_buf_init sb) \<and> 2 \<le> sb_maxlen sb
     \<and> b_offset (sb_buf_init sb) + sb_maxlen sb + 2 \<le> b_capacity (sb_buf_init sb)
     \<and> sb_port_share_state sb \<noteq> PS_ENABLED"

definition sb_inv :: "stream_buf \<Rightarrow> bool" where
  "sb_inv sb \<longleftrightarrow> sb_shape sb \<and> \<not> sb_error sb
     \<and> (if sb_len sb < 0
        then sb_len sb = -1 \<and> \<not> sb_residual_fully_formed sb \<and> b_offset (sb_buf sb) = b_offset (sb_buf_init sb)
          \<and> (b_len (sb_buf sb) = 0 \<or> b_len (sb_buf sb) < 2 \<and> b_len (sb_residual sb) = 0)
        else 1 \<le> sb_len sb \<and> sb_len sb \<le> sb_maxlen sb \<and> sb_len sb < 65536
          \<and> b_offset (sb_buf sb) = b_offset (sb_buf_init sb) + 2
          \<and> (if sb_residual_fully_formed sb then b_len (sb_buf sb) = sb_len sb
             else b_len (sb_buf sb) < sb_len sb \<and> b_len (sb_residual sb) = 0))"

definition sb_same :: "stream_buf \<Rightarrow> stream_buf \<Rightarrow> bool" where
  "sb_same a b \<longleftrightarrow> sb_maxlen b = sb_maxlen a \<and> sb_buf_init b = sb_buf_init a"

lemma buf_empty_bytes: "b_len b = 0 \<Longrightarrow> buf_bytes b = []"
  by (simp add: buf_bytes_def buf_len_def)

lemma buf_wf_empty: "buf_wf b \<Longrightarrow> 0 \<le> k \<Longrightarrow> k \<le> b_capacity b \<Longrightarrow> buf_wf (b\<lparr>b_offset := k, b_len := 0\<rparr>)"
  by (auto simp: buf_wf_def split: option.splits)

lemma set_next_ok:
  assumes "sb_shape sb" and "n = (if sb_len sb \<ge> 0 then sb_len sb else sb_maxlen sb) - b_len (sb_buf sb)" and "0 < n"
    and "b_offset (sb_buf sb) + b_len (sb_buf sb) + n \<le> b_capacity (sb_buf sb)"
  shows "stream_buf_set_next sb = Some (sb\<lparr>sb_next := (sb_buf sb)\<lparr>b_offset := b_offset (sb_buf sb) + b_len (sb_buf sb), b_len := n\<rparr>\<rparr>)"
proof -
  have wf: "buf_wf (sb_buf sb)" using assms(1) by (simp add: sb_shape_def)
  note f = buf_wf_facts [OF wf]
  have "n < 2 ^ 63" using assms(4) f(4,5,9) by (simp add: BUF_SIZE_MAX_def)
  moreover have "n < int BUF_SIZE_MAX" using assms(4) f(4,5,9) by linarith
  ultimately have "buf_safe (sb_buf sb) (size_of_int n)"
    using assms(3,4) f(1) by (simp add: buf_safe_def size_of_int_nonneg buf_size_valid_def)
  then show ?thesis using assms(2,3) by (simp add: stream_buf_set_next_def Let_def)
qed

lemma reset_fields [simp]:
  "sb_buf_init (stream_buf_reset sb) = sb_buf_init sb" "sb_residual (stream_buf_reset sb) = sb_residual sb"
  "sb_maxlen (stream_buf_reset sb) = sb_maxlen sb" "sb_len (stream_buf_reset sb) = -1"
  "sb_error (stream_buf_reset sb) = sb_error sb" "sb_residual_fully_formed (stream_buf_reset sb) = False"
  "sb_port_share_state (stream_buf_reset sb) = sb_port_share_state sb"
  by (simp_all add: stream_buf_reset_def)

lemma reset_inv:
  assumes "sb_shape sb" and "\<not> sb_error sb"
  shows "sb_inv (stream_buf_reset sb)" and "sb_pending (stream_buf_reset sb) = buf_bytes (sb_residual sb)"
proof -
  have b: "sb_buf (stream_buf_reset sb) = (sb_buf sb)\<lparr>b_offset := b_offset (sb_buf_init sb), b_len := 0\<rparr>"
    using assms(1) by (simp add: stream_buf_reset_def sb_shape_def)
  have "buf_wf (sb_buf (stream_buf_reset sb))"
    unfolding b using assms(1) by (intro buf_wf_empty) (auto simp: sb_shape_def)
  then show "sb_inv (stream_buf_reset sb)" using assms b by (simp add: sb_inv_def sb_shape_def)
  show "sb_pending (stream_buf_reset sb) = buf_bytes (sb_residual sb)"
    by (simp add: sb_pending_def b buf_empty_bytes)
qed

text \<open>Completion: the packet is cut off and the rest goes to the residual buffer.\<close>

lemma complete_ok:
  assumes "sb_shape sb" and "1 \<le> sb_len sb" and "sb_len sb \<le> sb_maxlen sb" and "b_len (sb_buf sb) \<le> sb_maxlen sb"
    and "b_offset (sb_buf sb) = b_offset (sb_buf_init sb) + 2" and "b_len (sb_residual sb) = 0"
  obtains (complete) sb' where "stream_buf_complete sb = Some (True, sb')" "sb_shape sb'" "sb_same sb sb'"
      "sb_len sb' = sb_len sb" "sb_error sb' = sb_error sb" "b_len (sb_buf sb') = sb_len sb"
      "b_offset (sb_buf sb') = b_offset (sb_buf sb)" "buf_bytes (sb_buf sb') @ buf_bytes (sb_residual sb') = buf_bytes (sb_buf sb)"
  | (partial) nxt where "stream_buf_complete sb = Some (False, sb\<lparr>sb_next := nxt\<rparr>)" "b_len (sb_buf sb) < sb_len sb"
proof (cases "b_len (sb_buf sb) \<ge> sb_len sb")
  case False
  have "stream_buf_set_next sb = Some (sb\<lparr>sb_next := (sb_buf sb)\<lparr>b_offset := b_offset (sb_buf sb) + b_len (sb_buf sb),
      b_len := sb_len sb - b_len (sb_buf sb)\<rparr>\<rparr>)"
    using assms False by (intro set_next_ok) (auto simp: sb_shape_def)
  then show thesis using False by (intro partial) (auto simp: stream_buf_complete_def)
next
  case True
  let ?b = "sb_buf sb" and ?n = "sb_len sb"
  have wf: "buf_wf ?b" "buf_wf (sb_residual sb)" "b_capacity (sb_residual sb) = sb_maxlen sb"
    using assms(1) by (simp_all add: sb_shape_def)
  let ?r = "(sb_residual sb)\<lparr>b_len := 0, b_offset := 0\<rparr>"
  have r: "buf_init (sb_residual sb) 0 = (True, ?r)" "buf_wf ?r" "buf_bytes ?r = []" "buf_tailroom ?r = sb_maxlen sb"
    using wf assms(3,2) by (simp_all add: buf_init_eq buf_init_wf buf_empty_bytes buf_tailroom_def)
  show thesis
  proof (cases "b_len ?b > ?n")
    case False
    then have "stream_buf_complete sb = Some (True, sb\<lparr>sb_residual := ?r\<rparr>)"
      using True assms(2) r(1) by (simp add: stream_buf_complete_def)
    moreover have "sb_shape (sb\<lparr>sb_residual := ?r\<rparr>)" using assms(1) r(2) by (simp add: sb_shape_def)
    ultimately show thesis using True False r(3)
      by (intro complete [of "sb\<lparr>sb_residual := ?r\<rparr>"]) (simp_all add: sb_same_def)
  next
    case more: True
    let ?rest = "drop (nat ?n) (buf_bytes ?b)" and ?b' = "?b\<lparr>b_len := ?n\<rparr>"
    have sk: "buf_wf (buf_skip ?b (nat ?n))" "buf_bytes (buf_skip ?b (nat ?n)) = ?rest"
      using wf(1) more assms(2) by (simp_all add: buf_simps)
    have "length ?rest \<le> length (buf_bytes ?b)" by simp
    then have fit: "int (length ?rest) \<le> sb_maxlen sb"
      using assms(4) length_buf_bytes_int [OF wf(1)] by linarith
    have "buf_advance ?b ?n = (True, buf_skip ?b (nat ?n))" using wf(1) more assms(2) by (simp add: buf_advance_eq)
    moreover have "buf_copy ?r (buf_skip ?b (nat ?n)) = (True, buf_push ?r ?rest)"
      using r(2,4) fit sk(2) by (simp add: buf_copy_def buf_write_eq)
    ultimately have ex: "buf_copy_excess ?r ?b ?n = (True, buf_push ?r ?rest, ?b')"
      using more assms(2) by (simp add: buf_copy_excess_def Let_def)
    let ?sb' = "sb\<lparr>sb_residual := buf_push ?r ?rest, sb_buf := ?b'\<rparr>"
    have b': "buf_wf ?b'" using wf(1) more assms(2) by (auto simp: buf_wf_def split: option.splits)
    have "buf_bytes ?b' = take (nat ?n) (buf_bytes ?b)"
      using more assms(2) buf_wf_facts(3) [OF b'] buf_wf_facts(3) [OF wf(1)]
      by (simp add: buf_bytes_def buf_mem_def memget_take min_def)
    moreover have "buf_bytes (buf_push ?r ?rest) = ?rest" "buf_wf (buf_push ?r ?rest)"
      using r(2-4) fit by (simp_all add: buf_simps)
    moreover have "sb_shape ?sb'" using assms(1) b' calculation(3) by (simp add: sb_shape_def)
    moreover have "stream_buf_complete sb = Some (True, ?sb')"
      using True more assms(2) r(1) ex by (simp add: stream_buf_complete_def)
    ultimately show thesis by (intro complete [of ?sb']) (simp_all add: sb_same_def)
  qed
qed

text \<open>
  Before \<open>stream_buf_added\<close>: the residual buffer is empty, and the bytes of the block are a
  header in progress or a packet in progress, of at most the requested length.
\<close>

definition sb_receiving :: "stream_buf \<Rightarrow> bool" where
  "sb_receiving sb \<longleftrightarrow> sb_shape sb \<and> \<not> sb_error sb \<and> \<not> sb_residual_fully_formed sb \<and> b_len (sb_residual sb) = 0
     \<and> (if sb_len sb < 0
        then sb_len sb = -1 \<and> b_offset (sb_buf sb) = b_offset (sb_buf_init sb) \<and> b_len (sb_buf sb) \<le> sb_maxlen sb
        else 1 \<le> sb_len sb \<and> sb_len sb \<le> sb_maxlen sb \<and> sb_len sb < 65536
          \<and> b_offset (sb_buf sb) = b_offset (sb_buf_init sb) + 2 \<and> b_len (sb_buf sb) \<le> sb_len sb)"

lemma complete_inv:
  assumes "sb_shape sb" and "\<not> sb_error sb" and "1 \<le> sb_len sb" and "sb_len sb \<le> sb_maxlen sb" and "sb_len sb < 65536"
    and "b_len (sb_buf sb) \<le> sb_maxlen sb" and "b_offset (sb_buf sb) = b_offset (sb_buf_init sb) + 2"
    and "b_len (sb_residual sb) = 0" and "\<not> sb_residual_fully_formed sb"
  shows "\<exists>ok sb'. stream_buf_complete sb = Some (ok, sb') \<and> sb_same sb sb'
    \<and> sb_inv (sb'\<lparr>sb_residual_fully_formed := ok\<rparr>) \<and> sb_pending sb' = sb_pending sb
    \<and> (\<not> ok \<longrightarrow> b_len (sb_residual sb') = 0)"
proof (rule complete_ok [OF assms(1,3,4,6,7,8)])
  fix sb' assume c: "stream_buf_complete sb = Some (True, sb')" "sb_shape sb'" "sb_same sb sb'" "sb_len sb' = sb_len sb"
    "sb_error sb' = sb_error sb" "b_len (sb_buf sb') = sb_len sb" "b_offset (sb_buf sb') = b_offset (sb_buf sb)"
    "buf_bytes (sb_buf sb') @ buf_bytes (sb_residual sb') = buf_bytes (sb_buf sb)"
  have "sb_shape (sb'\<lparr>sb_residual_fully_formed := True\<rparr>)" using c(2) by (simp add: sb_shape_def)
  then have "sb_inv (sb'\<lparr>sb_residual_fully_formed := True\<rparr>)"
    using c assms(2-5,7) by (simp add: sb_inv_def sb_same_def)
  moreover have "sb_pending sb' = sb_pending sb"
    using c(4,8) assms(8) by (simp add: sb_pending_def buf_empty_bytes)
  ultimately show ?thesis using c(1,3) by blast
next
  fix nxt assume c: "stream_buf_complete sb = Some (False, sb\<lparr>sb_next := nxt\<rparr>)" "b_len (sb_buf sb) < sb_len sb"
  have "sb_inv (sb\<lparr>sb_next := nxt, sb_residual_fully_formed := False\<rparr>)"
    using assms c(2) by (simp add: sb_inv_def sb_shape_def)
  with c(1) show ?thesis
    by (intro exI [of _ False] exI [of _ "sb\<lparr>sb_next := nxt\<rparr>"]) (simp add: sb_same_def sb_pending_def assms(8))
qed

lemma header_of:
  assumes "xs @ wire = concat (map tcp_frame pkts)" and "2 \<le> length xs"
    and "\<forall>p \<in> set pkts. 1 \<le> length p \<and> length p < 65536"
  obtains p ps where "pkts = p # ps" "take 2 xs = u16_bytes (word_of_nat (length p))"
    "uint (u16_of_bytes (take 2 xs)) = int (length p)"
proof (cases pkts)
  case Nil
  then show thesis using assms(1,2) by simp
next
  case (Cons p ps)
  have "take 2 (xs @ wire) = u16_bytes (word_of_nat (length p))"
    unfolding assms(1) Cons by (simp add: tcp_frame_def)
  then have t: "take 2 xs = u16_bytes (word_of_nat (length p))" using assms(2) by simp
  have "uint (word_of_nat (length p) :: u16) = int (length p)"
    using assms(3) Cons by (simp add: unsigned_of_nat take_bit_eq_mod)
  then show thesis using Cons t by (intro that) simp_all
qed

lemma added_inv:
  assumes "sb_receiving sb" and "sb_pending sb @ wire = concat (map tcp_frame pkts)" and "\<forall>p \<in> set pkts. packet_fits sb p"
  shows "\<exists>ok sb'. stream_buf_added sb 0 = Some (ok, sb') \<and> sb_same sb sb'
    \<and> sb_inv (sb'\<lparr>sb_residual_fully_formed := ok\<rparr>) \<and> sb_pending sb' = sb_pending sb
    \<and> (\<not> ok \<longrightarrow> b_len (sb_residual sb') = 0)"
proof -
  note r = assms(1) [unfolded sb_receiving_def]
  have wf: "buf_wf (sb_buf sb)" using r by (simp add: sb_shape_def)
  show ?thesis
  proof (cases "sb_len sb < 0")
    case False
    then have "stream_buf_added sb 0 = stream_buf_complete sb" by (simp add: stream_buf_added_def)
    with complete_inv [of sb] r False show ?thesis by simp
  next
    case neg: True
    show ?thesis
    proof (cases "2 \<le> b_len (sb_buf sb)")
      case False
      let ?n = "sb_maxlen sb - b_len (sb_buf sb)"
      let ?sb' = "sb\<lparr>sb_next := (sb_buf sb)\<lparr>b_offset := b_offset (sb_buf sb) + b_len (sb_buf sb), b_len := ?n\<rparr>\<rparr>"
      have sh: "sb_shape sb" "2 \<le> sb_maxlen sb" "b_offset (sb_buf sb) + sb_maxlen sb \<le> b_capacity (sb_buf sb)"
        using r neg by (simp_all add: sb_shape_def)
      have "stream_buf_set_next sb = Some ?sb'"
        using neg False sh by (intro set_next_ok) simp_all
      then have "stream_buf_added sb 0 = Some (False, ?sb')"
        using neg False by (simp add: stream_buf_added_def stream_buf_complete_def)
      moreover have "sb_inv (?sb'\<lparr>sb_residual_fully_formed := False\<rparr>)"
        using r neg False by (simp add: sb_inv_def sb_shape_def)
      ultimately show ?thesis
        using r by (intro exI [of _ False] exI [of _ ?sb']) (simp add: sb_same_def sb_pending_def)
    next
      case True
      have pend: "sb_pending sb = buf_bytes (sb_buf sb)" using r neg by (simp add: sb_pending_def buf_empty_bytes)
      have l2: "2 \<le> length (buf_bytes (sb_buf sb))" using True wf by (simp add: length_buf_bytes)
      have lens: "\<forall>p \<in> set pkts. 1 \<le> length p \<and> length p < 65536" using assms(3) by (simp add: packet_fits_def)
      obtain p ps where p: "pkts = p # ps" "take 2 (buf_bytes (sb_buf sb)) = u16_bytes (word_of_nat (length p))"
        "uint (u16_of_bytes (take 2 (buf_bytes (sb_buf sb)))) = int (length p)"
        by (rule header_of [OF assms(2) [unfolded pend] l2 lens])
      have fit: "1 \<le> length p" "int (length p) \<le> sb_maxlen sb" "length p < 65536"
        using assms(3) p(1) by (simp_all add: packet_fits_def)
      have pn: "p \<noteq> []" using fit(1) by auto
      let ?b = "buf_skip (sb_buf sb) 2"
      let ?sb2 = "sb\<lparr>sb_buf := ?b, sb_len := int (length p)\<rparr>"
      have share: "sb_port_share_state sb \<noteq> PS_ENABLED" using r by (simp add: sb_shape_def)
      have rd: "buf_read (sb_buf sb) 2 = (Some (take 2 (buf_bytes (sb_buf sb))), ?b)"
        using wf True by (simp add: buf_read_eq)
      have "stream_buf_added sb 0 = stream_buf_complete ?sb2"
        using neg True rd p(3) fit share pn by (simp add: stream_buf_added_def Let_def)
      moreover have "\<exists>ok sb'. stream_buf_complete ?sb2 = Some (ok, sb') \<and> sb_same ?sb2 sb'
          \<and> sb_inv (sb'\<lparr>sb_residual_fully_formed := ok\<rparr>) \<and> sb_pending sb' = sb_pending ?sb2
          \<and> (\<not> ok \<longrightarrow> b_len (sb_residual sb') = 0)"
      proof (rule complete_inv)
        show "sb_shape ?sb2" using r wf True by (simp add: sb_shape_def buf_skip_wf)
      qed (use r neg fit in simp_all)
      moreover have "sb_pending ?sb2 = sb_pending sb"
      proof -
        have "u16_bytes (word_of_nat (length p)) @ drop 2 (buf_bytes (sb_buf sb)) = buf_bytes (sb_buf sb)"
          unfolding p(2) [symmetric] by simp
        then show ?thesis
          using r neg wf True by (simp add: sb_pending_def buf_skip_bytes buf_empty_bytes)
      qed
      ultimately show ?thesis by (simp add: sb_same_def)
    qed
  qed
qed

section \<open>Setting up a read, reading\<close>

text \<open>Ready for \<open>recv\<close>: \<open>next\<close> is the free space up to the end of what is awaited.\<close>

definition sb_ready :: "stream_buf \<Rightarrow> bool" where
  "sb_ready sb \<longleftrightarrow> sb_inv sb \<and> \<not> sb_residual_fully_formed sb \<and> b_len (sb_residual sb) = 0
     \<and> b_data (sb_next sb) \<noteq> None \<and> b_offset (sb_next sb) = b_offset (sb_buf sb) + b_len (sb_buf sb)
     \<and> b_len (sb_next sb) = (if sb_len sb \<ge> 0 then sb_len sb else sb_maxlen sb) - b_len (sb_buf sb)
     \<and> 0 < b_len (sb_next sb)"

lemma set_next_inv:
  assumes "sb_inv sb" and "\<not> sb_residual_fully_formed sb" and "b_len (sb_residual sb) = 0"
  shows "\<exists>sb'. stream_buf_set_next sb = Some sb' \<and> sb_ready sb' \<and> sb_same sb sb' \<and> sb_pending sb' = sb_pending sb"
proof -
  note i = assms(1) [unfolded sb_inv_def]
  let ?n = "(if sb_len sb \<ge> 0 then sb_len sb else sb_maxlen sb) - b_len (sb_buf sb)"
  let ?nxt = "(sb_buf sb)\<lparr>b_offset := b_offset (sb_buf sb) + b_len (sb_buf sb), b_len := ?n\<rparr>"
  have sh: "sb_shape sb" and wf: "buf_wf (sb_buf sb)" using i by (simp_all add: sb_shape_def)
  have n: "0 < ?n" using i assms(2) by (auto simp: sb_shape_def)
  have room: "b_offset (sb_buf sb) + b_len (sb_buf sb) + ?n \<le> b_capacity (sb_buf sb)"
    using i assms(2) by (auto simp: sb_shape_def)
  have "stream_buf_set_next sb = Some (sb\<lparr>sb_next := ?nxt\<rparr>)" by (rule set_next_ok [OF sh refl n room])
  moreover have "sb_inv (sb\<lparr>sb_next := ?nxt\<rparr>)" using i by (simp add: sb_inv_def sb_shape_def)
  moreover have "b_data (sb_buf sb) \<noteq> None" using wf by (auto simp: buf_wf_def split: option.splits)
  ultimately show ?thesis using assms(2,3) n
    by (intro exI [of _ "sb\<lparr>sb_next := ?nxt\<rparr>"]) (simp add: sb_ready_def sb_same_def sb_pending_def)
qed

lemma take_residual_inv:
  assumes "sb_inv sb" and "sb_pending sb @ wire = concat (map tcp_frame pkts)" and "\<forall>p \<in> set pkts. packet_fits sb p"
  shows "\<exists>sb1. stream_buf_take_residual sb = Some sb1
      \<and> sb_same sb sb1 \<and> sb_inv sb1 \<and> sb_pending sb1 = sb_pending sb
      \<and> (\<not> sb_residual_fully_formed sb1 \<longrightarrow> b_len (sb_residual sb1) = 0)"
proof (cases "b_len (sb_residual sb) \<noteq> 0 \<and> \<not> sb_residual_fully_formed sb")
  case False
  then show ?thesis using assms(1) by (auto simp: sb_same_def stream_buf_take_residual_def)
next
  case True
  note i = assms(1) [unfolded sb_inv_def]
  let ?b = "sb_buf sb" and ?r = "sb_residual sb"
  have neg: "sb_len sb = -1" "b_len ?b = 0" "b_offset ?b = b_offset (sb_buf_init sb)"
    using i True by (auto split: if_splits)
  have wf: "buf_wf ?b" "buf_wf ?r" "b_capacity ?r = sb_maxlen sb" "2 \<le> sb_maxlen sb"
    "b_offset ?b + sb_maxlen sb + 2 \<le> b_capacity ?b"
    using i neg(3) by (simp_all add: sb_shape_def)
  have rl: "b_len ?r \<le> sb_maxlen sb" using buf_wf_facts(5,6) [OF wf(2)] wf(3) by simp
  then have room: "int (length (buf_bytes ?r)) \<le> buf_tailroom ?b"
    using wf length_buf_bytes_int [OF wf(2)] neg(2) by (simp add: buf_tailroom_def)
  have c: "buf_copy ?b ?r = (True, buf_push ?b (buf_bytes ?r))"
    "buf_init ?r 0 = (True, ?r\<lparr>b_len := 0, b_offset := 0\<rparr>)"
    using wf room by (simp_all add: buf_copy_def buf_write_eq buf_init_eq)
  let ?sb = "sb\<lparr>sb_buf := buf_push ?b (buf_bytes ?r), sb_residual := ?r\<lparr>b_len := 0, b_offset := 0\<rparr>\<rparr>"
  have rec: "sb_receiving ?sb"
    using i True neg wf room rl length_buf_bytes_int [OF wf(2)]
    by (simp add: sb_receiving_def sb_shape_def buf_push_wf buf_init_wf)
  have pend: "sb_pending ?sb = sb_pending sb"
    using neg wf room by (simp add: sb_pending_def buf_push_bytes buf_empty_bytes)
  have "\<exists>ok sb'. stream_buf_added ?sb 0 = Some (ok, sb') \<and> sb_same ?sb sb'
      \<and> sb_inv (sb'\<lparr>sb_residual_fully_formed := ok\<rparr>) \<and> sb_pending sb' = sb_pending ?sb
      \<and> (\<not> ok \<longrightarrow> b_len (sb_residual sb') = 0)"
    by (rule added_inv [OF rec]) (use assms(2,3) pend in \<open>simp_all add: packet_fits_def\<close>)
  then obtain ok sb' where a: "stream_buf_added ?sb 0 = Some (ok, sb')" "sb_same ?sb sb'"
    "sb_inv (sb'\<lparr>sb_residual_fully_formed := ok\<rparr>)" "sb_pending sb' = sb_pending ?sb"
    "\<not> ok \<longrightarrow> b_len (sb_residual sb') = 0" by blast
  let ?sb1 = "sb'\<lparr>sb_residual_fully_formed := ok\<rparr>"
  have "sb_pending ?sb1 = sb_pending sb" using a(4) pend by (simp only: sb_pending_formed)
  moreover have "sb_same sb ?sb1" using a(2) by (simp add: sb_same_def)
  moreover have "\<not> sb_residual_fully_formed ?sb1 \<longrightarrow> b_len (sb_residual ?sb1) = 0" using a(5) by simp
  ultimately show ?thesis using c a(1,3) True by (intro exI [of _ ?sb1]) (simp add: stream_buf_take_residual_def)
qed

lemma read_setup_inv:
  assumes "sb_inv sb" and "sb_pending sb @ wire = concat (map tcp_frame pkts)" and "\<forall>p \<in> set pkts. packet_fits sb p"
  shows "\<exists>want sb'. stream_buf_read_setup_dowork sb = Some (want, sb') \<and> sb_same sb sb' \<and> sb_inv sb'
    \<and> sb_pending sb' = sb_pending sb \<and> want = (\<not> sb_residual_fully_formed sb') \<and> (want \<longrightarrow> sb_ready sb')"
proof -
  obtain sb1 where r: "stream_buf_take_residual sb = Some sb1"
    and sb1: "sb_same sb sb1" "sb_inv sb1" "sb_pending sb1 = sb_pending sb"
      "\<not> sb_residual_fully_formed sb1 \<longrightarrow> b_len (sb_residual sb1) = 0"
    using take_residual_inv [OF assms] by blast
  show ?thesis
  proof (cases "sb_residual_fully_formed sb1")
    case True
    then show ?thesis using r sb1
      by (intro exI [of _ False] exI [of _ sb1]) (simp add: stream_buf_read_setup_dowork_def)
  next
    case False
    then obtain sb2 where "stream_buf_set_next sb1 = Some sb2" "sb_ready sb2" "sb_same sb1 sb2" "sb_pending sb2 = sb_pending sb1"
      using set_next_inv [OF sb1(2)] sb1(4) by blast
    with r False sb1 show ?thesis
      by (intro exI [of _ True] exI [of _ sb2]) (simp add: sb_ready_def sb_same_def stream_buf_read_setup_dowork_def)
  qed
qed

lemma formed_update: "sb_residual_fully_formed sb = ok \<Longrightarrow> sb\<lparr>sb_residual_fully_formed := ok\<rparr> = sb"
  by (cases sb) simp

lemma added_formed:
  assumes "stream_buf_added sb n = Some (ok, sb')"
  shows "sb_residual_fully_formed sb' \<longrightarrow> sb_residual_fully_formed sb"
proof -
  have set_next: "sb_residual_fully_formed b = sb_residual_fully_formed a" if "stream_buf_set_next a = Some b" for a b
    using that by (auto simp: stream_buf_set_next_def Let_def split: if_splits)
  have complete: "sb_residual_fully_formed b = sb_residual_fully_formed a" if "stream_buf_complete a = Some (c, b)" for a b c
    using that set_next by (auto simp: stream_buf_complete_def split: if_splits prod.splits bool.splits)
  show ?thesis
    using assms by (auto simp: stream_buf_added_def Let_def split: if_splits prod.splits option.splits dest!: complete)
qed

text \<open>A complete packet is delivered, and what followed it stays pending.\<close>

lemma deliver_pending:
  assumes "sb_inv (sb\<lparr>sb_residual_fully_formed := True\<rparr>)"
  shows "stream_buf_get_final sb = Some (sb_buf sb)" and "sb_inv (stream_buf_reset sb)"
    and "sb_pending sb = tcp_frame (buf_bytes (sb_buf sb)) @ sb_pending (stream_buf_reset sb)"
    and "length (buf_bytes (sb_buf sb)) < 65536" and "sb_same sb (stream_buf_reset sb)"
proof -
  have sh: "sb_shape sb" "\<not> sb_error sb" "0 \<le> sb_len sb" "b_len (sb_buf sb) = sb_len sb" "sb_len sb < 65536"
    using assms by (simp_all add: sb_inv_def sb_shape_def split: if_splits)
  have wf: "buf_wf (sb_buf sb)" using sh(1) by (simp add: sb_shape_def)
  show "stream_buf_get_final sb = Some (sb_buf sb)"
    using wf by (auto simp: stream_buf_get_final_def buf_defined_def buf_wf_def split: option.splits)
  show "sb_inv (stream_buf_reset sb)" by (rule reset_inv(1) [OF sh(1,2)])
  have len: "int (length (buf_bytes (sb_buf sb))) = sb_len sb" using length_buf_bytes_int [OF wf] sh(4) by simp
  then show "length (buf_bytes (sb_buf sb)) < 65536" using sh(5) by simp
  have "word_of_nat (length (buf_bytes (sb_buf sb))) = (word_of_int (sb_len sb) :: u16)"
    unfolding len [symmetric] by simp
  then show "sb_pending sb = tcp_frame (buf_bytes (sb_buf sb)) @ sb_pending (stream_buf_reset sb)"
    unfolding reset_inv(2) [OF sh(1,2)] using sh(3) by (simp add: sb_pending_def tcp_frame_def)
  show "sb_same sb (stream_buf_reset sb)" by (simp add: sb_same_def)
qed

lemma read_residual_inv:
  assumes "sb_inv sb" and "sb_residual_fully_formed sb"
  obtains sb' where "link_socket_read_tcp True r sb = Some (b_len (sb_buf sb), Some (sb_buf sb), False, sb')" "sb_inv sb'"
    "sb_pending sb = tcp_frame (buf_bytes (sb_buf sb)) @ sb_pending sb'" "length (buf_bytes (sb_buf sb)) < 65536" "sb_same sb sb'"
proof -
  have "sb_inv (sb\<lparr>sb_residual_fully_formed := True\<rparr>)" using assms by (simp add: formed_update)
  note d = deliver_pending [OF this]
  show thesis by (rule that [of "stream_buf_reset sb"]) (use assms(2) d in \<open>simp_all add: link_socket_read_tcp_def\<close>)
qed

text \<open>\<open>recv\<close> stores the bytes behind those received before.\<close>

lemma recv_receiving:
  assumes "sb_ready sb" and "int (length bs) \<le> b_len (sb_next sb)"
  shows "sb_receiving (sb\<lparr>sb_buf := buf_push (sb_buf sb) bs\<rparr>)"
    and "sb_pending (sb\<lparr>sb_buf := buf_push (sb_buf sb) bs\<rparr>) = sb_pending sb @ bs"
proof -
  note i = assms(1) [unfolded sb_ready_def sb_inv_def]
  have wf: "buf_wf (sb_buf sb)" using i by (simp add: sb_shape_def)
  have sh: "sb_maxlen sb + 2 \<le> b_capacity (sb_buf sb) - b_offset (sb_buf_init sb)"
    using i by (simp add: sb_shape_def)
  then have room: "int (length bs) \<le> buf_tailroom (sb_buf sb)"
    using i assms(2) by (auto simp: buf_tailroom_def split: if_splits)
  show "sb_receiving (sb\<lparr>sb_buf := buf_push (sb_buf sb) bs\<rparr>)"
    using i assms(2) wf room by (auto simp: sb_receiving_def sb_shape_def buf_push_wf split: if_splits)
  show "sb_pending (sb\<lparr>sb_buf := buf_push (sb_buf sb) bs\<rparr>) = sb_pending sb @ bs"
    using i wf room by (simp add: sb_pending_def buf_push_bytes buf_empty_bytes)
qed

lemma added_after_recv:
  assumes "bs \<noteq> []" and "b_offset (sb_next sb) = b_offset (sb_buf sb) + b_len (sb_buf sb)"
  shows "stream_buf_added (sb\<lparr>sb_buf := buf_poke (sb_buf sb) (nat (b_offset (sb_next sb))) bs\<rparr>) (int (length bs))
    = stream_buf_added (sb\<lparr>sb_buf := buf_push (sb_buf sb) bs\<rparr>) 0"
proof -
  have "(buf_poke (sb_buf sb) (nat (b_offset (sb_next sb))) bs)\<lparr>b_len := b_len (sb_buf sb) + int (length bs)\<rparr>
      = buf_push (sb_buf sb) bs"
    unfolding assms(2) by (simp add: buf_push_def buf_poke_def)
  moreover have "b_len (buf_poke (sb_buf sb) (nat (b_offset (sb_next sb))) bs) = b_len (sb_buf sb)"
    by (simp add: buf_poke_def)
  ultimately show ?thesis using assms(1) by (simp add: stream_buf_added_def)
qed

lemma read_recv_inv:
  assumes "sb_ready sb" and "int (length bs) \<le> b_len (sb_next sb)" and "bs \<noteq> []"
    and "sb_pending sb @ bs @ wire = concat (map tcp_frame pkts)" and "\<forall>p \<in> set pkts. packet_fits sb p"
  obtains (packet) b sb' where "link_socket_read_tcp True (Recv_bytes bs) sb = Some (b_len b, Some b, False, sb')" "sb_inv sb'"
    "sb_pending sb @ bs = tcp_frame (buf_bytes b) @ sb_pending sb'" "length (buf_bytes b) < 65536" "sb_same sb sb'"
  | (partial) sb' where "link_socket_read_tcp True (Recv_bytes bs) sb = Some (0, None, False, sb')" "sb_inv sb'"
    "sb_pending sb @ bs = sb_pending sb'" "sb_same sb sb'"
proof -
  let ?sb = "sb\<lparr>sb_buf := buf_push (sb_buf sb) bs\<rparr>"
  note i = assms(1) [unfolded sb_ready_def]
  note rc = recv_receiving [OF assms(1,2)]
  have "\<exists>ok sb'. stream_buf_added ?sb 0 = Some (ok, sb') \<and> sb_same ?sb sb'
      \<and> sb_inv (sb'\<lparr>sb_residual_fully_formed := ok\<rparr>) \<and> sb_pending sb' = sb_pending ?sb
      \<and> (\<not> ok \<longrightarrow> b_len (sb_residual sb') = 0)"
    by (rule added_inv [OF rc(1), of wire pkts]) (use assms(4,5) rc(2) in \<open>simp_all add: packet_fits_def\<close>)
  then obtain ok sb' where a: "stream_buf_added ?sb 0 = Some (ok, sb')" "sb_same ?sb sb'"
    "sb_inv (sb'\<lparr>sb_residual_fully_formed := ok\<rparr>)" "sb_pending sb' = sb_pending ?sb" by blast
  have nxt: "stream_buf_get_next sb = Some (sb_next sb)"
    using i by (auto simp: stream_buf_get_next_def buf_defined_def)
  have rd: "link_socket_read_tcp True (Recv_bytes bs) sb
      = (if ok then do {b \<leftarrow> stream_buf_get_final sb'; Some (b_len b, Some b, False, stream_buf_reset sb')}
         else Some (0, None, False, sb'))"
    using i assms(3) nxt a(1) added_after_recv [OF assms(3), of sb] by (simp add: link_socket_read_tcp_def)
  have same: "sb_same sb sb'" using a(2) by (simp add: sb_same_def)
  show thesis
  proof (cases ok)
    case True
    have "sb_inv (sb'\<lparr>sb_residual_fully_formed := True\<rparr>)" using a(3) True by simp
    note d = deliver_pending [OF this]
    show thesis
      by (rule packet [of "sb_buf sb'" "stream_buf_reset sb'"])
        (use rd True d same a(4) rc(2) in \<open>simp_all add: sb_same_def\<close>)
  next
    case False
    have "sb'\<lparr>sb_residual_fully_formed := False\<rparr> = sb'"
      using added_formed [OF a(1)] i by (simp add: formed_update)
    then have "sb_inv sb'" using a(3) False by simp
    then show thesis using partial [of sb'] rd False same a(4) rc(2) by simp
  qed
qed

section \<open>The receive loop\<close>

text \<open>
  One pass of the caller: set the read up; if bytes are wanted, \<open>recv\<close> returns at least one and
  at most \<open>n + 1\<close> of those on the wire, or blocks when there are none; then read. The result is
  the packet delivered, if any.
\<close>

definition tcp_step :: "nat \<Rightarrow> stream_buf \<times> u8 list \<Rightarrow> (u8 list list \<times> stream_buf \<times> u8 list) option" where
  "tcp_step n s =
     (case s of (sb, wire) \<Rightarrow> do {
        (want, sb1) \<leftarrow> stream_buf_read_setup_dowork sb;
        if want \<and> wire = [] then Some ([], sb1, wire)
        else do {
          let bs = (if want then take (min (Suc n) (nat (b_len (sb_next sb1)))) wire else []);
          (len, pkt, reset, sb2) \<leftarrow> link_socket_read_tcp True (Recv_bytes bs) sb1;
          if reset then None else Some (case pkt of None \<Rightarrow> [] | Some b \<Rightarrow> [buf_bytes b], sb2, drop (length bs) wire)
        }
      })"

fun tcp_run :: "nat list \<Rightarrow> stream_buf \<times> u8 list \<Rightarrow> (u8 list list \<times> stream_buf \<times> u8 list) option" where
  "tcp_run [] s = Some ([], s)"
| "tcp_run (n # ns) s =
     do {
       (got, s1) \<leftarrow> tcp_step n s;
       (more, s2) \<leftarrow> tcp_run ns s1;
       Some (got @ more, s2)
     }"

definition tcp_left :: "stream_buf \<Rightarrow> stream_buf \<times> u8 list \<Rightarrow> u8 list list \<Rightarrow> bool" where
  "tcp_left sb0 s pkts \<longleftrightarrow> sb_inv (fst s) \<and> sb_same sb0 (fst s)
     \<and> sb_pending (fst s) @ snd s = concat (map tcp_frame pkts) \<and> (\<forall>p \<in> set pkts. packet_fits sb0 p)"

lemma packet_fits_same: "sb_same sb0 sb \<Longrightarrow> packet_fits sb p = packet_fits sb0 p"
  by (simp add: sb_same_def packet_fits_def)

lemma sb_same_trans: "sb_same a b \<Longrightarrow> sb_same b c \<Longrightarrow> sb_same a c"
  by (simp add: sb_same_def)

lemma length_word_inj:
  assumes "u16_bytes (word_of_nat m) = u16_bytes (word_of_nat n)" and "m < 65536" and "n < 65536"
  shows "m = n"
proof -
  have "(word_of_nat m :: u16) = word_of_nat n" using arg_cong [OF assms(1), of u16_of_bytes] by (simp only: u16_bytes_inverse)
  then have "unat (word_of_nat m :: u16) = unat (word_of_nat n :: u16)" by (simp only:)
  then show ?thesis using assms(2,3) by (simp add: unat_of_nat)
qed

lemma take_drop_length: "take k xs @ drop (length (take k xs)) xs = xs"
  by (cases "k \<le> length xs") simp_all

lemma tcp_frame_cancel:
  assumes "tcp_frame p @ xs = concat (map tcp_frame pkts)" and "length p < 65536" and "\<forall>p \<in> set pkts. packet_fits sb p"
  shows "\<exists>ps. pkts = p # ps \<and> xs = concat (map tcp_frame ps)"
proof (cases pkts)
  case Nil
  then show ?thesis using arg_cong [OF assms(1), of length] by (simp add: tcp_frame_def)
next
  case (Cons q qs)
  have e: "u16_bytes (word_of_nat (length p)) @ (p @ xs)
      = u16_bytes (word_of_nat (length q)) @ (q @ concat (map tcp_frame qs))"
    using assms(1) Cons by (simp add: tcp_frame_def)
  then have h: "u16_bytes (word_of_nat (length p)) = u16_bytes (word_of_nat (length q))"
    and t: "p @ xs = q @ concat (map tcp_frame qs)"
    by (metis append_eq_append_conv length_u16_bytes)+
  have q: "length q < 65536" using assms(3) Cons by (simp add: packet_fits_def)
  have "length p = length q" by (rule length_word_inj [OF h assms(2) q])
  then have "p = q" "xs = concat (map tcp_frame qs)" using t by simp_all
  then show ?thesis using Cons by blast
qed

text \<open>While bytes are wanted, no whole packet is pending.\<close>

lemma tcp_stuck:
  assumes "sb_ready sb" and "sb_pending sb = tcp_frame p @ xs" and "packet_fits sb p"
  shows False
proof -
  note i = assms(1) [unfolded sb_ready_def sb_inv_def]
  have wf: "buf_wf (sb_buf sb)" using i by (simp add: sb_shape_def)
  have pend: "sb_pending sb = (if sb_len sb \<ge> 0 then u16_bytes (word_of_int (sb_len sb)) else []) @ buf_bytes (sb_buf sb)"
    using i by (simp add: sb_pending_def buf_empty_bytes)
  have lp: "1 \<le> length p" "length p < 65536" using assms(3) by (simp_all add: packet_fits_def)
  show False
  proof (cases "sb_len sb < 0")
    case True
    then have "length (sb_pending sb) < 2"
      using i length_buf_bytes_int [OF wf] by (auto simp: pend)
    then show False using assms(2) by (simp add: tcp_frame_def)
  next
    case False
    then have l: "0 \<le> sb_len sb" "sb_len sb < 65536" "b_len (sb_buf sb) < sb_len sb" using i by simp_all
    have e: "u16_bytes (word_of_int (sb_len sb)) @ buf_bytes (sb_buf sb) = u16_bytes (word_of_nat (length p)) @ p @ xs"
      using assms(2) l(1) pend by (simp add: tcp_frame_def)
    then have "(word_of_int (sb_len sb) :: u16) = word_of_nat (length p)"
      by (metis append_eq_append_conv length_u16_bytes u16_bytes_inverse)
    then have "uint (word_of_int (sb_len sb) :: u16) = uint (word_of_nat (length p) :: u16)" by simp
    then have "sb_len sb = int (length p)"
      using l lp by (simp add: uint_word_of_int unsigned_of_nat take_bit_eq_mod)
    moreover have "length (buf_bytes (sb_buf sb)) = length p + length xs" using e by simp
    ultimately show False using l(3) length_buf_bytes_int [OF wf] by simp
  qed
qed

text \<open>A pass delivers the next packet or takes bytes from the wire, unless all is delivered.\<close>

lemma tcp_step_ok:
  assumes "tcp_left sb0 (sb, wire) pkts"
  obtains (idle) sb' where "tcp_step n (sb, wire) = Some ([], sb', wire)" "tcp_left sb0 (sb', wire) pkts" "pkts = []" "wire = []"
  | (receive) sb' wire' where "tcp_step n (sb, wire) = Some ([], sb', wire')" "tcp_left sb0 (sb', wire') pkts" "length wire' < length wire"
  | (deliver) sb' wire' p ps where "tcp_step n (sb, wire) = Some ([p], sb', wire')" "pkts = p # ps" "tcp_left sb0 (sb', wire') ps"
      "length wire' \<le> length wire"
proof -
  note l = assms [unfolded tcp_left_def fst_conv snd_conv]
  have fit: "\<forall>p \<in> set pkts. packet_fits sb p" using l packet_fits_same by blast
  obtain want sb1 where s: "stream_buf_read_setup_dowork sb = Some (want, sb1)" "sb_same sb sb1" "sb_inv sb1"
    "sb_pending sb1 = sb_pending sb" "want = (\<not> sb_residual_fully_formed sb1)" "want \<longrightarrow> sb_ready sb1"
    using read_setup_inv [of sb wire pkts] l fit by blast
  have same: "sb_same sb0 sb1" using l s(2) sb_same_trans by blast
  have fit1: "\<forall>p \<in> set pkts. packet_fits sb1 p" using l same packet_fits_same by blast
  show thesis
  proof (cases want)
    case False
    then have f: "sb_residual_fully_formed sb1" using s(5) by simp
    obtain sb2 where d: "link_socket_read_tcp True (Recv_bytes []) sb1 = Some (b_len (sb_buf sb1), Some (sb_buf sb1), False, sb2)"
      "sb_inv sb2" "sb_pending sb1 = tcp_frame (buf_bytes (sb_buf sb1)) @ sb_pending sb2"
      "length (buf_bytes (sb_buf sb1)) < 65536" "sb_same sb1 sb2"
      by (rule read_residual_inv [OF s(3) f])
    have "tcp_frame (buf_bytes (sb_buf sb1)) @ (sb_pending sb2 @ wire) = concat (map tcp_frame pkts)"
      using l s(4) d(3) by (metis append_assoc)
    then obtain ps where ps: "pkts = buf_bytes (sb_buf sb1) # ps" "sb_pending sb2 @ wire = concat (map tcp_frame ps)"
      using tcp_frame_cancel [OF _ d(4) fit] by blast
    show thesis
    proof (rule deliver [of "buf_bytes (sb_buf sb1)" sb2 wire ps])
      show "tcp_left sb0 (sb2, wire) ps"
        using l d(2,5) ps same sb_same_trans [of sb0 sb1 sb2] by (simp add: tcp_left_def)
    qed (use s(1) d(1) False ps in \<open>simp_all add: tcp_step_def\<close>)
  next
    case True
    note r = s(6) [rule_format, OF True]
    show thesis
    proof (cases "wire = []")
      case we: True
      have "pkts = []"
      proof (rule ccontr)
        assume "pkts \<noteq> []"
        then obtain p ps where p: "pkts = p # ps" by (cases pkts) auto
        have e: "sb_pending sb1 = tcp_frame p @ concat (map tcp_frame ps)" using l s(4) we p by simp
        show False using tcp_stuck [OF r, of p "concat (map tcp_frame ps)"] e fit1 p by simp
      qed
      moreover have "tcp_left sb0 (sb1, wire) pkts" using l s(3,4) same by (simp add: tcp_left_def)
      moreover have "tcp_step n (sb, wire) = Some ([], sb1, wire)" using s(1) True we by (simp add: tcp_step_def)
      ultimately show thesis using idle we by blast
    next
      case False
      let ?bs = "take (min (Suc n) (nat (b_len (sb_next sb1)))) wire"
      have bs: "?bs \<noteq> []" "int (length ?bs) \<le> b_len (sb_next sb1)"
        using r False by (auto simp: sb_ready_def)
      have sh: "length (drop (length ?bs) wire) < length wire" using bs(1) False by simp
      have e: "sb_pending sb1 @ ?bs @ drop (length ?bs) wire = concat (map tcp_frame pkts)"
        using l s(4) take_drop_length [of _ wire] by simp
      show thesis
      proof (rule read_recv_inv [OF r bs(2,1) e fit1])
        fix b sb2 assume d: "link_socket_read_tcp True (Recv_bytes ?bs) sb1 = Some (b_len b, Some b, False, sb2)" "sb_inv sb2"
          "sb_pending sb1 @ ?bs = tcp_frame (buf_bytes b) @ sb_pending sb2" "length (buf_bytes b) < 65536" "sb_same sb1 sb2"
        have "tcp_frame (buf_bytes b) @ (sb_pending sb2 @ drop (length ?bs) wire) = concat (map tcp_frame pkts)"
          using e d(3) by (metis append_assoc)
        then obtain ps where ps: "pkts = buf_bytes b # ps" "sb_pending sb2 @ drop (length ?bs) wire = concat (map tcp_frame ps)"
          using tcp_frame_cancel [OF _ d(4) fit] by blast
        have left: "tcp_left sb0 (sb2, drop (length ?bs) wire) ps"
          using l d(2,5) ps same sb_same_trans [of sb0 sb1 sb2] by (simp add: tcp_left_def)
        have "tcp_step n (sb, wire) = Some ([buf_bytes b], sb2, drop (length ?bs) wire)"
          using s(1) d(1) True False by (simp add: tcp_step_def Let_def)
        then show thesis by (rule deliver [OF _ ps(1) left less_imp_le [OF sh]])
      next
        fix sb2 assume d: "link_socket_read_tcp True (Recv_bytes ?bs) sb1 = Some (0, None, False, sb2)" "sb_inv sb2"
          "sb_pending sb1 @ ?bs = sb_pending sb2" "sb_same sb1 sb2"
        have "sb_pending sb2 @ drop (length ?bs) wire = concat (map tcp_frame pkts)"
          using e d(3) by (metis append_assoc)
        then have "tcp_left sb0 (sb2, drop (length ?bs) wire) pkts"
          using l d(2,4) same sb_same_trans [of sb0 sb1 sb2] by (simp add: tcp_left_def)
        moreover have "tcp_step n (sb, wire) = Some ([], sb2, drop (length ?bs) wire)"
          using s(1) d(1) True False by (simp add: tcp_step_def Let_def)
        ultimately show thesis using receive sh by blast
      qed
    qed
  qed
qed

lemma tcp_run_ok:
  "tcp_left sb0 s pkts \<Longrightarrow> \<exists>k s'. tcp_run ns s = Some (take k pkts, s') \<and> tcp_left sb0 s' (drop k pkts)
    \<and> (length (snd s) + length pkts \<le> length ns \<longrightarrow> length pkts \<le> k)"
proof (induction ns arbitrary: s pkts)
  case Nil
  then show ?case by (intro exI [of _ 0] exI [of _ s]) simp
next
  case (Cons n ns)
  obtain sb wire where s: "s = (sb, wire)" by fastforce
  have l: "tcp_left sb0 (sb, wire) pkts" using Cons.prems s by simp
  show ?case
  proof (rule tcp_step_ok [OF l, of n])
    fix sb' assume st: "tcp_step n (sb, wire) = Some ([], sb', wire)" "tcp_left sb0 (sb', wire) pkts" "pkts = []" "wire = []"
    obtain k s' where "tcp_run ns (sb', wire) = Some (take k pkts, s')" "tcp_left sb0 s' (drop k pkts)"
      using Cons.IH [OF st(2)] by blast
    then show ?case using st s by (intro exI [of _ k] exI [of _ s']) simp
  next
    fix sb' wire' assume st: "tcp_step n (sb, wire) = Some ([], sb', wire')" "tcp_left sb0 (sb', wire') pkts"
      "length wire' < length wire"
    obtain k s' where "tcp_run ns (sb', wire') = Some (take k pkts, s')" "tcp_left sb0 s' (drop k pkts)"
      "length wire' + length pkts \<le> length ns \<longrightarrow> length pkts \<le> k"
      using Cons.IH [OF st(2)] by auto
    then show ?case using st s by (intro exI [of _ k] exI [of _ s']) auto
  next
    fix sb' wire' p ps assume st: "tcp_step n (sb, wire) = Some ([p], sb', wire')" "pkts = p # ps"
      "tcp_left sb0 (sb', wire') ps" "length wire' \<le> length wire"
    obtain k s' where "tcp_run ns (sb', wire') = Some (take k ps, s')" "tcp_left sb0 s' (drop k ps)"
      "length wire' + length ps \<le> length ns \<longrightarrow> length ps \<le> k"
      using Cons.IH [OF st(3)] by auto
    then show ?case using st s by (intro exI [of _ "Suc k"] exI [of _ s']) auto
  qed
qed

section \<open>Setting up, writing\<close>

lemma socket_frame_init_inv:
  assumes "proto \<noteq> PROTO_UDP" and "\<not> (port_share \<and> proto = PROTO_TCP_SERVER)"
    and "BUF_SIZE frame < int BUF_SIZE_MAX" and "0 \<le> fr_headroom frame" and "2 \<le> fr_payload_size frame"
    and "2 \<le> fr_tailroom frame"
  obtains sb where "socket_frame_init frame port_share proto = Some (Some sb)" "sb_inv sb" "sb_pending sb = []"
    "sb_maxlen sb = fr_payload_size frame"
proof -
  let ?n = "BUF_SIZE frame" and ?h = "fr_headroom frame" and ?p = "fr_payload_size frame"
  have sz: "?h + ?p + 2 \<le> ?n" using assms(6) by (simp add: BUF_SIZE_def)
  then have n: "size_of_int ?n = nat ?n" "0 \<le> ?n" "size_of_int ?p = nat ?p" "?p < int BUF_SIZE_MAX"
    using assms(3-5) by (auto simp: BUF_SIZE_MAX_def)
  let ?d = "\<lparr>b_capacity = ?n, b_offset = ?h, b_len = ?p, b_data = Some (replicate (nat ?n) (0 :: u8))\<rparr>"
  let ?r = "\<lparr>b_capacity = ?p, b_offset = 0, b_len = 0, b_data = Some (replicate (nat ?p) (0 :: u8))\<rparr>"
  have wf: "buf_wf ?d" "buf_wf ?r" using sz n assms(3-5) by (simp_all add: buf_wf_def)
  have d: "alloc_buf_sock_tun frame = Some ?d"
    using sz n assms(3-5) by (simp add: alloc_buf_sock_tun_def alloc_buf_def buf_size_valid_def buf_init_def
        buf_safe_def buf_valid_def BUF_SIZE_MAX_def)
  have r: "alloc_buf (size_of_int ?p) = Some ?r"
    using n assms(5) by (simp add: alloc_buf_def buf_size_valid_def)
  let ?sb = "\<lparr>sb_buf_init = ?d\<lparr>b_len := 0\<rparr>, sb_residual = ?r, sb_maxlen = ?p,
      sb_residual_fully_formed = False, sb_buf = ?d, sb_next = clear_buf, sb_len = -1, sb_error = False,
      sb_port_share_state = PS_DISABLED\<rparr>"
  have e: "socket_frame_init frame port_share proto = Some (Some (stream_buf_reset ?sb))"
    using assms(1,2) d r by (auto simp: socket_frame_init_def stream_buf_init_def)
  have sh: "sb_shape ?sb" using wf sz assms(4,5) by (simp add: sb_shape_def)
  have "\<not> sb_error ?sb" by simp
  note i = reset_inv [OF sh this]
  show thesis
  proof (rule that [OF e i(1)])
    show "sb_pending (stream_buf_reset ?sb) = []" unfolding i(2) by (simp add: buf_empty_bytes)
    show "sb_maxlen (stream_buf_reset ?sb) = ?p" by simp
  qed
qed

lemma link_socket_write_tcp_frame:
  assumes "buf_wf buf" and "link_socket_write_tcp sb buf = Some out"
  shows "buf_bytes out = tcp_frame (buf_bytes buf)"
proof -
  have "buf_len buf = int (length (buf_bytes buf))"
    using assms(1) length_buf_bytes_int [OF assms(1)] by (auto simp: buf_len_def buf_valid_def buf_wf_def split: option.splits)
  then show ?thesis
    using assms by (auto simp: link_socket_write_tcp_def Let_def buf_simps tcp_frame_def split: if_splits)
qed

section \<open>Property\<close>

text \<open>
  C20: Packets written to a TCP link arrive at the other end in order, whole and unchanged,
  however \<open>recv\<close> cuts the byte stream: the stream buffer set up with the frame of the tunnel
  never fails an assertion or reports an error, what it has delivered is always a prefix of the
  packets sent, and enough passes of the receive loop deliver all of them.
\<close>

theorem tcp_stream_reassembly:
  assumes "frame_finalize_options kt opt frame0 = Some frame" and "mtu_options_ok opt" and "fr_tun_mtu frame < 200000"
    and "proto = PROTO_TCP_CLIENT \<or> proto = PROTO_TCP_SERVER \<and> \<not> port_share"
    and "map (link_socket_write_tcp tx) bufs = map Some outs"
    and "\<forall>b \<in> set bufs. buf_wf b \<and> 0 < b_len b \<and> b_len b \<le> fr_payload_size frame \<and> b_len b < 65536"
    and "wire = concat (map buf_bytes outs)"
  shows "\<exists>rx rx' rest k. socket_frame_init frame port_share proto = Some (Some rx)
    \<and> tcp_run ns (rx, wire) = Some (map buf_bytes (take k bufs), rx', rest)
    \<and> (length wire + length bufs \<le> length ns \<longrightarrow> length bufs \<le> k \<and> rest = [])"
proof -
  note fr = frame_finalize_buffers [OF assms(1-3)]
  obtain rx where rx: "socket_frame_init frame port_share proto = Some (Some rx)" "sb_inv rx" "sb_pending rx = []"
    "sb_maxlen rx = fr_payload_size frame"
  proof (rule socket_frame_init_inv [of proto port_share frame])
  qed (use assms(4) fr in auto)
  let ?pkts = "map buf_bytes bufs"
  have "map buf_bytes outs = map (tcp_frame \<circ> buf_bytes) bufs"
    using assms(5,6)
  proof (induction bufs arbitrary: outs)
    case (Cons b bs)
    then show ?case using link_socket_write_tcp_frame by (cases outs) auto
  qed simp
  then have w: "wire = concat (map tcp_frame ?pkts)" using assms(7) by simp
  have "packet_fits rx (buf_bytes b)" if "b \<in> set bufs" for b
    using assms(6) that length_buf_bytes_int [of b] rx(4) by (auto simp: packet_fits_def)
  then have "tcp_left rx (rx, wire) ?pkts" using rx w by (simp add: tcp_left_def sb_same_def)
  from tcp_run_ok [OF this, of ns]
  obtain k s' where r: "tcp_run ns (rx, wire) = Some (take k ?pkts, s')" "tcp_left rx s' (drop k ?pkts)"
    "length wire + length ?pkts \<le> length ns \<longrightarrow> length ?pkts \<le> k" by auto
  obtain rx' rest where s': "s' = (rx', rest)" by fastforce
  have "rest = []" if "length bufs \<le> k" using r(2) that s' by (simp add: tcp_left_def)
  then show ?thesis using rx(1) r s' by (intro exI [of _ rx] exI [of _ rx'] exI [of _ rest] exI [of _ k]) (auto simp: take_map)
qed

definition demo_mtu_options :: mtu_options where
  "demo_mtu_options = \<lparr>mo_size = demo_options, mo_tun_mtu_defined = True, mo_tun_mtu_max = 1600, mo_tun_mtu_extra = 0,
     mo_link_mtu_defined = False, mo_link_mtu = 0, mo_tls_mtu = 1250\<rparr>"

definition demo_tunnel :: frame where
  "demo_tunnel = demo_frame\<lparr>fr_tun_mtu := 1500, fr_tun_max_mtu := 1600, fr_payload_size := 1768,
     fr_headroom := 136, fr_tailroom := 562\<rparr>"

lemma demo_finalize: "frame_finalize_options demo_cbc demo_mtu_options demo_frame = Some demo_tunnel"
  by (simp add: frame_finalize_options_def get_frame_mtu_def demo_mtu_options_def demo_tunnel_def demo_options_def
      crypto_max_overhead_def packet_id_size_def max_int_def int_of_size_id)

definition demo_packets :: "buffer list" where
  "demo_packets = [\<lparr>b_capacity = 4, b_offset = 2, b_len = 2, b_data = Some [0, 0, 65, 66]\<rparr>,
     \<lparr>b_capacity = 3, b_offset = 2, b_len = 1, b_data = Some [0, 0, 67]\<rparr>]"

definition demo_sender :: stream_buf where
  "demo_sender = \<lparr>sb_buf_init = clear_buf, sb_residual = clear_buf, sb_maxlen = 1768, sb_residual_fully_formed = False,
     sb_buf = clear_buf, sb_next = clear_buf, sb_len = -1, sb_error = False, sb_port_share_state = PS_DISABLED\<rparr>"

theorem tcp_stream_reassembly_witness:
  "\<exists>rx rx'. socket_frame_init demo_tunnel False PROTO_TCP_SERVER = Some (Some rx)
    \<and> tcp_run (replicate 9 0) (rx, [0, 2, 65, 66, 0, 1, 67]) = Some (map buf_bytes demo_packets, rx', [])"
proof -
  let ?outs = "[\<lparr>b_capacity = 4, b_offset = 0, b_len = 4, b_data = Some [0, 2, 65, 66]\<rparr>,
     \<lparr>b_capacity = 3, b_offset = 0, b_len = 3, b_data = Some [0, 1, 67 :: u8]\<rparr>]"
  have "map (link_socket_write_tcp demo_sender) demo_packets = map Some ?outs" by code_simp
  moreover have "[0, 2, 65, 66, 0, 1, 67] = concat (map buf_bytes ?outs)" by code_simp
  moreover have "\<forall>b \<in> set demo_packets. buf_wf b \<and> 0 < b_len b \<and> b_len b \<le> fr_payload_size demo_tunnel \<and> b_len b < 65536"
    by (simp add: demo_packets_def demo_tunnel_def buf_wf_def BUF_SIZE_MAX_def)
  moreover have "mtu_options_ok demo_mtu_options" "fr_tun_mtu demo_tunnel < 200000"
    by (simp_all add: mtu_options_ok_def demo_mtu_options_def demo_tunnel_def)
  ultimately obtain rx rx' rest k where "socket_frame_init demo_tunnel False PROTO_TCP_SERVER = Some (Some rx)"
    "tcp_run (replicate 9 0) (rx, [0, 2, 65, 66, 0, 1, 67]) = Some (map buf_bytes (take k demo_packets), rx', rest)"
    "length [0, 2, 65, 66, 0, 1, 67 :: u8] + length demo_packets \<le> length (replicate 9 (0 :: nat))
       \<longrightarrow> length demo_packets \<le> k \<and> rest = []"
    using tcp_stream_reassembly [OF demo_finalize, of PROTO_TCP_SERVER False demo_sender demo_packets ?outs
        "[0, 2, 65, 66, 0, 1, 67]" "replicate 9 0"] by blast
  moreover have "length demo_packets = 2" by (simp add: demo_packets_def)
  ultimately show ?thesis by auto
qed

end
