(* ===== verification/TlsCrypt.thy ===== *)
theory TlsCrypt
  imports DataChannel ReliableAck
begin

text \<open>
  The wrapping of control packets of \<open>tls_crypt.c\<close>: a packet is sealed with a tag over its
  header, packet id and plaintext, and encrypted in counter mode with the head of the tag as IV;
  and the client keys of version 2, which the server wraps for the client the same way. The
  crypto library is the argument of theory \<open>Crypto\<close>.
\<close>

section \<open>Wrapping a packet\<close>

definition TLS_CRYPT_TAG_SIZE :: nat where "TLS_CRYPT_TAG_SIZE = 256 div 8"
definition TLS_CRYPT_PID_SIZE :: nat where "TLS_CRYPT_PID_SIZE = 4 + 4"
definition TLS_CRYPT_BLOCK_SIZE :: nat where "TLS_CRYPT_BLOCK_SIZE = 128 div 8"
definition TLS_CRYPT_OFF_PID :: nat where "TLS_CRYPT_OFF_PID = 1 + nat SID_SIZE"
definition TLS_CRYPT_OFF_TAG :: nat where "TLS_CRYPT_OFF_TAG = TLS_CRYPT_OFF_PID + TLS_CRYPT_PID_SIZE"
definition TLS_CRYPT_OFF_CT :: nat where "TLS_CRYPT_OFF_CT = TLS_CRYPT_OFF_TAG + TLS_CRYPT_TAG_SIZE"

lemmas tls_crypt_consts = TLS_CRYPT_TAG_SIZE_def TLS_CRYPT_PID_SIZE_def TLS_CRYPT_BLOCK_SIZE_def
  TLS_CRYPT_OFF_PID_def TLS_CRYPT_OFF_TAG_def TLS_CRYPT_OFF_CT_def SID_SIZE_def

definition tls_crypt_buf_overhead :: int where
  "tls_crypt_buf_overhead = packet_id_size True + int TLS_CRYPT_TAG_SIZE + int TLS_CRYPT_BLOCK_SIZE"

text \<open>
  The code hands the library the start of the content (\<open>BPTR\<close>) to write to, where the data
  channel hands it the end, and counts the bytes with \<open>buf_inc_len\<close>.
\<close>

definition buf_out_bptr :: "buffer \<Rightarrow> u8 list \<Rightarrow> buffer option" where
  "buf_out_bptr b bs = assert_ok (buf_inc_len (buf_poke b (nat (b_offset b)) bs) (int (length bs)))"

definition cipher_iv :: "('k, 's, 'h) crypto_api \<Rightarrow> 'k \<Rightarrow> u8 list \<Rightarrow> u8 list" where
  "cipher_iv api c tag = take (nat (cipher_ctx_iv_length api c)) tag"

definition tls_crypt_wrap ::
    "('k, 's, 'h) crypto_api \<Rightarrow> time_t \<Rightarrow> buffer \<Rightarrow> buffer \<Rightarrow> ('k, 'h) crypto_options
       \<Rightarrow> (bool \<times> buffer \<times> ('k, 'h) crypto_options) option" where
  "tls_crypt_wrap api now src dst opt =
     (let ctx = co_encrypt opt in
      do {
        c \<leftarrow> kc_cipher ctx;
        h \<leftarrow> kc_hmac ctx;
        assert_opt (packet_id_initialized (co_packet_id opt));
        assert_opt (hmac_ctx_size api h = 256 div 8);
        case packet_id_write now (pid_send (co_packet_id opt)) dst True False of
          (False, snd', dst1) \<Rightarrow> Some (False, drop_packet dst1, with_send opt snd')
        | (True, snd', dst1) \<Rightarrow>
            if \<not> buf_safe dst1 (size_of_int (buf_len src + int TLS_CRYPT_BLOCK_SIZE + int TLS_CRYPT_TAG_SIZE))
            then Some (False, drop_packet dst1, with_send opt snd')
            else (case buf_write_alloc dst1 TLS_CRYPT_TAG_SIZE of
                    (None, _) \<Rightarrow> None
                  | (Some tag_at, dst2) \<Rightarrow>
                      (let tag = hmac_ctx_compute api h (buf_bytes dst1 @ buf_bytes src);
                           dst3 = buf_poke dst2 tag_at tag
                       in do {
                         s0 \<leftarrow> cipher_ctx_reset api c (cipher_iv api c tag);
                         (s1, out1) \<leftarrow> cipher_ctx_update api s0 (buf_bytes src);
                         dst4 \<leftarrow> buf_out dst3 out1;
                         (s2, out2) \<leftarrow> cipher_ctx_final api s1;
                         dst5 \<leftarrow> buf_out_bptr dst4 out2;
                         Some (True, dst5, with_send opt snd')
                       }))
      })"

definition tls_crypt_unwrap ::
    "('k, 's, 'h) crypto_api \<Rightarrow> time_t \<Rightarrow> buffer \<Rightarrow> buffer \<Rightarrow> ('k, 'h) crypto_options
       \<Rightarrow> (bool \<times> buffer \<times> ('k, 'h) crypto_options) option" where
  "tls_crypt_unwrap api now src dst opt =
     (let ctx = co_decrypt opt; error_exit = (\<lambda>d. Some (False, drop_packet d, opt));
          tag = take TLS_CRYPT_TAG_SIZE (drop TLS_CRYPT_OFF_TAG (buf_bytes src)) in
      do {
        assert_opt (b_len src > 0);
        c \<leftarrow> kc_cipher ctx;
        assert_opt (packet_id_initialized (co_packet_id opt) \<or> co_ignore_packet_id opt);
        if buf_len src < int TLS_CRYPT_OFF_CT then error_exit dst
        else if \<not> buf_safe dst (size_of_int (buf_len src - int TLS_CRYPT_OFF_CT + int TLS_CRYPT_BLOCK_SIZE))
        then error_exit dst
        else case cipher_ctx_reset api c (cipher_iv api c (drop TLS_CRYPT_OFF_TAG (buf_bytes src))) of
          None \<Rightarrow> error_exit dst
        | Some s0 \<Rightarrow>
            (case cipher_ctx_update api s0 (drop TLS_CRYPT_OFF_CT (buf_bytes src)) of
               None \<Rightarrow> error_exit dst
             | Some (s1, out1) \<Rightarrow> do {
                 dst1 \<leftarrow> buf_out_bptr dst out1;
                 case cipher_ctx_final api s1 of
                   None \<Rightarrow> error_exit dst1
                 | Some (s2, out2) \<Rightarrow> do {
                     dst2 \<leftarrow> buf_out_bptr dst1 out2;
                     h \<leftarrow> kc_hmac ctx;
                     let tag_check = memput (replicate TLS_CRYPT_TAG_SIZE 0) 0
                           (hmac_ctx_compute api h (take TLS_CRYPT_OFF_TAG (buf_bytes src) @ buf_bytes dst2));
                     if tag \<noteq> tag_check then error_exit dst2
                     else if co_ignore_packet_id opt then Some (True, dst2, opt)
                     else do {
                       tmp \<leftarrow> assert_ok (buf_advance src (int TLS_CRYPT_OFF_PID));
                       case packet_id_read tmp True of
                         (False, _, _) \<Rightarrow> None
                       | (True, pin, _) \<Rightarrow> do {
                           (ok, st) \<leftarrow> crypto_check_replay now (co_long_form opt)
                                        (co_packet_id opt, co_pid_persist opt) pin;
                           Some (if ok then (True, dst2, with_replay opt st)
                                 else (False, drop_packet dst2, with_replay opt st))
                         }
                     }
                   }
               })
      })"

section \<open>Wrapped client keys\<close>

definition TLS_CRYPT_V2_MAX_WKC_LEN :: nat where "TLS_CRYPT_V2_MAX_WKC_LEN = 1024"
definition TLS_CRYPT_V2_CLIENT_KEY_LEN :: nat where "TLS_CRYPT_V2_CLIENT_KEY_LEN = 2048 div 8"
definition TLS_CRYPT_V2_TAG_SIZE :: nat where "TLS_CRYPT_V2_TAG_SIZE = TLS_CRYPT_TAG_SIZE"
definition TLS_CRYPT_V2_MAX_METADATA_LEN :: nat where
  "TLS_CRYPT_V2_MAX_METADATA_LEN =
     TLS_CRYPT_V2_MAX_WKC_LEN - (TLS_CRYPT_V2_CLIENT_KEY_LEN + TLS_CRYPT_V2_TAG_SIZE + 2)"

lemmas tls_crypt_v2_consts = TLS_CRYPT_V2_MAX_WKC_LEN_def TLS_CRYPT_V2_CLIENT_KEY_LEN_def
  TLS_CRYPT_V2_TAG_SIZE_def TLS_CRYPT_V2_MAX_METADATA_LEN_def

text \<open>
  A client key is the \<open>sizeof(key2.keys)\<close> bytes of the structure, its metadata a buffer. The
  result is the success and the buffer \<open>wkc\<close>.
\<close>

definition tls_crypt_v2_wrap_client_key ::
    "('k, 's, 'h) crypto_api \<Rightarrow> buffer \<Rightarrow> u8 list \<Rightarrow> buffer \<Rightarrow> ('k, 'h) key_ctx \<Rightarrow> (bool \<times> buffer) option" where
  "tls_crypt_v2_wrap_client_key api wkc src_keys src_metadata server_key =
     do {
       c \<leftarrow> kc_cipher server_key;
       work \<leftarrow> alloc_buf (TLS_CRYPT_V2_MAX_WKC_LEN + nat (cipher_ctx_block_size api c));
       case buf_write_alloc work TLS_CRYPT_TAG_SIZE of
         (None, _) \<Rightarrow> Some (False, wkc)
       | (Some tag_at, work1) \<Rightarrow> do {
           h \<leftarrow> kc_hmac server_key;
           let net_len = u16_bytes (word_of_int (int (length src_keys) + buf_len src_metadata + int TLS_CRYPT_V2_TAG_SIZE + 2));
           let tag = hmac_ctx_compute api h (net_len @ src_keys @ buf_bytes src_metadata);
           let work2 = buf_poke work1 tag_at tag;
           s0 \<leftarrow> cipher_ctx_reset api c (cipher_iv api c tag);
           if buf_forward_capacity work2
              < int (length src_keys) + buf_len src_metadata + 2 + cipher_ctx_block_size api c
           then Some (False, wkc)
           else do {
             (s1, out1) \<leftarrow> cipher_ctx_update api s0 src_keys;
             work3 \<leftarrow> buf_out work2 out1;
             (s2, out2) \<leftarrow> cipher_ctx_update api s1 (buf_bytes src_metadata);
             work4 \<leftarrow> buf_out work3 out2;
             (s3, out3) \<leftarrow> cipher_ctx_final api s2;
             work5 \<leftarrow> buf_out work4 out3;
             work6 \<leftarrow> assert_ok (buf_write work5 net_len);
             Some (buf_copy wkc work6)
           }
         }
     }"

text \<open>The result is the success, the client key and the metadata buffer.\<close>

definition tls_crypt_v2_unwrap_client_key ::
    "('k, 's, 'h) crypto_api \<Rightarrow> buffer \<Rightarrow> buffer \<Rightarrow> ('k, 'h) key_ctx \<Rightarrow> (bool \<times> u8 list \<times> buffer) option" where
  "tls_crypt_v2_unwrap_client_key api metadata wrapped server_key =
     (let zero = replicate TLS_CRYPT_V2_CLIENT_KEY_LEN 0; error_exit = Some (False, zero, metadata);
          tag = take TLS_CRYPT_TAG_SIZE (buf_bytes wrapped);
          net_len = drop (nat (buf_len wrapped) - 2) (buf_bytes wrapped) in
      if int TLS_CRYPT_V2_MAX_WKC_LEN < buf_len wrapped then error_exit
      else if buf_len wrapped < 2 then error_exit
      else if uint (u16_of_bytes net_len) \<noteq> buf_len wrapped then error_exit
      else (case buf_advance (snd (buf_inc_len wrapped (-2))) (int TLS_CRYPT_TAG_SIZE) of
              (False, _) \<Rightarrow> error_exit
            | (True, wrapped1) \<Rightarrow> do {
                c \<leftarrow> kc_cipher server_key;
                case cipher_ctx_reset api c (cipher_iv api c (buf_bytes wrapped)) of
                  None \<Rightarrow> error_exit
                | Some s0 \<Rightarrow> do {
                    plaintext \<leftarrow> buf_set_write clear_buf (Some (replicate TLS_CRYPT_V2_MAX_WKC_LEN 0)) (int TLS_CRYPT_V2_MAX_WKC_LEN);
                    case cipher_ctx_update api s0 (buf_bytes wrapped1) of
                      None \<Rightarrow> error_exit
                    | Some (s1, out1) \<Rightarrow> do {
                        plaintext1 \<leftarrow> buf_out plaintext out1;
                        case cipher_ctx_final api s1 of
                          None \<Rightarrow> error_exit
                        | Some (s2, out2) \<Rightarrow> do {
                            plaintext2 \<leftarrow> buf_out plaintext1 out2;
                            h \<leftarrow> kc_hmac server_key;
                            let tag_check = memput (replicate TLS_CRYPT_TAG_SIZE 0) 0
                                  (hmac_ctx_compute api h (net_len @ buf_bytes plaintext2));
                            if tag \<noteq> tag_check then error_exit
                            else if buf_len plaintext2 < int TLS_CRYPT_V2_CLIENT_KEY_LEN then error_exit
                            else do {
                              let key = take TLS_CRYPT_V2_CLIENT_KEY_LEN (buf_bytes plaintext2);
                              plaintext3 \<leftarrow> assert_ok (buf_advance plaintext2 (int TLS_CRYPT_V2_CLIENT_KEY_LEN));
                              case buf_copy metadata plaintext3 of
                                (False, m) \<Rightarrow> Some (False, zero, m)
                              | (True, m) \<Rightarrow> Some (True, key, m)
                            }
                          }
                      }
                  }
              }))"

text \<open>The keys of a renegotiation are mixed with the original ones: \<open>n\<close> and the bytes.\<close>

definition xor_key2 :: "nat \<times> u8 list \<Rightarrow> nat \<times> u8 list \<Rightarrow> (nat \<times> u8 list) option" where
  "xor_key2 key other =
     (if fst key = 2 \<and> fst other = 2 then Some (2, map2 (XOR) (snd key) (snd other)) else None)"

section \<open>The library in counter mode\<close>

text \<open>
  What the library documents of counter mode: the operation never fails on an IV of its length,
  an update returns as many bytes as it is given, and nothing is left for the final call. Two
  contexts with the same key undo each other.
\<close>

definition ctr_out :: "('k, 's, 'h) crypto_api \<Rightarrow> 'k \<Rightarrow> u8 list \<Rightarrow> u8 list \<Rightarrow> u8 list" where
  "ctr_out api c iv x =
     (case cipher_ctx_reset api c iv of
        None \<Rightarrow> []
      | Some s0 \<Rightarrow> (case cipher_ctx_update api s0 x of None \<Rightarrow> [] | Some (s1, y) \<Rightarrow> y))"

definition ctr_mode :: "('k, 's, 'h) crypto_api \<Rightarrow> 'k \<Rightarrow> bool" where
  "ctr_mode api c \<longleftrightarrow> 0 \<le> cipher_ctx_iv_length api c \<and> cipher_ctx_iv_length api c \<le> 32
     \<and> (\<forall>iv x. int (length iv) = cipher_ctx_iv_length api c \<longrightarrow>
          (\<exists>s0 s1 s2 y. cipher_ctx_reset api c iv = Some s0 \<and> cipher_ctx_update api s0 x = Some (s1, y)
             \<and> length y = length x \<and> cipher_ctx_final api s1 = Some (s2, [])))"

definition ctr_inverse :: "('k, 's, 'h) crypto_api \<Rightarrow> 'k \<Rightarrow> 'k \<Rightarrow> bool" where
  "ctr_inverse api ke kd \<longleftrightarrow> cipher_ctx_iv_length api kd = cipher_ctx_iv_length api ke
     \<and> (\<forall>iv x. int (length iv) = cipher_ctx_iv_length api ke \<longrightarrow> ctr_out api kd iv (ctr_out api ke iv x) = x)"

definition hmac256 :: "('k, 's, 'h) crypto_api \<Rightarrow> 'h \<Rightarrow> bool" where
  "hmac256 api h \<longleftrightarrow> hmac_ctx_size api h = 32 \<and> (\<forall>x. length (hmac_ctx_compute api h x) = 32)"

lemma ctr_modeE:
  assumes "ctr_mode api c" and "int (length iv) = cipher_ctx_iv_length api c"
  obtains s0 s1 s2 where "cipher_ctx_reset api c iv = Some s0" "cipher_ctx_update api s0 x = Some (s1, ctr_out api c iv x)"
    "length (ctr_out api c iv x) = length x" "cipher_ctx_final api s1 = Some (s2, [])"
proof -
  obtain s0 s1 s2 y where "cipher_ctx_reset api c iv = Some s0" "cipher_ctx_update api s0 x = Some (s1, y)"
    "length y = length x" "cipher_ctx_final api s1 = Some (s2, [])"
    using assms unfolding ctr_mode_def by blast
  then show thesis by (intro that [of s0 s1 s2]) (simp_all add: ctr_out_def)
qed

lemma cipher_iv_length:
  "ctr_mode api c \<Longrightarrow> 32 \<le> length tag \<Longrightarrow> int (length (cipher_iv api c tag)) = cipher_ctx_iv_length api c"
  by (auto simp: cipher_iv_def ctr_mode_def min_def)

lemma cipher_iv_head:
  "ctr_mode api c \<Longrightarrow> cipher_iv api c (take 32 tag) = cipher_iv api c tag"
  by (auto simp: cipher_iv_def ctr_mode_def min_def)

lemma buf_out_Nil: "buf_wf b \<Longrightarrow> buf_out b [] = Some b"
proof -
  assume wf: "buf_wf b"
  then have "buf_out b [] = Some (buf_push b [])" by (simp add: buf_out_ok buf_wf_facts)
  moreover have "buf_push b [] = b"
    by (cases b) (simp add: buf_push_def buf_poke_def option.map_id0 option.map_ident)
  ultimately show ?thesis by simp
qed

lemma buf_out_bptr_Nil: "buf_wf b \<Longrightarrow> buf_out_bptr b [] = Some b"
  by (auto elim!: buf_wfE simp: buf_out_bptr_def buf_poke_def buf_inc_len_def buf_safe_bidir_def buf_valid_def
      buf_size_valid_signed_def BUF_SIZE_MAX_def Let_def)

lemma buf_out_bptr_empty:
  assumes "buf_wf b" and "b_len b = 0" and "int (length bs) \<le> buf_tailroom b"
  shows "buf_out_bptr b bs = Some (buf_push b bs)"
  using assms by (auto elim!: buf_wfE simp: buf_out_bptr_def buf_push_def buf_poke_def buf_inc_len_def
      buf_safe_bidir_def buf_valid_def buf_size_valid_signed_def buf_tailroom_def BUF_SIZE_MAX_def Let_def)

section \<open>The wrapped packet\<close>

text \<open>The packet of a header, a packet id and a plaintext.\<close>

definition pid_bytes :: "packet_id_send \<Rightarrow> u8 list" where
  "pid_bytes p = u32_bytes (s_id p) @ u32_bytes (word_of_int (s_time p))"

lemma length_pid_bytes [simp]: "length (pid_bytes p) = 8"
  by (simp add: pid_bytes_def)

definition tls_crypt_packet ::
    "('k, 's, 'h) crypto_api \<Rightarrow> 'k \<Rightarrow> 'h \<Rightarrow> u8 list \<Rightarrow> u8 list \<Rightarrow> u8 list" where
  "tls_crypt_packet api c h ad p =
     (let tag = hmac_ctx_compute api h (ad @ p) in ad @ tag @ ctr_out api c (cipher_iv api c tag) p)"

lemma tls_crypt_wrap_ok:
  assumes wf: "buf_wf src" "buf_wf dst"
    and ctx: "kc_cipher (co_encrypt opt) = Some c" "kc_hmac (co_encrypt opt) = Some h"
      "packet_id_initialized (co_packet_id opt)" "ctr_mode api c" "hmac256 api h"
    and send: "packet_id_send_update now (pid_send (co_packet_id opt)) True = (True, send')"
    and room: "b_len src + 56 \<le> buf_tailroom dst"
  obtains w where "tls_crypt_wrap api now src dst opt = Some (True, w, with_send opt send')" "buf_wf w"
    "buf_bytes w = tls_crypt_packet api c h (buf_bytes dst @ pid_bytes send') (buf_bytes src)"
    "b_offset w = b_offset dst" "b_capacity w = b_capacity dst"
proof -
  let ?ad = "buf_bytes dst @ pid_bytes send'" and ?p = "buf_bytes src"
  let ?tag = "hmac_ctx_compute api h (?ad @ ?p)"
  let ?iv = "cipher_iv api c ?tag"
  have sl: "0 \<le> b_len src" "buf_len src = b_len src" using wf(1) by (simp_all add: buf_wf_facts)
  have tl: "length ?tag = 32" "hmac_ctx_size api h = 32" using ctx(5) by (simp_all add: hmac256_def)
  have p1: "length (u32_bytes (s_id send')) = 4" "length (u32_bytes (word_of_int (s_time send'))) = 4" by simp_all
  let ?d0 = "buf_push dst (u32_bytes (s_id send'))"
  let ?d1 = "buf_push ?d0 (u32_bytes (word_of_int (s_time send')))"
  have d1: "packet_id_write now (pid_send (co_packet_id opt)) dst True False = (True, send', ?d1)"
    "buf_wf ?d1" "buf_bytes ?d1 = ?ad" "buf_tailroom ?d1 = buf_tailroom dst - 8" "b_offset ?d1 = b_offset dst"
    "b_capacity ?d1 = b_capacity dst"
    using wf(2) room sl send by (simp_all add: packet_id_write_def Let_def buf_simps pid_bytes_def)
  obtain junk where junk: "length junk = 32"
    "buf_write_alloc ?d1 32 = (Some (nat (b_offset ?d1) + length (buf_bytes ?d1)), buf_push ?d1 junk)"
    using buf_write_alloc_ok [OF d1(2), of 32] d1(4) room sl(1) by auto
  let ?d2 = "buf_push ?d1 junk"
  have d2: "buf_wf ?d2" "buf_bytes ?d2 = ?ad @ junk" "buf_tailroom ?d2 = buf_tailroom dst - 40"
    using d1 junk(1) room sl(1) by (simp_all add: buf_simps)
  let ?d3 = "buf_set ?d2 (length ?ad) ?tag"
  have fit: "int (length ?ad + length ?tag) \<le> b_len ?d2"
    using length_buf_bytes_int [OF d2(1)] d2(2) junk(1) tl(1) by simp
  have d3: "buf_wf ?d3" "buf_bytes ?d3 = ?ad @ ?tag" "buf_tailroom ?d3 = buf_tailroom dst - 40"
    "b_offset ?d3 = b_offset dst" "b_capacity ?d3 = b_capacity dst"
    using buf_set_wf [OF d2(1) fit] buf_set_bytes [OF d2(1) fit] d2(2,3) junk(1) tl(1) d1(5)
      memput_append [of ?ad "length ?ad" ?tag junk "[]"]
    by (simp_all add: buf_set_def buf_poke_def buf_tailroom_def)
  have poke: "buf_poke ?d2 (nat (b_offset ?d1) + length (buf_bytes ?d1)) ?tag = ?d3"
    unfolding d1(3) by (simp add: buf_set_def)
  have safe: "buf_safe ?d1 (size_of_int (b_len src + int 16 + int 32))"
    using room d1(4) sl(1) buf_wf_facts(9,6,5,4) [OF wf(2)]
    by (subst buf_safe_iff [OF d1(2)]) (auto simp: buf_tailroom_def BUF_SIZE_MAX_def)
  have ivl: "int (length ?iv) = cipher_ctx_iv_length api c" by (rule cipher_iv_length [OF ctx(4)]) (use ctx(5) in \<open>simp add: hmac256_def\<close>)
  obtain s0 s1 s2 where lib: "cipher_ctx_reset api c ?iv = Some s0" "cipher_ctx_update api s0 ?p = Some (s1, ctr_out api c ?iv ?p)"
    "length (ctr_out api c ?iv ?p) = length ?p" "cipher_ctx_final api s1 = Some (s2, [])"
    by (rule ctr_modeE [OF ctx(4) ivl])
  let ?w = "buf_push ?d3 (ctr_out api c ?iv ?p)"
  have o: "int (length (ctr_out api c ?iv ?p)) \<le> buf_tailroom ?d3"
    using lib(3) d3(3) room length_buf_bytes_int [OF wf(1)] by simp
  have w: "buf_out ?d3 (ctr_out api c ?iv ?p) = Some ?w" "buf_wf ?w" "buf_bytes ?w = ?ad @ ?tag @ ctr_out api c ?iv ?p"
    using d3 o by (simp_all add: buf_simps)
  have asserts: "assert_opt (packet_id_initialized (co_packet_id opt)) = Some ()" "assert_opt (32 = (32 :: int)) = Some ()"
    using ctx(3) by simp_all
  have cst: "256 div 8 = (32 :: int)" "TLS_CRYPT_TAG_SIZE = 32" "TLS_CRYPT_BLOCK_SIZE = 16"
    by (simp_all add: tls_crypt_consts)
  have "tls_crypt_wrap api now src dst opt = Some (True, ?w, with_send opt send')"
    unfolding tls_crypt_wrap_def Let_def cst
    by (simp only: ctx(1,2) asserts assert_opt_Some tl(2) d1(1) safe junk(2) poke [unfolded d1(3)] d1(3) lib w(1) buf_out_bptr_Nil [OF w(2)] sl(2)
        Option.bind.bind_lunit case_prod_conv bool.case option.case simp_thms if_False)
  then show thesis
    by (rule that) (use w d3 in \<open>simp_all add: tls_crypt_packet_def Let_def\<close>)
qed

text \<open>The parts of an incoming packet: what is authenticated with it, its tag, id and plaintext.\<close>

definition crypt_ad :: "buffer \<Rightarrow> u8 list" where
  "crypt_ad src = take 17 (buf_bytes src)"

definition crypt_tag :: "buffer \<Rightarrow> u8 list" where
  "crypt_tag src = take 32 (drop 17 (buf_bytes src))"

definition crypt_plain :: "('k, 's, 'h) crypto_api \<Rightarrow> 'k \<Rightarrow> buffer \<Rightarrow> u8 list" where
  "crypt_plain api c src = ctr_out api c (cipher_iv api c (crypt_tag src)) (drop 49 (buf_bytes src))"

definition crypt_pin :: "buffer \<Rightarrow> packet_id_net" where
  "crypt_pin src = \<lparr>n_id = u32_of_bytes (take 4 (drop 9 (buf_bytes src))),
     n_time = uint (u32_of_bytes (take 4 (drop 13 (buf_bytes src))))\<rparr>"

definition crypt_authentic :: "('k, 's, 'h) crypto_api \<Rightarrow> 'k \<Rightarrow> 'h \<Rightarrow> buffer \<Rightarrow> bool" where
  "crypt_authentic api c h src \<longleftrightarrow> crypt_tag src = hmac_ctx_compute api h (crypt_ad src @ crypt_plain api c src)"

lemma tls_crypt_unwrap_cases:
  assumes wf: "buf_wf src" "buf_wf dst" and len: "0 < b_len src" "b_len dst = 0"
    and ctx: "kc_cipher (co_decrypt opt) = Some c" "kc_hmac (co_decrypt opt) = Some h"
      "packet_id_initialized (co_packet_id opt)" "\<not> co_ignore_packet_id opt" "ctr_mode api c" "hmac256 api h"
  obtains (dropped) d where "tls_crypt_unwrap api now src dst opt = Some (False, d, opt)" "b_len d = 0"
      "49 \<le> b_len src \<Longrightarrow> b_len src - 33 \<le> buf_tailroom dst \<Longrightarrow> \<not> crypt_authentic api c h src"
  | (opened) w d where "49 \<le> b_len src" "buf_wf w" "b_len d = 0" "crypt_authentic api c h src"
      "buf_bytes w = crypt_plain api c src" "b_offset w = b_offset dst"
      "tls_crypt_unwrap api now src dst opt =
         map_option (\<lambda>(ok, st). if ok then (True, w, with_replay opt st) else (False, d, with_replay opt st))
           (crypto_check_replay now (co_long_form opt) (co_packet_id opt, co_pid_persist opt) (crypt_pin src))"
proof -
  let ?D = "tls_crypt_unwrap api now src dst opt" and ?p = "crypt_plain api c src"
  have sl: "buf_len src = b_len src" using wf(1) by (simp add: buf_wf_facts)
  have asserts: "assert_opt (0 < b_len src) = Some ()"
    "assert_opt (packet_id_initialized (co_packet_id opt) \<or> co_ignore_packet_id opt) = Some ()"
    "assert_opt (packet_id_initialized (co_packet_id opt)) = Some ()"
    using len ctx(3) by simp_all
  have cst: "TLS_CRYPT_TAG_SIZE = 32" "TLS_CRYPT_BLOCK_SIZE = 16" "TLS_CRYPT_OFF_CT = 49" "TLS_CRYPT_OFF_TAG = 17"
    "TLS_CRYPT_OFF_PID = 9"
    by (simp_all add: tls_crypt_consts)
  note unf = tls_crypt_unwrap_def Let_def cst asserts ctx(1) sl Option.bind.bind_lunit
  show thesis
  proof (cases "b_len src < 49")
    case True
    show thesis by (rule dropped [of "drop_packet dst"]) (use True in \<open>simp_all add: unf\<close>)
  next
    case long: False
    have small: "0 \<le> b_len src - int 49 + int 16" "b_len src - int 49 + int 16 < 2 ^ 63"
      using long buf_wf_facts(5,6,9) [OF wf(1)] by (simp_all add: BUF_SIZE_MAX_def)
    note safe = buf_safe_iff [OF wf(2) small]
    show thesis
    proof (cases "b_len src - 33 \<le> buf_tailroom dst")
      case False
      show thesis by (rule dropped [of "drop_packet dst"]) (use long False safe in \<open>simp_all add: unf\<close>)
    next
      case room: True
      have bl: "int (length (buf_bytes src)) = b_len src" by (rule length_buf_bytes_int [OF wf(1)])
      then have tl: "length (crypt_tag src) = 32" using long by (simp add: crypt_tag_def)
      have ivl: "int (length (cipher_iv api c (crypt_tag src))) = cipher_ctx_iv_length api c"
        by (rule cipher_iv_length [OF ctx(5)]) (simp add: tl)
      have iv: "cipher_iv api c (drop 17 (buf_bytes src)) = cipher_iv api c (crypt_tag src)"
        by (simp add: crypt_tag_def cipher_iv_head [OF ctx(5)])
      obtain s0 s1 s2 where lib: "cipher_ctx_reset api c (cipher_iv api c (crypt_tag src)) = Some s0"
        "cipher_ctx_update api s0 (drop 49 (buf_bytes src)) = Some (s1, ?p)" "length ?p = length (drop 49 (buf_bytes src))"
        "cipher_ctx_final api s1 = Some (s2, [])"
        unfolding crypt_plain_def by (rule ctr_modeE [OF ctx(5) ivl])
      let ?w = "buf_push dst ?p"
      have o: "int (length ?p) \<le> buf_tailroom dst" using lib(3) bl room long by simp
      have "buf_bytes dst = []" using length_buf_bytes [OF wf(2)] len(2) by simp
      then have w: "buf_out_bptr dst ?p = Some ?w" "buf_wf ?w" "buf_bytes ?w = ?p"
        using buf_out_bptr_empty [OF wf(2) len(2) o] wf(2) o len(2)
        by (simp_all add: buf_simps)
      let ?tag = "hmac_ctx_compute api h (take 17 (buf_bytes src) @ ?p)"
      have hl: "length ?tag = 32" using ctx(6) by (simp add: hmac256_def)
      have tc: "memput (replicate 32 0) 0 ?tag = ?tag" using hl by (simp add: memput_def)
      have auth: "crypt_authentic api c h src \<longleftrightarrow> take 32 (drop 17 (buf_bytes src)) = ?tag"
        by (simp add: crypt_authentic_def crypt_tag_def crypt_ad_def)
      have safe': "buf_safe dst (size_of_int (b_len src - int 49 + int 16))" "\<not> b_len src < int 49"
        using safe room long by simp_all
      note pre = unf safe' iv lib w(1) buf_out_bptr_Nil [OF w(2)] ctx(2) w(3) tc ctx(4)
        option.case case_prod_conv bool.case if_True if_False simp_thms
      show thesis
      proof (cases "crypt_authentic api c h src")
        case False
        then have "?D = Some (False, drop_packet ?w, opt)" unfolding auth by (simp only: pre)
        then show thesis by (rule dropped) (use False in simp_all)
      next
        case True
        let ?t = "buf_skip src 9"
        have adv: "assert_ok (buf_advance src (int 9)) = Some ?t" using wf(1) long by (simp add: buf_advance_eq)
        have t: "buf_wf ?t" "buf_bytes ?t = drop 9 (buf_bytes src)" "b_len ?t = b_len src - 9"
          using wf(1) long by (simp_all add: buf_skip_wf buf_skip_bytes)
        have t4: "buf_wf (buf_skip ?t 4)" "buf_bytes (buf_skip ?t 4) = drop 13 (buf_bytes src)"
          using t long by (simp_all add: buf_skip_wf buf_skip_bytes)
        have rd: "packet_id_read ?t True = (True, crypt_pin src, buf_skip (buf_skip ?t 4) 4)"
          using t t4 long by (simp add: packet_id_read_def buf_read_eq Let_def crypt_pin_def)
        have "?D = map_option (\<lambda>(ok, st). if ok then (True, ?w, with_replay opt st)
              else (False, drop_packet ?w, with_replay opt st))
            (crypto_check_replay now (co_long_form opt) (co_packet_id opt, co_pid_persist opt) (crypt_pin src))"
          using True unfolding auth
          by (simp only: pre adv rd) (rule bind_Some_map)
        then show thesis
          using long w(2,3) True by (intro opened [of ?w "drop_packet ?w"]) simp_all
      qed
    qed
  qed
qed

section \<open>Accepting packets\<close>

definition crypt_receiver :: "('k, 's, 'h) crypto_api \<Rightarrow> 'k \<Rightarrow> 'h \<Rightarrow> ('k, 'h) crypto_options \<Rightarrow> bool" where
  "crypt_receiver api c h opt \<longleftrightarrow> kc_cipher (co_decrypt opt) = Some c \<and> kc_hmac (co_decrypt opt) = Some h
     \<and> packet_id_initialized (co_packet_id opt) \<and> \<not> co_ignore_packet_id opt"

definition crypt_input_ok :: "time_t \<times> buffer \<times> buffer \<Rightarrow> bool" where
  "crypt_input_ok e = (case e of (now, src, dst) \<Rightarrow>
     1 < now \<and> buf_wf src \<and> 0 < b_len src \<and> buf_wf dst \<and> b_len dst = 0)"

definition crypt_check ::
    "('k, 's, 'h) crypto_api \<Rightarrow> time_t \<times> buffer \<times> buffer \<Rightarrow> ('k, 'h) crypto_options \<Rightarrow> (bool \<times> ('k, 'h) crypto_options) option" where
  "crypt_check api e opt = (case e of (now, src, dst) \<Rightarrow>
     map_option (\<lambda>(ok, b, opt'). (ok, opt')) (tls_crypt_unwrap api now src dst opt))"

definition crypt_key :: "time_t \<times> buffer \<times> buffer \<Rightarrow> time_t \<times> nat" where
  "crypt_key e = (case e of (now, src, dst) \<Rightarrow> pid_key (crypt_pin src))"

definition crypt_inv ::
    "('k, 's, 'h) crypto_api \<Rightarrow> 'k \<Rightarrow> 'h \<Rightarrow> ('k, 'h) crypto_options \<Rightarrow> (time_t \<times> nat) set \<Rightarrow> bool" where
  "crypt_inv api c h opt A \<longleftrightarrow> crypt_receiver api c h opt \<and> ctr_mode api c \<and> hmac256 api h
     \<and> (udp_inv (co_packet_id opt, co_pid_persist opt) A \<or> tcp_inv (co_packet_id opt, co_pid_persist opt) A)"

lemma crypt_replay_step:
  assumes "crypt_inv api c h opt A" and "1 < now"
  shows "\<exists>ok st. crypto_check_replay now (co_long_form opt) (co_packet_id opt, co_pid_persist opt) pin = Some (ok, st)
    \<and> (ok \<longrightarrow> pid_key pin \<notin> A) \<and> crypt_inv api c h (with_replay opt st) (if ok then insert (pid_key pin) A else A)"
proof -
  let ?A = "\<lambda>ok. if ok then insert (pid_key pin) A else A"
  obtain ok st where st: "crypto_check_replay now (co_long_form opt) (co_packet_id opt, co_pid_persist opt) pin = Some (ok, st)"
    "ok \<longrightarrow> pid_key pin \<notin> A" "udp_inv st (?A ok) \<or> tcp_inv st (?A ok)"
    using assms udp_check_step [OF _ assms(2)] tcp_check_step unfolding crypt_inv_def by blast
  have "crypt_inv api c h (with_replay opt st) (?A ok)"
    using assms(1) st(3) udp_tcp_initialized [OF st(3)]
    by (simp add: crypt_inv_def crypt_receiver_def) (simp add: with_replay_def)
  with st(1,2) show ?thesis by blast
qed

lemma crypt_check_step:
  assumes "crypt_inv api c h opt A" and "crypt_input_ok e"
  shows "\<exists>ok opt'. crypt_check api e opt = Some (ok, opt') \<and> (ok \<longrightarrow> crypt_key e \<notin> A)
    \<and> crypt_inv api c h opt' (if ok then insert (crypt_key e) A else A)"
proof -
  obtain now src dst where ee: "e = (now, src, dst)" by (metis prod_cases3)
  have e: "1 < now" "buf_wf src" "buf_wf dst" "0 < b_len src" "b_len dst = 0"
    using assms(2) by (simp_all add: crypt_input_ok_def ee)
  have r: "kc_cipher (co_decrypt opt) = Some c" "kc_hmac (co_decrypt opt) = Some h" "packet_id_initialized (co_packet_id opt)"
    "\<not> co_ignore_packet_id opt" "ctr_mode api c" "hmac256 api h"
    using assms(1) by (simp_all add: crypt_inv_def crypt_receiver_def)
  show ?thesis
  proof (rule tls_crypt_unwrap_cases [OF e(2-5) r, of now])
    fix d assume "tls_crypt_unwrap api now src dst opt = Some (False, d, opt)"
    then show ?thesis using assms(1) by (intro exI [of _ False]) (simp add: crypt_check_def ee)
  next
    fix w d
    assume u: "tls_crypt_unwrap api now src dst opt =
      map_option (\<lambda>(ok, st). if ok then (True, w, with_replay opt st) else (False, d, with_replay opt st))
        (crypto_check_replay now (co_long_form opt) (co_packet_id opt, co_pid_persist opt) (crypt_pin src))"
    obtain ok st where "crypto_check_replay now (co_long_form opt) (co_packet_id opt, co_pid_persist opt) (crypt_pin src)
        = Some (ok, st)" "ok \<longrightarrow> pid_key (crypt_pin src) \<notin> A"
      "crypt_inv api c h (with_replay opt st) (if ok then insert (pid_key (crypt_pin src)) A else A)"
      using crypt_replay_step [OF assms(1) e(1)] by blast
    with u show ?thesis
      by (intro exI [of _ ok] exI [of _ "with_replay opt st"]) (cases ok; simp add: crypt_check_def crypt_key_def ee)
  qed
qed

interpretation crypt: replay_guard "crypt_inv api c h" crypt_input_ok "crypt_check api" crypt_key
  for api c h
  by unfold_locales (rule crypt_check_step)

section \<open>Wrapped client keys: the round trip\<close>

text \<open>An operation in counter mode may be split: the parts of the output concatenate.\<close>

definition ctr_split :: "('k, 's, 'h) crypto_api \<Rightarrow> 'k \<Rightarrow> bool" where
  "ctr_split api c \<longleftrightarrow> (\<forall>iv x y s0. cipher_ctx_reset api c iv = Some s0 \<longrightarrow>
     (\<exists>s1 s2 s3. cipher_ctx_update api s0 x = Some (s1, take (length x) (ctr_out api c iv (x @ y)))
        \<and> cipher_ctx_update api s1 y = Some (s2, drop (length x) (ctr_out api c iv (x @ y)))
        \<and> cipher_ctx_final api s2 = Some (s3, [])))"

definition wrapped_key :: "('k, 's, 'h) crypto_api \<Rightarrow> 'k \<Rightarrow> 'h \<Rightarrow> u8 list \<Rightarrow> u8 list" where
  "wrapped_key api c h x =
     (let net_len = u16_bytes (word_of_nat (length x + 34)); tag = hmac_ctx_compute api h (net_len @ x)
      in tag @ ctr_out api c (cipher_iv api c tag) x @ net_len)"

lemma alloc_buf_ok:
  assumes "n < BUF_SIZE_MAX"
  obtains b where "alloc_buf n = Some b" "buf_wf b" "buf_bytes b = []" "buf_tailroom b = int n" "b_offset b = 0"
    "b_len b = 0" "b_capacity b = int n"
  using assms by (intro that [of "the (alloc_buf n)"])
    (auto simp: alloc_buf_def buf_size_valid_def buf_wf_def buf_bytes_def buf_len_def buf_tailroom_def)

lemma wrap_client_key_ok:
  assumes keys: "length keys = 256" and wf: "buf_wf meta" "b_len meta \<le> 734" "buf_wf wkc" "b_len meta + 290 \<le> buf_tailroom wkc"
    and ctx: "kc_cipher server_key = Some c" "kc_hmac server_key = Some h" "ctr_mode api c" "ctr_split api c" "hmac256 api h"
      "0 \<le> cipher_ctx_block_size api c" "cipher_ctx_block_size api c < 1000"
  shows "tls_crypt_v2_wrap_client_key api wkc keys meta server_key
    = Some (True, buf_push wkc (wrapped_key api c h (keys @ buf_bytes meta)))"
proof -
  let ?x = "keys @ buf_bytes meta" and ?bs = "cipher_ctx_block_size api c"
  let ?net = "u16_bytes (word_of_nat (length ?x + 34))"
  let ?tag = "hmac_ctx_compute api h (?net @ ?x)"
  let ?iv = "cipher_iv api c ?tag" and ?y = "ctr_out api c (cipher_iv api c ?tag) ?x"
  have ml: "int (length (buf_bytes meta)) = b_len meta" "0 \<le> b_len meta" "buf_len meta = b_len meta"
    using wf(1) length_buf_bytes_int by (simp_all add: buf_wf_facts)
  have "int (length keys) + b_len meta + int 32 + 2 = int (length ?x + 34)" using keys ml(1) by simp
  then have net: "u16_bytes (word_of_int (int (length keys) + b_len meta + int 32 + 2)) = ?net"
    by (simp only: of_int_of_nat_eq)
  have tl: "length ?tag = 32" using ctx(5) by (simp only: hmac256_def)
  have cst: "TLS_CRYPT_TAG_SIZE = 32" "TLS_CRYPT_V2_TAG_SIZE = 32" "TLS_CRYPT_V2_MAX_WKC_LEN = 1024"
    by (simp_all add: tls_crypt_consts tls_crypt_v2_consts)
  have "1024 + nat ?bs < BUF_SIZE_MAX" using ctx(6,7) by (simp add: BUF_SIZE_MAX_def nat_less_iff)
  then obtain work where work: "alloc_buf (1024 + nat ?bs) = Some work" "buf_wf work" "buf_bytes work = []"
    "buf_tailroom work = int (1024 + nat ?bs)" "b_offset work = 0" "b_len work = 0" "b_capacity work = int (1024 + nat ?bs)"
    by (rule alloc_buf_ok)
  obtain junk where junk: "length junk = 32" "buf_write_alloc work 32 = (Some 0, buf_push work junk)"
    using buf_write_alloc_ok [OF work(2), of 32] work(3-5) by auto
  let ?w1 = "buf_push work junk"
  have w1: "buf_wf ?w1" "buf_bytes ?w1 = junk" "buf_tailroom ?w1 = 992 + ?bs" "b_len ?w1 = 32"
    using work junk(1) ctx(6) by (simp_all add: buf_simps)
  let ?w2 = "buf_set ?w1 0 ?tag"
  have fit: "int (0 + length ?tag) \<le> b_len ?w1" using w1(4) tl by simp
  have w2: "buf_wf ?w2" "buf_bytes ?w2 = ?tag" "buf_tailroom ?w2 = 992 + ?bs"
    using buf_set_wf [OF w1(1) fit] buf_set_bytes [OF w1(1) fit] w1(2,3) junk(1) tl
    by (simp_all add: buf_set_def buf_poke_def buf_tailroom_def memput_def)
  have poke: "buf_poke ?w1 0 ?tag = ?w2" using work(5) by (simp add: buf_set_def)
  have ivl: "int (length ?iv) = cipher_ctx_iv_length api c"
    by (rule cipher_iv_length [OF ctx(3)]) (simp only: tl order_refl)
  obtain s0 where s0: "cipher_ctx_reset api c ?iv = Some s0" and yl: "length ?y = length ?x"
    by (rule ctr_modeE [OF ctx(3) ivl, where x = ?x])
  let ?y1 = "take 256 ?y" and ?y2 = "drop 256 ?y"
  obtain s1 s2 s3 where lib: "cipher_ctx_update api s0 keys = Some (s1, ?y1)"
    "cipher_ctx_update api s1 (buf_bytes meta) = Some (s2, ?y2)" "cipher_ctx_final api s2 = Some (s3, [])"
    using ctx(4) [unfolded ctr_split_def, rule_format, OF s0, of keys "buf_bytes meta"] keys by auto
  have yl': "length ?y1 = 256" "int (length ?y2) = b_len meta" using yl keys ml(1) by simp_all
  have cap: "\<not> buf_forward_capacity ?w2 < int (length keys) + b_len meta + 2 + ?bs"
    using w2(1,3) keys wf(2) ctx(6) buf_wf_facts(1) [OF w2(1)]
    by (simp add: buf_forward_capacity_def Let_def buf_tailroom_def)
  let ?w3 = "buf_push ?w2 ?y1" and ?w4 = "buf_push (buf_push ?w2 ?y1) ?y2"
  have w3: "buf_out ?w2 ?y1 = Some ?w3" "buf_wf ?w3" "buf_bytes ?w3 = ?tag @ ?y1" "buf_tailroom ?w3 = 736 + ?bs"
    using w2 yl'(1) ctx(6) by (simp_all add: buf_simps)
  have w4: "buf_out ?w3 ?y2 = Some ?w4" "buf_wf ?w4" "buf_bytes ?w4 = ?tag @ ?y" "2 \<le> buf_tailroom ?w4"
    using w3 yl'(2) wf(2) ctx(6) by (simp_all add: buf_simps)
  let ?w6 = "buf_push ?w4 ?net"
  have w6: "assert_ok (buf_write ?w4 ?net) = Some ?w6" "buf_bytes ?w6 = wrapped_key api c h ?x"
    using w4 by (simp_all add: buf_simps wrapped_key_def Let_def)
  have "int (length (wrapped_key api c h ?x)) \<le> buf_tailroom wkc"
    using yl keys ml(1) tl wf(4) by (simp add: wrapped_key_def Let_def)
  then have cp: "buf_copy wkc ?w6 = (True, buf_push wkc (wrapped_key api c h ?x))"
    using wf(3) w6(2) by (simp add: buf_copy_def buf_write_eq)
  show ?thesis
    unfolding tls_crypt_v2_wrap_client_key_def Let_def cst
    by (simp only: ctx(1,2) work(1) junk(2) ml(3) net poke s0 cap lib w3(1) w4(1) buf_out_Nil [OF w4(2)] w6(1) cp
        Option.bind.bind_lunit case_prod_conv option.case if_False)
qed

lemma wrapped_key_length:
  assumes "ctr_mode api c" and "hmac256 api h"
  shows "length (wrapped_key api c h x) = length x + 34"
proof -
  let ?tag = "hmac_ctx_compute api h (u16_bytes (word_of_nat (length x + 34)) @ x)"
  have "int (length (cipher_iv api c ?tag)) = cipher_ctx_iv_length api c"
    by (rule cipher_iv_length [OF assms(1)]) (use assms(2) in \<open>simp add: hmac256_def\<close>)
  then have "length (ctr_out api c (cipher_iv api c ?tag) x) = length x"
    by (rule ctr_modeE [OF assms(1)])
  then show ?thesis using assms(2) by (simp add: wrapped_key_def Let_def hmac256_def)
qed

lemma uint_u16_of_nat: "n < 65536 \<Longrightarrow> uint (word_of_nat n :: u16) = int n"
  by (simp add: unsigned_of_nat take_bit_eq_mod)

lemma unwrap_client_key_ok:
  assumes x: "x = keys @ meta" "length keys = 256" "length meta \<le> 734"
    and wrapped: "buf_wf b" "buf_bytes b = wrapped_key api ce h x"
    and metadata: "buf_wf m" "int (length meta) \<le> buf_tailroom m"
    and ctx: "kc_cipher server_key = Some c" "kc_hmac server_key = Some h" "ctr_mode api c" "ctr_mode api ce" "hmac256 api h"
      "ctr_inverse api ce c"
  shows "tls_crypt_v2_unwrap_client_key api m b server_key = Some (True, keys, buf_push m meta)"
proof -
  let ?net = "u16_bytes (word_of_nat (length x + 34))"
  let ?tag = "hmac_ctx_compute api h (?net @ x)"
  let ?iv = "cipher_iv api ce ?tag" and ?y = "ctr_out api ce (cipher_iv api ce ?tag) x"
  have tl: "length ?tag = 32" using ctx(5) by (simp only: hmac256_def)
  have bb: "buf_bytes b = ?tag @ ?y @ ?net" using wrapped(2) by (simp add: wrapped_key_def Let_def)
  have xl: "length x \<le> 990" using x by simp
  have bl: "b_len b = int (length x) + 34" "buf_len b = int (length x) + 34"
    using length_buf_bytes_int [OF wrapped(1)] wrapped(2) wrapped_key_length [OF ctx(4,5), of x] buf_wf_facts(3) [OF wrapped(1)]
    by simp_all
  have yl: "length ?y = length x" using arg_cong [OF bb, of length] wrapped(2) wrapped_key_length [OF ctx(4,5), of x] tl by simp
  have ivc: "cipher_ctx_iv_length api c = cipher_ctx_iv_length api ce" using ctx(6) by (simp add: ctr_inverse_def)
  have ive: "int (length ?iv) = cipher_ctx_iv_length api ce" by (rule cipher_iv_length [OF ctx(4)]) (simp only: tl order_refl)
  have iv: "cipher_iv api c (buf_bytes b) = ?iv"
    using ctx(4) tl by (auto simp: bb cipher_iv_def ivc ctr_mode_def)
  have net: "drop (nat (int (length x) + 34) - 2) (buf_bytes b) = ?net" using yl tl by (simp add: bb nat_add_distrib)
  have "uint (u16_of_bytes ?net) = int (length x + 34)"
    unfolding u16_bytes_inverse using xl by (intro uint_u16_of_nat) simp
  then have nv: "uint (u16_of_bytes ?net) = int (length x) + 34" by simp
  have tag: "take 32 (buf_bytes b) = ?tag" using tl by (simp add: bb)
  let ?b1 = "b\<lparr>b_len := b_len b + -2\<rparr>"
  have b1: "snd (buf_inc_len b (-2)) = ?b1" "buf_wf ?b1" "buf_bytes ?b1 = ?tag @ ?y" "b_len ?b1 = int (length x) + 32"
  proof -
    show "snd (buf_inc_len b (-2)) = ?b1"
      using wrapped(1) bl by (auto elim!: buf_wfE simp: buf_inc_len_def buf_safe_bidir_def buf_valid_def
          buf_size_valid_signed_def BUF_SIZE_MAX_def Let_def)
    show wf: "buf_wf ?b1" using wrapped(1) bl by (auto simp: buf_wf_def split: option.splits)
    have "buf_bytes ?b1 = take (nat (b_len b) - 2) (buf_bytes b)"
      using wf wrapped(1) bl by (auto elim!: buf_wfE simp: buf_bytes_def buf_len_def buf_valid_def buf_mem_def memget_take min_def
          nat_add_distrib nat_diff_distrib)
    then show "buf_bytes ?b1 = ?tag @ ?y" using bl yl tl by (simp add: bb nat_add_distrib)
  qed (simp add: bl)
  let ?b2 = "buf_skip ?b1 32"
  have b2: "buf_advance ?b1 (int 32) = (True, ?b2)" "buf_bytes ?b2 = ?y"
    using b1(2-4) tl by (simp_all add: buf_advance_eq buf_skip_bytes)
  have ivd: "int (length ?iv) = cipher_ctx_iv_length api c" using ive ivc by simp
  obtain s0 s1 s2 where lib: "cipher_ctx_reset api c ?iv = Some s0" "cipher_ctx_update api s0 ?y = Some (s1, ctr_out api c ?iv ?y)"
    "cipher_ctx_final api s1 = Some (s2, [])"
    by (rule ctr_modeE [OF ctx(3) ivd, where x = ?y])
  have "ctr_out api c ?iv ?y = x" using ctx(6) ive by (simp add: ctr_inverse_def)
  note lib = lib [unfolded this]
  let ?p0 = "clear_buf\<lparr>b_len := 0, b_offset := 0, b_capacity := 1024, b_data := Some (memput (replicate 1024 0) 0 [0])\<rparr>"
  have p0: "buf_set_write clear_buf (Some (replicate 1024 0)) (int 1024) = Some ?p0"
    by (simp add: buf_set_write_def buf_size_valid_def BUF_SIZE_MAX_def)
  have p0wf: "buf_wf ?p0" "buf_bytes ?p0 = []" "buf_tailroom ?p0 = 1024"
    by (simp_all add: buf_wf_def BUF_SIZE_MAX_def buf_bytes_def buf_len_def buf_tailroom_def)
  let ?p1 = "buf_push ?p0 x"
  have p1: "buf_out ?p0 x = Some ?p1" "buf_wf ?p1" "buf_bytes ?p1 = x"
    using p0wf xl by (simp_all add: buf_simps)
  have p2l: "buf_len ?p1 = int (length x)" using length_buf_bytes_int [OF p1(2)] p1(3) buf_wf_facts(3) [OF p1(2)] by simp
  have adv: "assert_ok (buf_advance ?p1 (int 256)) = Some (buf_skip ?p1 256)" "buf_bytes (buf_skip ?p1 256) = meta"
    using p1 p2l buf_wf_facts(3) [OF p1(2)] x by (simp_all add: buf_advance_eq buf_skip_bytes)
  have cp: "buf_copy m (buf_skip ?p1 256) = (True, buf_push m meta)"
    using metadata adv(2) by (simp add: buf_copy_def buf_write_eq)
  have tc: "memput (replicate 32 0) 0 ?tag = ?tag" using tl by (simp add: memput_def)
  have conds: "\<not> int 1024 < int (length x) + 34" "\<not> int (length x) + 34 < 2" "\<not> int (length x) < int 256" "take 256 x = keys"
    using xl x by simp_all
  have cst: "TLS_CRYPT_TAG_SIZE = 32" "TLS_CRYPT_V2_CLIENT_KEY_LEN = 256" "TLS_CRYPT_V2_MAX_WKC_LEN = 1024"
    by (simp_all add: tls_crypt_consts tls_crypt_v2_consts)
  show ?thesis
    unfolding tls_crypt_v2_unwrap_client_key_def Let_def cst
    by (simp only: bl(2) net nv tag b1(1) b2 ctx(1,2) iv lib p0 p1(1,3) buf_out_Nil [OF p1(2)] p2l adv(1) cp tc conds
        Option.bind.bind_lunit case_prod_conv bool.case option.case if_False simp_thms)
qed

section \<open>Properties\<close>

text \<open>
  A control packet that tls-crypt lets through is authentic and fresh: its tag is the HMAC of
  its header, packet id and the plaintext returned, and the replay check accepted its packet id.
  A rejected packet yields an empty buffer, and unless its tag is valid it leaves the state of
  the receiver as it was, so that forged packets cannot move the replay window.
\<close>

theorem tls_crypt_unwrap_authentic:
  assumes "crypt_input_ok (now, src, dst)" and "crypt_receiver api c h opt" and "ctr_mode api c" and "hmac256 api h"
    and res: "tls_crypt_unwrap api now src dst opt = Some (ok, b, opt')"
    and check: "chk = crypto_check_replay now (co_long_form opt) (co_packet_id opt, co_pid_persist opt) (crypt_pin src)"
  shows "if ok then crypt_tag src = hmac_ctx_compute api h (crypt_ad src @ buf_bytes b)
           \<and> (\<exists>st. chk = Some (True, st) \<and> opt' = with_replay opt st)
         else b_len b = 0 \<and> (opt' = opt \<or> crypt_authentic api c h src
           \<and> (\<exists>st. chk = Some (False, st) \<and> opt' = with_replay opt st))"
proof -
  have e: "buf_wf src" "buf_wf dst" "0 < b_len src" "b_len dst = 0" using assms(1) by (simp_all add: crypt_input_ok_def)
  have r: "kc_cipher (co_decrypt opt) = Some c" "kc_hmac (co_decrypt opt) = Some h" "packet_id_initialized (co_packet_id opt)"
    "\<not> co_ignore_packet_id opt" using assms(2) by (simp_all add: crypt_receiver_def)
  show ?thesis
  proof (rule tls_crypt_unwrap_cases [OF e r assms(3,4), of now])
    fix d assume "tls_crypt_unwrap api now src dst opt = Some (False, d, opt)" "b_len d = 0"
    then show ?thesis using res by simp
  next
    fix w d
    assume o: "b_len d = 0" "crypt_authentic api c h src" "buf_bytes w = crypt_plain api c src"
      "tls_crypt_unwrap api now src dst opt =
        map_option (\<lambda>(ok, st). if ok then (True, w, with_replay opt st) else (False, d, with_replay opt st))
          (crypto_check_replay now (co_long_form opt) (co_packet_id opt, co_pid_persist opt) (crypt_pin src))"
    from res have "map_option (\<lambda>(ok, st). if ok then (True, w, with_replay opt st) else (False, d, with_replay opt st)) chk
        = Some (ok, b, opt')" unfolding o(4) check .
    then obtain st where "chk = Some (ok, st)" "(ok, b, opt') = (if ok then (True, w, with_replay opt st)
        else (False, d, with_replay opt st))"
      by (cases chk) (auto split: if_splits)
    then show ?thesis using o(1-3) by (auto simp: crypt_authentic_def split: if_splits)
  qed
qed


text \<open>
  C33: A client key the server wrapped is unwrapped to the same key and metadata by any server
  with the same server key, for every metadata up to the documented limit.
\<close>

theorem tls_crypt_v2_client_key_roundtrip:
  assumes "length keys = 256" and "buf_wf meta" "b_len meta \<le> int TLS_CRYPT_V2_MAX_METADATA_LEN"
    and wkc: "buf_wf wkc" "buf_bytes wkc = []" "int TLS_CRYPT_V2_MAX_WKC_LEN \<le> buf_tailroom wkc"
    and server: "kc_cipher ske = Some ce" "kc_hmac ske = Some h" "kc_cipher skd = Some cd" "kc_hmac skd = Some h"
    and library: "ctr_mode api ce" "ctr_mode api cd" "ctr_split api ce" "ctr_inverse api ce cd" "hmac256 api h"
      "0 \<le> cipher_ctx_block_size api ce" "cipher_ctx_block_size api ce < 1000"
    and metadata: "alloc_buf TLS_CRYPT_V2_MAX_METADATA_LEN = Some m"
  shows "\<exists>w m'. tls_crypt_v2_wrap_client_key api wkc keys meta ske = Some (True, w)
    \<and> tls_crypt_v2_unwrap_client_key api m w skd = Some (True, keys, m') \<and> buf_bytes m' = buf_bytes meta"
proof -
  have ml: "b_len meta \<le> 734" "length (buf_bytes meta) \<le> 734" "1024 \<le> buf_tailroom wkc"
    using assms(3) length_buf_bytes_int [OF assms(2)] wkc(3) by (simp_all add: tls_crypt_v2_consts tls_crypt_consts)
  have room: "b_len meta + 290 \<le> buf_tailroom wkc" using ml by simp
  let ?x = "keys @ buf_bytes meta"
  let ?w = "buf_push wkc (wrapped_key api ce h ?x)"
  have "length (wrapped_key api ce h ?x) \<le> 1024"
    using wrapped_key_length [OF library(1,5)] assms(1) ml(2) by simp
  then have w: "buf_wf ?w" "buf_bytes ?w = wrapped_key api ce h ?x" using wkc ml(3) by (simp_all add: buf_simps)
  obtain m0 where "alloc_buf 734 = Some m0" "buf_wf m0" "buf_bytes m0 = []" "buf_tailroom m0 = int 734"
    by (rule alloc_buf_ok [of 734]) (simp add: BUF_SIZE_MAX_def)
  then have m: "buf_wf m" "buf_bytes m = []" "int (length (buf_bytes meta)) \<le> buf_tailroom m"
    using metadata ml(2) by (simp_all add: tls_crypt_v2_consts tls_crypt_consts)
  have "tls_crypt_v2_unwrap_client_key api m ?w skd = Some (True, keys, buf_push m (buf_bytes meta))"
    by (rule unwrap_client_key_ok [OF refl assms(1) ml(2) w m(1,3) server(3,4) library(2,1,5,4)])
  moreover have "buf_bytes (buf_push m (buf_bytes meta)) = buf_bytes meta" using m by (simp add: buf_simps)
  ultimately show ?thesis
    using wrap_client_key_ok [OF assms(1,2) ml(1) wkc(1) room server(1,2) library(1,3,5-7)] by blast
qed

section \<open>Witnesses\<close>

text \<open>A stand-in for the library: the cipher adds a byte modulo 2, the HMAC repeats a sum.\<close>

definition demo_ctr :: "(u8, u8, u8) crypto_api" where
  "demo_ctr = \<lparr>cipher_ctx_iv_length = (\<lambda>_. 16), cipher_ctx_block_size = (\<lambda>_. 16), ctx_mode_aead = (\<lambda>_. False),
     ctx_mode_cbc = (\<lambda>_. False), ctx_mode_ofb_cfb = (\<lambda>_. False),
     cipher_ctx_reset = (\<lambda>k iv. Some k), cipher_ctx_update_ad = (\<lambda>s ad. None),
     cipher_ctx_update = (\<lambda>s x. Some (s, map (\<lambda>b. b XOR s) x)), cipher_ctx_final = (\<lambda>s. Some (s, [])),
     cipher_ctx_get_tag = (\<lambda>s n. None), cipher_ctx_final_check_tag = (\<lambda>s t. None),
     hmac_ctx_size = (\<lambda>_. 32), hmac_ctx_compute = (\<lambda>k x. replicate 32 (k + sum_list x))\<rparr>"

lemma demo_ctr_out: "ctr_out demo_ctr k iv x = map (\<lambda>b. b XOR k) x"
  by (simp add: ctr_out_def demo_ctr_def)

lemma demo_ctr_ok: "ctr_mode demo_ctr k" "ctr_split demo_ctr k" "ctr_inverse demo_ctr k k" "hmac256 demo_ctr h"
  by (simp_all add: ctr_mode_def ctr_split_def ctr_inverse_def hmac256_def demo_ctr_out o_def xor.assoc)
    (simp_all add: demo_ctr_def)

definition demo_crypt_ctx :: "(u8, u8) key_ctx" where
  "demo_crypt_ctx = \<lparr>kc_cipher = Some 7, kc_hmac = Some 3, kc_implicit_iv = []\<rparr>"

definition demo_crypt_opt :: "(u8, u8) crypto_options" where
  "demo_crypt_opt = \<lparr>co_encrypt = demo_crypt_ctx, co_decrypt = demo_crypt_ctx,
     co_packet_id = the (packet_id_init 0 0 ''TLS'' 0), co_pid_persist = None,
     co_long_form = True, co_ignore_packet_id = False\<rparr>"

definition demo_control :: "u8 list" where
  "demo_control = [56, 1, 2, 3, 4, 5, 6, 7, 8, 0, 0, 0, 1, 0, 0, 0, 100] @ replicate 32 226 @ [13, 19]"

lemma demo_control_ok: "buf_wf (demo_block 0 demo_control)" "buf_bytes (demo_block 0 demo_control) = demo_control"
  "b_len (demo_block 0 demo_control) = 51"
  using demo_block_ok [of 0 demo_control] by (simp_all add: demo_control_def) (simp add: demo_block_def)

lemma demo_crypt_input: "crypt_input_ok (100, demo_block 0 demo_control, demo_block 0 [])"
  using demo_control_ok demo_block_ok [of 0 "[]"] by (simp add: crypt_input_ok_def) (simp add: demo_block_def)

lemma demo_crypt_receiver: "crypt_receiver demo_ctr 7 3 demo_crypt_opt"
  by (simp add: crypt_receiver_def demo_crypt_opt_def demo_crypt_ctx_def packet_id_initialized_def packet_id_init_def Let_def)

theorem tls_crypt_unwrap_authentic_witness:
  "\<exists>b opt'. tls_crypt_unwrap demo_ctr 100 (demo_block 0 demo_control) (demo_block 0 []) demo_crypt_opt = Some (True, b, opt')
     \<and> crypt_tag (demo_block 0 demo_control)
         = hmac_ctx_compute demo_ctr 3 (crypt_ad (demo_block 0 demo_control) @ buf_bytes b)
     \<and> buf_bytes b = [10, 20]"
proof -
  let ?D = "tls_crypt_unwrap demo_ctr 100 (demo_block 0 demo_control) (demo_block 0 []) demo_crypt_opt"
  have "map_option fst ?D = Some True" "map_option (\<lambda>x. buf_bytes (fst (snd x))) ?D = Some [10, 20]" by code_simp+
  then obtain b opt' where d: "?D = Some (True, b, opt')" "buf_bytes b = [10, 20]" by (cases ?D) auto
  with tls_crypt_unwrap_authentic [OF demo_crypt_input demo_crypt_receiver demo_ctr_ok(1,4) d(1) refl] show ?thesis
    by auto
qed


theorem tls_crypt_v2_client_key_roundtrip_witness:
  "\<exists>w m'. tls_crypt_v2_wrap_client_key demo_ctr (the (alloc_buf 1100)) (replicate 256 5) (demo_block 0 [1, 2]) demo_crypt_ctx
       = Some (True, w)
     \<and> tls_crypt_v2_unwrap_client_key demo_ctr (the (alloc_buf 734)) w demo_crypt_ctx = Some (True, replicate 256 5, m')
     \<and> buf_bytes m' = [1, 2]"
proof -
  obtain wkc where wkc: "alloc_buf 1100 = Some wkc" "buf_wf wkc" "buf_bytes wkc = []" "buf_tailroom wkc = int 1100"
    by (rule alloc_buf_ok [of 1100]) (simp add: BUF_SIZE_MAX_def)
  obtain m where m: "alloc_buf 734 = Some m" by (rule alloc_buf_ok [of 734]) (simp add: BUF_SIZE_MAX_def)
  have l: "TLS_CRYPT_V2_MAX_METADATA_LEN = 734" "TLS_CRYPT_V2_MAX_WKC_LEN = 1024"
    by (simp_all add: tls_crypt_v2_consts tls_crypt_consts)
  have meta: "buf_wf (demo_block 0 [1, 2])" "buf_bytes (demo_block 0 [1, 2]) = [1, 2]" "b_len (demo_block 0 [1, 2]) = 2"
    using demo_block_ok [of 0 "[1, 2]"] by simp_all (simp add: demo_block_def)
  have ctx: "kc_cipher demo_crypt_ctx = Some 7" "kc_hmac demo_crypt_ctx = Some 3" "cipher_ctx_block_size demo_ctr 7 = 16"
    by (simp_all add: demo_crypt_ctx_def demo_ctr_def)
  show ?thesis
    using tls_crypt_v2_client_key_roundtrip [of "replicate 256 5" "demo_block 0 [1, 2]" wkc demo_crypt_ctx 7 3 demo_crypt_ctx 7
        demo_ctr m] wkc m meta ctx demo_ctr_ok by (simp add: l)
qed

end
