(* ===== verification/ControlChannel.thy ===== *)
theory ControlChannel
  imports TlsCrypt Opcodes "HOL-Library.Signed_Division"
begin

text \<open>
  Control packets of \<open>ssl_pkt.c\<close>: opcode and session id in front, wrapped with an HMAC (tls-auth),
  with \<open>TlsCrypt\<close>, or not at all; the checks a server makes on a packet from an unknown client;
  and the session id that stands for the state of the three-way handshake.
\<close>

section \<open>Contexts\<close>

datatype wrap_mode = TLS_WRAP_NONE | TLS_WRAP_AUTH | TLS_WRAP_CRYPT

record ('k, 'h) tls_wrap_ctx =
  tw_mode :: wrap_mode
  tw_opt :: "('k, 'h) crypto_options"
  tw_work :: buffer
  tw_tls_crypt_v2_server_key :: "('k, 'h) key_ctx"
  tw_tls_crypt_v2_wkc :: "buffer option"
  tw_tls_crypt_v2_metadata :: buffer
  tw_cleanup_key_ctx :: bool
  tw_original_wrap_keydata :: "u8 list"

definition SWAP_BUF_SIZE :: int where "SWAP_BUF_SIZE = 256"

text \<open>Tags and ids are compared by \<open>memcmp_constant_time\<close>, whose result is zero on equality.\<close>

definition memcmp_constant_time :: "u8 list \<Rightarrow> u8 list \<Rightarrow> nat \<Rightarrow> int" where
  "memcmp_constant_time a b n = uint (fold (OR) (map2 (XOR) (take n a) (take n b)) (0 :: u8))"

section \<open>Wrapping\<close>

definition swap_hmac ::
    "('k, 's, 'h) crypto_api \<Rightarrow> buffer \<Rightarrow> ('k, 'h) crypto_options \<Rightarrow> bool \<Rightarrow> (bool \<times> buffer) option" where
  "swap_hmac api buf co incoming =
     do {
       h \<leftarrow> kc_hmac (if incoming then co_decrypt co else co_encrypt co);
       let hmac_size = hmac_ctx_size api h + packet_id_size True;
       let osid_size = 1 + SID_SIZE;
       let e1 = (if incoming then osid_size else hmac_size);
       let e2 = (if incoming then hmac_size else osid_size);
       assert_opt (e1 \<le> SWAP_BUF_SIZE \<and> e2 \<le> SWAP_BUF_SIZE);
       if b_len buf \<ge> e1 + e2
       then (let buf1 = take (nat e1) (buf_bytes buf); buf2 = take (nat e2) (drop (nat e1) (buf_bytes buf))
             in Some (True, buf_poke buf (nat (b_offset buf)) (buf2 @ buf1)))
       else Some (False, buf)
     }"

definition tls_wrap_control ::
    "('k, 's, 'h) crypto_api \<Rightarrow> time_t \<Rightarrow> ('k, 'h) tls_wrap_ctx \<Rightarrow> u8 \<Rightarrow> buffer \<Rightarrow> session_id
       \<Rightarrow> (buffer \<times> ('k, 'h) tls_wrap_ctx) option" where
  "tls_wrap_control api now ctx header buf sid =
     (if tw_mode ctx = TLS_WRAP_CRYPT
      then do {
        work1 \<leftarrow> assert_ok (buf_init (tw_work ctx) (b_offset buf));
        work2 \<leftarrow> assert_ok (buf_write work1 [header]);
        work3 \<leftarrow> assert_ok (session_id_write sid work2);
        (ok, work4, opt1) \<leftarrow> tls_crypt_wrap api now buf work3 (tw_opt ctx);
        let ctx1 = ctx\<lparr>tw_work := work4, tw_opt := opt1\<rparr>;
        if \<not> ok then Some (drop_packet buf, ctx1)
        else if packet_opcode header \<in> {P_CONTROL_HARD_RESET_CLIENT_V3, P_CONTROL_WKC_V1}
        then do {
          wkc \<leftarrow> tw_tls_crypt_v2_wkc ctx;
          case buf_copy work4 wkc of
            (False, work5) \<Rightarrow> Some (drop_packet buf, ctx1\<lparr>tw_work := work5\<rparr>)
          | (True, work5) \<Rightarrow> Some (work5, ctx1\<lparr>tw_work := work5\<rparr>)
        }
        else Some (work4, ctx1)
      }
      else do {
        buf1 \<leftarrow> assert_ok (session_id_write_prepend sid buf);
        buf2 \<leftarrow> assert_ok (buf_write_prepend buf1 [header]);
        if tw_mode ctx = TLS_WRAP_AUTH
        then do {
          (buf3, opt1) \<leftarrow> openvpn_encrypt api now [] buf2 clear_buf (Some (tw_opt ctx));
          o1 \<leftarrow> opt1;
          (ok, buf4) \<leftarrow> swap_hmac api buf3 o1 False;
          assert_opt ok;
          Some (buf4, ctx\<lparr>tw_opt := o1\<rparr>)
        }
        else Some (buf2, ctx)
      })"

text \<open>
  The acknowledgement record and the packet id are written in front, then the packet is wrapped.
  \<open>softether\<close> is the condition of the workaround: no wrapping, client, no key export.
\<close>

definition write_control_auth ::
    "('k, 's, 'h) crypto_api \<Rightarrow> time_t \<Rightarrow> ('k, 'h) tls_wrap_ctx \<Rightarrow> bool \<Rightarrow> u8 \<Rightarrow> reliable_ack \<Rightarrow> reliable_ack
       \<Rightarrow> session_id \<Rightarrow> session_id \<Rightarrow> buffer \<Rightarrow> u8 \<Rightarrow> int \<Rightarrow> bool
       \<Rightarrow> (buffer \<times> ('k, 'h) tls_wrap_ctx \<times> reliable_ack \<times> reliable_ack) option" where
  "write_control_auth api now ctx softether key_id rec_ack lru_acks sid_remote sid buf opcode max_ack prepend_ack =
     (let header = key_id OR push_bit P_OPCODE_SHIFT opcode;
          max_ack' = (if softether then min_int max_ack 4 else max_ack)
      in case reliable_ack_write rec_ack lru_acks buf sid_remote max_ack' prepend_ack of
           None \<Rightarrow> None
         | Some (False, _) \<Rightarrow> None
         | Some (True, rec_ack', lru', buf1) \<Rightarrow>
             map_option (\<lambda>(b, ctx'). (b, ctx', rec_ack', lru')) (tls_wrap_control api now ctx header buf1 sid))"

section \<open>Unwrapping\<close>

text \<open>
  A packet that carries a wrapped client key switches the context to that key. \<open>load_key\<close> is
  \<open>init_key_ctx_bi\<close> of the crypto library's glue, \<open>verify\<close> the result of the script that checks
  the metadata, if one is configured.
\<close>

definition tls_crypt_v2_verify_metadata :: "(u8 \<Rightarrow> u8 list \<Rightarrow> bool) \<Rightarrow> buffer \<Rightarrow> bool" where
  "tls_crypt_v2_verify_metadata verify metadata =
     (case buf_read_u8 metadata of
        (t, metadata1) \<Rightarrow> if t < 0 then False else verify (word_of_int t) (buf_bytes metadata1))"

definition tls_crypt_v2_extract_client_key ::
    "('k, 's, 'h) crypto_api \<Rightarrow> (u8 list \<Rightarrow> ('k, 'h) key_ctx \<times> ('k, 'h) key_ctx) \<Rightarrow> (u8 \<Rightarrow> u8 list \<Rightarrow> bool) option
       \<Rightarrow> buffer \<Rightarrow> ('k, 'h) tls_wrap_ctx \<Rightarrow> (bool \<times> buffer \<times> ('k, 'h) tls_wrap_ctx) option" where
  "tls_crypt_v2_extract_client_key api load_key verify buf ctx =
     (if kc_cipher (tw_tls_crypt_v2_server_key ctx) = None then Some (False, buf, ctx)
      else if buf_len buf < 2 then Some (False, buf, ctx)
      else (let wkc_len = uint (u16_of_bytes (drop (nat (buf_len buf) - 2) (buf_bytes buf)))
            in case buf_advance buf (buf_len buf - wkc_len) of
                 (False, _) \<Rightarrow> Some (False, buf, ctx)
               | (True, wrapped) \<Rightarrow> do {
                   m \<leftarrow> alloc_buf TLS_CRYPT_V2_MAX_METADATA_LEN;
                   (ok, keys, m1) \<leftarrow> tls_crypt_v2_unwrap_client_key api m wrapped (tw_tls_crypt_v2_server_key ctx);
                   let ctx1 = ctx\<lparr>tw_tls_crypt_v2_metadata := m1, tw_original_wrap_keydata := keys\<rparr>;
                   if \<not> ok then Some (False, buf, ctx1)
                   else do {
                     let (enc, dec) = load_key keys;
                     let ctx2 = ctx1\<lparr>tw_mode := TLS_WRAP_CRYPT, tw_cleanup_key_ctx := True,
                           tw_opt := (tw_opt ctx)\<lparr>co_long_form := True, co_encrypt := enc, co_decrypt := dec\<rparr>\<rparr>;
                     buf1 \<leftarrow> assert_ok (buf_inc_len buf (- buf_len wrapped));
                     Some (case verify of None \<Rightarrow> True | Some v \<Rightarrow> tls_crypt_v2_verify_metadata v m1, buf1, ctx2)
                   }
                 }))"

text \<open>tls-auth decrypts without a frame: its key has no cipher, so the frame is not read.\<close>

definition null_frame :: frame where
  "null_frame = \<lparr>fr_payload_size = 0, fr_headroom = 0, fr_tailroom = 0, fr_mss_fix = 0,
     fr_max_fragment_size = 0, fr_tun_mtu = 0, fr_tun_max_mtu = 0, fr_extra_tun = 0\<rparr>"

text \<open>The part of \<open>read_control_auth\<close> behind the client key.\<close>

definition read_control_unwrap ::
    "('k, 's, 'h) crypto_api \<Rightarrow> time_t \<Rightarrow> buffer \<Rightarrow> ('k, 'h) tls_wrap_ctx
       \<Rightarrow> (bool \<times> buffer \<times> ('k, 'h) tls_wrap_ctx) option" where
  "read_control_unwrap api now buf ctx =
     (case tw_mode ctx of
        TLS_WRAP_AUTH \<Rightarrow> do {
          (ok, buf1) \<leftarrow> swap_hmac api buf (tw_opt ctx) True;
          if \<not> ok then Some (False, buf1, ctx)
          else do {
            (ok', buf2, opt1) \<leftarrow> openvpn_decrypt api now buf1 clear_buf (Some (tw_opt ctx)) null_frame (nat (b_offset buf1));
            o1 \<leftarrow> opt1;
            let ctx1 = ctx\<lparr>tw_opt := o1\<rparr>;
            if b_len buf2 = 0 then Some (False, buf2, ctx1)
            else Some (True, snd (buf_advance buf2 (SID_SIZE + 1)), ctx1)
          }
        }
      | TLS_WRAP_CRYPT \<Rightarrow> do {
          tmp \<leftarrow> alloc_buf (size_of_int (buf_forward_capacity_total buf));
          (ok, tmp1, opt1) \<leftarrow> tls_crypt_unwrap api now buf tmp (tw_opt ctx);
          let ctx1 = ctx\<lparr>tw_opt := opt1\<rparr>;
          if \<not> ok then Some (False, buf, ctx1)
          else do {
            buf1 \<leftarrow> assert_ok (buf_init buf (b_offset buf));
            buf2 \<leftarrow> assert_ok (buf_copy buf1 tmp1);
            Some (True, buf2, ctx1)
          }
        }
      | TLS_WRAP_NONE \<Rightarrow>
          if kc_cipher (tw_tls_crypt_v2_server_key ctx) \<noteq> None then Some (False, buf, ctx)
          else Some (True, snd (buf_advance buf (SID_SIZE + 1)), ctx))"

definition read_control_auth ::
    "('k, 's, 'h) crypto_api \<Rightarrow> (u8 list \<Rightarrow> ('k, 'h) key_ctx \<times> ('k, 'h) key_ctx) \<Rightarrow> time_t
       \<Rightarrow> buffer \<Rightarrow> ('k, 'h) tls_wrap_ctx \<Rightarrow> (u8 \<Rightarrow> u8 list \<Rightarrow> bool) option
       \<Rightarrow> (bool \<times> buffer \<times> ('k, 'h) tls_wrap_ctx) option" where
  "read_control_auth api load_key now buf ctx verify =
     (let opcode = packet_opcode (buf_mem buf ! nat (b_offset buf)) in
      do {
        (found, buf0, ctx0) \<leftarrow>
          (if opcode \<in> {P_CONTROL_HARD_RESET_CLIENT_V3, P_CONTROL_WKC_V1}
           then tls_crypt_v2_extract_client_key api load_key verify buf ctx
           else Some (True, buf, ctx));
        if \<not> found then Some (False, buf0, ctx0) else read_control_unwrap api now buf0 ctx0
      })"

section \<open>The first packet of a client\<close>

datatype first_packet_verdict = VERDICT_VALID_RESET_V2 | VERDICT_VALID_RESET_V3 | VERDICT_VALID_CONTROL_V1
  | VERDICT_VALID_ACK_V1 | VERDICT_VALID_WKC_V1 | VERDICT_INVALID

record ('k, 'h) tls_pre_decrypt_state =
  tp_tls_wrap_tmp :: "('k, 'h) tls_wrap_ctx"
  tp_newbuf :: buffer
  tp_peer_session_id :: session_id
  tp_server_session_id :: session_id

record ('k, 'h) tls_auth_standalone =
  ta_tls_wrap :: "('k, 'h) tls_wrap_ctx"
  ta_workbuf :: buffer
  ta_frame :: frame

definition verdict_of :: "u8 \<Rightarrow> first_packet_verdict" where
  "verdict_of op =
     (if op = P_CONTROL_V1 then VERDICT_VALID_CONTROL_V1
      else if op = P_ACK_V1 then VERDICT_VALID_ACK_V1
      else if op = P_CONTROL_HARD_RESET_CLIENT_V3 then VERDICT_VALID_RESET_V3
      else if op = P_CONTROL_WKC_V1 then VERDICT_VALID_WKC_V1
      else VERDICT_VALID_RESET_V2)"

text \<open>\<open>junk\<close> is the memory \<open>clone_buf\<close> gets.\<close>

definition tls_pre_decrypt_lite ::
    "('k, 's, 'h) crypto_api \<Rightarrow> (u8 list \<Rightarrow> ('k, 'h) key_ctx \<times> ('k, 'h) key_ctx) \<Rightarrow> time_t \<Rightarrow> u8 list
       \<Rightarrow> ('k, 'h) tls_auth_standalone \<Rightarrow> ('k, 'h) tls_pre_decrypt_state \<Rightarrow> buffer
       \<Rightarrow> (first_packet_verdict \<times> ('k, 'h) tls_pre_decrypt_state) option" where
  "tls_pre_decrypt_lite api load_key now junk tas state buf =
     (if b_len buf < 1 + SID_SIZE then Some (VERDICT_INVALID, state)
      else (let pkt_firstbyte = buf_mem buf ! nat (b_offset buf);
                op = packet_opcode pkt_firstbyte; key_id = packet_key_id pkt_firstbyte in
        if op \<notin> {P_CONTROL_HARD_RESET_CLIENT_V2, P_CONTROL_HARD_RESET_CLIENT_V3, P_CONTROL_V1, P_CONTROL_WKC_V1, P_ACK_V1}
        then Some (VERDICT_INVALID, state)
        else if key_id \<noteq> 0 then Some (VERDICT_INVALID, state)
        else (case session_id_read (tp_peer_session_id state) (snd (buf_advance buf 1)) of
                (ok, sid, _) \<Rightarrow>
                  (let state1 = state\<lparr>tp_peer_session_id := sid\<rparr> in
                   if \<not> ok \<or> \<not> session_id_defined sid then Some (VERDICT_INVALID, state1)
                   else map_option
                     (\<lambda>(status, newbuf, wrap).
                        (if status then verdict_of op else VERDICT_INVALID,
                         state1\<lparr>tp_newbuf := newbuf, tp_tls_wrap_tmp := wrap\<rparr>))
                     (read_control_auth api load_key now (clone_buf junk buf) (ta_tls_wrap tas) None)))))"

text \<open>The answer of a server that keeps no state: an acknowledgement and its own reset.\<close>

definition TLV_TYPE_EARLY_NEG_FLAGS :: u16 where "TLV_TYPE_EARLY_NEG_FLAGS = 0x0001"
definition EARLY_NEG_FLAG_RESEND_WKC :: u16 where "EARLY_NEG_FLAG_RESEND_WKC = 0x0001"

definition tls_reset_standalone ::
    "('k, 's, 'h) crypto_api \<Rightarrow> time_t \<Rightarrow> ('k, 'h) tls_wrap_ctx \<Rightarrow> ('k, 'h) tls_auth_standalone
       \<Rightarrow> session_id \<Rightarrow> session_id \<Rightarrow> u8 \<Rightarrow> bool \<Rightarrow> (buffer \<times> ('k, 'h) tls_wrap_ctx) option" where
  "tls_reset_standalone api now ctx tas own_sid remote_sid header request_resend_wkc =
     do {
       buf \<leftarrow> assert_ok (buf_init (ta_workbuf tas) (fr_headroom (ta_frame tas)));
       let b1 = snd (buf_write_u8 buf 1);
       let b2 = snd (buf_write_u32 b1 0);
       let b3 = snd (buf_write b2 (sid_id remote_sid));
       b4 \<leftarrow> assert_ok (buf_write b3 (u32_bytes 0));
       let b5 = (if request_resend_wkc
                 then snd (buf_write_u16 (snd (buf_write_u16 (snd (buf_write_u16 b4 TLV_TYPE_EARLY_NEG_FLAGS)) 2))
                        EARLY_NEG_FLAG_RESEND_WKC)
                 else b4);
       tls_wrap_control api now ctx header b5 own_sid
     }"

section \<open>The session id as a cookie\<close>

text \<open>The bytes of the peer's address that enter the HMAC.\<close>

datatype openvpn_sockaddr = SA_IN4 "u8 list" | SA_IN6 "u8 list" | SA_OTHER

definition sockaddr_bytes :: "openvpn_sockaddr \<Rightarrow> u8 list" where
  "sockaddr_bytes from = (case from of SA_IN4 bs \<Rightarrow> bs | SA_IN6 bs \<Rightarrow> bs | SA_OTHER \<Rightarrow> [])"

text \<open>\<open>None\<close> is the division by zero of a hand-window of 0.\<close>

definition calculate_session_id_hmac ::
    "('k, 's, 'h) crypto_api \<Rightarrow> time_t \<Rightarrow> session_id \<Rightarrow> openvpn_sockaddr \<Rightarrow> 'h \<Rightarrow> int \<Rightarrow> int \<Rightarrow> session_id option" where
  "calculate_session_id_hmac api now client_sid from' hmac handwindow offset =
     (let slot = (handwindow + 1) sdiv 2 in
      if slot = 0 then None
      else (let session_id_time = u32_bytes (word_of_int (now sdiv slot + offset));
                result = hmac_ctx_compute api hmac (session_id_time @ sockaddr_bytes from' @ sid_id client_sid)
            in Some \<lparr>sid_id = take 8 result\<rparr>))"

fun try_session_ids ::
    "('k, 's, 'h) crypto_api \<Rightarrow> time_t \<Rightarrow> session_id \<Rightarrow> session_id \<Rightarrow> openvpn_sockaddr \<Rightarrow> 'h \<Rightarrow> int \<Rightarrow> int list \<Rightarrow> bool option" where
  "try_session_ids api now peer server from' hmac handwindow [] = Some False"
| "try_session_ids api now peer server from' hmac handwindow (offset # offsets) =
     do {
       expected \<leftarrow> calculate_session_id_hmac api now peer from' hmac handwindow offset;
       if memcmp_constant_time (sid_id expected) (sid_id server) (nat SID_SIZE) \<noteq> 0 then Some True
       else try_session_ids api now peer server from' hmac handwindow offsets
     }"

text \<open>\<open>ack\<close> is an uninitialised local that the parser fills.\<close>

definition check_session_id_hmac ::
    "('k, 's, 'h) crypto_api \<Rightarrow> time_t \<Rightarrow> reliable_ack \<Rightarrow> ('k, 'h) tls_pre_decrypt_state \<Rightarrow> openvpn_sockaddr option
       \<Rightarrow> 'h \<Rightarrow> int \<Rightarrow> (bool \<times> ('k, 'h) tls_pre_decrypt_state) option" where
  "check_session_id_hmac api now ack state from' hmac handwindow =
     (case from' of
        None \<Rightarrow> Some (False, state)
      | Some addr \<Rightarrow>
          (case reliable_ack_parse (tp_newbuf state) ack (tp_server_session_id state) of
             (ok, _, sid, _) \<Rightarrow>
               (let state1 = state\<lparr>tp_server_session_id := sid\<rparr> in
                if \<not> ok then Some (False, state1)
                else map_option (\<lambda>r. (r, state1))
                       (try_session_ids api now (tp_peer_session_id state1) sid addr hmac handwindow [-2, -1, 0, 1]))))"

section \<open>Lemmas: the HMAC in front\<close>

lemma fold_or_zero: "fold (OR) bs (a :: u8) = 0 \<longleftrightarrow> a = 0 \<and> (\<forall>b \<in> set bs. b = 0)"
  by (induction bs arbitrary: a) (auto simp: or_eq_0_iff)

lemma xor_eq_0_iff: "x XOR y = 0 \<longleftrightarrow> x = (y :: u8)"
  by (metis xor.left_neutral xor.right_neutral xor_self_eq xor.assoc)

lemma memcmp_constant_time_zero:
  assumes "length a = n" and "length b = n"
  shows "memcmp_constant_time a b n = 0 \<longleftrightarrow> a = b"
proof -
  have "(\<forall>x \<in> set (map2 (XOR) a b). x = 0) \<longleftrightarrow> a = b" if "length a = length b" for a b :: "u8 list"
    using that by (induction rule: list_induct2) (auto simp: xor_eq_0_iff)
  then show ?thesis using assms by (simp add: memcmp_constant_time_def fold_or_zero unsigned_eq_0_iff)
qed

text \<open>A key for authentication only, with a digest of \<open>n\<close> bytes.\<close>

definition auth_key :: "('k, 's, 'h) crypto_api \<Rightarrow> ('k, 'h) key_ctx \<Rightarrow> 'h \<Rightarrow> nat \<Rightarrow> bool" where
  "auth_key api ctx h n \<longleftrightarrow> kc_cipher ctx = None \<and> kc_hmac ctx = Some h \<and> hmac_ctx_size api h = int n \<and> n \<le> 248
     \<and> (\<forall>x. length (hmac_ctx_compute api h x) = n)"

lemma buf_set_eq_poke: "buf_set b i bs = buf_poke b (nat (b_offset b) + i) bs"
  by (simp add: buf_set_def)

lemma swap_hmac_ok:
  assumes "kc_hmac (if incoming then co_decrypt co else co_encrypt co) = Some h" and "hmac_ctx_size api h = int n" and "n \<le> 248"
    and "buf_wf buf" and "buf_bytes buf = xs @ ys @ zs"
    and "length xs = (if incoming then 9 else n + 8)" and "length ys = (if incoming then n + 8 else 9)"
  obtains b where "swap_hmac api buf co incoming = Some (True, b)" "buf_wf b" "buf_bytes b = ys @ xs @ zs"
    "b_offset b = b_offset buf" "b_capacity b = b_capacity buf"
proof -
  have len: "int (length (xs @ ys @ zs)) = b_len buf" using length_buf_bytes_int [OF assms(4)] assms(5) by simp
  have fit: "int (0 + length (ys @ xs)) \<le> b_len buf" using len by simp
  let ?b = "buf_set buf 0 (ys @ xs)"
  have "swap_hmac api buf co incoming = Some (True, ?b)"
    using assms(1-3,6,7) len
    by (cases incoming) (simp_all add: swap_hmac_def Let_def packet_id_size_def SID_SIZE_def SWAP_BUF_SIZE_def buf_set_eq_poke assms(5)
        nat_add_distrib)
  moreover have "buf_bytes ?b = ys @ xs @ zs"
    using buf_set_bytes [OF assms(4) fit] memput_append [of "[]" 0 "ys @ xs" "xs @ ys" zs] assms(5) by simp
  ultimately show thesis
    by (rule that [OF _ buf_set_wf [OF assms(4) fit]]) (simp_all add: buf_set_def buf_poke_def)
qed

lemma swap_hmac_short:
  assumes "kc_hmac (co_decrypt co) = Some h" and "hmac_ctx_size api h = int n" and "n \<le> 248" and "b_len buf < int n + 17"
  shows "swap_hmac api buf co True = Some (False, buf)"
  using assms by (simp add: swap_hmac_def Let_def packet_id_size_def SID_SIZE_def SWAP_BUF_SIZE_def)

text \<open>The authenticated packet before the swap: HMAC, packet id, header, payload.\<close>

lemma encrypt_auth_ok:
  assumes key: "auth_key api (co_encrypt opt) h n" and wf: "buf_wf buf" "0 < b_len buf" "int n + 8 \<le> b_offset buf"
    and pid: "packet_id_initialized (co_packet_id opt)" "co_long_form opt"
      "packet_id_send_update now (pid_send (co_packet_id opt)) True = (True, send')"
  obtains b where "openvpn_encrypt api now [] buf clear_buf (Some opt) = Some (b, Some (with_send opt send'))" "buf_wf b"
    "buf_bytes b = hmac_ctx_compute api h (pid_bytes send' @ buf_bytes buf) @ pid_bytes send' @ buf_bytes buf"
proof -
  let ?x = "pid_bytes send' @ buf_bytes buf"
  let ?mac = "hmac_ctx_compute api h ?x"
  let ?b0 = "buf_unshift buf (u32_bytes (word_of_int (s_time send')))"
  let ?b1 = "buf_unshift ?b0 (u32_bytes (s_id send'))"
  have b1: "packet_id_write now (pid_send (co_packet_id opt)) buf True True = (True, send', ?b1)"
    "buf_wf ?b1" "buf_bytes ?b1 = ?x" "b_offset ?b1 = b_offset buf - 8"
    using wf pid(3) by (simp_all add: packet_id_write_def Let_def buf_simps pid_bytes_def)
  let ?b2 = "?b1\<lparr>b_offset := b_offset ?b1 - int n, b_len := b_len ?b1 + int n\<rparr>"
  have ml: "length ?mac = n" using key by (simp only: auth_key_def)
  have pre: "buf_prepend ?b1 (int n) = (Some (nat (b_offset ?b1 - int n)), ?b2)"
    using b1(2,4) wf(3) buf_wf_facts(1,4) [OF b1(2)]
    by (auto simp: buf_prepend_def Let_def buf_bptr_def buf_valid_def)
  have mem: "buf_mem ?b2 = buf_mem ?b1" by (simp add: buf_mem_def)
  have "nat (b_offset ?b2 + b_len ?b2) - nat (b_offset ?b1) = nat (b_len ?b1)"
    using b1(4) wf(3) buf_wf_facts(4) [OF b1(2)] by simp
  then have data: "memget (buf_mem ?b2) (nat (b_offset ?b1)) (nat (b_offset ?b2 + b_len ?b2) - nat (b_offset ?b1)) = ?x"
    unfolding mem using b1(3) buf_wf_facts(3) [OF b1(2)] by (simp add: buf_bytes_def)
  have res: "buf_poke ?b2 (nat (b_offset ?b1 - int n)) ?mac = buf_unshift ?b1 ?mac"
    by (simp add: buf_unshift_def ml)
  have room: "int (length ?mac) \<le> b_offset ?b1" using ml b1(4) wf(3) by simp
  have k: "kc_cipher (co_encrypt opt) = None" "kc_hmac (co_encrypt opt) = Some h" "hmac_ctx_size api h = int n"
    using key by (simp_all add: auth_key_def)
  have nm: "\<not> key_mode_aead api (co_encrypt opt)" "buf_len clear_buf = 0"
    using k by (simp_all add: key_mode_aead_def buf_len_def buf_valid_def clear_buf_def)
  have "encrypt_v1_plain api now buf clear_buf opt
      = Some (Some (?b2, nat (b_offset ?b1 - int n), nat (b_offset ?b1)), with_send opt send')"
    unfolding encrypt_v1_plain_def
    by (simp only: pid(1,2) b1(1) k pre nm(2) if_True Let_def option.case case_prod_conv bool.case Option.bind.bind_lunit
        simp_thms if_False)
  then have "openvpn_encrypt api now [] buf clear_buf (Some opt) = Some (buf_unshift ?b1 ?mac, Some (with_send opt send'))"
    using wf(2) nm(1) k data res by (simp add: openvpn_encrypt_def openvpn_encrypt_v1_def Let_def)
  moreover have "buf_wf (buf_unshift ?b1 ?mac)" "buf_bytes (buf_unshift ?b1 ?mac) = ?mac @ ?x"
    using b1(2,3) room by (simp_all add: buf_unshift_wf buf_unshift_bytes)
  ultimately show thesis by (rule that)
qed

definition auth_pin :: "nat \<Rightarrow> u8 list \<Rightarrow> packet_id_net" where
  "auth_pin n bs = \<lparr>n_id = u32_of_bytes (take 4 (drop n bs)), n_time = uint (u32_of_bytes (take 4 (drop (n + 4) bs)))\<rparr>"

lemma decrypt_auth_cases:
  assumes key: "auth_key api (co_decrypt opt) h n" and wf: "buf_wf buf" "int n + 8 < b_len buf"
    and pid: "packet_id_initialized (co_packet_id opt)" "co_long_form opt" "\<not> co_ignore_packet_id opt"
  obtains (forged) b where "openvpn_decrypt api now buf clear_buf (Some opt) null_frame i = Some (False, b, Some opt)" "b_len b = 0"
      "take n (buf_bytes buf) \<noteq> hmac_ctx_compute api h (drop n (buf_bytes buf))"
  | (genuine) w b where "take n (buf_bytes buf) = hmac_ctx_compute api h (drop n (buf_bytes buf))"
      "buf_wf w" "buf_bytes w = drop (n + 8) (buf_bytes buf)" "b_len b = 0"
      "openvpn_decrypt api now buf clear_buf (Some opt) null_frame i =
         map_option (\<lambda>(ok, st). if ok then (True, w, Some (with_replay opt st)) else (False, b, Some (with_replay opt st)))
           (crypto_check_replay now True (co_packet_id opt, co_pid_persist opt) (auth_pin n (buf_bytes buf)))"
proof -
  have k: "kc_cipher (co_decrypt opt) = None" "kc_hmac (co_decrypt opt) = Some h" "hmac_ctx_size api h = int n"
    using key by (simp_all add: auth_key_def)
  have nm: "\<not> key_mode_aead api (co_decrypt opt)" using k by (simp add: key_mode_aead_def)
  have D: "openvpn_decrypt api now buf clear_buf (Some opt) null_frame i
      = map_option (\<lambda>(ok, b, opt1). (ok, b, Some opt1)) (openvpn_decrypt_v1 api now buf clear_buf opt null_frame)"
    using nm wf(2) by (simp add: openvpn_decrypt_def)
  show thesis
  proof (cases "take n (buf_bytes buf) = hmac_ctx_compute api h (drop n (buf_bytes buf))")
    case False
    then have "decrypt_v1_hmac api (Some h) buf = Some (False, buf)"
      using k(3) wf(2) by (auto simp: decrypt_v1_hmac_def Let_def)
    then have "openvpn_decrypt_v1 api now buf clear_buf opt null_frame = Some (False, drop_packet buf, opt)"
      using k wf(2) by (simp add: openvpn_decrypt_v1_def)
    then show thesis using D False by (intro forged [of "drop_packet buf"]) simp_all
  next
    case True
    let ?b1 = "buf_skip buf n"
    have b1: "buf_wf ?b1" "buf_bytes ?b1 = drop n (buf_bytes buf)" "b_len ?b1 = b_len buf - int n"
      using wf by (simp_all add: buf_skip_wf buf_skip_bytes)
    have "assert_ok (buf_advance buf (int n)) = Some ?b1" using wf by (simp add: buf_advance_eq)
    then have m: "decrypt_v1_hmac api (Some h) buf = Some (True, ?b1)"
      using k(3) wf(2) True by (simp add: decrypt_v1_hmac_def Let_def)
    let ?w = "buf_skip (buf_skip ?b1 4) 4"
    have b4: "buf_wf (buf_skip ?b1 4)" "buf_bytes (buf_skip ?b1 4) = drop (n + 4) (buf_bytes buf)"
      using b1 wf(2) by (simp_all add: buf_skip_wf buf_skip_bytes add.commute)
    have w: "buf_wf ?w" "buf_bytes ?w = drop (n + 8) (buf_bytes buf)"
      using b4 b1 wf(2) by (simp_all add: buf_skip_wf buf_skip_bytes add.commute)
    have rd: "packet_id_read ?b1 True = (True, auth_pin n (buf_bytes buf), ?w)"
      using b1 b4 wf(2) by (simp add: packet_id_read_def buf_read_eq Let_def auth_pin_def)
    have p: "decrypt_v1_plain ?b1 opt = Some (?b1, Some (?w, Some (auth_pin n (buf_bytes buf))))"
      using pid rd by (simp add: decrypt_v1_plain_def)
    have "openvpn_decrypt_v1 api now buf clear_buf opt null_frame
        = map_option (\<lambda>(ok, st). if ok then (True, ?w, with_replay opt st) else (False, drop_packet ?b1, with_replay opt st))
            (crypto_check_replay now True (co_packet_id opt, co_pid_persist opt) (auth_pin n (buf_bytes buf)))"
      using k(1,2) wf(2) m p pid(2) by (simp add: openvpn_decrypt_v1_def bind_Some_map)
    then have "openvpn_decrypt api now buf clear_buf (Some opt) null_frame i
        = map_option (\<lambda>(ok, st). if ok then (True, ?w, Some (with_replay opt st)) else (False, drop_packet ?b1, Some (with_replay opt st)))
            (crypto_check_replay now True (co_packet_id opt, co_pid_persist opt) (auth_pin n (buf_bytes buf)))"
      unfolding D by (cases "crypto_check_replay now True (co_packet_id opt, co_pid_persist opt) (auth_pin n (buf_bytes buf))")
        auto
    then show thesis using True w by (intro genuine [of ?w "drop_packet ?b1"]) simp_all
  qed
qed

section \<open>Lemmas: wrapping and unwrapping in each mode\<close>

definition sender_ok ::
    "('k, 's, 'h) crypto_api \<Rightarrow> 'k \<Rightarrow> 'h \<Rightarrow> nat \<Rightarrow> time_t \<Rightarrow> ('k, 'h) tls_wrap_ctx \<Rightarrow> buffer \<Rightarrow> packet_id_send \<Rightarrow> bool" where
  "sender_ok api c h n now ctx buf send' =
     (case tw_mode ctx of
        TLS_WRAP_NONE \<Rightarrow> 9 \<le> b_offset buf
      | TLS_WRAP_AUTH \<Rightarrow> auth_key api (co_encrypt (tw_opt ctx)) h n \<and> int n + 17 \<le> b_offset buf
          \<and> packet_id_initialized (co_packet_id (tw_opt ctx)) \<and> co_long_form (tw_opt ctx)
          \<and> packet_id_send_update now (pid_send (co_packet_id (tw_opt ctx))) True = (True, send')
      | TLS_WRAP_CRYPT \<Rightarrow> kc_cipher (co_encrypt (tw_opt ctx)) = Some c \<and> kc_hmac (co_encrypt (tw_opt ctx)) = Some h
          \<and> ctr_mode api c \<and> hmac256 api h \<and> packet_id_initialized (co_packet_id (tw_opt ctx))
          \<and> packet_id_send_update now (pid_send (co_packet_id (tw_opt ctx))) True = (True, send')
          \<and> buf_wf (tw_work ctx) \<and> b_offset buf + b_len buf + 65 \<le> b_capacity (tw_work ctx))"

text \<open>The packet on the wire.\<close>

definition control_packet ::
    "('k, 's, 'h) crypto_api \<Rightarrow> 'k \<Rightarrow> 'h \<Rightarrow> wrap_mode \<Rightarrow> packet_id_send \<Rightarrow> u8 list \<Rightarrow> u8 list \<Rightarrow> u8 list" where
  "control_packet api c h mode send' hdr p =
     (case mode of
        TLS_WRAP_NONE \<Rightarrow> hdr @ p
      | TLS_WRAP_AUTH \<Rightarrow> hdr @ hmac_ctx_compute api h (pid_bytes send' @ hdr @ p) @ pid_bytes send' @ p
      | TLS_WRAP_CRYPT \<Rightarrow> tls_crypt_packet api c h (hdr @ pid_bytes send') p)"

lemma tls_wrap_control_ok:
  assumes "buf_wf buf" and "sid_wf sid" and "sender_ok api c h n now ctx buf send'"
    and "packet_opcode header \<notin> {P_CONTROL_HARD_RESET_CLIENT_V3, P_CONTROL_WKC_V1}"
  obtains w ctx' where "tls_wrap_control api now ctx header buf sid = Some (w, ctx')" "buf_wf w"
    "buf_bytes w = control_packet api c h (tw_mode ctx) send' (header # sid_id sid) (buf_bytes buf)"
proof -
  have sid: "length (sid_id sid) = 8" using assms(2) by (simp add: sid_wf_def)
  note so = assms(3) [unfolded sender_ok_def]
  let ?b1 = "buf_unshift buf (sid_id sid)" and ?b2 = "buf_unshift (buf_unshift buf (sid_id sid)) [header]"
  have pre: "assert_ok (session_id_write_prepend sid buf) = Some ?b1" "assert_ok (buf_write_prepend ?b1 [header]) = Some ?b2"
    "buf_wf ?b2" "buf_bytes ?b2 = header # sid_id sid @ buf_bytes buf" "b_offset ?b2 = b_offset buf - 9"
    if "9 \<le> b_offset buf"
    using that assms(1) sid by (simp_all add: session_id_write_prepend_def buf_simps)
  show thesis
  proof (cases "tw_mode ctx")
    case TLS_WRAP_NONE
    then have "9 \<le> b_offset buf" using so by simp
    note p = pre [OF this]
    show thesis
      by (rule that [of ?b2 ctx])
        (use TLS_WRAP_NONE p in \<open>simp_all add: tls_wrap_control_def control_packet_def\<close>)
  next
    case TLS_WRAP_AUTH
    then have a: "auth_key api (co_encrypt (tw_opt ctx)) h n" "int n + 17 \<le> b_offset buf"
      "packet_id_initialized (co_packet_id (tw_opt ctx))" "co_long_form (tw_opt ctx)"
      "packet_id_send_update now (pid_send (co_packet_id (tw_opt ctx))) True = (True, send')"
      using so by simp_all
    have "9 \<le> b_offset buf" using a(2) by simp
    note p = pre [OF this]
    have l: "0 < b_len ?b2" "int n + 8 \<le> b_offset ?b2"
      using length_buf_bytes_int [OF p(3)] p(4,5) a(2) by simp_all
    obtain b3 where b3: "openvpn_encrypt api now [] ?b2 clear_buf (Some (tw_opt ctx)) = Some (b3, Some (with_send (tw_opt ctx) send'))"
      "buf_wf b3" "buf_bytes b3 = hmac_ctx_compute api h (pid_bytes send' @ buf_bytes ?b2) @ pid_bytes send' @ buf_bytes ?b2"
      by (rule encrypt_auth_ok [OF a(1) p(3) l a(3-5)])
    let ?mac = "hmac_ctx_compute api h (pid_bytes send' @ buf_bytes ?b2)"
    have k: "kc_hmac (if False then co_decrypt (with_send (tw_opt ctx) send') else co_encrypt (with_send (tw_opt ctx) send')) = Some h"
      "hmac_ctx_size api h = int n" "n \<le> 248" "length ?mac = n"
      using a(1) by (simp_all add: auth_key_def)
    have parts: "buf_bytes b3 = (?mac @ pid_bytes send') @ (header # sid_id sid) @ buf_bytes buf"
      using b3(3) p(4) by simp
    have lens: "length (?mac @ pid_bytes send') = (if False then 9 else n + 8)"
      "length (header # sid_id sid) = (if False then n + 8 else 9)" using k(4) sid by simp_all
    obtain b4 where b4: "swap_hmac api b3 (with_send (tw_opt ctx) send') False = Some (True, b4)" "buf_wf b4"
      "buf_bytes b4 = (header # sid_id sid) @ (?mac @ pid_bytes send') @ buf_bytes buf"
      by (rule swap_hmac_ok [OF k(1-3) b3(2) parts lens])
    show thesis
      by (rule that [of b4 "ctx\<lparr>tw_opt := with_send (tw_opt ctx) send'\<rparr>"])
        (use TLS_WRAP_AUTH p(1,2,4) b3(1) b4 in \<open>simp_all add: tls_wrap_control_def control_packet_def\<close>)
  next
    case TLS_WRAP_CRYPT
    then have a: "kc_cipher (co_encrypt (tw_opt ctx)) = Some c" "kc_hmac (co_encrypt (tw_opt ctx)) = Some h"
      "packet_id_initialized (co_packet_id (tw_opt ctx))" "ctr_mode api c" "hmac256 api h"
      "packet_id_send_update now (pid_send (co_packet_id (tw_opt ctx))) True = (True, send')"
      "buf_wf (tw_work ctx)" "b_offset buf + b_len buf + 65 \<le> b_capacity (tw_work ctx)"
      using so by simp_all
    have bo: "0 \<le> b_offset buf" "0 \<le> b_len buf" using assms(1) by (simp_all add: buf_wf_facts)
    let ?w1 = "(tw_work ctx)\<lparr>b_len := 0, b_offset := b_offset buf\<rparr>"
    have w1: "assert_ok (buf_init (tw_work ctx) (b_offset buf)) = Some ?w1" "buf_wf ?w1" "buf_bytes ?w1 = []"
      "buf_tailroom ?w1 = b_capacity (tw_work ctx) - b_offset buf"
      using a(7,8) bo by (simp_all add: buf_init_eq buf_init_wf buf_init_bytes buf_tailroom_def)
    let ?w3 = "buf_push (buf_push ?w1 [header]) (sid_id sid)"
    have w3: "assert_ok (buf_write ?w1 [header]) = Some (buf_push ?w1 [header])"
      "assert_ok (session_id_write sid (buf_push ?w1 [header])) = Some ?w3" "buf_wf ?w3" "buf_bytes ?w3 = header # sid_id sid"
      "buf_tailroom ?w3 = b_capacity (tw_work ctx) - b_offset buf - 9"
      using w1(2-4) a(8) bo sid by (simp_all add: session_id_write_def buf_simps)
    have room: "b_len buf + 56 \<le> buf_tailroom ?w3" using w3(5) a(8) by simp
    obtain w4 where w4: "tls_crypt_wrap api now buf ?w3 (tw_opt ctx) = Some (True, w4, with_send (tw_opt ctx) send')" "buf_wf w4"
      "buf_bytes w4 = tls_crypt_packet api c h (buf_bytes ?w3 @ pid_bytes send') (buf_bytes buf)"
      by (rule tls_crypt_wrap_ok [OF assms(1) w3(3) a(1-6) room])
    show thesis
      by (rule that [of w4 "ctx\<lparr>tw_work := w4, tw_opt := with_send (tw_opt ctx) send'\<rparr>"])
        (use TLS_WRAP_CRYPT assms(4) w1(1) w3(1,2,4) w4 in \<open>simp_all add: tls_wrap_control_def control_packet_def\<close>)
  qed
qed

text \<open>The receiver's side: its keys undo those of the sender (\<open>ce\<close>).\<close>

definition receiver_ok ::
    "('k, 's, 'h) crypto_api \<Rightarrow> 'k \<Rightarrow> 'k \<Rightarrow> 'h \<Rightarrow> nat \<Rightarrow> ('k, 'h) tls_wrap_ctx \<Rightarrow> bool" where
  "receiver_ok api ce cd h n rx \<longleftrightarrow>
     (tw_mode rx \<noteq> TLS_WRAP_NONE \<longrightarrow> packet_id_initialized (co_packet_id (tw_opt rx)) \<and> co_long_form (tw_opt rx)
        \<and> \<not> co_ignore_packet_id (tw_opt rx))
     \<and> (case tw_mode rx of
          TLS_WRAP_NONE \<Rightarrow> kc_cipher (tw_tls_crypt_v2_server_key rx) = None
        | TLS_WRAP_AUTH \<Rightarrow> auth_key api (co_decrypt (tw_opt rx)) h n
        | TLS_WRAP_CRYPT \<Rightarrow> kc_cipher (co_decrypt (tw_opt rx)) = Some cd \<and> kc_hmac (co_decrypt (tw_opt rx)) = Some h
            \<and> ctr_mode api cd \<and> ctr_mode api ce \<and> ctr_inverse api ce cd \<and> ctr_inverse api cd ce \<and> hmac256 api h)"

definition replay_verdict ::
    "time_t \<Rightarrow> ('k, 'h) tls_wrap_ctx \<Rightarrow> packet_id_net \<Rightarrow> (bool \<times> packet_id \<times> packet_id_persist option) option" where
  "replay_verdict now rx pin = crypto_check_replay now True (co_packet_id (tw_opt rx), co_pid_persist (tw_opt rx)) pin"

definition sent_pin :: "packet_id_send \<Rightarrow> packet_id_net" where
  "sent_pin p = \<lparr>n_id = s_id p, n_time = uint (word_of_int (s_time p) :: u32)\<rparr>"

lemma pid_bytes_of: "length bs = 8 \<Longrightarrow>
    pid_bytes \<lparr>s_id = u32_of_bytes (take 4 bs), s_time = uint (u32_of_bytes (drop 4 bs))\<rparr> = bs"
  by (simp add: pid_bytes_def u32_of_bytes_inverse)

lemma first_byte:
  assumes "buf_wf buf" and "0 < b_len buf"
  shows "buf_mem buf ! nat (b_offset buf) = hd (buf_bytes buf)"
proof -
  have "nat (b_offset buf) < length (buf_mem buf)" using assms buf_wf_facts(5,6,8) [OF assms(1)] by linarith
  then show ?thesis
    using assms buf_wf_facts(3) [OF assms(1)] by (simp add: buf_bytes_def memget_def hd_drop_conv_nth hd_take)
qed

text \<open>In each mode: the packet is no packet of the key's holder, or it is and the replay check decides.\<close>

lemma read_auth_cases:
  assumes r: "auth_key api (co_decrypt opt) h n" "packet_id_initialized (co_packet_id opt)" "co_long_form opt"
      "\<not> co_ignore_packet_id opt"
    and wf: "buf_wf buf" "int n + 17 \<le> b_len buf"
  obtains (forged) b b' i where "swap_hmac api buf opt True = Some (True, b)"
      "openvpn_decrypt api now b clear_buf (Some opt) null_frame i = Some (False, b', Some opt)" "b_len b' = 0"
      "i = nat (b_offset b)" "\<And>s p. buf_bytes buf \<noteq> control_packet api c h TLS_WRAP_AUTH s (take 9 (buf_bytes buf)) p"
  | (genuine) b w b' s p where "swap_hmac api buf opt True = Some (True, b)"
      "buf_bytes buf = control_packet api c h TLS_WRAP_AUTH s (take 9 (buf_bytes buf)) p"
      "buf_wf w" "buf_bytes w = take 9 (buf_bytes buf) @ p" "b_len b' = 0"
      "openvpn_decrypt api now b clear_buf (Some opt) null_frame (nat (b_offset b)) =
         map_option (\<lambda>(ok, st). if ok then (True, w, Some (with_replay opt st)) else (False, b', Some (with_replay opt st)))
           (crypto_check_replay now True (co_packet_id opt, co_pid_persist opt) (sent_pin s))"
proof -
  let ?bs = "buf_bytes buf"
  let ?hdr = "take 9 ?bs" and ?mp = "take (n + 8) (drop 9 ?bs)" and ?p = "drop (n + 17) ?bs"
  have len: "int (length ?bs) = b_len buf" by (rule length_buf_bytes_int [OF wf(1)])
  have "drop (n + 8) (drop 9 ?bs) = ?p" by (simp add: add.commute)
  then have parts: "?bs = ?hdr @ ?mp @ ?p" by (metis append_take_drop_id)
  have lens: "length ?hdr = 9" "length ?mp = n + 8" using len wf(2) by simp_all
  have k: "kc_hmac (if True then co_decrypt opt else co_encrypt opt) = Some h" "hmac_ctx_size api h = int n" "n \<le> 248"
    "\<And>x. length (hmac_ctx_compute api h x) = n"
    using r(1) by (simp_all add: auth_key_def)
  have lens': "length ?hdr = (if True then 9 else n + 8)" "length ?mp = (if True then n + 8 else 9)"
    using lens by simp_all
  obtain b where b: "swap_hmac api buf opt True = Some (True, b)" "buf_wf b" "buf_bytes b = ?mp @ ?hdr @ ?p"
    "b_offset b = b_offset buf" "b_capacity b = b_capacity buf"
    by (rule swap_hmac_ok [OF k(1-3) wf(1) parts lens'])
  have bl: "int n + 8 < b_len b" using length_buf_bytes_int [OF b(2)] b(3) lens by simp
  let ?mac = "take n ?mp" and ?pid = "drop n ?mp"
  have tk: "take n (buf_bytes b) = ?mac" "drop n (buf_bytes b) = ?pid @ ?hdr @ ?p" "drop (n + 8) (buf_bytes b) = ?hdr @ ?p"
    using lens by (simp_all add: b(3))
  have pl: "length ?pid = 8" using lens by simp
  show thesis
  proof (rule decrypt_auth_cases [OF r(1) b(2) bl r(2-4), of now "nat (b_offset b)"])
    fix b' assume "openvpn_decrypt api now b clear_buf (Some opt) null_frame (nat (b_offset b)) = Some (False, b', Some opt)"
      "b_len b' = 0" "take n (buf_bytes b) \<noteq> hmac_ctx_compute api h (drop n (buf_bytes b))"
    moreover have "?bs \<noteq> control_packet api c h TLS_WRAP_AUTH s ?hdr p" for s p
    proof
      assume e: "?bs = control_packet api c h TLS_WRAP_AUTH s ?hdr p"
      let ?m = "hmac_ctx_compute api h (pid_bytes s @ ?hdr @ p)"
      have "?hdr @ ?mp @ ?p = ?hdr @ (?m @ pid_bytes s) @ p"
        using trans [OF parts [symmetric] e] by (simp add: control_packet_def)
      then have "?mp @ ?p = (?m @ pid_bytes s) @ p" by (simp only: same_append_eq)
      moreover have "length ?mp = length (?m @ pid_bytes s)" using lens k(4) by simp
      ultimately have mp: "?mp = ?m @ pid_bytes s \<and> ?p = p" by (metis append_eq_append_conv)
      have "take n (?m @ pid_bytes s) = ?m" "drop n (?m @ pid_bytes s) = pid_bytes s" using k(4) by simp_all
      then have "?mac = ?m" "?pid = pid_bytes s" using mp by simp_all
      then show False using \<open>take n (buf_bytes b) \<noteq> _\<close> tk mp by simp
    qed
    ultimately show thesis by (intro forged [OF b(1)]) simp_all
  next
    fix w b'
    assume g: "take n (buf_bytes b) = hmac_ctx_compute api h (drop n (buf_bytes b))" "buf_wf w"
      "buf_bytes w = drop (n + 8) (buf_bytes b)" "b_len b' = 0"
      "openvpn_decrypt api now b clear_buf (Some opt) null_frame (nat (b_offset b)) =
         map_option (\<lambda>(ok, st). if ok then (True, w, Some (with_replay opt st)) else (False, b', Some (with_replay opt st)))
           (crypto_check_replay now True (co_packet_id opt, co_pid_persist opt) (auth_pin n (buf_bytes b)))"
    let ?s = "\<lparr>s_id = u32_of_bytes (take 4 ?pid), s_time = uint (u32_of_bytes (drop 4 ?pid))\<rparr>"
    have s: "pid_bytes ?s = ?pid" by (rule pid_bytes_of [OF pl])
    have mac: "?mac = hmac_ctx_compute api h (?pid @ ?hdr @ ?p)" using g(1) tk by simp
    have mp: "?mac @ ?pid = ?mp" by (rule append_take_drop_id)
    have "control_packet api c h TLS_WRAP_AUTH ?s ?hdr ?p = ?hdr @ ?mac @ ?pid @ ?p"
      by (simp only: control_packet_def wrap_mode.case s mac)
    also have "\<dots> = ?hdr @ ?mp @ ?p" by (simp only: append_assoc [symmetric] mp)
    also have "\<dots> = ?bs" by (rule parts [symmetric])
    finally have pkt: "?bs = control_packet api c h TLS_WRAP_AUTH ?s ?hdr ?p" by simp
    have "auth_pin n (buf_bytes b) = sent_pin ?s"
      using lens pl by (simp add: auth_pin_def sent_pin_def b(3) tk add.commute)
    with g(5) show thesis
      using genuine [OF b(1) pkt g(2) _ g(4)] g(3) tk(3) by simp
  qed
qed

lemma crypt_authentic_packet:
  assumes "crypt_authentic api cd h src" and "49 \<le> length (buf_bytes src)" and "ctr_mode api cd" and "ctr_inverse api cd ce"
    and "hmac256 api h"
  shows "\<exists>s. buf_bytes src = control_packet api ce h TLS_WRAP_CRYPT s (take 9 (buf_bytes src)) (crypt_plain api cd src)
    \<and> crypt_pin src = sent_pin s"
proof -
  let ?bs = "buf_bytes src" and ?p = "crypt_plain api cd src"
  let ?hdr = "take 9 ?bs" and ?pid = "take 8 (drop 9 ?bs)" and ?tag = "crypt_tag src" and ?ct = "drop 49 ?bs"
  let ?s = "\<lparr>s_id = u32_of_bytes (take 4 ?pid), s_time = uint (u32_of_bytes (drop 4 ?pid))\<rparr>"
  have pl: "length ?pid = 8" "length ?tag = 32" using assms(2) by (simp_all add: crypt_tag_def)
  have s: "pid_bytes ?s = ?pid" by (rule pid_bytes_of [OF pl(1)])
  have ad: "crypt_ad src = ?hdr @ ?pid" by (simp add: crypt_ad_def take_add [symmetric])
  have "?bs = take 17 ?bs @ take 32 (drop 17 ?bs) @ drop 32 (drop 17 ?bs)" by (simp only: append_take_drop_id)
  then have parts: "?bs = (?hdr @ ?pid) @ ?tag @ ?ct" using ad by (simp add: crypt_ad_def crypt_tag_def)
  have tag: "?tag = hmac_ctx_compute api h ((?hdr @ ?pid) @ ?p)" using assms(1) ad by (simp add: crypt_authentic_def)
  have "int (length (cipher_iv api cd ?tag)) = cipher_ctx_iv_length api cd"
    by (rule cipher_iv_length [OF assms(3)]) (simp add: pl)
  then have "ctr_out api ce (cipher_iv api cd ?tag) ?p = ?ct"
    using assms(4) by (simp add: ctr_inverse_def crypt_plain_def)
  moreover have "cipher_iv api ce ?tag = cipher_iv api cd ?tag"
    using assms(4) by (simp add: ctr_inverse_def cipher_iv_def)
  ultimately have "control_packet api ce h TLS_WRAP_CRYPT ?s ?hdr ?p = (?hdr @ ?pid) @ ?tag @ ?ct"
    by (simp only: control_packet_def wrap_mode.case tls_crypt_packet_def Let_def s tag [symmetric])
  then have "?bs = control_packet api ce h TLS_WRAP_CRYPT ?s ?hdr ?p" using parts by simp
  moreover have "crypt_pin src = sent_pin ?s"
    by (simp add: crypt_pin_def sent_pin_def take_drop add.commute)
  ultimately show ?thesis by blast
qed

lemma crypt_packet_authentic:
  assumes "buf_bytes src = control_packet api ce h TLS_WRAP_CRYPT s hdr p" and "length hdr = 9" and "ctr_mode api ce"
    and "ctr_inverse api ce cd" and "hmac256 api h"
  shows "crypt_authentic api cd h src" and "49 \<le> length (buf_bytes src)"
    and "crypt_plain api cd src = p" and "crypt_pin src = sent_pin s"
proof -
  let ?tag = "hmac_ctx_compute api h ((hdr @ pid_bytes s) @ p)"
  let ?ct = "ctr_out api ce (cipher_iv api ce ?tag) p"
  have b: "buf_bytes src = hdr @ pid_bytes s @ ?tag @ ?ct"
    using assms(1) by (simp add: control_packet_def tls_crypt_packet_def Let_def)
  have tl: "length ?tag = 32" using assms(5) by (simp only: hmac256_def)
  have tag: "crypt_tag src = ?tag" using assms(2) tl by (simp add: crypt_tag_def b)
  have iv: "cipher_iv api cd ?tag = cipher_iv api ce ?tag" using assms(4) by (simp add: ctr_inverse_def cipher_iv_def)
  have ivl: "int (length (cipher_iv api ce ?tag)) = cipher_ctx_iv_length api ce"
    by (rule cipher_iv_length [OF assms(3)]) (simp only: tl order_refl)
  have "drop 49 (buf_bytes src) = ?ct" using assms(2) tl by (simp add: b)
  then have "crypt_plain api cd src = ctr_out api cd (cipher_iv api ce ?tag) ?ct"
    by (simp only: crypt_plain_def tag iv)
  also have "\<dots> = p" using assms(4) ivl unfolding ctr_inverse_def by blast
  finally show plain: "crypt_plain api cd src = p" .
  have "crypt_ad src = hdr @ pid_bytes s" using assms(2) by (simp add: crypt_ad_def b)
  then show "crypt_authentic api cd h src" using tag plain by (simp add: crypt_authentic_def)
  show "49 \<le> length (buf_bytes src)" using assms(2) tl by (simp add: b)
  show "crypt_pin src = sent_pin s" using assms(2) by (simp add: crypt_pin_def sent_pin_def b pid_bytes_def)
qed

lemma read_crypt_cases:
  assumes r: "kc_cipher (co_decrypt opt) = Some cd" "kc_hmac (co_decrypt opt) = Some h" "packet_id_initialized (co_packet_id opt)"
      "co_long_form opt" "\<not> co_ignore_packet_id opt" "ctr_mode api cd" "ctr_inverse api cd ce" "hmac256 api h"
    and wf: "buf_wf buf" "0 < b_len buf"
    and tmp: "alloc_buf (size_of_int (buf_forward_capacity_total buf)) = Some tmp"
  obtains (forged) b' where "tls_crypt_unwrap api now buf tmp opt = Some (False, b', opt)"
      "\<And>s p. ctr_mode api ce \<Longrightarrow> ctr_inverse api ce cd \<Longrightarrow>
         buf_bytes buf \<noteq> control_packet api ce h TLS_WRAP_CRYPT s (take 9 (buf_bytes buf)) p"
  | (genuine) w b' s p where "buf_bytes buf = control_packet api ce h TLS_WRAP_CRYPT s (take 9 (buf_bytes buf)) p"
      "buf_wf w" "buf_bytes w = p" "int (length p) \<le> b_len buf"
      "tls_crypt_unwrap api now buf tmp opt =
         map_option (\<lambda>(ok, st). if ok then (True, w, with_replay opt st) else (False, b', with_replay opt st))
           (crypto_check_replay now True (co_packet_id opt, co_pid_persist opt) (sent_pin s))"
proof -
  have t: "buf_wf tmp" "b_len tmp = 0"
    using tmp alloc_buf_wf [OF tmp] by (auto simp: alloc_buf_def split: if_splits)
  show thesis
  proof (rule tls_crypt_unwrap_cases [OF wf(1) t(1) wf(2) t(2) r(1,2,3,5,6,8), of now])
    fix d assume d: "tls_crypt_unwrap api now buf tmp opt = Some (False, d, opt)"
      "49 \<le> b_len buf \<Longrightarrow> b_len buf - 33 \<le> buf_tailroom tmp \<Longrightarrow> \<not> crypt_authentic api cd h buf"
    have bl: "int (length (buf_bytes buf)) = b_len buf" by (rule length_buf_bytes_int [OF wf(1)])
    have "buf_tailroom tmp = buf_forward_capacity_total buf"
      using tmp buf_wf_facts(1,5,6,9) [OF wf(1)] wf(2)
      by (auto simp: alloc_buf_def buf_tailroom_def buf_forward_capacity_total_def Let_def BUF_SIZE_MAX_def size_of_int_nonneg
          split: if_splits)
    then have room: "b_len buf - 33 \<le> buf_tailroom tmp"
      using buf_wf_facts(1,6) [OF wf(1)] by (simp add: buf_forward_capacity_total_def Let_def)
    show thesis
    proof (rule forged [OF d(1)])
      fix s p assume lib: "ctr_mode api ce" "ctr_inverse api ce cd"
      show "buf_bytes buf \<noteq> control_packet api ce h TLS_WRAP_CRYPT s (take 9 (buf_bytes buf)) p"
      proof
        assume e: "buf_bytes buf = control_packet api ce h TLS_WRAP_CRYPT s (take 9 (buf_bytes buf)) p"
        have "9 \<le> length (buf_bytes buf)"
          using arg_cong [OF e, of length] by (simp add: control_packet_def tls_crypt_packet_def Let_def)
        then have "length (take 9 (buf_bytes buf)) = 9" by simp
        from crypt_packet_authentic(1,2) [OF e this lib r(8)] d(2) [OF _ room] bl show False by simp
      qed
    qed
  next
    fix w d
    assume g: "49 \<le> b_len buf" "buf_wf w" "crypt_authentic api cd h buf" "buf_bytes w = crypt_plain api cd buf"
      "tls_crypt_unwrap api now buf tmp opt =
         map_option (\<lambda>(ok, st). if ok then (True, w, with_replay opt st) else (False, d, with_replay opt st))
           (crypto_check_replay now (co_long_form opt) (co_packet_id opt, co_pid_persist opt) (crypt_pin buf))"
    have "49 \<le> length (buf_bytes buf)" using length_buf_bytes_int [OF wf(1)] g(1) by linarith
    then obtain s where s: "buf_bytes buf = control_packet api ce h TLS_WRAP_CRYPT s (take 9 (buf_bytes buf)) (crypt_plain api cd buf)"
      "crypt_pin buf = sent_pin s"
      using crypt_authentic_packet [OF g(3) _ r(6,7,8)] by blast
    have tl: "length (crypt_tag buf) = 32" using \<open>49 \<le> length (buf_bytes buf)\<close> by (simp add: crypt_tag_def)
    have "int (length (cipher_iv api cd (crypt_tag buf))) = cipher_ctx_iv_length api cd"
      by (rule cipher_iv_length [OF r(6)]) (simp add: tl)
    then have "length (crypt_plain api cd buf) = length (drop 49 (buf_bytes buf))"
      unfolding crypt_plain_def by (rule ctr_modeE [OF r(6)])
    then have "int (length (crypt_plain api cd buf)) \<le> b_len buf" using length_buf_bytes_int [OF wf(1)] by simp
    then show thesis using genuine [OF s(1) g(2,4)] g(5) s(2) r(4) by simp
  qed
qed

text \<open>All modes: what the verdict says about the packet.\<close>

definition plain_opcode :: "buffer \<Rightarrow> bool" where
  "plain_opcode buf \<longleftrightarrow> packet_opcode (hd (buf_bytes buf)) \<notin> {P_CONTROL_HARD_RESET_CLIENT_V3, P_CONTROL_WKC_V1}"

lemma read_control_auth_cases:
  assumes r: "receiver_ok api ce cd h n rx" and wf: "buf_wf buf" "9 \<le> b_len buf" and op: "plain_opcode buf"
  obtains (rejected) b where "read_control_auth api lk now buf rx v = Some (False, b, rx)"
      "\<And>s p. buf_bytes buf \<noteq> control_packet api ce h (tw_mode rx) s (take 9 (buf_bytes buf)) p"
  | (plain) b where "tw_mode rx = TLS_WRAP_NONE" "read_control_auth api lk now buf rx v = Some (True, b, rx)" "buf_wf b"
      "buf_bytes b = drop 9 (buf_bytes buf)"
  | (genuine) b b' s where "tw_mode rx \<noteq> TLS_WRAP_NONE"
      "buf_bytes buf = control_packet api ce h (tw_mode rx) s (take 9 (buf_bytes buf)) (buf_bytes b)" "buf_wf b"
      "read_control_auth api lk now buf rx v =
         map_option (\<lambda>(ok, st). (ok, if ok then b else b', rx\<lparr>tw_opt := with_replay (tw_opt rx) st\<rparr>))
           (replay_verdict now rx (sent_pin s))"
proof -
  let ?opt = "tw_opt rx"
  have fb: "packet_opcode (buf_mem buf ! nat (b_offset buf)) \<notin> {P_CONTROL_HARD_RESET_CLIENT_V3, P_CONTROL_WKC_V1}"
    using first_byte [OF wf(1)] wf(2) op by (simp add: plain_opcode_def)
  have len: "int (length (buf_bytes buf)) = b_len buf" by (rule length_buf_bytes_int [OF wf(1)])
  have start: "read_control_auth api lk now buf rx v = read_control_unwrap api now buf rx"
    using fb by (simp add: read_control_auth_def)
  show thesis
  proof (cases "tw_mode rx")
    case TLS_WRAP_NONE
    then have k: "kc_cipher (tw_tls_crypt_v2_server_key rx) = None" using r by (simp add: receiver_ok_def)
    show thesis
    proof (rule plain [OF TLS_WRAP_NONE])
      show "read_control_auth api lk now buf rx v = Some (True, buf_skip buf 9, rx)"
        using TLS_WRAP_NONE k wf by (simp add: start read_control_unwrap_def buf_advance_eq SID_SIZE_def)
    qed (use wf in \<open>simp_all add: buf_skip_wf buf_skip_bytes\<close>)
  next
    case TLS_WRAP_AUTH
    then have k: "auth_key api (co_decrypt ?opt) h n" "packet_id_initialized (co_packet_id ?opt)" "co_long_form ?opt"
      "\<not> co_ignore_packet_id ?opt" using r by (simp_all add: receiver_ok_def)
    show thesis
    proof (cases "int n + 17 \<le> b_len buf")
      case False
      have "swap_hmac api buf ?opt True = Some (False, buf)"
        by (rule swap_hmac_short [of ?opt h api n buf]) (use k(1) False in \<open>simp_all add: auth_key_def\<close>)
      then have e: "read_control_auth api lk now buf rx v = Some (False, buf, rx)"
        using TLS_WRAP_AUTH by (simp add: start read_control_unwrap_def)
      have "buf_bytes buf \<noteq> control_packet api ce h TLS_WRAP_AUTH s (take 9 (buf_bytes buf)) p" for s p
      proof
        assume "buf_bytes buf = control_packet api ce h TLS_WRAP_AUTH s (take 9 (buf_bytes buf)) p"
        then have "length (buf_bytes buf) = length (control_packet api ce h TLS_WRAP_AUTH s (take 9 (buf_bytes buf)) p)"
          by (rule arg_cong)
        also have "\<dots> = 9 + n + 8 + length p"
          using wf(2) len k(1) by (simp add: control_packet_def auth_key_def)
        finally have "length (buf_bytes buf) = 9 + n + 8 + length p" .
        then show False using False len by simp
      qed
      then show thesis using rejected [OF e] TLS_WRAP_AUTH by simp
    next
      case True
      show thesis
      proof (rule read_auth_cases [OF k wf(1) True, of now ce])
        fix b b' i
        assume g: "swap_hmac api buf ?opt True = Some (True, b)" "b_len b' = 0" "i = nat (b_offset b)"
          "openvpn_decrypt api now b clear_buf (Some ?opt) null_frame i = Some (False, b', Some ?opt)"
          "\<And>s p. buf_bytes buf \<noteq> control_packet api ce h TLS_WRAP_AUTH s (take 9 (buf_bytes buf)) p"
        have "read_control_auth api lk now buf rx v = Some (False, b', rx)"
          using TLS_WRAP_AUTH g(1-4) by (simp add: start read_control_unwrap_def)
        then show thesis using rejected g(5) TLS_WRAP_AUTH by simp
      next
        fix b w b' s p
        assume g: "swap_hmac api buf ?opt True = Some (True, b)"
          "buf_bytes buf = control_packet api ce h TLS_WRAP_AUTH s (take 9 (buf_bytes buf)) p"
          "buf_wf w" "buf_bytes w = take 9 (buf_bytes buf) @ p" "b_len b' = 0"
          "openvpn_decrypt api now b clear_buf (Some ?opt) null_frame (nat (b_offset b)) =
             map_option (\<lambda>(ok, st). if ok then (True, w, Some (with_replay ?opt st)) else (False, b', Some (with_replay ?opt st)))
               (crypto_check_replay now True (co_packet_id ?opt, co_pid_persist ?opt) (sent_pin s))"
        have wl: "9 \<le> b_len w" using length_buf_bytes_int [OF g(3)] g(4) wf(2) len by simp
        have adv: "snd (buf_advance w (SID_SIZE + 1)) = buf_skip w 9" using g(3) wl by (simp add: buf_advance_eq SID_SIZE_def)
        have res: "read_control_auth api lk now buf rx v =
            map_option (\<lambda>(ok, st). (ok, if ok then buf_skip w 9 else b', rx\<lparr>tw_opt := with_replay ?opt st\<rparr>))
              (replay_verdict now rx (sent_pin s))"
          using TLS_WRAP_AUTH g(1,5,6) wl adv
          by (cases "crypto_check_replay now True (co_packet_id ?opt, co_pid_persist ?opt) (sent_pin s)")
            (auto simp: start read_control_unwrap_def replay_verdict_def)
        have p: "buf_wf (buf_skip w 9)" "buf_bytes (buf_skip w 9) = p"
          using g(3,4) wl wf(2) len by (simp_all add: buf_skip_wf buf_skip_bytes)
        have "buf_bytes buf = control_packet api ce h (tw_mode rx) s (take 9 (buf_bytes buf)) (buf_bytes (buf_skip w 9))"
          unfolding TLS_WRAP_AUTH p(2) by (rule g(2))
        from genuine [OF _ this p(1) res] show thesis by (simp add: TLS_WRAP_AUTH)
      qed
    qed
  next
    case TLS_WRAP_CRYPT
    then have k: "kc_cipher (co_decrypt ?opt) = Some cd" "kc_hmac (co_decrypt ?opt) = Some h" "packet_id_initialized (co_packet_id ?opt)"
      "co_long_form ?opt" "\<not> co_ignore_packet_id ?opt" "ctr_mode api cd" "ctr_inverse api cd ce" "hmac256 api h"
      and lib: "ctr_mode api ce" "ctr_inverse api ce cd" using r by (simp_all add: receiver_ok_def)
    have bf: "0 \<le> buf_forward_capacity_total buf" "buf_forward_capacity_total buf < int BUF_SIZE_MAX"
      using buf_wf_facts(1,4,5,6,9) [OF wf(1)] by (auto simp: buf_forward_capacity_total_def Let_def BUF_SIZE_MAX_def)
    then have "size_of_int (buf_forward_capacity_total buf) < BUF_SIZE_MAX"
      by (simp add: BUF_SIZE_MAX_def size_of_int_nonneg)
    then obtain tmp where tmp: "alloc_buf (size_of_int (buf_forward_capacity_total buf)) = Some tmp"
      by (rule alloc_buf_ok)
    have pos: "0 < b_len buf" using wf(2) by simp
    show thesis
    proof (rule read_crypt_cases [OF k wf(1) pos tmp, of now])
      fix b' assume g: "tls_crypt_unwrap api now buf tmp ?opt = Some (False, b', ?opt)"
        "\<And>s p. ctr_mode api ce \<Longrightarrow> ctr_inverse api ce cd \<Longrightarrow>
           buf_bytes buf \<noteq> control_packet api ce h TLS_WRAP_CRYPT s (take 9 (buf_bytes buf)) p"
      have "read_control_auth api lk now buf rx v = Some (False, buf, rx)"
        using TLS_WRAP_CRYPT tmp g(1) by (simp add: start read_control_unwrap_def)
      then show thesis using rejected g(2) lib TLS_WRAP_CRYPT by simp
    next
      fix w b' s p
      assume g: "buf_bytes buf = control_packet api ce h TLS_WRAP_CRYPT s (take 9 (buf_bytes buf)) p"
        "buf_wf w" "buf_bytes w = p" "int (length p) \<le> b_len buf"
        "tls_crypt_unwrap api now buf tmp ?opt =
           map_option (\<lambda>(ok, st). if ok then (True, w, with_replay ?opt st) else (False, b', with_replay ?opt st))
             (crypto_check_replay now True (co_packet_id ?opt, co_pid_persist ?opt) (sent_pin s))"
      let ?b1 = "buf\<lparr>b_len := 0, b_offset := b_offset buf\<rparr>"
      have b1: "assert_ok (buf_init buf (b_offset buf)) = Some ?b1" "buf_wf ?b1" "buf_bytes ?b1 = []"
        "int (length p) \<le> buf_tailroom ?b1"
        using wf g(4) buf_wf_facts(4,5,6) [OF wf(1)] buf_init_wf [OF wf(1), of "b_offset buf"] buf_init_bytes [where b = buf and n = "b_offset buf"]
        by (simp_all add: buf_init_eq buf_tailroom_def)
      have b2: "assert_ok (buf_copy ?b1 w) = Some (buf_push ?b1 p)" "buf_wf (buf_push ?b1 p)" "buf_bytes (buf_push ?b1 p) = p"
        using b1(2-4) g(3) by (simp_all add: buf_copy_def buf_simps)
      have res: "read_control_auth api lk now buf rx v =
          map_option (\<lambda>(ok, st). (ok, if ok then buf_push ?b1 p else buf, rx\<lparr>tw_opt := with_replay ?opt st\<rparr>))
            (replay_verdict now rx (sent_pin s))"
        using TLS_WRAP_CRYPT tmp g(5) b1(1) b2(1)
        by (cases "crypto_check_replay now True (co_packet_id ?opt, co_pid_persist ?opt) (sent_pin s)")
          (auto simp: start read_control_unwrap_def replay_verdict_def)
      have "buf_bytes buf = control_packet api ce h (tw_mode rx) s (take 9 (buf_bytes buf)) (buf_bytes (buf_push ?b1 p))"
        unfolding TLS_WRAP_CRYPT b2(3) by (rule g(1))
      from genuine [OF _ this b2(2) res] show thesis by (simp add: TLS_WRAP_CRYPT)
    qed
  qed
qed

section \<open>Properties\<close>

definition replay_ready :: "('k, 'h) tls_wrap_ctx \<Rightarrow> bool" where
  "replay_ready rx \<longleftrightarrow> (\<exists>A. udp_inv (co_packet_id (tw_opt rx), co_pid_persist (tw_opt rx)) A
     \<or> tcp_inv (co_packet_id (tw_opt rx), co_pid_persist (tw_opt rx)) A)"

lemma replay_ready_total:
  assumes "replay_ready rx" and "1 < now"
  obtains ok st where "replay_verdict now rx pin = Some (ok, st)"
  using assms udp_check_step [OF _ assms(2)] tcp_check_step unfolding replay_ready_def replay_verdict_def by blast


lemma pid_bytes_pin: "pid_bytes s = pid_bytes s' \<Longrightarrow> sent_pin s = sent_pin s'"
proof -
  assume e: "pid_bytes s = pid_bytes s'"
  then have "take 4 (pid_bytes s) = take 4 (pid_bytes s')" "drop 4 (pid_bytes s) = drop 4 (pid_bytes s')" by simp_all
  then show ?thesis by (simp add: pid_bytes_def sent_pin_def u32_bytes_inject)
qed

lemma control_packet_inject:
  assumes "receiver_ok api ce cd h n rx" and "tw_mode rx \<noteq> TLS_WRAP_NONE" and "length hdr = 9"
    and "buf_bytes r = control_packet api ce h (tw_mode rx) s hdr p"
    and "buf_bytes r = control_packet api ce h (tw_mode rx) s' hdr p'"
  shows "p' = p \<and> sent_pin s' = sent_pin s"
proof (cases "tw_mode rx")
  case TLS_WRAP_AUTH
  then have "\<And>x. length (hmac_ctx_compute api h x) = n" using assms(1) by (simp add: receiver_ok_def auth_key_def)
  moreover have "hdr @ hmac_ctx_compute api h (pid_bytes s @ hdr @ p) @ pid_bytes s @ p
      = hdr @ hmac_ctx_compute api h (pid_bytes s' @ hdr @ p') @ pid_bytes s' @ p'"
    using trans [OF assms(4) [symmetric] assms(5)] TLS_WRAP_AUTH by (simp add: control_packet_def)
  ultimately have "pid_bytes s @ p = pid_bytes s' @ p'" by (metis append_eq_append_conv same_append_eq)
  then have "pid_bytes s = pid_bytes s' \<and> p = p'" by (metis append_eq_append_conv length_pid_bytes)
  then show ?thesis using pid_bytes_pin [of s s'] by simp
next
  case TLS_WRAP_CRYPT
  then have k: "ctr_mode api ce" "ctr_inverse api ce cd" "hmac256 api h" using assms(1) by (simp_all add: receiver_ok_def)
  have "crypt_plain api cd r = p" "crypt_pin r = sent_pin s"
    by (rule crypt_packet_authentic [OF _ assms(3) k], rule assms(4) [unfolded TLS_WRAP_CRYPT])+
  moreover have "crypt_plain api cd r = p'" "crypt_pin r = sent_pin s'"
    by (rule crypt_packet_authentic [OF _ assms(3) k], rule assms(5) [unfolded TLS_WRAP_CRYPT])+
  ultimately show ?thesis by simp
qed (use assms(2) in simp)

text \<open>
  C8: A wrapped control packet is unwrapped by the peer. In each of the three wrapping modes the
  packet a sender wraps, received in any buffer, is accepted by the receiver with the matching
  key and yields exactly the payload, provided the receiver's replay check accepts the packet id
  the sender used.
\<close>

theorem control_packet_roundtrip:
  assumes "buf_wf buf" and "sid_wf sid" and "packet_opcode header \<notin> {P_CONTROL_HARD_RESET_CLIENT_V3, P_CONTROL_WKC_V1}"
    and tx: "sender_ok api ce h n now tx buf send'"
    and rx: "receiver_ok api ce cd h n rx" "tw_mode rx = tw_mode tx"
    and fresh: "tw_mode rx \<noteq> TLS_WRAP_NONE \<Longrightarrow> replay_verdict rnow rx (sent_pin send') = Some (True, st)"
  shows "\<exists>w tx'. tls_wrap_control api now tx header buf sid = Some (w, tx')
    \<and> (\<forall>r. buf_wf r \<and> buf_bytes r = buf_bytes w \<longrightarrow>
         (\<exists>b rx'. read_control_auth api lk rnow r rx v = Some (True, b, rx') \<and> buf_bytes b = buf_bytes buf))"
proof -
  let ?hdr = "header # sid_id sid"
  have hl: "length ?hdr = 9" using assms(2) by (simp add: sid_wf_def)
  obtain w tx' where w: "tls_wrap_control api now tx header buf sid = Some (w, tx')"
    "buf_bytes w = control_packet api ce h (tw_mode tx) send' ?hdr (buf_bytes buf)"
    by (rule tls_wrap_control_ok [OF assms(1,2) tx assms(3)])
  have "\<exists>b rx'. read_control_auth api lk rnow r rx v = Some (True, b, rx') \<and> buf_bytes b = buf_bytes buf"
    if r: "buf_wf r" "buf_bytes r = buf_bytes w" for r
  proof -
    have rb: "buf_bytes r = control_packet api ce h (tw_mode rx) send' ?hdr (buf_bytes buf)"
      using r(2) w(2) rx(2) by simp
    have hd9: "\<exists>rest. buf_bytes r = ?hdr @ rest"
      unfolding rb by (cases "tw_mode rx") (simp_all add: control_packet_def tls_crypt_packet_def Let_def)
    then have t9: "take 9 (buf_bytes r) = ?hdr" and op: "plain_opcode r" and l9: "9 \<le> length (buf_bytes r)"
      using hl assms(3) by (auto simp: plain_opcode_def)
    have len: "9 \<le> b_len r" using l9 length_buf_bytes_int [OF r(1)] by simp
    show ?thesis
    proof (rule read_control_auth_cases [OF rx(1) r(1) len op, where lk = lk and now = rnow and v = v])
      assume "\<And>s p. buf_bytes r \<noteq> control_packet api ce h (tw_mode rx) s (take 9 (buf_bytes r)) p"
      then show ?thesis using rb unfolding t9 by blast
    next
      fix b assume p: "tw_mode rx = TLS_WRAP_NONE" "read_control_auth api lk rnow r rx v = Some (True, b, rx)"
        "buf_bytes b = drop 9 (buf_bytes r)"
      have "buf_bytes b = buf_bytes buf" using p(1,3) rb hl by (simp add: control_packet_def)
      with p(2) show ?thesis by blast
    next
      fix b b' s
      assume g: "tw_mode rx \<noteq> TLS_WRAP_NONE"
        "buf_bytes r = control_packet api ce h (tw_mode rx) s (take 9 (buf_bytes r)) (buf_bytes b)"
        "read_control_auth api lk rnow r rx v =
           map_option (\<lambda>(ok, st). (ok, if ok then b else b', rx\<lparr>tw_opt := with_replay (tw_opt rx) st\<rparr>))
             (replay_verdict rnow rx (sent_pin s))"
      have "buf_bytes b = buf_bytes buf \<and> sent_pin s = sent_pin send'"
        by (rule control_packet_inject [OF rx(1) g(1) hl rb g(2) [unfolded t9]])
      with g(3) fresh [OF g(1)] show ?thesis by simp
    qed
  qed
  with w(1) show ?thesis by blast
qed

text \<open>
  C30: The check of the handshake's session id accepts what it should reject. The code takes a
  non-zero result of \<open>memcmp_constant_time\<close>, which is a difference, for a match: a client's
  acknowledgement is accepted if and only if the session id in it differs from at least one of
  the four ids the server may have sent, so that an id the server never sent is accepted.
\<close>

theorem session_id_check_inverted:
  assumes "0 < handwindow" and "length (sid_id sid) = 8" and "\<forall>x. 8 \<le> length (hmac_ctx_compute api hm x)"
    and "reliable_ack_parse (tp_newbuf state) ack (tp_server_session_id state) = (True, ack', sid, b)"
  shows "check_session_id_hmac api now ack state (Some addr) hm handwindow
    = Some (\<exists>off \<in> {-2, -1, 0, 1}. calculate_session_id_hmac api now (tp_peer_session_id state) addr hm handwindow off \<noteq> Some sid,
            state\<lparr>tp_server_session_id := sid\<rparr>)"
proof -
  let ?calc = "calculate_session_id_hmac api now (tp_peer_session_id state) addr hm handwindow"
  have slot: "(handwindow + 1) sdiv 2 \<noteq> 0" using assms(1) by (simp add: signed_divide_int_def)
  then have "\<exists>e. ?calc off = Some e \<and> length (sid_id e) = 8" for off
    using assms(3) by (simp add: calculate_session_id_hmac_def Let_def)
  then obtain e where e: "\<And>off. ?calc off = Some (e off)" "\<And>off. length (sid_id (e off)) = 8" by metis
  have m: "memcmp_constant_time (sid_id (e off)) (sid_id sid) (nat SID_SIZE) = 0 \<longleftrightarrow> e off = sid" for off
  proof -
    have "e off = sid \<longleftrightarrow> sid_id (e off) = sid_id sid" by (cases "e off"; cases sid) simp
    then show ?thesis using memcmp_constant_time_zero [OF e(2) assms(2), of off] by (simp add: SID_SIZE_def)
  qed
  have "try_session_ids api now (tp_peer_session_id state) sid addr hm handwindow offs = Some (\<exists>off \<in> set offs. e off \<noteq> sid)" for offs
    by (induction offs) (simp_all add: e(1) m)
  then show ?thesis using assms(4) e(1)
    by (simp add: check_session_id_hmac_def Let_def del: try_session_ids.simps)
qed

text \<open>
  C31: A packet that is nothing but a wrapped client key stops the server. When the first byte of
  the wrapped key happens to be the opcode of a client reset, the packet passes the checks, the
  key is unwrapped and cut off, and what remains to be unwrapped is empty, which \<open>tls_crypt_unwrap\<close>
  asserts not to happen.
\<close>

theorem naked_client_key_aborts:
  assumes "length keys = 256" and "length meta \<le> 734"
    and server: "kc_cipher (tw_tls_crypt_v2_server_key (ta_tls_wrap tas)) = Some c"
      "kc_hmac (tw_tls_crypt_v2_server_key (ta_tls_wrap tas)) = Some h"
    and library: "ctr_mode api c" "ctr_mode api ce" "hmac256 api h" "ctr_inverse api ce c"
    and packet: "buf_wf buf" "buf_bytes buf = wrapped_key api ce h (keys @ meta)"
    and byte: "buf_bytes buf ! 0 = push_bit 3 P_CONTROL_HARD_RESET_CLIENT_V3"
      "take 8 (drop 1 (buf_bytes buf)) \<noteq> replicate 8 0"
    and junk: "int (length junk) = b_capacity buf"
  shows "tls_pre_decrypt_lite api lk now junk tas state buf = None"
proof -
  let ?x = "keys @ meta"
  have wl: "length (wrapped_key api ce h ?x) = length ?x + 34" by (rule wrapped_key_length [OF library(2,3)])
  have len: "b_len buf = int (length ?x) + 34" using length_buf_bytes_int [OF packet(1)] packet(2) wl by simp
  have ne: "buf_bytes buf \<noteq> []" using packet(2) wl by (metis Suc_eq_plus1 add_is_0 length_0_conv numeral_eq_Suc Zero_not_Suc)
  have "0 < b_len buf" using len by simp
  then have fb: "buf_mem buf ! nat (b_offset buf) = 80"
    using first_byte [OF packet(1)] byte(1) ne by (simp add: hd_conv_nth opcode_defs)
  have op: "packet_opcode 80 = P_CONTROL_HARD_RESET_CLIENT_V3" "packet_key_id 80 = 0"
    by (simp_all add: packet_opcode_def packet_key_id_def opcode_defs P_OPCODE_SHIFT_def P_KEY_ID_MASK_def)
  let ?c = "clone_buf junk buf"
  have c: "buf_wf ?c" "buf_bytes ?c = wrapped_key api ce h ?x"
    using clone_buf_props [OF packet(1) junk] packet(2) by simp_all
  have cl: "b_len ?c = int (length ?x) + 34" "buf_len ?c = int (length ?x) + 34"
    using length_buf_bytes_int [OF c(1)] c(2) wl buf_wf_facts(3) [OF c(1)] by simp_all
  have cb: "buf_mem ?c ! nat (b_offset ?c) = 80"
    using first_byte [OF c(1)] first_byte [OF packet(1)] fb cl(1) len c(2) packet(2) by simp
  have net: "drop (nat (int (length ?x) + 34) - 2) (buf_bytes ?c) = u16_bytes (word_of_nat (length ?x + 34))"
  proof -
    have "buf_bytes ?c = (take (length ?x + 32) (buf_bytes ?c)) @ u16_bytes (word_of_nat (length ?x + 34))"
      using c(2) wl by (simp add: wrapped_key_def Let_def)
    moreover have "nat (int (length ?x) + 34) - 2 = length (take (length ?x + 32) (buf_bytes ?c))"
      using c(2) wl by (simp add: nat_add_distrib)
    ultimately show ?thesis by (metis append_eq_conv_conj)
  qed
  have "uint (u16_of_bytes (u16_bytes (word_of_nat (length ?x + 34)))) = int (length ?x + 34)"
    unfolding u16_bytes_inverse using assms(1,2) by (intro uint_u16_of_nat) simp
  then have nv: "uint (u16_of_bytes (u16_bytes (word_of_nat (length ?x + 34)))) = int (length ?x) + 34" by simp
  have skip: "buf_advance ?c (int (length ?x) + 34 - (int (length ?x) + 34)) = (True, ?c)"
    using c(1) cl(1) by (simp add: buf_advance_eq buf_skip_def)
  have md: "TLS_CRYPT_V2_MAX_METADATA_LEN = 734" by (simp add: tls_crypt_v2_consts tls_crypt_consts)
  have "734 < BUF_SIZE_MAX" by (simp add: BUF_SIZE_MAX_def)
  then obtain m where m: "alloc_buf 734 = Some m" "buf_wf m" "buf_tailroom m = int 734" by (rule alloc_buf_ok)
  have room: "int (length meta) \<le> buf_tailroom m" using assms(2) m(3) by simp
  have unwrap: "tls_crypt_v2_unwrap_client_key api m ?c (tw_tls_crypt_v2_server_key (ta_tls_wrap tas)) = Some (True, keys, buf_push m meta)"
    by (rule unwrap_client_key_ok [OF refl assms(1,2) c m(2) room server library])
  have cut: "buf_inc_len ?c (- (int (length ?x) + 34)) = (True, ?c\<lparr>b_len := 0\<rparr>)"
    using c(1) cl(1) assms(1,2) by (auto elim!: buf_wfE simp: buf_inc_len_def buf_safe_bidir_def buf_valid_def
        buf_size_valid_signed_def BUF_SIZE_MAX_def Let_def)
  have ex: "\<exists>ctx. tls_crypt_v2_extract_client_key api lk None ?c (ta_tls_wrap tas) = Some (True, ?c\<lparr>b_len := 0\<rparr>, ctx)
      \<and> tw_mode ctx = TLS_WRAP_CRYPT"
    using server(1) cl(2) net nv skip m(1) unwrap cut
    by (simp add: tls_crypt_v2_extract_client_key_def Let_def md split: prod.splits)
  have none: "read_control_unwrap api now (?c\<lparr>b_len := 0\<rparr>) ctx = None" if "tw_mode ctx = TLS_WRAP_CRYPT" for ctx
    using that by (cases "alloc_buf (size_of_int (buf_forward_capacity_total (?c\<lparr>b_len := 0\<rparr>)))")
      (simp_all add: read_control_unwrap_def tls_crypt_unwrap_def)
  have read: "read_control_auth api lk now ?c (ta_tls_wrap tas) None = None"
    using ex none cb by (auto simp: read_control_auth_def op)
  have sid: "session_id_read (tp_peer_session_id state) (snd (buf_advance buf 1))
      = (True, \<lparr>sid_id = take 8 (drop 1 (buf_bytes buf))\<rparr>, buf_skip (buf_skip buf 1) 8)"
    using packet(1) len by (simp add: session_id_read_def buf_simps SID_SIZE_def)
  show ?thesis
    using len fb op sid byte(2) read
    by (simp add: tls_pre_decrypt_lite_def SID_SIZE_def session_id_defined_def x_session_id_zero_def)
qed

section \<open>Witnesses\<close>

definition demo_wrap :: "wrap_mode \<Rightarrow> (u8, u8) key_ctx \<Rightarrow> (u8, u8) tls_wrap_ctx" where
  "demo_wrap mode key = \<lparr>tw_mode = mode, tw_opt = demo_crypt_opt\<lparr>co_encrypt := key, co_decrypt := key\<rparr>, tw_work = demo_block 0 [],
     tw_tls_crypt_v2_server_key = demo_crypt_ctx, tw_tls_crypt_v2_wkc = None, tw_tls_crypt_v2_metadata = clear_buf,
     tw_cleanup_key_ctx = False, tw_original_wrap_keydata = []\<rparr>"

definition demo_auth_ctx :: "(u8, u8) key_ctx" where
  "demo_auth_ctx = \<lparr>kc_cipher = None, kc_hmac = Some 3, kc_implicit_iv = []\<rparr>"

lemma demo_wrap_fields:
  "tw_mode (demo_wrap m k) = m" "co_encrypt (tw_opt (demo_wrap m k)) = k" "co_decrypt (tw_opt (demo_wrap m k)) = k"
  "packet_id_initialized (co_packet_id (tw_opt (demo_wrap m k)))" "co_long_form (tw_opt (demo_wrap m k))"
  "\<not> co_ignore_packet_id (tw_opt (demo_wrap m k))"
  "packet_id_send_update 100 (pid_send (co_packet_id (tw_opt (demo_wrap m k)))) True = (True, \<lparr>s_id = 1, s_time = 100\<rparr>)"
  by (simp_all add: demo_wrap_def demo_crypt_opt_def packet_id_initialized_def packet_id_init_def packet_id_clear_def
      packet_id_send_update_def Let_def PACKET_ID_MAX_def)

lemma demo_receivers:
  "receiver_ok demo_ctr 7 7 3 32 (demo_wrap TLS_WRAP_AUTH demo_auth_ctx)"
  "receiver_ok demo_ctr 7 7 3 32 (demo_wrap TLS_WRAP_CRYPT demo_crypt_ctx)"
  using demo_ctr_ok by (simp_all add: receiver_ok_def demo_wrap_fields auth_key_def hmac256_def)
    (simp_all add: demo_auth_ctx_def demo_crypt_ctx_def)

lemma demo_replay_ready: "replay_ready (demo_wrap m k)"
proof -
  have "packet_id_init 0 0 ''TLS'' 0 = Some (co_packet_id (tw_opt (demo_wrap m k)))"
    by (simp add: demo_wrap_def demo_crypt_opt_def packet_id_init_def Let_def)
  from packet_id_init_inv [OF this, of "co_pid_persist (tw_opt (demo_wrap m k))"] show ?thesis
    by (auto simp: replay_ready_def)
qed


theorem control_packet_roundtrip_witness:
  "\<exists>w tx'. tls_wrap_control demo_ctr 100 (demo_wrap TLS_WRAP_AUTH demo_auth_ctx) 56 (demo_block 49 [10, 20])
        \<lparr>sid_id = [1, 2, 3, 4, 5, 6, 7, 8]\<rparr> = Some (w, tx')
     \<and> (\<forall>r. buf_wf r \<and> buf_bytes r = buf_bytes w \<longrightarrow>
          (\<exists>b rx'. read_control_auth demo_ctr (\<lambda>x. (demo_crypt_ctx, demo_crypt_ctx)) 100 r
              (demo_wrap TLS_WRAP_AUTH demo_auth_ctx) None = Some (True, b, rx') \<and> buf_bytes b = buf_bytes (demo_block 49 [10, 20])))"
proof -
  have "map_option fst (replay_verdict 100 (demo_wrap TLS_WRAP_AUTH demo_auth_ctx) (sent_pin \<lparr>s_id = 1, s_time = 100\<rparr>)) = Some True"
    by code_simp
  then obtain st where st: "replay_verdict 100 (demo_wrap TLS_WRAP_AUTH demo_auth_ctx) (sent_pin \<lparr>s_id = 1, s_time = 100\<rparr>) = Some (True, st)"
    by auto
  show ?thesis
  proof (rule control_packet_roundtrip [where ce = 7 and cd = 7 and h = 3 and n = 32 and send' = "\<lparr>s_id = 1, s_time = 100\<rparr>" and st = st])
    show "buf_wf (demo_block 49 [10, 20])" using demo_block_ok [of 49 "[10, 20]"] by simp
    show "packet_opcode 56 \<notin> {P_CONTROL_HARD_RESET_CLIENT_V3, P_CONTROL_WKC_V1}"
      by (simp add: packet_opcode_def opcode_defs P_OPCODE_SHIFT_def)
    show "sender_ok demo_ctr 7 3 32 100 (demo_wrap TLS_WRAP_AUTH demo_auth_ctx) (demo_block 49 [10, 20]) \<lparr>s_id = 1, s_time = 100\<rparr>"
      using demo_receivers(1) by (simp add: sender_ok_def receiver_ok_def demo_wrap_fields) (simp add: demo_block_def)
    show "receiver_ok demo_ctr 7 7 3 32 (demo_wrap TLS_WRAP_AUTH demo_auth_ctx)" by (rule demo_receivers(1))
  qed (simp_all add: st sid_wf_def)
qed

definition demo_state :: "(u8, u8) tls_pre_decrypt_state" where
  "demo_state = \<lparr>tp_tls_wrap_tmp = demo_wrap TLS_WRAP_NONE demo_auth_ctx,
     tp_newbuf = demo_block 0 [1, 0, 0, 0, 0, 9, 9, 9, 9, 9, 9, 9, 9],
     tp_peer_session_id = \<lparr>sid_id = [1, 2, 3, 4, 5, 6, 7, 8]\<rparr>, tp_server_session_id = \<lparr>sid_id = replicate 8 0\<rparr>\<rparr>"

text \<open>Eight nines are accepted as the id of the server, which would have sent eight times 73 or so.\<close>

theorem session_id_check_inverted_witness:
  "map_option fst (check_session_id_hmac demo_ctr 1000 \<lparr>ra_len = 0, ra_packet_id = replicate 8 0\<rparr> demo_state (Some (SA_IN4 [])) 3 60)
    = Some True
   \<and> calculate_session_id_hmac demo_ctr 1000 \<lparr>sid_id = [1, 2, 3, 4, 5, 6, 7, 8]\<rparr> (SA_IN4 []) 3 60 0 \<noteq> Some \<lparr>sid_id = replicate 8 9\<rparr>"
proof -
  let ?ack = "\<lparr>ra_len = 0, ra_packet_id = replicate 8 (0 :: u32)\<rparr>" and ?sid = "\<lparr>sid_id = replicate 8 (9 :: u8)\<rparr>"
  let ?P = "reliable_ack_parse (tp_newbuf demo_state) ?ack (tp_server_session_id demo_state)"
  have "fst ?P = True" "fst (snd (snd ?P)) = ?sid" by code_simp+
  then obtain ack' b where p: "?P = (True, ack', ?sid, b)" by (cases ?P) auto
  have h: "\<forall>x. 8 \<le> length (hmac_ctx_compute demo_ctr 3 x)" by (simp add: demo_ctr_def)
  have c: "calculate_session_id_hmac demo_ctr 1000 \<lparr>sid_id = [1, 2, 3, 4, 5, 6, 7, 8]\<rparr> (SA_IN4 []) 3 60 0 \<noteq> Some ?sid" by code_simp
  have "tp_peer_session_id demo_state = \<lparr>sid_id = [1, 2, 3, 4, 5, 6, 7, 8]\<rparr>" by (simp add: demo_state_def)
  with session_id_check_inverted [OF _ _ h p, of 60 1000 "SA_IN4 []"] c show ?thesis by simp
qed

definition demo_naked_key :: buffer where
  "demo_naked_key = \<lparr>b_capacity = 290, b_offset = 0, b_len = 290,
     b_data = Some (wrapped_key demo_ctr 7 3 ((42 # replicate 255 0) @ []))\<rparr>"

lemma demo_naked_key_bytes:
  "buf_wf demo_naked_key" "b_capacity demo_naked_key = 290"
  "buf_bytes demo_naked_key = wrapped_key demo_ctr 7 3 ((42 # replicate 255 0) @ [])"
  "take 9 (buf_bytes demo_naked_key) = replicate 9 80"
proof -
  let ?x = "(42 # replicate 255 0) @ [] :: u8 list"
  have l: "length (wrapped_key demo_ctr 7 3 ?x) = 290" using wrapped_key_length [OF demo_ctr_ok(1,4)] by simp
  then show "buf_wf demo_naked_key" and c: "b_capacity demo_naked_key = 290"
    by (simp_all add: demo_naked_key_def buf_wf_def BUF_SIZE_MAX_def)
  show b: "buf_bytes demo_naked_key = wrapped_key demo_ctr 7 3 ?x"
    using l by (simp add: demo_naked_key_def buf_bytes_def buf_mem_def buf_len_def buf_valid_def memget_def)
  have "length ?x + 34 = 290" by simp
  moreover have "u16_bytes (word_of_nat 290) = [1, 34 :: u8]" by code_simp
  moreover have "sum_list ([1, 34] @ ?x) = 77" by (simp add: sum_list_replicate)
  ultimately have "hmac_ctx_compute demo_ctr 3 (u16_bytes (word_of_nat (length ?x + 34)) @ ?x) = replicate 32 80"
    by (simp only: demo_ctr_def crypto_api.simps) simp
  then show "take 9 (buf_bytes demo_naked_key) = replicate 9 80"
    unfolding b wrapped_key_def Let_def by simp
qed

theorem naked_client_key_aborts_witness:
  "tls_pre_decrypt_lite demo_ctr (\<lambda>x. (demo_crypt_ctx, demo_crypt_ctx)) 100 (replicate 290 0)
     \<lparr>ta_tls_wrap = demo_wrap TLS_WRAP_NONE demo_auth_ctx, ta_workbuf = clear_buf, ta_frame = null_frame\<rparr>
     demo_state demo_naked_key = None"
proof (rule naked_client_key_aborts [where c = 7 and ce = 7 and h = 3 and keys = "42 # replicate 255 0" and meta = "[]"])
  have "buf_bytes demo_naked_key ! 0 = take 9 (buf_bytes demo_naked_key) ! 0" by simp
  then show "buf_bytes demo_naked_key ! 0 = push_bit 3 P_CONTROL_HARD_RESET_CLIENT_V3"
    by (simp only: demo_naked_key_bytes(4)) (simp add: opcode_defs)
  have "take 8 (drop 1 (buf_bytes demo_naked_key)) = drop 1 (take 9 (buf_bytes demo_naked_key))"
    by (simp add: take_drop)
  then show "take 8 (drop 1 (buf_bytes demo_naked_key)) \<noteq> replicate 8 0"
    by (simp only: demo_naked_key_bytes(4)) simp
qed (simp_all add: demo_naked_key_bytes(1-3) demo_ctr_ok demo_wrap_def demo_crypt_ctx_def)

end
