(* ===== verification/KeyExchange.thy ===== *)
theory KeyExchange
  imports ReliableAck Crypto
begin

text \<open>
  The key exchange over the control channel (key method 2) and the data channel keys made from
  it, in \<open>ssl.c\<close> and \<open>crypto.c\<close>: the length-prefixed strings, the message each end writes and
  reads, the key material derived from the random sources of both, and the key contexts of the
  two directions.

  A C string is the list of its bytes before the terminating zero. Arguments of the model are the
  bytes the random generator returns, the pseudo-random function of the TLS library, the
  initialisation of a key context by the crypto library, and the answers of the code that checks
  user names, options and plugins.
\<close>

section \<open>Strings\<close>

definition cstr :: "u8 list \<Rightarrow> u8 list" where
  "cstr bs = takeWhile (\<lambda>c. c \<noteq> 0) bs"

definition write_empty_string :: "buffer \<Rightarrow> bool \<times> buffer" where
  "write_empty_string b = buf_write_u16 b 0"

definition write_string :: "buffer \<Rightarrow> u8 list \<Rightarrow> int \<Rightarrow> bool \<times> buffer" where
  "write_string b str maxlen =
     (let len = int (length str) + 1 in
      if len < 1 \<or> (maxlen \<ge> 0 \<and> len > maxlen) then (False, b)
      else case buf_write_u16 b (word_of_int len) of
             (False, b1) \<Rightarrow> (False, b1)
           | (True, b1) \<Rightarrow> buf_write b1 (str @ [0]))"

text \<open>\<open>str\<close> is the array the string is read into, returned as it is after the call.\<close>

definition read_string :: "buffer \<Rightarrow> u8 list \<Rightarrow> int \<Rightarrow> bool \<times> u8 list \<times> buffer" where
  "read_string b str capacity =
     (case buf_read_u16 b of
        (len, b1) \<Rightarrow>
          if len < 1 \<or> len > capacity then (False, str, b1)
          else case buf_read b1 len of
                 (None, b2) \<Rightarrow> (False, str, b2)
               | (Some bs, b2) \<Rightarrow> (True, memput str 0 (bs[nat len - 1 := 0]), b2))"

definition read_string_alloc :: "buffer \<Rightarrow> u8 list option \<times> buffer" where
  "read_string_alloc b =
     (case buf_read_u16 b of
        (len, b1) \<Rightarrow>
          if len < 1 then (None, b1)
          else case buf_read b1 len of
                 (None, b2) \<Rightarrow> (None, b2)
               | (Some bs, b2) \<Rightarrow> (Some (bs[nat len - 1 := 0]), b2))"

section \<open>Key sources\<close>

record key_source =
  src_pre_master :: "u8 list"
  src_random1 :: "u8 list"
  src_random2 :: "u8 list"

record key_source2 =
  ks2_client :: key_source
  ks2_server :: key_source

definition key_source_zero :: key_source where
  "key_source_zero = \<lparr>src_pre_master = replicate 48 0, src_random1 = replicate 32 0, src_random2 = replicate 32 0\<rparr>"

definition key_source2_zero :: key_source2 where
  "key_source2_zero = \<lparr>ks2_client = key_source_zero, ks2_server = key_source_zero\<rparr>"

definition set_key_source :: "bool \<Rightarrow> key_source \<Rightarrow> key_source2 \<Rightarrow> key_source2" where
  "set_key_source server k k2 = (if server then k2\<lparr>ks2_server := k\<rparr> else k2\<lparr>ks2_client := k\<rparr>)"

text \<open>\<open>rnd\<close> holds the bytes \<open>rand_bytes\<close> returns for the three members.\<close>

definition key_source2_randomize_write ::
    "key_source \<Rightarrow> key_source2 \<Rightarrow> buffer \<Rightarrow> bool \<Rightarrow> bool \<times> key_source2 \<times> buffer" where
  "key_source2_randomize_write rnd k2 b server =
     (let k0 = key_source_zero in
      case (if server then (True, k0, b)
            else (case buf_write b (src_pre_master rnd) of
                    (ok, b') \<Rightarrow> (ok, k0\<lparr>src_pre_master := src_pre_master rnd\<rparr>, b'))) of
        (False, k, b1) \<Rightarrow> (False, set_key_source server k k2, b1)
      | (True, k, b1) \<Rightarrow>
          (case buf_write b1 (src_random1 rnd) of
             (False, b2) \<Rightarrow> (False, set_key_source server (k\<lparr>src_random1 := src_random1 rnd\<rparr>) k2, b2)
           | (True, b2) \<Rightarrow>
               (case buf_write b2 (src_random2 rnd) of
                  (ok, b3) \<Rightarrow>
                    (ok, set_key_source server (k\<lparr>src_random1 := src_random1 rnd, src_random2 := src_random2 rnd\<rparr>) k2, b3))))"

definition key_source2_read :: "key_source2 \<Rightarrow> buffer \<Rightarrow> bool \<Rightarrow> bool \<times> key_source2 \<times> buffer" where
  "key_source2_read k2 b server =
     (let k0 = key_source_zero in
      case (if server
            then (case buf_read b 48 of
                    (None, b') \<Rightarrow> (False, k0, b')
                  | (Some x, b') \<Rightarrow> (True, k0\<lparr>src_pre_master := x\<rparr>, b'))
            else (True, k0, b)) of
        (False, k, b1) \<Rightarrow> (False, set_key_source (\<not> server) k k2, b1)
      | (True, k, b1) \<Rightarrow>
          (case buf_read b1 32 of
             (None, b2) \<Rightarrow> (False, set_key_source (\<not> server) k k2, b2)
           | (Some x, b2) \<Rightarrow>
               (case buf_read b2 32 of
                  (None, b3) \<Rightarrow> (False, set_key_source (\<not> server) (k\<lparr>src_random1 := x\<rparr>) k2, b3)
                | (Some y, b3) \<Rightarrow> (True, set_key_source (\<not> server) (k\<lparr>src_random1 := x, src_random2 := y\<rparr>) k2, b3))))"

section \<open>The message of key method 2\<close>

definition KEY_METHOD_2 :: u8 where "KEY_METHOD_2 = 2"
definition KEY_METHOD_MASK :: int where "KEY_METHOD_MASK = 0x0F"
definition TLS_OPTIONS_LEN :: int where "TLS_OPTIONS_LEN = 512"
definition USER_PASS_LEN :: int where "USER_PASS_LEN = 128"

datatype ks_auth_state = KS_AUTH_FALSE | KS_AUTH_DEFERRED | KS_AUTH_TRUE

text \<open>
  What the writer sends besides its random bytes: the options string chosen for the peer, the
  credentials (the user's or the token's, when there are any) and the text \<open>push_peer_info\<close>
  prints, \<open>None\<close> for no peer info. A peer-to-peer end without pull also runs \<open>p2p_mode_ncp\<close>
  after writing or reading, which changes cipher options only and is not modelled.
\<close>

record km2_local =
  kl_server :: bool
  kl_options :: "u8 list"
  kl_user_pass :: "(u8 list \<times> u8 list) option"
  kl_peer_info :: "u8 list option"

definition km2_write_user_pass :: "km2_local \<Rightarrow> buffer \<Rightarrow> bool \<times> buffer" where
  "km2_write_user_pass l b =
     (case kl_user_pass l of
        Some (u, p) \<Rightarrow>
          (case write_string b u (-1) of (False, b1) \<Rightarrow> (False, b1) | (True, b1) \<Rightarrow> write_string b1 p (-1))
      | None \<Rightarrow>
          (case write_empty_string b of (False, b1) \<Rightarrow> (False, b1) | (True, b1) \<Rightarrow> write_empty_string b1))"

definition km2_write_peer_info :: "km2_local \<Rightarrow> buffer \<Rightarrow> bool \<times> buffer" where
  "km2_write_peer_info l b =
     (case kl_peer_info l of Some s \<Rightarrow> write_string b s (-1) | None \<Rightarrow> write_empty_string b)"

definition km2_write_strings :: "km2_local \<Rightarrow> buffer \<Rightarrow> bool \<times> buffer" where
  "km2_write_strings l b =
     (case write_string b (kl_options l) TLS_OPTIONS_LEN of
        (False, b1) \<Rightarrow> (False, b1)
      | (True, b1) \<Rightarrow>
          (case km2_write_user_pass l b1 of
             (False, b2) \<Rightarrow> (False, b2)
           | (True, b2) \<Rightarrow> km2_write_peer_info l b2))"

definition key_method_2_write ::
    "km2_local \<Rightarrow> key_source \<Rightarrow> key_source2 \<Rightarrow> buffer \<Rightarrow> (bool \<times> key_source2 \<times> buffer) option" where
  "key_method_2_write l rnd k2 b =
     (case buf_init b 0 of
        (False, _) \<Rightarrow> None
      | (True, b0) \<Rightarrow> Some
          (case buf_write_u32 b0 0 of
             (False, b1) \<Rightarrow> (False, key_source2_zero, b1)
           | (True, b1) \<Rightarrow>
               (case buf_write_u8 b1 KEY_METHOD_2 of
                  (False, b2) \<Rightarrow> (False, key_source2_zero, b2)
                | (True, b2) \<Rightarrow>
                    (case key_source2_randomize_write rnd k2 b2 (kl_server l) of
                       (False, _, b3) \<Rightarrow> (False, key_source2_zero, b3)
                     | (True, k2', b3) \<Rightarrow>
                         (case km2_write_strings l b3 of
                            (False, b4) \<Rightarrow> (False, key_source2_zero, b4)
                          | (True, b4) \<Rightarrow> (True, k2', b4))))))"

text \<open>
  The reader. What it learns of the peer is the options, user name and password arrays and the
  peer info; what decides about the authentication is given by the answers of the code it calls.
\<close>

record km2_remote =
  kr_options :: "u8 list"
  kr_username :: "u8 list"
  kr_password :: "u8 list"
  kr_peer_info :: "u8 list option"

record km2_checks =
  ck_user_pass_enabled :: bool
  ck_user_pass_optional :: bool
  ck_verify_user_pass :: "u8 list \<Rightarrow> u8 list \<Rightarrow> ks_auth_state"
  ck_verified :: bool
  ck_final_auth_checks :: "ks_auth_state \<Rightarrow> ks_auth_state"
  ck_options_equal :: "u8 list \<Rightarrow> bool"
  ck_opt_verify :: bool
  ck_plugin_final :: "bool option"

definition km2_authenticate :: "km2_checks \<Rightarrow> bool \<Rightarrow> u8 list \<Rightarrow> u8 list \<Rightarrow> ks_auth_state option" where
  "km2_authenticate c status up_name up_pass =
     (if ck_user_pass_enabled c
      then if \<not> status
           then if \<not> ck_user_pass_optional c then None
                else Some (ck_verify_user_pass c [] [])
           else Some (ck_verify_user_pass c (cstr up_name) (cstr up_pass))
      else if ck_verified c then Some KS_AUTH_TRUE else None)"

text \<open>The checks after the credentials: final checks, options, plugin.\<close>

definition km2_final :: "km2_checks \<Rightarrow> u8 list \<Rightarrow> ks_auth_state \<Rightarrow> ks_auth_state" where
  "km2_final c options auth0 =
     (let auth1 = (if auth0 \<noteq> KS_AUTH_FALSE then ck_final_auth_checks c auth0 else auth0);
          auth2 = (if \<not> ck_options_equal c (cstr options) \<and> ck_opt_verify c then KS_AUTH_FALSE else auth1)
      in if auth2 \<noteq> KS_AUTH_FALSE \<and> ck_plugin_final c = Some False then KS_AUTH_FALSE else auth2)"

definition km2_read_strings :: "buffer \<Rightarrow> (km2_remote \<times> bool) option \<times> buffer" where
  "km2_read_strings b =
     (case read_string b (replicate (nat TLS_OPTIONS_LEN) 0) TLS_OPTIONS_LEN of
        (False, _, b1) \<Rightarrow> (None, b1)
      | (True, options, b1) \<Rightarrow>
          (case read_string b1 (replicate (nat USER_PASS_LEN) 0) USER_PASS_LEN of
             (uok, username, b2) \<Rightarrow>
               (case read_string b2 (replicate (nat USER_PASS_LEN) 0) USER_PASS_LEN of
                  (pok, password, b3) \<Rightarrow>
                    (case read_string_alloc b3 of
                       (peer_info, b4) \<Rightarrow>
                         (Some (\<lparr>kr_options = options, kr_username = username, kr_password = password,
                            kr_peer_info = peer_info\<rparr>, uok \<and> pok), b4)))))"

text \<open>
  The result is the success, the state of the authentication, the key sources and the buffer;
  the last component is what was read of the peer, \<open>None\<close> if the strings were not reached.
\<close>

definition key_method_2_read ::
    "km2_checks \<Rightarrow> bool \<Rightarrow> key_source2 \<Rightarrow> buffer
       \<Rightarrow> bool \<times> ks_auth_state \<times> key_source2 \<times> buffer \<times> km2_remote option" where
  "key_method_2_read c server k2 b =
     (let error = (\<lambda>b' r. (False, KS_AUTH_FALSE, key_source2_zero, buf_clear b', r)) in
      case buf_advance b 4 of
        (False, b1) \<Rightarrow> error b1 None
      | (True, b1) \<Rightarrow>
          (case buf_read_u8 b1 of
             (flags, b2) \<Rightarrow>
               if flags AND KEY_METHOD_MASK \<noteq> 2 then error b2 None
               else case key_source2_read k2 b2 server of
                      (False, _, b3) \<Rightarrow> error b3 None
                    | (True, k2', b3) \<Rightarrow>
                        (case km2_read_strings b3 of
                           (None, b4) \<Rightarrow> error b4 None
                         | (Some (r, status), b4) \<Rightarrow>
                             (case km2_authenticate c status (kr_username r) (kr_password r) of
                                None \<Rightarrow> error b4 (Some r)
                              | Some auth \<Rightarrow> (True, km2_final c (kr_options r) auth, k2', buf_clear b4, Some r)))))"

section \<open>Key expansion\<close>

text \<open>
  \<open>prf\<close> is \<open>ssl_tls1_PRF\<close>: seed, secret and output length, and the output if it succeeds. The
  session ids are optional.
\<close>

type_synonym tls_prf = "u8 list \<Rightarrow> u8 list \<Rightarrow> nat \<Rightarrow> u8 list option"

definition ascii :: "string \<Rightarrow> u8 list" where
  "ascii s = map of_char s"

definition openvpn_PRF ::
    "tls_prf \<Rightarrow> u8 list \<Rightarrow> string \<Rightarrow> u8 list \<Rightarrow> u8 list \<Rightarrow> session_id option \<Rightarrow> session_id option \<Rightarrow> nat
       \<Rightarrow> u8 list option option" where
  "openvpn_PRF prf secret label client_seed server_seed client_sid server_sid output_len =
     do {
       seed \<leftarrow> alloc_buf (length label + length client_seed + length server_seed + 2 * nat SID_SIZE);
       seed1 \<leftarrow> assert_ok (buf_write seed (ascii label));
       seed2 \<leftarrow> assert_ok (buf_write seed1 client_seed);
       seed3 \<leftarrow> assert_ok (buf_write seed2 server_seed);
       seed4 \<leftarrow> (case client_sid of None \<Rightarrow> Some seed3 | Some s \<Rightarrow> assert_ok (buf_write seed3 (sid_id s)));
       seed5 \<leftarrow> (case server_sid of None \<Rightarrow> Some seed4 | Some s \<Rightarrow> assert_ok (buf_write seed4 (sid_id s)));
       Some (prf (buf_bytes seed5) secret output_len)
     }"

record key =
  key_cipher :: "u8 list"
  key_hmac :: "u8 list"

definition MAX_CIPHER_KEY_LENGTH :: nat where "MAX_CIPHER_KEY_LENGTH = 64"
definition MAX_HMAC_KEY_LENGTH :: nat where "MAX_HMAC_KEY_LENGTH = 64"

text \<open>The 256 bytes of \<open>key2.keys\<close> as the two structures that lie there.\<close>

definition key2_keys :: "u8 list \<Rightarrow> bool \<Rightarrow> key" where
  "key2_keys bs second =
     (let k = (if second then drop 128 bs else bs)
      in \<lparr>key_cipher = take MAX_CIPHER_KEY_LENGTH k, key_hmac = take MAX_HMAC_KEY_LENGTH (drop MAX_CIPHER_KEY_LENGTH k)\<rparr>)"

text \<open>The keying material, \<open>None\<close> inside for a failure of the library.\<close>

definition generate_key_expansion_openvpn_prf ::
    "tls_prf \<Rightarrow> bool \<Rightarrow> key_source2 \<Rightarrow> session_id \<Rightarrow> session_id \<Rightarrow> u8 list option option" where
  "generate_key_expansion_openvpn_prf prf server key_src sid sid_remote =
     (let client_sid = (if server then sid_remote else sid);
          server_sid = (if \<not> server then sid_remote else sid)
      in do {
        master \<leftarrow> openvpn_PRF prf (src_pre_master (ks2_client key_src)) ''OpenVPN master secret''
                    (src_random1 (ks2_client key_src)) (src_random1 (ks2_server key_src)) None None 48;
        (case master of
           None \<Rightarrow> Some None
         | Some m \<Rightarrow> openvpn_PRF prf m ''OpenVPN key expansion''
                       (src_random2 (ks2_client key_src)) (src_random2 (ks2_server key_src))
                       (Some client_sid) (Some server_sid) 256)
      })"

text \<open>\<open>key_size\<close> is the key length of the cipher, \<open>None\<close> when no cipher is defined.\<close>

definition key_is_zero :: "key \<Rightarrow> nat \<Rightarrow> bool" where
  "key_is_zero k cipher_length = (\<forall>b \<in> set (take cipher_length (key_cipher k)). b = 0)"

definition check_key :: "nat option \<Rightarrow> key \<Rightarrow> bool" where
  "check_key key_size k = (case key_size of None \<Rightarrow> True | Some n \<Rightarrow> \<not> key_is_zero k n)"

text \<open>The index of the key for each direction is a truth value: \<open>False\<close> is the first.\<close>

datatype key_direction = KEY_DIRECTION_BIDIRECTIONAL | KEY_DIRECTION_NORMAL | KEY_DIRECTION_INVERSE

record key_direction_state =
  kd_out_key :: bool
  kd_in_key :: bool
  kd_need_keys :: nat

fun key_direction_state_init :: "key_direction \<Rightarrow> key_direction_state" where
  "key_direction_state_init KEY_DIRECTION_NORMAL = \<lparr>kd_out_key = False, kd_in_key = True, kd_need_keys = 2\<rparr>"
| "key_direction_state_init KEY_DIRECTION_INVERSE = \<lparr>kd_out_key = True, kd_in_key = False, kd_need_keys = 2\<rparr>"
| "key_direction_state_init KEY_DIRECTION_BIDIRECTIONAL = \<lparr>kd_out_key = False, kd_in_key = False, kd_need_keys = 1\<rparr>"

text \<open>\<open>init_key_ctx\<close> is the library's: a key and \<open>True\<close> to encrypt give a context.\<close>

definition init_key_ctx_bi ::
    "(key \<Rightarrow> bool \<Rightarrow> ('k, 'h) key_ctx) \<Rightarrow> u8 list \<Rightarrow> key_direction \<Rightarrow> ('k, 'h) key_ctx \<times> ('k, 'h) key_ctx" where
  "init_key_ctx_bi init_key_ctx key2 dir =
     (let kds = key_direction_state_init dir
      in (init_key_ctx (key2_keys key2 (kd_out_key kds)) True, init_key_ctx (key2_keys key2 (kd_in_key kds)) False))"

definition key_ctx_update_implicit_iv ::
    "('k, 's, 'h) crypto_api \<Rightarrow> ('k, 'h) key_ctx \<Rightarrow> u8 list \<Rightarrow> ('k, 'h) key_ctx option" where
  "key_ctx_update_implicit_iv api ctx key =
     (case kc_cipher ctx of
        None \<Rightarrow> Some ctx
      | Some c \<Rightarrow>
          if ctx_mode_aead api c
          then (let impl_iv_len = cipher_ctx_iv_length api c - 4 in do {
                  assert_opt (cipher_ctx_iv_length api c \<ge> OPENVPN_AEAD_MIN_IV_LEN);
                  assert_opt (impl_iv_len \<le> int OPENVPN_MAX_IV_LENGTH);
                  assert_opt (impl_iv_len \<le> int (length key));
                  Some (ctx\<lparr>kc_implicit_iv := take (nat impl_iv_len) key\<rparr>)
                })
          else Some ctx)"

text \<open>Without the kernel offload of the data channel (DCO, not on Android).\<close>

definition init_key_contexts ::
    "('k, 's, 'h) crypto_api \<Rightarrow> (key \<Rightarrow> bool \<Rightarrow> ('k, 'h) key_ctx) \<Rightarrow> bool \<Rightarrow> u8 list
       \<Rightarrow> (('k, 'h) key_ctx \<times> ('k, 'h) key_ctx) option" where
  "init_key_contexts api init_key_ctx server key2 =
     (let dir = (if server then KEY_DIRECTION_INVERSE else KEY_DIRECTION_NORMAL);
          (enc, dec) = init_key_ctx_bi init_key_ctx key2 dir
      in do {
        enc' \<leftarrow> key_ctx_update_implicit_iv api enc (key_hmac (key2_keys key2 server));
        dec' \<leftarrow> key_ctx_update_implicit_iv api dec (key_hmac (key2_keys key2 (\<not> server)));
        Some (enc', dec')
      })"

text \<open>
  \<open>export\<close> is the keying material the TLS library exports, used when the peers agreed on it;
  the inner \<open>None\<close> of the result is the failure the code returns.
\<close>

definition generate_key_expansion ::
    "('k, 's, 'h) crypto_api \<Rightarrow> (key \<Rightarrow> bool \<Rightarrow> ('k, 'h) key_ctx) \<Rightarrow> tls_prf \<Rightarrow> nat option \<Rightarrow> bool
       \<Rightarrow> u8 list option option \<Rightarrow> bool \<Rightarrow> key_source2 \<Rightarrow> session_id \<Rightarrow> session_id
       \<Rightarrow> (('k, 'h) key_ctx \<times> ('k, 'h) key_ctx) option option" where
  "generate_key_expansion api init_key_ctx prf key_size initialized export server key_src sid sid_remote =
     (if initialized then Some None
      else do {
        material \<leftarrow> (case export of
                       Some m \<Rightarrow> Some m
                     | None \<Rightarrow> generate_key_expansion_openvpn_prf prf server key_src sid sid_remote);
        (case material of
           None \<Rightarrow> Some None
         | Some key2 \<Rightarrow>
             if \<not> check_key key_size (key2_keys key2 False) \<or> \<not> check_key key_size (key2_keys key2 True)
             then Some None
             else map_option Some (init_key_contexts api init_key_ctx server key2))
      })"

section \<open>Strings on the wire\<close>

definition wire_string :: "u8 list \<Rightarrow> u8 list" where
  "wire_string s = u16_bytes (word_of_nat (length s + 1)) @ s @ [0]"

definition string_fits :: "nat \<Rightarrow> u8 list \<Rightarrow> bool" where
  "string_fits n s \<longleftrightarrow> length s < n \<and> 0 \<notin> set s"

lemma cstr_append: "0 \<notin> set s \<Longrightarrow> cstr (s @ 0 # rest) = s"
  by (induction s) (auto simp: cstr_def)

lemma cstr_memput: "0 \<notin> set s \<Longrightarrow> cstr (memput str 0 (s @ [0])) = s"
  by (simp add: memput_def cstr_append)

text \<open>A write that succeeds appends, with the write as the fact to start from.\<close>

lemma write_trueD: "buf_write b bs = (True, b') \<Longrightarrow> buf_wf b \<Longrightarrow> buf_wf b' \<and> buf_bytes b' = buf_bytes b @ bs"
  using buf_out.wr_TrueD by blast

lemma write_string_bytes:
  assumes "write_string b s m = (True, b')" and "buf_wf b"
  shows "buf_wf b' \<and> buf_bytes b' = buf_bytes b @ wire_string s"
proof -
  have w: "(word_of_int (int (length s) + 1) :: u16) = word_of_nat (length s + 1)" by simp
  obtain b1 where "buf_write b (u16_bytes (word_of_nat (length s + 1))) = (True, b1)" "buf_write b1 (s @ [0]) = (True, b')"
    using assms(1) unfolding write_string_def buf_write_u16_def Let_def w
    by (auto split: if_splits prod.splits bool.splits)
  with write_trueD assms(2) show ?thesis unfolding wire_string_def by (metis append.assoc)
qed

lemma write_empty_string_bytes:
  "write_empty_string b = (True, b') \<Longrightarrow> buf_wf b \<Longrightarrow> buf_wf b' \<and> buf_bytes b' = buf_bytes b @ [0, 0]"
  using write_trueD [of b "[0, 0]" b'] by (simp add: write_empty_string_def buf_write_u16_def u16_bytes_def)

lemma read_len:
  assumes "buf_wf b" and "buf_bytes b = u16_bytes (word_of_nat n) @ rest" and "n < 65536"
  obtains b' where "buf_read_u16 b = (int n, b')" "buf_wf b'" "buf_bytes b' = rest"
proof -
  obtain b' where b': "buf_read b 2 = (Some (u16_bytes (word_of_nat n)), b')" "buf_wf b'" "buf_bytes b' = rest"
    using buf_in.rd_prefix [OF assms(1,2)] by (auto simp: eval_nat_numeral)
  have "uint (word_of_nat n :: u16) = int n" using assms(3) by (simp add: uint_nat_eq unat_of_nat)
  with b' show thesis by (intro that) (simp_all add: buf_read_u16_def)
qed

lemma last_zero: "(s @ [0])[nat (int (length s) + 1) - 1 := 0] = s @ [0 :: u8]"
  by (simp add: nat_add_distrib list_update_append)

lemma read_string_ok:
  assumes "buf_wf b" and "buf_bytes b = wire_string s @ rest" and "length s + 1 < 65536" and "int (length s) < cap"
  obtains b' where "read_string b str cap = (True, memput str 0 (s @ [0]), b')" "buf_wf b'" "buf_bytes b' = rest"
proof -
  obtain b1 where b1: "buf_read_u16 b = (int (length s + 1), b1)" "buf_wf b1" "buf_bytes b1 = (s @ [0]) @ rest"
    using read_len [OF assms(1), of "length s + 1" "(s @ [0]) @ rest"] assms(2,3) by (auto simp: wire_string_def)
  obtain b2 where b2: "buf_read b1 (int (length (s @ [0]))) = (Some (s @ [0]), b2)" "buf_wf b2" "buf_bytes b2 = rest"
    using buf_in.rd_prefix [OF b1(2,3)] by blast
  show thesis using that [OF _ b2(2,3)] b1(1) b2(1) assms(4) last_zero [of s]
    by (simp add: read_string_def add.commute)
qed

lemma read_string_alloc_ok:
  assumes "buf_wf b" and "buf_bytes b = wire_string s @ rest" and "length s + 1 < 65536"
  obtains b' where "read_string_alloc b = (Some (s @ [0]), b')" "buf_wf b'" "buf_bytes b' = rest"
proof -
  obtain b1 where b1: "buf_read_u16 b = (int (length s + 1), b1)" "buf_wf b1" "buf_bytes b1 = (s @ [0]) @ rest"
    using read_len [OF assms(1), of "length s + 1" "(s @ [0]) @ rest"] assms(2,3) by (auto simp: wire_string_def)
  obtain b2 where b2: "buf_read b1 (int (length (s @ [0]))) = (Some (s @ [0]), b2)" "buf_wf b2" "buf_bytes b2 = rest"
    using buf_in.rd_prefix [OF b1(2,3)] by blast
  show thesis using that [OF _ b2(2,3)] b1(1) b2(1) last_zero [of s]
    by (simp add: read_string_alloc_def add.commute)
qed

lemma read_len_zero:
  assumes "buf_wf b" and "buf_bytes b = [0, 0] @ rest"
  obtains b' where "buf_read_u16 b = (0, b')" "buf_wf b'" "buf_bytes b' = rest"
  using read_len [OF assms(1), of 0 rest] assms(2) by (auto simp: u16_bytes_def)

lemma read_string_empty:
  assumes "buf_wf b" and "buf_bytes b = [0, 0] @ rest"
  obtains b' where "read_string b str cap = (False, str, b')" "buf_wf b'" "buf_bytes b' = rest"
  by (rule read_len_zero [OF assms]) (rule that, auto simp: read_string_def)

lemma read_string_alloc_empty:
  assumes "buf_wf b" and "buf_bytes b = [0, 0] @ rest"
  obtains b' where "read_string_alloc b = (None, b')" "buf_wf b'" "buf_bytes b' = rest"
  by (rule read_len_zero [OF assms]) (rule that, auto simp: read_string_alloc_def)

section \<open>The message on the wire\<close>

definition source_wf :: "key_source \<Rightarrow> bool" where
  "source_wf k \<longleftrightarrow> length (src_pre_master k) = 48 \<and> length (src_random1 k) = 32 \<and> length (src_random2 k) = 32"

text \<open>What an end contributes: the server sends no pre-master secret.\<close>

definition sent_source :: "bool \<Rightarrow> key_source \<Rightarrow> key_source" where
  "sent_source server k = (if server then k\<lparr>src_pre_master := replicate 48 0\<rparr> else k)"

definition wire_source :: "bool \<Rightarrow> key_source \<Rightarrow> u8 list" where
  "wire_source server k = (if server then [] else src_pre_master k) @ src_random1 k @ src_random2 k"

definition wire_user_pass :: "(u8 list \<times> u8 list) option \<Rightarrow> u8 list" where
  "wire_user_pass up = (case up of None \<Rightarrow> [0, 0, 0, 0] | Some (u, p) \<Rightarrow> wire_string u @ wire_string p)"

definition wire_peer_info :: "u8 list option \<Rightarrow> u8 list" where
  "wire_peer_info s = (case s of None \<Rightarrow> [0, 0] | Some s \<Rightarrow> wire_string s)"

definition km2_wire :: "km2_local \<Rightarrow> key_source \<Rightarrow> u8 list" where
  "km2_wire l rnd = [0, 0, 0, 0, 2] @ wire_source (kl_server l) rnd @ wire_string (kl_options l)
     @ wire_user_pass (kl_user_pass l) @ wire_peer_info (kl_peer_info l)"

text \<open>The steps of a writer, each of which may fail.\<close>

lemma case_write_trueD:
  "(case r of (False, b) \<Rightarrow> (False, b) | (True, b) \<Rightarrow> f b) = (True, x) \<Longrightarrow> \<exists>b. r = (True, b) \<and> f b = (True, x)"
  by (cases r) (auto split: bool.splits)

lemma randomize_write_bytes:
  assumes "key_source2_randomize_write rnd k2 b server = (True, k2', b')" and "buf_wf b"
  shows "buf_wf b' \<and> buf_bytes b' = buf_bytes b @ wire_source server rnd \<and> k2' = set_key_source server (sent_source server rnd) k2"
proof -
  obtain b1 b2 where b1: "if server then b1 = b else buf_write b (src_pre_master rnd) = (True, b1)"
    and b2: "buf_write b1 (src_random1 rnd) = (True, b2)" and b': "buf_write b2 (src_random2 rnd) = (True, b')"
    and k2': "k2' = set_key_source server (sent_source server rnd) k2"
    using assms(1) by (cases server; cases rnd)
      (auto simp: key_source2_randomize_write_def Let_def sent_source_def key_source_zero_def split: prod.splits bool.splits)
  have "buf_wf b1 \<and> buf_bytes b1 = buf_bytes b @ (if server then [] else src_pre_master rnd)"
    using b1 assms(2) write_trueD by (cases server) auto
  with write_trueD [OF b2] write_trueD [OF b'] k2' show ?thesis by (simp add: wire_source_def)
qed

lemma km2_strings_bytes:
  assumes "km2_write_strings l b = (True, b')" and "buf_wf b"
  shows "buf_wf b' \<and> buf_bytes b' = buf_bytes b @ wire_string (kl_options l) @ wire_user_pass (kl_user_pass l)
      @ wire_peer_info (kl_peer_info l)"
proof -
  from case_write_trueD [OF assms(1) [unfolded km2_write_strings_def]]
  obtain b1 where b1: "write_string b (kl_options l) TLS_OPTIONS_LEN = (True, b1)"
    and rest: "(case km2_write_user_pass l b1 of (False, b) \<Rightarrow> (False, b) | (True, b) \<Rightarrow> km2_write_peer_info l b) = (True, b')"
    by blast
  from case_write_trueD [OF rest] obtain b2 where b2: "km2_write_user_pass l b1 = (True, b2)"
    and b': "km2_write_peer_info l b2 = (True, b')" by blast
  have "buf_wf b2 \<and> buf_bytes b2 = buf_bytes b1 @ wire_user_pass (kl_user_pass l)" if "buf_wf b1"
  proof (cases "kl_user_pass l")
    case None
    with b2 have "(case write_empty_string b1 of (False, b) \<Rightarrow> (False, b) | (True, b) \<Rightarrow> write_empty_string b) = (True, b2)"
      by (simp add: km2_write_user_pass_def)
    from case_write_trueD [OF this] obtain x where "write_empty_string b1 = (True, x)" "write_empty_string x = (True, b2)" by blast
    with None that write_empty_string_bytes show ?thesis by (fastforce simp: wire_user_pass_def)
  next
    case (Some up)
    obtain u p where up: "up = (u, p)" by (cases up)
    with b2 Some have "(case write_string b1 u (- 1) of (False, b) \<Rightarrow> (False, b) | (True, b) \<Rightarrow> write_string b p (- 1)) = (True, b2)"
      by (simp add: km2_write_user_pass_def)
    from case_write_trueD [OF this] obtain x where "write_string b1 u (- 1) = (True, x)" "write_string x p (- 1) = (True, b2)"
      by blast
    with Some up that write_string_bytes show ?thesis by (fastforce simp: wire_user_pass_def)
  qed
  moreover have "buf_wf b' \<and> buf_bytes b' = buf_bytes b2 @ wire_peer_info (kl_peer_info l)" if "buf_wf b2"
    using b' that by (cases "kl_peer_info l")
      (auto simp: km2_write_peer_info_def wire_peer_info_def dest!: write_empty_string_bytes write_string_bytes)
  ultimately show ?thesis using write_string_bytes [OF b1 assms(2)] by simp
qed

lemma key_method_2_write_bytes:
  assumes "key_method_2_write l rnd k2 b = Some (True, k2', w)" and "buf_wf b"
  shows "buf_wf w \<and> buf_bytes w = km2_wire l rnd \<and> k2' = set_key_source (kl_server l) (sent_source (kl_server l) rnd) k2"
proof -
  obtain b0 b1 b2 b3 where b0: "buf_init b 0 = (True, b0)" and b1: "buf_write b0 (u32_bytes 0) = (True, b1)"
    and b2: "buf_write b1 [2] = (True, b2)" and b3: "key_source2_randomize_write rnd k2 b2 (kl_server l) = (True, k2', b3)"
    and w: "km2_write_strings l b3 = (True, w)"
    using assms(1) by (auto simp: key_method_2_write_def buf_write_u32_def buf_write_u8_def KEY_METHOD_2_def
        split: prod.splits bool.splits)
  have "buf_wf b0" "buf_bytes b0 = []"
    using assms(2) b0 by (auto simp: buf_init_def buf_init_bytes split: if_splits intro: buf_init_wf)
  moreover have "u32_bytes 0 = [0, 0, 0, 0]" by (simp add: u32_bytes_def)
  ultimately show ?thesis
    using write_trueD [OF b1] write_trueD [OF b2] randomize_write_bytes [OF b3] km2_strings_bytes [OF w]
    by (simp add: km2_wire_def)
qed

section \<open>Reading the message\<close>

lemma key_source2_read_ok:
  assumes "buf_wf b" and "buf_bytes b = wire_source (\<not> server) rnd @ rest" and "source_wf rnd"
  obtains b' where "key_source2_read k2 b server = (True, set_key_source (\<not> server) (sent_source (\<not> server) rnd) k2, b')"
    "buf_wf b'" "buf_bytes b' = rest"
proof -
  let ?pre = "if server then src_pre_master rnd else []"
  have bytes: "buf_bytes b = ?pre @ src_random1 rnd @ src_random2 rnd @ rest" using assms(2) by (simp add: wire_source_def)
  have n: "int (length (src_pre_master rnd)) = 48" "int (length (src_random1 rnd)) = 32" "int (length (src_random2 rnd)) = 32"
    using assms(3) by (simp_all add: source_wf_def)
  obtain b1 where b1: "if server then buf_read b 48 = (Some (src_pre_master rnd), b1) else b1 = b"
    "buf_wf b1" "buf_bytes b1 = src_random1 rnd @ src_random2 rnd @ rest"
  proof (cases server)
    case True
    with bytes have "buf_bytes b = src_pre_master rnd @ src_random1 rnd @ src_random2 rnd @ rest" by simp
    from buf_in.rd_prefix [OF assms(1) this] n(1) True that show thesis by auto
  next
    case False
    with bytes assms(1) that show thesis by auto
  qed
  obtain b2 where b2: "buf_read b1 32 = (Some (src_random1 rnd), b2)" "buf_wf b2" "buf_bytes b2 = src_random2 rnd @ rest"
    using buf_in.rd_prefix [OF b1(2,3)] n(2) by auto
  obtain b3 where b3: "buf_read b2 32 = (Some (src_random2 rnd), b3)" "buf_wf b3" "buf_bytes b3 = rest"
    using buf_in.rd_prefix [OF b2(2,3)] n(3) by auto
  show thesis using that [OF _ b3(2,3)] b1(1) b2(1) b3(1)
    by (cases server; cases rnd) (simp_all add: key_source2_read_def sent_source_def key_source_zero_def)
qed

definition credentials_fit :: "(u8 list \<times> u8 list) option \<Rightarrow> bool" where
  "credentials_fit up = (case up of None \<Rightarrow> True | Some (u, p) \<Rightarrow> string_fits 128 u \<and> string_fits 128 p)"

definition peer_info_fits :: "u8 list option \<Rightarrow> bool" where
  "peer_info_fits s = (case s of None \<Rightarrow> True | Some s \<Rightarrow> length s + 1 < 65536)"

text \<open>What the reader has to find: the strings of the writer.\<close>

definition km2_received :: "km2_local \<Rightarrow> km2_remote \<Rightarrow> bool" where
  "km2_received l r \<longleftrightarrow> cstr (kr_options r) = kl_options l
     \<and> (case kl_user_pass l of None \<Rightarrow> True
        | Some (u, p) \<Rightarrow> cstr (kr_username r) = u \<and> cstr (kr_password r) = p)
     \<and> kr_peer_info r = map_option (\<lambda>s. s @ [0]) (kl_peer_info l)"

lemma read_credentials_ok:
  assumes "buf_wf b" and "buf_bytes b = wire_user_pass up @ rest" and "credentials_fit up"
  obtains u p b1 b2 where "read_string b (replicate (nat USER_PASS_LEN) 0) USER_PASS_LEN = (up \<noteq> None, u, b1)"
    "read_string b1 (replicate (nat USER_PASS_LEN) 0) USER_PASS_LEN = (up \<noteq> None, p, b2)"
    "case up of None \<Rightarrow> True | Some (x, y) \<Rightarrow> cstr u = x \<and> cstr p = y" "buf_wf b2" "buf_bytes b2 = rest"
proof (cases up)
  case None
  then have b: "buf_bytes b = [0, 0] @ [0, 0] @ rest" using assms(2) by (simp add: wire_user_pass_def)
  obtain b1 where b1: "read_string b (replicate (nat USER_PASS_LEN) 0) USER_PASS_LEN = (False, replicate (nat USER_PASS_LEN) 0, b1)"
    "buf_wf b1" "buf_bytes b1 = [0, 0] @ rest" by (rule read_string_empty [OF assms(1) b])
  obtain b2 where b2: "read_string b1 (replicate (nat USER_PASS_LEN) 0) USER_PASS_LEN = (False, replicate (nat USER_PASS_LEN) 0, b2)"
    "buf_wf b2" "buf_bytes b2 = rest" by (rule read_string_empty [OF b1(2,3)])
  show thesis using None b1(1) b2 by (intro that [of _ b1 _ b2]) simp_all
next
  case (Some x)
  obtain u p where x: "x = (u, p)" by (cases x)
  have fits: "length u < 128" "length p < 128" "0 \<notin> set u" "0 \<notin> set p"
    using assms(3) Some x by (simp_all add: credentials_fit_def string_fits_def)
  have b: "buf_bytes b = wire_string u @ wire_string p @ rest" using assms(2) Some x by (simp add: wire_user_pass_def)
  obtain b1 where b1: "read_string b (replicate (nat USER_PASS_LEN) 0) USER_PASS_LEN
      = (True, memput (replicate (nat USER_PASS_LEN) 0) 0 (u @ [0]), b1)" "buf_wf b1" "buf_bytes b1 = wire_string p @ rest"
    by (rule read_string_ok [OF assms(1) b, of USER_PASS_LEN "replicate (nat USER_PASS_LEN) 0"])
      (use fits in \<open>simp_all add: USER_PASS_LEN_def\<close>)
  obtain b2 where b2: "read_string b1 (replicate (nat USER_PASS_LEN) 0) USER_PASS_LEN
      = (True, memput (replicate (nat USER_PASS_LEN) 0) 0 (p @ [0]), b2)" "buf_wf b2" "buf_bytes b2 = rest"
    by (rule read_string_ok [OF b1(2,3), of USER_PASS_LEN "replicate (nat USER_PASS_LEN) 0"])
      (use fits in \<open>simp_all add: USER_PASS_LEN_def\<close>)
  have "cstr (memput (replicate (nat USER_PASS_LEN) 0) 0 (u @ [0])) = u" "cstr (memput (replicate (nat USER_PASS_LEN) 0) 0 (p @ [0])) = p"
    by (rule cstr_memput, rule fits(3), rule cstr_memput, rule fits(4))
  then show thesis using Some x b1(1) b2 by (intro that [of _ b1 _ b2]) simp_all
qed

lemma km2_read_strings_ok:
  assumes "buf_wf b" and "buf_bytes b = wire_string (kl_options l) @ wire_user_pass (kl_user_pass l) @ wire_peer_info (kl_peer_info l)"
    and "string_fits 512 (kl_options l)" "credentials_fit (kl_user_pass l)" "peer_info_fits (kl_peer_info l)"
  obtains r b' where "km2_read_strings b = (Some (r, kl_user_pass l \<noteq> None), b')" "km2_received l r"
proof -
  have fits: "length (kl_options l) < 512" "0 \<notin> set (kl_options l)" using assms(3) by (simp_all add: string_fits_def)
  obtain b1 where b1: "read_string b (replicate (nat TLS_OPTIONS_LEN) 0) TLS_OPTIONS_LEN
      = (True, memput (replicate (nat TLS_OPTIONS_LEN) 0) 0 (kl_options l @ [0]), b1)" "buf_wf b1"
    "buf_bytes b1 = wire_user_pass (kl_user_pass l) @ wire_peer_info (kl_peer_info l)"
    by (rule read_string_ok [OF assms(1,2), of TLS_OPTIONS_LEN "replicate (nat TLS_OPTIONS_LEN) 0"])
      (use fits in \<open>simp_all add: TLS_OPTIONS_LEN_def\<close>)
  obtain u p b2 b3 where b3: "read_string b1 (replicate (nat USER_PASS_LEN) 0) USER_PASS_LEN = (kl_user_pass l \<noteq> None, u, b2)"
    "read_string b2 (replicate (nat USER_PASS_LEN) 0) USER_PASS_LEN = (kl_user_pass l \<noteq> None, p, b3)"
    "case kl_user_pass l of None \<Rightarrow> True | Some (x, y) \<Rightarrow> cstr u = x \<and> cstr p = y" "buf_wf b3"
    "buf_bytes b3 = wire_peer_info (kl_peer_info l)"
    by (rule read_credentials_ok [OF b1(2,3) assms(4)])
  obtain b4 where b4: "read_string_alloc b3 = (map_option (\<lambda>s. s @ [0]) (kl_peer_info l), b4)"
  proof (cases "kl_peer_info l")
    case None
    then show thesis using that read_string_alloc_empty [OF b3(4), of "[]"] b3(5) by (fastforce simp: wire_peer_info_def)
  next
    case (Some s)
    then show thesis using that read_string_alloc_ok [OF b3(4), of s "[]"] b3(5) assms(5)
      by (fastforce simp: wire_peer_info_def peer_info_fits_def)
  qed
  let ?r = "\<lparr>kr_options = memput (replicate (nat TLS_OPTIONS_LEN) 0) 0 (kl_options l @ [0]), kr_username = u, kr_password = p,
      kr_peer_info = map_option (\<lambda>s. s @ [0]) (kl_peer_info l)\<rparr>"
  have "km2_received l ?r" using b3(3) cstr_memput [OF fits(2)]
    by (simp add: km2_received_def split: option.splits prod.splits)
  moreover have "km2_read_strings b = (Some (?r, kl_user_pass l \<noteq> None), b4)"
    unfolding km2_read_strings_def b1(1) b3(1,2) b4 prod.case bool.case by simp
  ultimately show thesis by (intro that)
qed

lemma flags_ok: "uint (2 :: u8) AND KEY_METHOD_MASK = 2"
  by (simp add: KEY_METHOD_MASK_def)

text \<open>The reader up to the strings: whatever follows, the random sources are taken over.\<close>

lemma key_method_2_read_head:
  assumes "buf_wf r" and "buf_bytes r = [0, 0, 0, 0, 2] @ wire_source (\<not> server) rnd @ rest" and "source_wf rnd"
  obtains b3 where "buf_wf b3" "buf_bytes b3 = rest"
    "key_method_2_read c server k2 r =
       (case km2_read_strings b3 of
          (None, b4) \<Rightarrow> (False, KS_AUTH_FALSE, key_source2_zero, buf_clear b4, None)
        | (Some (rem, status), b4) \<Rightarrow>
            (case km2_authenticate c status (kr_username rem) (kr_password rem) of
               None \<Rightarrow> (False, KS_AUTH_FALSE, key_source2_zero, buf_clear b4, Some rem)
             | Some auth \<Rightarrow> (True, km2_final c (kr_options rem) auth,
                 set_key_source (\<not> server) (sent_source (\<not> server) rnd) k2, buf_clear b4, Some rem)))"
proof -
  have "5 \<le> b_len r" using length_buf_bytes_int [OF assms(1)] assms(2) by simp
  then have b1: "buf_advance r 4 = (True, buf_skip r 4)" "buf_wf (buf_skip r 4)"
    "buf_bytes (buf_skip r 4) = 2 # wire_source (\<not> server) rnd @ rest"
    using assms(1,2) by (simp_all add: buf_simps)
  then have b2: "buf_read_u8 (buf_skip r 4) = (uint (2 :: u8), buf_skip (buf_skip r 4) 1)"
    by (simp add: buf_read_u8_eq)
  have "1 \<le> b_len (buf_skip r 4)" using length_buf_bytes_int [OF b1(2)] b1(3) by simp
  then have "buf_wf (buf_skip (buf_skip r 4) 1)" "buf_bytes (buf_skip (buf_skip r 4) 1) = wire_source (\<not> server) rnd @ rest"
    using b1(2,3) by (simp_all add: buf_simps)
  from key_source2_read_ok [OF this assms(3)] obtain b3 where
    b3: "key_source2_read k2 (buf_skip (buf_skip r 4) 1) server = (True, set_key_source (\<not> server) (sent_source (\<not> server) rnd) k2, b3)"
    "buf_wf b3" "buf_bytes b3 = rest" by blast
  show thesis
    by (rule that [OF b3(2,3)])
      (simp only: key_method_2_read_def Let_def b1(1) b2 b3(1) prod.case bool.case flags_ok simp_thms if_False if_True)
qed

text \<open>The reader on a whole message.\<close>

lemma key_method_2_read_ok:
  assumes r: "buf_wf r" "buf_bytes r = km2_wire l rnd" and "source_wf rnd" and "kl_server l = (\<not> server)"
    and fits: "string_fits 512 (kl_options l)" "credentials_fit (kl_user_pass l)" "peer_info_fits (kl_peer_info l)"
  obtains rem b' where "km2_received l rem" "key_method_2_read c server k r =
        (case km2_authenticate c (kl_user_pass l \<noteq> None) (kr_username rem) (kr_password rem) of
           None \<Rightarrow> (False, KS_AUTH_FALSE, key_source2_zero, b', Some rem)
         | Some auth \<Rightarrow> (True, km2_final c (kr_options rem) auth,
             set_key_source (\<not> server) (sent_source (\<not> server) rnd) k, b', Some rem))"
proof -
  have "buf_bytes r = [0, 0, 0, 0, 2] @ wire_source (\<not> server) rnd
      @ wire_string (kl_options l) @ wire_user_pass (kl_user_pass l) @ wire_peer_info (kl_peer_info l)"
    using r(2) assms(4) by (simp add: km2_wire_def)
  from key_method_2_read_head [OF r(1) this assms(3), of c k] obtain b3 where
    b3: "buf_wf b3" "buf_bytes b3 = wire_string (kl_options l) @ wire_user_pass (kl_user_pass l) @ wire_peer_info (kl_peer_info l)"
    and read: "key_method_2_read c server k r =
       (case km2_read_strings b3 of
          (None, b4) \<Rightarrow> (False, KS_AUTH_FALSE, key_source2_zero, buf_clear b4, None)
        | (Some (rem, status), b4) \<Rightarrow>
            (case km2_authenticate c status (kr_username rem) (kr_password rem) of
               None \<Rightarrow> (False, KS_AUTH_FALSE, key_source2_zero, buf_clear b4, Some rem)
             | Some auth \<Rightarrow> (True, km2_final c (kr_options rem) auth,
                 set_key_source (\<not> server) (sent_source (\<not> server) rnd) k, buf_clear b4, Some rem)))"
    by blast
  obtain rem b4 where strings: "km2_read_strings b3 = (Some (rem, kl_user_pass l \<noteq> None), b4)" "km2_received l rem"
    by (rule km2_read_strings_ok [OF b3 fits])
  show thesis
    by (rule that [OF strings(2), of "buf_clear b4"]) (simp only: read strings(1) prod.case option.case simp_thms)
qed

section \<open>Properties\<close>

text \<open>
  C19: A message of key method 2 is read as it was written: the reader finds the random sources, the
  options, the credentials and the peer info of the writer, whatever it then decides about the
  authentication, and the sources are taken over when it goes on.
\<close>

theorem key_method_2_roundtrip:
  assumes wr: "key_method_2_write l rnd k2 b = Some (True, k2', w)" and "buf_wf b" and "source_wf rnd"
    and fits: "string_fits 512 (kl_options l)" "credentials_fit (kl_user_pass l)" "peer_info_fits (kl_peer_info l)"
    and arrives: "buf_wf r" "buf_bytes r = buf_bytes w"
  shows "\<exists>rem b'. km2_received l rem
    \<and> key_method_2_read c (\<not> kl_server l) k r =
        (case km2_authenticate c (kl_user_pass l \<noteq> None) (kr_username rem) (kr_password rem) of
           None \<Rightarrow> (False, KS_AUTH_FALSE, key_source2_zero, b', Some rem)
         | Some auth \<Rightarrow> (True, km2_final c (kr_options rem) auth,
             set_key_source (kl_server l) (sent_source (kl_server l) rnd) k, b', Some rem))"
proof -
  have bytes: "buf_bytes r = km2_wire l rnd" using key_method_2_write_bytes [OF wr assms(2)] arrives(2) by simp
  have "kl_server l = (\<not> \<not> kl_server l)" by simp
  from key_method_2_read_ok [OF arrives(1) bytes assms(3) this fits, of c k] show ?thesis unfolding not_not by blast
qed

text \<open>
  The contexts of one end are the mirror image of the other's: what one end encrypts with is what
  the other decrypts with, made from the same key and with the same implicit IV.
\<close>

definition mirrored ::
    "(key \<Rightarrow> bool \<Rightarrow> ('k, 'h) key_ctx) \<Rightarrow> ('k, 'h) key_ctx \<times> ('k, 'h) key_ctx \<Rightarrow> ('k, 'h) key_ctx \<times> ('k, 'h) key_ctx \<Rightarrow> bool" where
  "mirrored init_key_ctx x y \<longleftrightarrow>
     (\<exists>k iv k' iv'. x = ((init_key_ctx k True)\<lparr>kc_implicit_iv := iv\<rparr>, (init_key_ctx k' False)\<lparr>kc_implicit_iv := iv'\<rparr>)
        \<and> y = ((init_key_ctx k' True)\<lparr>kc_implicit_iv := iv'\<rparr>, (init_key_ctx k False)\<lparr>kc_implicit_iv := iv\<rparr>))"

text \<open>
  What the library documents of \<open>init_key_ctx\<close>: the mode and the IV length depend on the cipher
  only, not on the key or the direction, and a fresh context has no implicit IV.
\<close>

definition cipher_of_type :: "('k, 's, 'h) crypto_api \<Rightarrow> (key \<Rightarrow> bool \<Rightarrow> ('k, 'h) key_ctx) \<Rightarrow> bool \<Rightarrow> int \<Rightarrow> bool" where
  "cipher_of_type api init_key_ctx aead iv_len \<longleftrightarrow>
     (\<forall>k d. kc_implicit_iv (init_key_ctx k d) = []
        \<and> (\<exists>c. kc_cipher (init_key_ctx k d) = Some c \<and> ctx_mode_aead api c = aead \<and> cipher_ctx_iv_length api c = iv_len))"

lemma implicit_iv_eq:
  assumes "cipher_of_type api init_key_ctx aead iv_len"
  shows "key_ctx_update_implicit_iv api (init_key_ctx k d) hmac_key =
    (if aead then (if 12 \<le> iv_len \<and> iv_len \<le> 20 \<and> iv_len \<le> int (length hmac_key) + 4
                   then Some ((init_key_ctx k d)\<lparr>kc_implicit_iv := take (nat (iv_len - 4)) hmac_key\<rparr>) else None)
     else Some ((init_key_ctx k d)\<lparr>kc_implicit_iv := []\<rparr>))"
proof -
  obtain c where c: "kc_cipher (init_key_ctx k d) = Some c" "ctx_mode_aead api c = aead"
    "cipher_ctx_iv_length api c = iv_len" "kc_implicit_iv (init_key_ctx k d) = []"
    using assms unfolding cipher_of_type_def by blast
  then have "(init_key_ctx k d)\<lparr>kc_implicit_iv := []\<rparr> = init_key_ctx k d" by simp
  with c show ?thesis
    by (auto simp: key_ctx_update_implicit_iv_def Let_def assert_opt_def crypto_consts)
qed

lemma contexts_mirrored:
  assumes "cipher_of_type api init_key_ctx aead iv_len"
  shows "rel_option (mirrored init_key_ctx) (init_key_contexts api init_key_ctx False key2) (init_key_contexts api init_key_ctx True key2)"
  using implicit_iv_eq [OF assms]
  by (auto simp: init_key_contexts_def init_key_ctx_bi_def Let_def mirrored_def key2_keys_def)

lemma expansion_agrees:
  "generate_key_expansion_openvpn_prf prf False key_src sid_c sid_s = generate_key_expansion_openvpn_prf prf True key_src sid_s sid_c"
  by (simp add: generate_key_expansion_openvpn_prf_def Let_def)

lemma key_method_2_read_source:
  assumes "key_method_2_read c server k r = (True, auth, k', b', rem)"
    and "buf_wf r" "buf_bytes r = km2_wire l rnd" "source_wf rnd" "kl_server l = (\<not> server)"
  shows "k' = set_key_source (\<not> server) (sent_source (\<not> server) rnd) k"
proof -
  have "buf_bytes r = [0, 0, 0, 0, 2] @ wire_source (\<not> server) rnd
      @ wire_string (kl_options l) @ wire_user_pass (kl_user_pass l) @ wire_peer_info (kl_peer_info l)"
    using assms(3,5) by (simp add: km2_wire_def)
  from key_method_2_read_head [OF assms(2) this assms(4), of c k] obtain b3 where
    "key_method_2_read c server k r =
       (case km2_read_strings b3 of
          (None, b4) \<Rightarrow> (False, KS_AUTH_FALSE, key_source2_zero, buf_clear b4, None)
        | (Some (rem, status), b4) \<Rightarrow>
            (case km2_authenticate c status (kr_username rem) (kr_password rem) of
               None \<Rightarrow> (False, KS_AUTH_FALSE, key_source2_zero, buf_clear b4, Some rem)
             | Some auth \<Rightarrow> (True, km2_final c (kr_options rem) auth,
                 set_key_source (\<not> server) (sent_source (\<not> server) rnd) k, buf_clear b4, Some rem)))" by blast
  then show ?thesis unfolding assms(1) by (auto split: option.splits prod.splits)
qed

text \<open>
  C10: The ends agree on the data channel keys. When the client and the server each wrote a message
  of key method 2 and accepted the other's, they hold the same random sources, and the key
  expansion gives both nothing or gives them contexts that mirror each other: each encrypts with the
  key and the implicit IV the other decrypts with.
\<close>

theorem data_channel_keys_agree:
  assumes client_wrote: "key_method_2_write lc rc kc0 bc = Some (True, kc1, wc)" "\<not> kl_server lc" "buf_wf bc" "source_wf rc"
    and server_read: "key_method_2_read cs True ks0 rs_buf = (True, as, ks1, bs', rs)" "buf_wf rs_buf" "buf_bytes rs_buf = buf_bytes wc"
    and server_wrote: "key_method_2_write ls rsv ks1 bs = Some (True, ks2, ws)" "kl_server ls" "buf_wf bs" "source_wf rsv"
    and client_read: "key_method_2_read cc False kc1 rc_buf = (True, ac, kc2, bc', rem)" "buf_wf rc_buf" "buf_bytes rc_buf = buf_bytes ws"
    and library: "cipher_of_type api init_key_ctx aead iv_len"
  shows "kc2 = ks2
    \<and> rel_option (rel_option (mirrored init_key_ctx))
        (generate_key_expansion api init_key_ctx prf key_size initialized export False kc2 sid_c sid_s)
        (generate_key_expansion api init_key_ctx prf key_size initialized export True ks2 sid_s sid_c)"
proof -
  have wc: "buf_bytes wc = km2_wire lc rc" "kc1 = set_key_source False (sent_source False rc) kc0"
    using key_method_2_write_bytes [OF client_wrote(1,3)] client_wrote(2) by simp_all
  have ws: "buf_bytes ws = km2_wire ls rsv" "ks2 = set_key_source True (sent_source True rsv) ks1"
    using key_method_2_write_bytes [OF server_wrote(1,3)] server_wrote(2) by simp_all
  have "ks1 = set_key_source False (sent_source False rc) ks0"
    using key_method_2_read_source [OF server_read(1,2) _ client_wrote(4), of lc] server_read(3) wc(1) client_wrote(2) by simp
  moreover have "kc2 = set_key_source True (sent_source True rsv) kc1"
    using key_method_2_read_source [OF client_read(1,2) _ server_wrote(4), of ls] client_read(3) ws(1) server_wrote(2) by simp
  ultimately have eq: "kc2 = ks2" using wc(2) ws(2) by (simp add: set_key_source_def)
  have "rel_option (rel_option (mirrored init_key_ctx)) (map_option Some (init_key_contexts api init_key_ctx False key2))
      (map_option Some (init_key_contexts api init_key_ctx True key2))" for key2
    using contexts_mirrored [OF library, of key2]
    by (cases "init_key_contexts api init_key_ctx False key2"; cases "init_key_contexts api init_key_ctx True key2") auto
  with eq show ?thesis
    by (cases export) (auto simp: generate_key_expansion_def expansion_agrees [of "prf" ks2 sid_c sid_s] option.rel_refl
        split: option.split bind_split)
qed

section \<open>Witnesses\<close>

definition demo_source :: "u8 \<Rightarrow> key_source" where
  "demo_source x = \<lparr>src_pre_master = replicate 48 x, src_random1 = replicate 32 (x + 1), src_random2 = replicate 32 (x + 2)\<rparr>"

definition demo_local :: "bool \<Rightarrow> km2_local" where
  "demo_local server = \<lparr>kl_server = server, kl_options = [86, 52], kl_user_pass = (if server then None else Some ([117], [112])),
     kl_peer_info = None\<rparr>"

definition demo_buffer :: buffer where
  "demo_buffer = \<lparr>b_capacity = 150, b_offset = 0, b_len = 0, b_data = Some (replicate 150 0)\<rparr>"

definition demo_checks :: km2_checks where
  "demo_checks = \<lparr>ck_user_pass_enabled = False, ck_user_pass_optional = False, ck_verify_user_pass = (\<lambda>u p. KS_AUTH_TRUE),
     ck_verified = True, ck_final_auth_checks = id, ck_options_equal = (\<lambda>_. True), ck_opt_verify = False, ck_plugin_final = None\<rparr>"

text \<open>The message of each end, and what each end holds after reading the other's.\<close>

definition demo_write :: "bool \<Rightarrow> key_source2 \<Rightarrow> (bool \<times> key_source2 \<times> buffer) option" where
  "demo_write server k = key_method_2_write (demo_local server) (demo_source (if server then 9 else 7)) k demo_buffer"

definition demo_held :: "bool \<Rightarrow> key_source2" where
  "demo_held server = (if server then key_source2_zero\<lparr>ks2_client := demo_source 7\<rparr> else key_source2_zero)"

definition demo_message :: "bool \<Rightarrow> buffer" where
  "demo_message server = snd (snd (the (demo_write server (demo_held server))))"

lemma demo_facts: "buf_wf demo_buffer" "source_wf (demo_source x)" "\<not> kl_server (demo_local False)" "kl_server (demo_local True)"
  by (simp_all add: demo_buffer_def buf_wf_def BUF_SIZE_MAX_def source_wf_def demo_source_def demo_local_def)

lemma demo_message_written: "\<exists>k. demo_write server (demo_held server) = Some (True, k, demo_message server)"
proof -
  have "map_option fst (demo_write False (demo_held False)) = Some True" "map_option fst (demo_write True (demo_held True)) = Some True"
    by code_simp+
  then have "map_option fst (demo_write server (demo_held server)) = Some True" by (cases server) simp_all
  then show ?thesis by (auto simp: demo_message_def)
qed

lemma demo_message_wf: "buf_wf (demo_message server)"
  using demo_message_written [of server] key_method_2_write_bytes demo_facts(1) unfolding demo_write_def by blast

lemma demo_fits: "string_fits 512 (kl_options (demo_local s))" "credentials_fit (kl_user_pass (demo_local s))"
    "peer_info_fits (kl_peer_info (demo_local s))"
  by (simp_all add: demo_local_def string_fits_def credentials_fit_def peer_info_fits_def)

lemma demo_accepts: "km2_authenticate demo_checks s u p = Some KS_AUTH_TRUE" "km2_final demo_checks opts KS_AUTH_TRUE = KS_AUTH_TRUE"
  by (simp_all add: km2_authenticate_def km2_final_def demo_checks_def)

lemma demo_read: "\<exists>k' b rem. key_method_2_read demo_checks server k (demo_message (\<not> server)) = (True, KS_AUTH_TRUE, k', b, Some rem)"
proof -
  obtain k0 where "demo_write (\<not> server) (demo_held (\<not> server)) = Some (True, k0, demo_message (\<not> server))"
    using demo_message_written by blast
  then have "buf_bytes (demo_message (\<not> server)) = km2_wire (demo_local (\<not> server)) (demo_source (if \<not> server then 9 else 7))"
    using key_method_2_write_bytes demo_facts(1) unfolding demo_write_def by blast
  moreover have "kl_server (demo_local (\<not> server)) = (\<not> server)" by (simp add: demo_local_def)
  ultimately show ?thesis
    using key_method_2_read_ok [OF demo_message_wf [of "\<not> server"] _ demo_facts(2) _ demo_fits, of "\<not> server" _ server demo_checks k]
    by (fastforce simp: demo_accepts)
qed

theorem key_method_2_roundtrip_witness:
  "\<exists>k w rem b'. demo_write False key_source2_zero = Some (True, k, w)
     \<and> key_method_2_read demo_checks True key_source2_zero w
         = (True, KS_AUTH_TRUE, key_source2_zero\<lparr>ks2_client := demo_source 7\<rparr>, b', Some rem)
     \<and> cstr (kr_options rem) = [86, 52] \<and> cstr (kr_username rem) = [117] \<and> cstr (kr_password rem) = [112]"
proof -
  obtain k where k: "demo_write False key_source2_zero = Some (True, k, demo_message False)"
    using demo_message_written [of False] by (auto simp: demo_held_def)
  have w: "key_method_2_write (demo_local False) (demo_source 7) key_source2_zero demo_buffer = Some (True, k, demo_message False)"
    using k by (simp add: demo_write_def)
  from key_method_2_roundtrip [OF w demo_facts(1,2) demo_fits demo_message_wf refl, of demo_checks key_source2_zero]
  obtain rem b' where "km2_received (demo_local False) rem"
    "key_method_2_read demo_checks True key_source2_zero (demo_message False)
       = (True, KS_AUTH_TRUE, set_key_source False (sent_source False (demo_source 7)) key_source2_zero, b', Some rem)"
    using demo_facts(3) by (auto simp: demo_accepts)
  with k show ?thesis
    by (intro exI [of _ k] exI [of _ "demo_message False"] exI [of _ rem] exI [of _ b'])
      (simp add: km2_received_def demo_local_def set_key_source_def sent_source_def)
qed

definition demo_key_api :: "(u8 list \<times> bool, unit, unit) crypto_api" where
  "demo_key_api = \<lparr>cipher_ctx_iv_length = (\<lambda>_. 12), cipher_ctx_block_size = (\<lambda>_. 1), ctx_mode_aead = (\<lambda>_. True),
     ctx_mode_cbc = (\<lambda>_. False), ctx_mode_ofb_cfb = (\<lambda>_. False), cipher_ctx_reset = (\<lambda>k iv. Some ()),
     cipher_ctx_update_ad = (\<lambda>s ad. Some s), cipher_ctx_update = (\<lambda>s x. Some (s, x)), cipher_ctx_final = (\<lambda>s. Some (s, [])),
     cipher_ctx_get_tag = (\<lambda>s n. Some (replicate n 0)), cipher_ctx_final_check_tag = (\<lambda>s t. Some (s, [])),
     hmac_ctx_size = (\<lambda>_. 0), hmac_ctx_compute = (\<lambda>k x. [])\<rparr>"

definition demo_init_key_ctx :: "key \<Rightarrow> bool \<Rightarrow> (u8 list \<times> bool, unit) key_ctx" where
  "demo_init_key_ctx k enc = \<lparr>kc_cipher = Some (key_cipher k, enc), kc_hmac = None, kc_implicit_iv = []\<rparr>"

definition demo_prf :: tls_prf where
  "demo_prf seed secret n = Some (replicate n (sum_list seed + sum_list secret))"

definition demo_kx_sid :: "u8 \<Rightarrow> session_id" where
  "demo_kx_sid x = \<lparr>sid_id = replicate 8 x\<rparr>"

theorem data_channel_keys_agree_witness:
  "\<exists>kc1 ks1 ks2 rs rc bs bc e d e' d'.
     demo_write False key_source2_zero = Some (True, kc1, demo_message False)
     \<and> key_method_2_read demo_checks True key_source2_zero (demo_message False) = (True, KS_AUTH_TRUE, ks1, bs, rs)
     \<and> demo_write True ks1 = Some (True, ks2, demo_message True)
     \<and> key_method_2_read demo_checks False kc1 (demo_message True) = (True, KS_AUTH_TRUE, ks2, bc, rc)
     \<and> generate_key_expansion demo_key_api demo_init_key_ctx demo_prf (Some 32) False None False ks2 (demo_kx_sid 1) (demo_kx_sid 2) = Some (Some (e, d))
     \<and> generate_key_expansion demo_key_api demo_init_key_ctx demo_prf (Some 32) False None True ks2 (demo_kx_sid 2) (demo_kx_sid 1) = Some (Some (e', d'))
     \<and> mirrored demo_init_key_ctx (e, d) (e', d')"
proof -
  obtain kc1 where c: "demo_write False key_source2_zero = Some (True, kc1, demo_message False)"
    using demo_message_written [of False] by (auto simp: demo_held_def)
  obtain ks1 bs rs where r: "key_method_2_read demo_checks True key_source2_zero (demo_message False) = (True, KS_AUTH_TRUE, ks1, bs, rs)"
    using demo_read [of True key_source2_zero] by auto
  have ks1: "ks1 = demo_held True"
    using key_method_2_read_source [OF r demo_message_wf, of "demo_local False" "demo_source 7"] demo_facts(2,3)
      key_method_2_write_bytes [OF c [unfolded demo_write_def] demo_facts(1)]
    by (simp add: set_key_source_def sent_source_def demo_held_def)
  obtain ks2 where s: "demo_write True ks1 = Some (True, ks2, demo_message True)"
    using demo_message_written [of True] unfolding ks1 by blast
  have ks2: "ks2 = (demo_held True)\<lparr>ks2_server := (demo_source 9)\<lparr>src_pre_master := replicate 48 0\<rparr>\<rparr>"
    using key_method_2_write_bytes [OF s [unfolded demo_write_def] demo_facts(1)] demo_facts(4) ks1
    by (simp add: set_key_source_def sent_source_def)
  have kc1: "kc1 = demo_held True"
    using key_method_2_write_bytes [OF c [unfolded demo_write_def] demo_facts(1)] demo_facts(3)
    by (simp add: set_key_source_def sent_source_def demo_held_def)
  obtain kc2 bc rc where q: "key_method_2_read demo_checks False kc1 (demo_message True) = (True, KS_AUTH_TRUE, kc2, bc, rc)"
    using demo_read [of False kc1] by auto
  have lib: "cipher_of_type demo_key_api demo_init_key_ctx True 12"
    by (simp add: cipher_of_type_def demo_key_api_def demo_init_key_ctx_def)
  let ?G = "generate_key_expansion demo_key_api demo_init_key_ctx demo_prf (Some 32) False None"
  have "map_option (\<lambda>x. x = None) (?G False ((demo_held True)\<lparr>ks2_server := (demo_source 9)\<lparr>src_pre_master := replicate 48 0\<rparr>\<rparr>)
      (demo_kx_sid 1) (demo_kx_sid 2)) = Some False"
    by code_simp
  then obtain e d where g: "?G False ks2 (demo_kx_sid 1) (demo_kx_sid 2) = Some (Some (e, d))" unfolding ks2 by auto
  have agree: "kc2 = ks2 \<and> rel_option (rel_option (mirrored demo_init_key_ctx))
      (?G False kc2 (demo_kx_sid 1) (demo_kx_sid 2)) (?G True ks2 (demo_kx_sid 2) (demo_kx_sid 1))"
    by (rule data_channel_keys_agree [OF c [unfolded demo_write_def] demo_facts(3) demo_facts(1,2) r demo_message_wf refl
      s [unfolded demo_write_def] demo_facts(4) demo_facts(1,2) q demo_message_wf refl lib])
  then obtain e' d' where g': "?G True ks2 (demo_kx_sid 2) (demo_kx_sid 1) = Some (Some (e', d'))"
    and m: "mirrored demo_init_key_ctx (e, d) (e', d')"
    using g by (auto simp: option_rel_Some1)
  have kq: "kc2 = ks2" using agree by (rule conjunct1)
  show ?thesis by (intro exI conjI) (rule c, rule r, rule s, rule q [unfolded kq], rule g, rule g', rule m)
qed

end
