(* ===== verification/TlsSession.thy ===== *)
theory TlsSession
  imports Reliable ControlChannel KeyExchange FrameSize
begin

text \<open>
  The sessions of a tunnel (\<open>ssl_common.h\<close>, \<open>ssl.c\<close>): a tunnel has three sessions, a session two
  key states, the current one and the retiring one (the lame duck). This theory has their data, how
  they are set up, moved and retired, and how a data packet finds its key. The TLS library is an
  argument: its state is of type \<open>'t\<close>, \<open>None\<close> before it is allocated, and the code reaches it through
  the BIO calls below (\<open>ssl_openssl.c\<close>). An array indexed by \<open>KS_\<close> or \<open>TM_\<close> constants is a
  function on a datatype of them. A failed assertion is the result \<open>None\<close>.
\<close>

section \<open>Constants\<close>

definition S_ERROR :: int where "S_ERROR = -1"
definition S_UNDEF :: int where "S_UNDEF = 0"
definition S_INITIAL :: int where "S_INITIAL = 1"
definition S_PRE_START :: int where "S_PRE_START = 2"
definition S_START :: int where "S_START = 3"
definition S_SENT_KEY :: int where "S_SENT_KEY = 4"
definition S_GOT_KEY :: int where "S_GOT_KEY = 5"
definition S_ACTIVE :: int where "S_ACTIVE = 6"
definition S_GENERATED_KEYS :: int where "S_GENERATED_KEYS = 7"

lemmas state_defs = S_ERROR_def S_UNDEF_def S_INITIAL_def S_PRE_START_def S_START_def S_SENT_KEY_def
  S_GOT_KEY_def S_ACTIVE_def S_GENERATED_KEYS_def

datatype key_slot = KS_PRIMARY | KS_LAME_DUCK
datatype session_slot = TM_ACTIVE | TM_INITIAL | TM_LAME_DUCK

datatype multi_status = CAS_NOT_CONNECTED | CAS_WAITING_AUTH | CAS_PENDING | CAS_PENDING_DEFERRED
  | CAS_PENDING_DEFERRED_PARTIAL | CAS_FAILED | CAS_WAITING_OPTIONS_IMPORT | CAS_RECONNECT_PENDING | CAS_CONNECT_DONE

definition TLS_CHANNEL_BUF_SIZE :: int where "TLS_CHANNEL_BUF_SIZE = 2048"
definition TLS_CHANNEL_MTU_MIN :: int where "TLS_CHANNEL_MTU_MIN = 154"
definition TLS_RELIABLE_N_SEND_BUFFERS :: int where "TLS_RELIABLE_N_SEND_BUFFERS = 6"
definition TLS_RELIABLE_N_REC_BUFFERS :: int where "TLS_RELIABLE_N_REC_BUFFERS = 12"
definition CONTROL_SEND_ACK_MAX :: int where "CONTROL_SEND_ACK_MAX = 4"
definition EARLY_NEG_START :: u32 where "EARLY_NEG_START = 0x0f000000"
definition P_DATA_V1 :: u8 where "P_DATA_V1 = 6"
definition P_DATA_V2 :: u8 where "P_DATA_V2 = 9"

section \<open>Addresses\<close>

text \<open>
  A \<open>struct link_socket_actual\<close> is its destination. The comparison looks at the family of the first
  address only, and reads the members of the second as if it had the same.
\<close>

definition sockaddr_mem :: "openvpn_sockaddr \<Rightarrow> u8 list" where
  "sockaddr_mem a = take 28 (sockaddr_bytes a @ replicate 28 0)"

definition addr_defined :: "openvpn_sockaddr \<Rightarrow> bool" where
  "addr_defined a =
     (case a of
        SA_IN4 _ \<Rightarrow> memget (sockaddr_mem a) 4 4 \<noteq> replicate 4 0
      | SA_IN6 _ \<Rightarrow> memget (sockaddr_mem a) 8 16 \<noteq> replicate 16 0
      | SA_OTHER \<Rightarrow> False)"

definition addr_port_match :: "openvpn_sockaddr \<Rightarrow> openvpn_sockaddr \<Rightarrow> bool option" where
  "addr_port_match a1 a2 =
     (let m1 = sockaddr_mem a1; m2 = sockaddr_mem a2 in
      case a1 of
        SA_IN4 _ \<Rightarrow> Some (memget m1 4 4 = memget m2 4 4 \<and> memget m1 2 2 = memget m2 2 2)
      | SA_IN6 _ \<Rightarrow> Some (memget m1 8 16 = memget m2 8 16 \<and> memget m1 2 2 = memget m2 2 2)
      | SA_OTHER \<Rightarrow> None)"

definition sockaddr_af :: "openvpn_sockaddr \<Rightarrow> af" where
  "sockaddr_af a = (case a of SA_IN4 _ \<Rightarrow> AF_INET | SA_IN6 _ \<Rightarrow> AF_INET6 | SA_OTHER \<Rightarrow> AF_UNSPEC)"

section \<open>The TLS library\<close>

text \<open>
  \<open>BIO_write\<close> returns the number of bytes taken, or a negative number and whether to retry;
  \<open>BIO_read\<close> is given a length and returns bytes (none at the end), or \<open>None\<close> and whether to retry.
\<close>

datatype bio = SSL_BIO | CT_IN | CT_OUT

record 't tls_lib =
  lib_new :: 't
  lib_BIO_write :: "'t \<Rightarrow> bio \<Rightarrow> u8 list \<Rightarrow> int \<times> bool \<times> 't"
  lib_BIO_read :: "'t \<Rightarrow> bio \<Rightarrow> int \<Rightarrow> u8 list option \<times> bool \<times> 't"
  lib_export :: "'t \<Rightarrow> u8 list option"

definition bio_write :: "'t tls_lib \<Rightarrow> 't \<Rightarrow> bio \<Rightarrow> u8 list \<Rightarrow> int \<times> 't" where
  "bio_write lib t bio data =
     (if data = [] then (0, t)
      else case lib_BIO_write lib t bio data of
             (i, retry, t') \<Rightarrow>
               (if i < 0 then (if \<not> retry then -1 else 0)
                else if i \<noteq> int (length data) then -1 else 1, t'))"

definition bio_write_post :: "int \<Rightarrow> buffer \<Rightarrow> buffer" where
  "bio_write_post status b =
     (if status = 1 then (buf_poke b (nat (b_offset b)) (replicate (nat (buf_len b)) 0))\<lparr>b_len := 0\<rparr> else b)"

definition bio_read :: "'t tls_lib \<Rightarrow> 't \<Rightarrow> bio \<Rightarrow> buffer \<Rightarrow> (int \<times> 't \<times> buffer) option" where
  "bio_read lib t bio b =
     (if \<not> b_len b \<ge> 0 then None
      else if b_len b \<noteq> 0 then Some (0, t, b)
      else case lib_BIO_read lib t bio (buf_forward_capacity b) of
             (None, retry, t') \<Rightarrow> Some (if \<not> retry then (-1, t', b\<lparr>b_len := 0\<rparr>) else (0, t', b))
           | (Some bs, _, t') \<Rightarrow>
               if bs = [] then Some (0, t', b\<lparr>b_len := 0\<rparr>)
               else Some (1, t', (buf_poke b (nat (b_offset b)) bs)\<lparr>b_len := int (length bs)\<rparr>))"

definition key_state_write_plaintext :: "'t tls_lib \<Rightarrow> 't option \<Rightarrow> buffer \<Rightarrow> (int \<times> 't \<times> buffer) option" where
  "key_state_write_plaintext lib ssl b =
     do { t \<leftarrow> ssl; let (ret, t') = bio_write lib t SSL_BIO (buf_bytes b); Some (ret, t', bio_write_post ret b) }"

definition key_state_write_plaintext_const :: "'t tls_lib \<Rightarrow> 't option \<Rightarrow> u8 list \<Rightarrow> (int \<times> 't) option" where
  "key_state_write_plaintext_const lib ssl data = do { t \<leftarrow> ssl; Some (bio_write lib t SSL_BIO data) }"

definition key_state_read_ciphertext :: "'t tls_lib \<Rightarrow> 't option \<Rightarrow> buffer \<Rightarrow> (int \<times> 't \<times> buffer) option" where
  "key_state_read_ciphertext lib ssl b = do { t \<leftarrow> ssl; bio_read lib t CT_OUT b }"

definition key_state_write_ciphertext :: "'t tls_lib \<Rightarrow> 't option \<Rightarrow> buffer \<Rightarrow> (int \<times> 't \<times> buffer) option" where
  "key_state_write_ciphertext lib ssl b =
     do { t \<leftarrow> ssl; let (ret, t') = bio_write lib t CT_IN (buf_bytes b); Some (ret, t', bio_write_post ret b) }"

definition key_state_read_plaintext :: "'t tls_lib \<Rightarrow> 't option \<Rightarrow> buffer \<Rightarrow> (int \<times> 't \<times> buffer) option" where
  "key_state_read_plaintext lib ssl b = do { t \<leftarrow> ssl; bio_read lib t SSL_BIO b }"

section \<open>Data\<close>

record ('k, 'h, 't) key_state =
  ks_state :: int
  ks_key_id :: int
  ks_ssl :: "'t option"
  ks_initial :: time_t
  ks_established :: time_t
  ks_must_negotiate :: time_t
  ks_must_die :: time_t
  ks_peer_last_packet :: time_t
  ks_initial_opcode :: u8
  ks_session_id_remote :: session_id
  ks_remote_addr :: openvpn_sockaddr
  ks_crypto_options :: "('k, 'h) crypto_options"
  ks_key_initialized :: bool
  ks_resend_wkc :: bool
  ks_key_src :: key_source2
  ks_plaintext_read_buf :: buffer
  ks_plaintext_write_buf :: buffer
  ks_ack_write_buf :: buffer
  ks_send_reliable :: reliable
  ks_rec_reliable :: reliable
  ks_rec_ack :: reliable_ack
  ks_lru_acks :: reliable_ack
  ks_paybuf :: "u8 list list"
  ks_n_bytes :: int
  ks_n_packets :: int
  ks_authenticated :: ks_auth_state
  ks_auth_deferred_expire :: time_t

text \<open>
  The options the modelled code reads: \<open>opt_km2\<close> is what an end sends in the key exchange,
  \<open>opt_checks\<close> how it decides about what it received.
\<close>

record ('k, 'h) tls_options =
  opt_server :: bool
  opt_mode_server :: bool
  opt_single_session :: bool
  opt_xmit_hold :: bool
  opt_tls_crypt_v2 :: bool
  opt_key_export :: bool
  opt_long_form :: bool
  opt_ignore_packet_id :: bool
  opt_cipher_insecure :: bool
  opt_key_size :: "nat option"
  opt_handshake_window :: int
  opt_transition_window :: int
  opt_packet_timeout :: interval_t
  opt_renegotiate_bytes :: int
  opt_renegotiate_packets :: int
  opt_renegotiate_seconds :: interval_t
  opt_replay_window :: int
  opt_replay_time :: int
  opt_frame :: frame
  opt_tls_wrap :: "('k, 'h) tls_wrap_ctx"
  opt_km2 :: km2_local
  opt_checks :: km2_checks

record ('k, 'h, 't) tls_session =
  ses_burst :: bool
  ses_tls_wrap :: "('k, 'h) tls_wrap_ctx"
  ses_tls_wrap_reneg :: "('k, 'h) tls_wrap_ctx"
  ses_initial_opcode :: u8
  ses_session_id :: session_id
  ses_key_id :: int
  ses_untrusted_addr :: openvpn_sockaddr
  ses_key :: "key_slot \<Rightarrow> ('k, 'h, 't) key_state"

record ('k, 'h, 't) tls_multi =
  mu_opt :: "('k, 'h) tls_options"
  mu_save_ks :: "(session_slot \<times> key_slot) option"
  mu_to_link_addr :: openvpn_sockaddr
  mu_n_sessions :: int
  mu_multi_state :: multi_status
  mu_n_hard_errors :: int
  mu_n_soft_errors :: int
  mu_peer_id :: u32
  mu_session :: "session_slot \<Rightarrow> ('k, 'h, 't) tls_session"

text \<open>
  What the steps take from outside: the libraries, the random bytes of the step and the loading of
  keys. \<open>env_random_sid\<close> is the first defined session id the generator returns.
\<close>

record ('k, 's, 'h, 't) tls_env =
  env_api :: "('k, 's, 'h) crypto_api"
  env_lib :: "'t tls_lib"
  env_load_key :: "u8 list \<Rightarrow> ('k, 'h) key_ctx \<times> ('k, 'h) key_ctx"
  env_verify_metadata :: "(u8 \<Rightarrow> u8 list \<Rightarrow> bool) option"
  env_init_key_ctx :: "key \<Rightarrow> bool \<Rightarrow> ('k, 'h) key_ctx"
  env_prf :: tls_prf
  env_random_source :: key_source
  env_random_sid :: session_id

section \<open>Cleared structures\<close>

definition key_ctx_zero :: "('k, 'h) key_ctx" where
  "key_ctx_zero = \<lparr>kc_cipher = None, kc_hmac = None, kc_implicit_iv = []\<rparr>"

definition crypto_options_zero :: "('k, 'h) crypto_options" where
  "crypto_options_zero = \<lparr>co_encrypt = key_ctx_zero, co_decrypt = key_ctx_zero, co_packet_id = packet_id_clear,
     co_pid_persist = None, co_long_form = False, co_ignore_packet_id = False\<rparr>"

definition reliable_zero :: reliable where
  "reliable_zero = \<lparr>rel_size = 0, rel_initial_timeout = 0, rel_packet_id = 0, rel_offset = 0, rel_hold = False,
     rel_array = replicate 12 reliable_entry_zero\<rparr>"

definition ack_zero :: reliable_ack where
  "ack_zero = \<lparr>ra_len = 0, ra_packet_id = replicate 8 0\<rparr>"

definition key_state_zero :: "('k, 'h, 't) key_state" where
  "key_state_zero = \<lparr>ks_state = S_UNDEF, ks_key_id = 0, ks_ssl = None, ks_initial = 0, ks_established = 0,
     ks_must_negotiate = 0, ks_must_die = 0, ks_peer_last_packet = 0, ks_initial_opcode = 0,
     ks_session_id_remote = x_session_id_zero, ks_remote_addr = SA_OTHER, ks_crypto_options = crypto_options_zero,
     ks_key_initialized = False, ks_resend_wkc = False, ks_key_src = key_source2_zero,
     ks_plaintext_read_buf = clear_buf, ks_plaintext_write_buf = clear_buf, ks_ack_write_buf = clear_buf,
     ks_send_reliable = reliable_zero, ks_rec_reliable = reliable_zero, ks_rec_ack = ack_zero, ks_lru_acks = ack_zero,
     ks_paybuf = [], ks_n_bytes = 0, ks_n_packets = 0, ks_authenticated = KS_AUTH_FALSE, ks_auth_deferred_expire = 0\<rparr>"

definition tls_wrap_zero :: "('k, 'h) tls_wrap_ctx" where
  "tls_wrap_zero = \<lparr>tw_mode = TLS_WRAP_NONE, tw_opt = crypto_options_zero, tw_work = clear_buf,
     tw_tls_crypt_v2_server_key = key_ctx_zero, tw_tls_crypt_v2_wkc = None, tw_tls_crypt_v2_metadata = clear_buf,
     tw_cleanup_key_ctx = False, tw_original_wrap_keydata = []\<rparr>"

definition tls_session_zero :: "('k, 'h, 't) tls_session" where
  "tls_session_zero = \<lparr>ses_burst = False, ses_tls_wrap = tls_wrap_zero, ses_tls_wrap_reneg = tls_wrap_zero,
     ses_initial_opcode = 0, ses_session_id = x_session_id_zero, ses_key_id = 0, ses_untrusted_addr = SA_OTHER,
     ses_key = (\<lambda>_. key_state_zero)\<rparr>"

section \<open>Key states\<close>

text \<open>The key id counts to 7 and goes on with 1, so that 0 is the first key only.\<close>

definition next_key_id :: "int \<Rightarrow> int" where
  "next_key_id k = (let k' = (k + 1) AND uint P_KEY_ID_MASK in if k' = 0 then 1 else k')"

text \<open>The key state and the session after it, whose opcode and key id move on.\<close>

definition key_state_init ::
    "('k, 's, 'h, 't) tls_env \<Rightarrow> ('k, 'h) tls_options \<Rightarrow> ('k, 'h, 't) tls_session
       \<Rightarrow> (('k, 'h, 't) key_state \<times> ('k, 'h, 't) tls_session) option" where
  "key_state_init env opt ses =
     do {
       let key_id = ses_key_id ses;
       let headroom = fr_headroom (opt_frame opt);
       read_buf \<leftarrow> alloc_buf (size_of_int TLS_CHANNEL_BUF_SIZE);
       write_buf \<leftarrow> alloc_buf (size_of_int TLS_CHANNEL_BUF_SIZE);
       ack_buf \<leftarrow> alloc_buf (size_of_int (BUF_SIZE (opt_frame opt)));
       send_rel \<leftarrow> reliable_init (BUF_SIZE (opt_frame opt)) headroom TLS_RELIABLE_N_SEND_BUFFERS
                    (if key_id \<noteq> 0 then False else opt_xmit_hold opt);
       rec_rel \<leftarrow> reliable_init (BUF_SIZE (opt_frame opt)) headroom TLS_RELIABLE_N_REC_BUFFERS False;
       pid \<leftarrow> packet_id_init (opt_replay_window opt) (opt_replay_time opt) ''SSL'' key_id;
       Some (key_state_zero\<lparr>ks_state := S_INITIAL, ks_key_id := key_id, ks_ssl := Some (lib_new (env_lib env)),
               ks_initial_opcode := ses_initial_opcode ses,
               ks_crypto_options := crypto_options_zero\<lparr>co_packet_id := pid\<rparr>,
               ks_plaintext_read_buf := read_buf, ks_plaintext_write_buf := write_buf, ks_ack_write_buf := ack_buf,
               ks_send_reliable := reliable_set_timeout send_rel (opt_packet_timeout opt),
               ks_rec_reliable := rec_rel\<rparr>,
             ses\<lparr>ses_initial_opcode := P_CONTROL_SOFT_RESET_V1, ses_key_id := next_key_id key_id\<rparr>)
     }"

text \<open>What a key state holds after \<open>key_state_free\<close>; without \<open>clear\<close> the caller overwrites it.\<close>

definition key_state_free :: "('k, 'h, 't) key_state \<Rightarrow> bool \<Rightarrow> ('k, 'h, 't) key_state" where
  "key_state_free ks clear = (if clear then key_state_zero else ks\<lparr>ks_state := S_UNDEF, ks_ssl := None\<rparr>)"

definition key_state_soft_reset ::
    "('k, 's, 'h, 't) tls_env \<Rightarrow> time_t \<Rightarrow> ('k, 'h) tls_options \<Rightarrow> ('k, 'h, 't) tls_session \<Rightarrow> ('k, 'h, 't) tls_session option" where
  "key_state_soft_reset env now opt ses =
     (let lame = (ses_key ses KS_PRIMARY)\<lparr>ks_must_die := now + opt_transition_window opt\<rparr> in
      do {
        (ks, ses1) \<leftarrow> key_state_init env opt ses;
        Some (ses1\<lparr>ses_key := (ses_key ses)(KS_LAME_DUCK := lame,
          KS_PRIMARY := ks\<lparr>ks_session_id_remote := ks_session_id_remote lame, ks_remote_addr := ks_remote_addr lame\<rparr>)\<rparr>)
      })"

section \<open>Sessions\<close>

definition tls_session_init ::
    "('k, 's, 'h, 't) tls_env \<Rightarrow> time_t \<Rightarrow> ('k, 'h) tls_options \<Rightarrow> ('k, 'h, 't) tls_session option" where
  "tls_session_init env now opt =
     do {
       work \<leftarrow> alloc_buf (size_of_int (BUF_SIZE (opt_frame opt)));
       pid \<leftarrow> packet_id_init (opt_replay_window opt) (opt_replay_time opt) ''TLS_WRAP'' 0;
       let pid1 = (if opt_tls_crypt_v2 opt then pid\<lparr>pid_send := \<lparr>s_id = EARLY_NEG_START, s_time = now\<rparr>\<rparr> else pid);
       let persist = co_pid_persist (tw_opt (opt_tls_wrap opt));
       let wrap = (opt_tls_wrap opt)\<lparr>tw_work := work,
             tw_opt := (tw_opt (opt_tls_wrap opt))\<lparr>co_packet_id := packet_id_persist_load_obj persist pid1\<rparr>\<rparr>;
       let ses = tls_session_zero\<lparr>ses_session_id := env_random_sid env, ses_tls_wrap := wrap,
             ses_initial_opcode := (if opt_server opt then P_CONTROL_HARD_RESET_SERVER_V2
               else if opt_tls_crypt_v2 opt then P_CONTROL_HARD_RESET_CLIENT_V3 else P_CONTROL_HARD_RESET_CLIENT_V2)\<rparr>;
       (ks, ses1) \<leftarrow> key_state_init env opt ses;
       Some (ses1\<lparr>ses_key := (ses_key ses1)(KS_PRIMARY := ks)\<rparr>)
     }"

definition tls_session_free :: "('k, 'h, 't) tls_session \<Rightarrow> bool \<Rightarrow> ('k, 'h, 't) tls_session" where
  "tls_session_free ses clear =
     (if clear then tls_session_zero else ses\<lparr>ses_key := (\<lambda>i. key_state_free (ses_key ses i) False)\<rparr>)"

definition move_session ::
    "('k, 's, 'h, 't) tls_env \<Rightarrow> time_t \<Rightarrow> ('k, 'h, 't) tls_multi \<Rightarrow> session_slot \<Rightarrow> session_slot \<Rightarrow> bool
       \<Rightarrow> ('k, 'h, 't) tls_multi option" where
  "move_session env now mu dest src reinit_src =
     (if src = dest then None
      else do {
        fresh \<leftarrow> (if reinit_src then tls_session_init env now (mu_opt mu) else Some tls_session_zero);
        Some (mu\<lparr>mu_session := (mu_session mu)(dest := mu_session mu src, src := fresh)\<rparr>)
      })"

definition reset_session ::
    "('k, 's, 'h, 't) tls_env \<Rightarrow> time_t \<Rightarrow> ('k, 'h, 't) tls_multi \<Rightarrow> session_slot \<Rightarrow> ('k, 'h, 't) tls_multi option" where
  "reset_session env now mu i =
     map_option (\<lambda>ses. mu\<lparr>mu_session := (mu_session mu)(i := ses)\<rparr>) (tls_session_init env now (mu_opt mu))"

definition tls_init_control_channel_frame_parameters :: "frame \<Rightarrow> int \<Rightarrow> frame" where
  "tls_init_control_channel_frame_parameters frame tls_mtu =
     (let overhead = 10 + max_int tls_crypt_buf_overhead (packet_id_size True + 64) + 3 + ACK_SIZE RELIABLE_ACK_SIZE
      in frame\<lparr>fr_payload_size := max_int 1500 tls_mtu + 100, fr_headroom := overhead, fr_tailroom := overhead,
               fr_tun_mtu := max_int (min_int tls_mtu TLS_CHANNEL_BUF_SIZE) TLS_CHANNEL_MTU_MIN\<rparr>)"

definition tls_multi_init :: "('k, 'h) tls_options \<Rightarrow> ('k, 'h, 't) tls_multi" where
  "tls_multi_init opt = \<lparr>mu_opt = opt, mu_save_ks = None, mu_to_link_addr = SA_OTHER, mu_n_sessions = 0,
     mu_multi_state = CAS_NOT_CONNECTED, mu_n_hard_errors = 0, mu_n_soft_errors = 0, mu_peer_id = 0,
     mu_session = (\<lambda>_. tls_session_zero)\<rparr>"

definition tls_multi_init_finalize ::
    "('k, 's, 'h, 't) tls_env \<Rightarrow> time_t \<Rightarrow> ('k, 'h, 't) tls_multi \<Rightarrow> int \<Rightarrow> ('k, 'h, 't) tls_multi option" where
  "tls_multi_init_finalize env now mu tls_mtu =
     (let opt = (mu_opt mu)\<lparr>opt_frame := tls_init_control_channel_frame_parameters (opt_frame (mu_opt mu)) tls_mtu\<rparr> in
      do {
        active \<leftarrow> tls_session_init env now opt;
        initial \<leftarrow> tls_session_init env now opt;
        Some (mu\<lparr>mu_opt := opt, mu_session := (mu_session mu)(TM_ACTIVE := active, TM_INITIAL := initial)\<rparr>)
      })"

section \<open>Retiring keys\<close>

definition compute_earliest_wakeup :: "interval_t \<Rightarrow> interval_t \<Rightarrow> interval_t" where
  "compute_earliest_wakeup earliest seconds_from_now =
     (let e = (if seconds_from_now < earliest then seconds_from_now else earliest) in if e < 0 then 0 else e)"

text \<open>\<open>None\<close> is the assertion that a retiring key has an expiration.\<close>

definition lame_duck_must_die ::
    "time_t \<Rightarrow> ('k, 'h, 't) tls_session \<Rightarrow> interval_t \<Rightarrow> (bool \<times> interval_t) option" where
  "lame_duck_must_die now ses wakeup =
     (let lame = ses_key ses KS_LAME_DUCK in
      if ks_state lame \<ge> S_INITIAL
      then if ks_must_die lame = 0 then None
           else if now < ks_must_die lame then Some (False, compute_earliest_wakeup wakeup (ks_must_die lame - now))
           else Some (True, wakeup)
      else if ks_state lame = S_ERROR then Some (True, wakeup)
      else Some (False, wakeup))"

section \<open>The keys of data packets\<close>

definition KEY_SCAN_SIZE :: nat where "KEY_SCAN_SIZE = 3"

fun get_key_scan :: "nat \<Rightarrow> (session_slot \<times> key_slot) option" where
  "get_key_scan 0 = Some (TM_ACTIVE, KS_PRIMARY)"
| "get_key_scan (Suc 0) = Some (TM_ACTIVE, KS_LAME_DUCK)"
| "get_key_scan (Suc (Suc 0)) = Some (TM_LAME_DUCK, KS_LAME_DUCK)"
| "get_key_scan _ = None"

definition key_scan :: "(session_slot \<times> key_slot) list" where
  "key_scan = map (\<lambda>i. the (get_key_scan i)) [0..<KEY_SCAN_SIZE]"

definition mu_key :: "('k, 'h, 't) tls_multi \<Rightarrow> session_slot \<times> key_slot \<Rightarrow> ('k, 'h, 't) key_state" where
  "mu_key mu i = ses_key (mu_session mu (fst i)) (snd i)"

definition mu_key_update ::
    "(session_slot \<times> key_slot) \<Rightarrow> ('k, 'h, 't) key_state \<Rightarrow> ('k, 'h, 't) tls_multi \<Rightarrow> ('k, 'h, 't) tls_multi" where
  "mu_key_update i ks mu =
     (let ses = mu_session mu (fst i)
      in mu\<lparr>mu_session := (mu_session mu)(fst i := ses\<lparr>ses_key := (ses_key ses)(snd i := ks)\<rparr>)\<rparr>)"

definition get_primary_key :: "('k, 'h, 't) tls_multi \<Rightarrow> ('k, 'h, 't) key_state" where
  "get_primary_key mu = mu_key mu (TM_ACTIVE, KS_PRIMARY)"

definition key_usable :: "('k, 'h, 't) key_state \<Rightarrow> bool" where
  "key_usable ks \<longleftrightarrow> ks_state ks \<ge> S_GENERATED_KEYS \<and> ks_authenticated ks = KS_AUTH_TRUE"

text \<open>The loop over the scan; the inner \<open>None\<close> is no key, the outer one a failed assertion.\<close>

fun select_key_loop ::
    "time_t \<Rightarrow> ('k, 'h, 't) tls_multi \<Rightarrow> (session_slot \<times> key_slot) option \<Rightarrow> (session_slot \<times> key_slot) list
       \<Rightarrow> (session_slot \<times> key_slot) option option" where
  "select_key_loop now mu sel [] = Some sel"
| "select_key_loop now mu sel (i # is) =
     (let ks = mu_key mu i in
      if key_usable ks
      then if \<not> ks_key_initialized ks then None
           else if now \<ge> ks_auth_deferred_expire ks then Some (Some i)
           else select_key_loop now mu (if sel = None then Some i else sel) is
      else select_key_loop now mu sel is)"

definition tls_select_encryption_key ::
    "time_t \<Rightarrow> ('k, 'h, 't) tls_multi \<Rightarrow> (session_slot \<times> key_slot) option option" where
  "tls_select_encryption_key now mu = select_key_loop now mu None key_scan"

text \<open>The options to encrypt with, the packet (emptied when there is no key) and the state.\<close>

definition tls_pre_encrypt ::
    "time_t \<Rightarrow> ('k, 'h, 't) tls_multi \<Rightarrow> buffer
       \<Rightarrow> ((session_slot \<times> key_slot) option \<times> buffer \<times> ('k, 'h, 't) tls_multi) option" where
  "tls_pre_encrypt now mu b =
     (if b_len b \<le> 0 then Some (None, b\<lparr>b_len := 0\<rparr>, mu\<lparr>mu_save_ks := None\<rparr>)
      else do {
        sel \<leftarrow> tls_select_encryption_key now mu;
        Some (case sel of
                Some i \<Rightarrow> (Some i, b, mu\<lparr>mu_save_ks := Some i\<rparr>)
              | None \<Rightarrow> (None, b\<lparr>b_len := 0\<rparr>, mu\<lparr>mu_save_ks := None\<rparr>))
      })"

definition tls_prepend_opcode_v1 :: "('k, 'h, 't) tls_multi \<Rightarrow> buffer \<Rightarrow> buffer option" where
  "tls_prepend_opcode_v1 mu b =
     do {
       i \<leftarrow> mu_save_ks mu;
       assert_ok (buf_write_prepend b [push_bit P_OPCODE_SHIFT P_DATA_V1 OR word_of_int (ks_key_id (mu_key mu i))])
     }"

definition tls_prepend_opcode_v2 :: "('k, 'h, 't) tls_multi \<Rightarrow> buffer \<Rightarrow> buffer option" where
  "tls_prepend_opcode_v2 mu b =
     do {
       i \<leftarrow> mu_save_ks mu;
       let header = push_bit P_OPCODE_SHIFT (ucast P_DATA_V2) OR word_of_int (ks_key_id (mu_key mu i));
       assert_ok (buf_write_prepend b (u32_bytes (push_bit 24 header OR (mu_peer_id mu AND 0xFFFFFF))))
     }"

definition tls_post_encrypt :: "('k, 'h, 't) tls_multi \<Rightarrow> buffer \<Rightarrow> ('k, 'h, 't) tls_multi option" where
  "tls_post_encrypt mu b =
     (let mu1 = mu\<lparr>mu_save_ks := None\<rparr> in
      if b_len b > 0
      then do {
        i \<leftarrow> mu_save_ks mu;
        let ks = mu_key mu i;
        Some (mu_key_update i (ks\<lparr>ks_n_packets := ks_n_packets ks + 1, ks_n_bytes := ks_n_bytes ks + b_len b\<rparr>) mu1)
      }
      else Some mu1)"

text \<open>
  A data packet: the key whose id it carries, the place where the authenticated data starts (an
  index into the block), the rest of the packet.
\<close>

fun find_data_key ::
    "('k, 'h, 't) tls_multi \<Rightarrow> openvpn_sockaddr \<Rightarrow> bool \<Rightarrow> int \<Rightarrow> (session_slot \<times> key_slot) list
       \<Rightarrow> (session_slot \<times> key_slot) option option" where
  "find_data_key mu from' floated key_id [] = Some None"
| "find_data_key mu from' floated key_id (i # is) =
     (let ks = mu_key mu i in
      if ks_state ks \<ge> S_GENERATED_KEYS \<and> key_id = ks_key_id ks \<and> ks_authenticated ks = KS_AUTH_TRUE
      then do {
        match \<leftarrow> (if floated then Some True else addr_port_match from' (ks_remote_addr ks));
        if match then Some (Some i) else find_data_key mu from' floated key_id is
      }
      else find_data_key mu from' floated key_id is)"

definition handle_data_channel_packet ::
    "('k, 'h, 't) tls_multi \<Rightarrow> openvpn_sockaddr \<Rightarrow> buffer \<Rightarrow> bool
       \<Rightarrow> ((session_slot \<times> key_slot) option \<times> nat option \<times> buffer \<times> ('k, 'h, 't) tls_multi) option" where
  "handle_data_channel_packet mu from' b floated =
     (let c = buf_mem b ! nat (b_offset b); op = packet_opcode c; key_id = uint (packet_key_id c) in
      do {
        found \<leftarrow> find_data_key mu from' floated key_id key_scan;
        case found of
          None \<Rightarrow> Some (None, None, b\<lparr>b_len := 0\<rparr>, mu)
        | Some i \<Rightarrow> do {
            let ks = mu_key mu i;
            assert_opt (ks_key_initialized ks);
            let start2 = (if op = P_DATA_V2 then buf_bptr b else None);
            b1 \<leftarrow> assert_ok (buf_advance b 1);
            let ad_start = (if op = P_DATA_V1 then buf_bptr b1 else start2);
            if op = P_DATA_V2 \<and> b_len b1 < 4
            then Some (None, ad_start, b1\<lparr>b_len := 0\<rparr>, mu\<lparr>mu_n_soft_errors := mu_n_soft_errors mu + 1\<rparr>)
            else do {
              b2 \<leftarrow> (if op = P_DATA_V2 then assert_ok (buf_advance b1 3) else Some b1);
              Some (Some i, ad_start, b2,
                mu_key_update i (ks\<lparr>ks_n_packets := ks_n_packets ks + 1, ks_n_bytes := ks_n_bytes ks + b_len b2\<rparr>) mu)
            }
          }
      })"

end
