(* ===== verification/TlsProcess.thy ===== *)
theory TlsProcess
  imports TlsSession
begin

text \<open>
  The control channel state machine of \<open>ssl.c\<close>: a pass of \<open>tls_process_state\<close> and the loop of
  \<open>tls_process\<close> that repeats it, with two theorems, that the loop ends and that the states of a key
  come in the order of the negotiation. A block of \<open>tls_process_state\<close> is a definition of its own; it takes what the code has in its local
  variables and arguments (\<open>proc\<close>), and goes on, jumps to \<open>error\<close>, or returns. The clock does not
  advance during a call. What the code hands to the management interface, the environment of scripts
  and the log is left out.
\<close>

section \<open>Control packets of a session\<close>

definition tls_session_get_tls_wrap :: "('k, 'h, 't) tls_session \<Rightarrow> int \<Rightarrow> ('k, 'h) tls_wrap_ctx" where
  "tls_session_get_tls_wrap ses key_id =
     (if key_id > 0 \<and> tw_mode (ses_tls_wrap_reneg ses) = TLS_WRAP_CRYPT then ses_tls_wrap_reneg ses else ses_tls_wrap ses)"

text \<open>The context behind the pointer the function returns is updated.\<close>

definition tls_session_put_tls_wrap ::
    "('k, 'h, 't) tls_session \<Rightarrow> int \<Rightarrow> ('k, 'h) tls_wrap_ctx \<Rightarrow> ('k, 'h, 't) tls_session" where
  "tls_session_put_tls_wrap ses key_id ctx =
     (if key_id > 0 \<and> tw_mode (ses_tls_wrap_reneg ses) = TLS_WRAP_CRYPT
      then ses\<lparr>ses_tls_wrap_reneg := ctx\<rparr> else ses\<lparr>ses_tls_wrap := ctx\<rparr>)"

definition ses_put_key :: "key_slot \<Rightarrow> ('k, 'h, 't) key_state \<Rightarrow> ('k, 'h, 't) tls_session \<Rightarrow> ('k, 'h, 't) tls_session" where
  "ses_put_key i ks ses = ses\<lparr>ses_key := (ses_key ses)(i := ks)\<rparr>"

text \<open>
  \<open>write_control_auth\<close> on the primary key of a session: the packet, and the session with the
  acknowledgements and the wrapping context moved on. The packet goes to \<open>ks_remote_addr\<close>.
\<close>

definition ses_write_control_auth ::
    "('k, 's, 'h, 't) tls_env \<Rightarrow> time_t \<Rightarrow> ('k, 'h) tls_options \<Rightarrow> ('k, 'h, 't) tls_session \<Rightarrow> buffer \<Rightarrow> u8 \<Rightarrow> int \<Rightarrow> bool
       \<Rightarrow> (buffer \<times> ('k, 'h, 't) tls_session) option" where
  "ses_write_control_auth env now opt ses b opcode max_ack prepend_ack =
     (let ks = ses_key ses KS_PRIMARY;
          softether = (tw_mode (ses_tls_wrap ses) = TLS_WRAP_NONE \<and> \<not> opt_server opt \<and> \<not> opt_key_export opt)
      in do {
        assert_opt (addr_defined (ks_remote_addr ks));
        (b', ctx, rec_ack, lru) \<leftarrow>
          write_control_auth (env_api env) now (tls_session_get_tls_wrap ses (ks_key_id ks)) softether
            (word_of_int (ks_key_id ks)) (ks_rec_ack ks) (ks_lru_acks ks) (ks_session_id_remote ks) (ses_session_id ses)
            b opcode max_ack prepend_ack;
        Some (b', ses_put_key KS_PRIMARY (ks\<lparr>ks_rec_ack := rec_ack, ks_lru_acks := lru\<rparr>)
                    (tls_session_put_tls_wrap ses (ks_key_id ks) ctx))
      })"

section \<open>The blocks of a pass\<close>

text \<open>The local state of a pass over a session.\<close>

record ('k, 'h, 't) proc =
  pr_session :: "('k, 'h, 't) tls_session"
  pr_multi_state :: multi_status
  pr_to_link :: buffer
  pr_to_link_addr :: "openvpn_sockaddr option"
  pr_wakeup :: interval_t
  pr_change :: bool

definition pr_ks :: "('k, 'h, 't) proc \<Rightarrow> ('k, 'h, 't) key_state" where
  "pr_ks p = ses_key (pr_session p) KS_PRIMARY"

definition pr_put :: "('k, 'h, 't) key_state \<Rightarrow> ('k, 'h, 't) proc \<Rightarrow> ('k, 'h, 't) proc" where
  "pr_put ks p = p\<lparr>pr_session := ses_put_key KS_PRIMARY ks (pr_session p)\<rparr>"

datatype 'p exit = Goes_on 'p | Goto_error 'p | Returns_true 'p

text \<open>A block after another.\<close>

definition and_then :: "('p \<Rightarrow> 'p exit option) \<Rightarrow> ('p \<Rightarrow> 'p exit option) \<Rightarrow> 'p \<Rightarrow> 'p exit option" where
  "and_then f g p = (case f p of Some (Goes_on p') \<Rightarrow> g p' | r \<Rightarrow> r)"

definition auth_deferred_expire_window :: "('k, 'h) tls_options \<Rightarrow> int" where
  "auth_deferred_expire_window o' =
     (let ret = opt_handshake_window o'; r2 = opt_renegotiate_seconds o' sdiv 2
      in if opt_renegotiate_seconds o' \<noteq> 0 \<and> r2 < ret then r2 else ret)"

definition session_move_pre_start ::
    "time_t \<Rightarrow> ('k, 'h) tls_options \<Rightarrow> ('k, 'h, 't) key_state \<Rightarrow> bool \<Rightarrow> (bool \<times> ('k, 'h, 't) key_state) option" where
  "session_move_pre_start now opt ks skip_initial_send =
     (case reliable_get_buf_output_sequenced (ks_send_reliable ks) of
        None \<Rightarrow> None
      | Some (None, rel) \<Rightarrow> Some (False, ks\<lparr>ks_send_reliable := rel\<rparr>)
      | Some (Some i, rel) \<Rightarrow> do {
          rel1 \<leftarrow> reliable_mark_active_outgoing rel i (uint (ks_initial_opcode ks));
          rel2 \<leftarrow> (if skip_initial_send then reliable_mark_deleted rel1 i else Some rel1);
          Some (True, ks\<lparr>ks_initial := now, ks_must_negotiate := now + opt_handshake_window opt,
            ks_auth_deferred_expire := now + auth_deferred_expire_window opt,
            ks_send_reliable := rel2, ks_state := S_PRE_START\<rparr>)
        })"

definition block_initial :: "time_t \<Rightarrow> ('k, 'h) tls_options \<Rightarrow> ('k, 'h, 't) proc \<Rightarrow> ('k, 'h, 't) proc exit option" where
  "block_initial now opt p =
     (if ks_state (pr_ks p) = S_INITIAL
      then map_option (\<lambda>(chg, ks). Goes_on ((pr_put ks p)\<lparr>pr_change := chg\<rparr>)) (session_move_pre_start now opt (pr_ks p) False)
      else Some (Goes_on p))"

definition block_timeout :: "time_t \<Rightarrow> ('k, 'h, 't) proc \<Rightarrow> ('k, 'h, 't) proc exit option" where
  "block_timeout now p =
     Some (if now \<ge> ks_must_negotiate (pr_ks p) \<and> ks_state (pr_ks p) < S_ACTIVE then Goto_error p else Goes_on p)"

definition block_start :: "('k, 'h, 't) proc \<Rightarrow> ('k, 'h, 't) proc exit option" where
  "block_start p =
     Some (Goes_on
       (if ks_state (pr_ks p) = S_PRE_START \<and> reliable_empty (ks_send_reliable (pr_ks p))
        then (pr_put ((pr_ks p)\<lparr>ks_state := S_START\<rparr>) p)\<lparr>pr_change := True\<rparr> else p))"

text \<open>The messages queued before the session was active; the result of the writes is ignored.\<close>

fun flush_payload_buffer :: "'t tls_lib \<Rightarrow> 't option \<Rightarrow> u8 list list \<Rightarrow> 't option option" where
  "flush_payload_buffer lib ssl [] = Some ssl"
| "flush_payload_buffer lib ssl (b # bs) =
     (case key_state_write_plaintext_const lib ssl b of
        None \<Rightarrow> None | Some (_, t) \<Rightarrow> flush_payload_buffer lib (Some t) bs)"

definition session_move_active ::
    "('k, 's, 'h, 't) tls_env \<Rightarrow> time_t \<Rightarrow> ('k, 'h) tls_options \<Rightarrow> multi_status \<Rightarrow> ('k, 'h, 't) key_state
       \<Rightarrow> (multi_status \<times> ('k, 'h, 't) key_state) option" where
  "session_move_active env now opt ms ks =
     (let ms' = (if ms = CAS_NOT_CONNECTED
                 then if opt_mode_server opt then CAS_WAITING_AUTH else CAS_WAITING_OPTIONS_IMPORT else ms)
      in map_option (\<lambda>ssl. (ms', ks\<lparr>ks_established := now, ks_state := S_ACTIVE, ks_must_negotiate := 0,
                                    ks_ssl := ssl, ks_paybuf := []\<rparr>))
           (flush_payload_buffer (env_lib env) (ks_ssl ks) (ks_paybuf ks)))"

definition block_active ::
    "('k, 's, 'h, 't) tls_env \<Rightarrow> time_t \<Rightarrow> ('k, 'h) tls_options \<Rightarrow> ('k, 'h, 't) proc \<Rightarrow> ('k, 'h, 't) proc exit option" where
  "block_active env now opt p =
     (let ks = pr_ks p in
      if ((ks_state ks = S_GOT_KEY \<and> \<not> opt_server opt) \<or> (ks_state ks = S_SENT_KEY \<and> opt_server opt))
         \<and> reliable_empty (ks_send_reliable ks)
      then map_option (\<lambda>(ms, ks'). Goes_on ((pr_put ks' p)\<lparr>pr_multi_state := ms, pr_change := True\<rparr>))
             (session_move_active env now opt (pr_multi_state p) ks)
      else Some (Goes_on p))"

definition block_send ::
    "('k, 's, 'h, 't) tls_env \<Rightarrow> time_t \<Rightarrow> ('k, 'h) tls_options \<Rightarrow> ('k, 'h, 't) proc \<Rightarrow> ('k, 'h, 't) proc exit option" where
  "block_send env now opt p =
     (if b_len (pr_to_link p) = 0 \<and> reliable_can_send now (ks_send_reliable (pr_ks p))
      then (case reliable_send now (ks_send_reliable (pr_ks p)) of
              (None, _) \<Rightarrow> None
            | (Some (i, opcode), rel) \<Rightarrow> do {
                (b, ses) \<leftarrow> ses_write_control_auth env now opt
                   (pr_session (pr_put ((pr_ks p)\<lparr>ks_send_reliable := rel\<rparr>) p)) (e_buf (rel_array rel ! i))
                   (word_of_int opcode) CONTROL_SEND_ACK_MAX True;
                Some (Returns_true (p\<lparr>pr_session := ses, pr_to_link := b,
                        pr_to_link_addr := Some (ks_remote_addr (pr_ks p))\<rparr>))
              })
      else Some (Goes_on p))"

lemma read_u16_len: "buf_read_u16 b = (v, b') \<Longrightarrow> b_len b' \<le> b_len b \<and> (buf_len b \<ge> 2 \<longrightarrow> b_len b' < b_len b)"
  by (auto simp: buf_read_u16_def buf_read_def buf_read_alloc_def buf_len_def buf_valid_def split: option.splits if_splits)

lemma advance_len: "b_len (snd (buf_advance b n)) \<le> b_len b"
  by (simp add: buf_advance_def)

text \<open>
  The payload of the first packet: type, length, value. The result is the success, the flag to send
  the wrapped client key again, and what is left of the buffer.
\<close>

function parse_tlvs :: "bool \<Rightarrow> buffer \<Rightarrow> bool \<times> bool \<times> buffer" where
  "parse_tlvs resend b =
     (if b_len b > 0
      then if buf_len b < 4 then (False, resend, b)
           else (case buf_read_u16 b of
                   (type, b1) \<Rightarrow>
                     (case buf_read_u16 b1 of
                        (len, b2) \<Rightarrow>
                          if buf_len b2 < len then (False, resend, b2)
                          else if type = uint TLV_TYPE_EARLY_NEG_FLAGS
                          then if len \<noteq> 2 then (False, resend, b2)
                               else (case buf_read_u16 b2 of
                                       (flags, b3) \<Rightarrow>
                                         parse_tlvs (resend \<or> flags AND uint EARLY_NEG_FLAG_RESEND_WKC \<noteq> 0) b3)
                          else parse_tlvs resend (snd (buf_advance b2 len))))
      else (True, resend, b))"
  by pat_completeness auto
termination
proof (relation "measure (\<lambda>(_, b). nat (b_len b))")
  fix resend and b b1 b2 :: buffer and ty ln :: int
  assume a: "0 < b_len b" "\<not> buf_len b < 4" "(ty, b1) = buf_read_u16 b" "(ln, b2) = buf_read_u16 b1"
  have b1: "b_len b1 < b_len b" using read_u16_len [OF a(3) [symmetric]] a(2) by simp
  have b2: "b_len b2 \<le> b_len b1" using read_u16_len [OF a(4) [symmetric]] by simp
  show "((resend, snd (buf_advance b2 ln)), resend, b) \<in> measure (\<lambda>(_, b). nat (b_len b))"
    using b1 b2 a(1) advance_len [of b2 ln] by simp
  fix flags and b3 :: buffer and r assume "(flags, b3) = buf_read_u16 b2"
  then have "b_len b3 \<le> b_len b2" using read_u16_len by metis
  then show "((r, b3), resend, b) \<in> measure (\<lambda>(_, b). nat (b_len b))" using b1 b2 a(1) by simp
qed auto

declare parse_tlvs.simps [simp del]

text \<open>\<open>i\<close> is the index of the entry whose buffer is parsed.\<close>

definition parse_early_negotiation_tlvs ::
    "nat \<Rightarrow> ('k, 'h, 't) key_state \<Rightarrow> (bool \<times> ('k, 'h, 't) key_state) option" where
  "parse_early_negotiation_tlvs i ks =
     (let rel = ks_rec_reliable ks; e = rel_array rel ! i in
      case parse_tlvs (ks_resend_wkc ks) (e_buf e) of
        (ok, resend, b) \<Rightarrow>
          (let rel1 = rel_update rel i (e\<lparr>e_buf := b\<rparr>) in
           if \<not> ok then Some (False, ks\<lparr>ks_resend_wkc := resend, ks_rec_reliable := rel1\<rparr>)
           else map_option (\<lambda>rel2. (True, ks\<lparr>ks_resend_wkc := resend, ks_rec_reliable := rel2\<rparr>))
                  (reliable_mark_deleted rel1 i)))"

text \<open>The result is the success, whether the state changed, and the key state.\<close>

definition read_incoming_tls_ciphertext ::
    "'t tls_lib \<Rightarrow> nat \<Rightarrow> ('k, 'h, 't) key_state \<Rightarrow> (bool \<times> bool \<times> ('k, 'h, 't) key_state) option" where
  "read_incoming_tls_ciphertext lib i ks =
     (let rel = ks_rec_reliable ks; e = rel_array rel ! i in
      do {
        (status, ks1) \<leftarrow>
          (if b_len (e_buf e) \<noteq> 0
           then map_option (\<lambda>(st, t, b). (st, ks\<lparr>ks_ssl := Some t, ks_rec_reliable := rel_update rel i (e\<lparr>e_buf := b\<rparr>)\<rparr>))
                  (key_state_write_ciphertext lib (ks_ssl ks) (e_buf e))
           else Some (1, ks));
        if status = -1 then Some (False, False, ks1)
        else if status = 1
        then map_option (\<lambda>rel2. (True, True, ks1\<lparr>ks_rec_reliable := rel2\<rparr>)) (reliable_mark_deleted (ks_rec_reliable ks1) i)
        else Some (True, False, ks1)
      })"

definition is_hard_reset_method2 :: "u8 \<Rightarrow> bool" where
  "is_hard_reset_method2 op \<longleftrightarrow> op = P_CONTROL_HARD_RESET_CLIENT_V2 \<or> op = P_CONTROL_HARD_RESET_SERVER_V2
     \<or> op = P_CONTROL_HARD_RESET_CLIENT_V3"

definition block_ciphertext_in :: "'t tls_lib \<Rightarrow> ('k, 'h, 't) proc \<Rightarrow> ('k, 'h, 't) proc exit option" where
  "block_ciphertext_in lib p =
     (case reliable_get_entry_sequenced (ks_rec_reliable (pr_ks p)) of
        None \<Rightarrow> Some (Goes_on p)
      | Some i \<Rightarrow>
          (let e = rel_array (ks_rec_reliable (pr_ks p)) ! i in
           if e_packet_id e = 0 \<and> is_hard_reset_method2 (word_of_int (e_opcode e))
           then map_option (\<lambda>(ok, ks). (if ok then Goes_on else Goto_error) (pr_put ks p))
                  (parse_early_negotiation_tlvs i (pr_ks p))
           else map_option (\<lambda>(ok, chg, ks). (if ok then Goes_on else Goto_error)
                    ((pr_put ks p)\<lparr>pr_change := pr_change p \<or> chg\<rparr>))
                  (read_incoming_tls_ciphertext lib i (pr_ks p))))"

definition block_plaintext_in :: "'t tls_lib \<Rightarrow> ('k, 'h, 't) proc \<Rightarrow> ('k, 'h, 't) proc exit option" where
  "block_plaintext_in lib p =
     (let ks = pr_ks p in
      if b_len (ks_plaintext_read_buf ks) \<noteq> 0 then Some (Goes_on p)
      else do {
        b0 \<leftarrow> assert_ok (buf_init (ks_plaintext_read_buf ks) 0);
        (status, t, b) \<leftarrow> key_state_read_plaintext lib (ks_ssl ks) b0;
        let p1 = pr_put (ks\<lparr>ks_ssl := Some t, ks_plaintext_read_buf := b\<rparr>) p;
        Some (if status = -1 then Goto_error p1
              else if status = 1 then Goes_on (p1\<lparr>pr_change := True, pr_wakeup := 0\<rparr>)
              else Goes_on p1)
      })"

definition block_send_key ::
    "('k, 's, 'h, 't) tls_env \<Rightarrow> ('k, 'h) tls_options \<Rightarrow> ('k, 'h, 't) proc \<Rightarrow> ('k, 'h, 't) proc exit option" where
  "block_send_key env opt p =
     (let ks = pr_ks p in
      if b_len (ks_plaintext_write_buf ks) = 0
         \<and> ((ks_state ks = S_START \<and> \<not> opt_server opt) \<or> (ks_state ks = S_GOT_KEY \<and> opt_server opt))
      then map_option (\<lambda>(ok, src, b).
             (let ks1 = ks\<lparr>ks_key_src := src, ks_plaintext_write_buf := b\<rparr> in
              if \<not> ok then Goto_error (pr_put ks1 p)
              else Goes_on ((pr_put (ks1\<lparr>ks_state := S_SENT_KEY\<rparr>) p)\<lparr>pr_change := True\<rparr>)))
            (key_method_2_write ((opt_km2 opt)\<lparr>kl_server := opt_server opt\<rparr>) (env_random_source env) (ks_key_src ks) (ks_plaintext_write_buf ks))
      else Some (Goes_on p))"

definition block_receive_key :: "('k, 'h) tls_options \<Rightarrow> ('k, 'h, 't) proc \<Rightarrow> ('k, 'h, 't) proc exit option" where
  "block_receive_key opt p =
     (let ks = pr_ks p in
      if b_len (ks_plaintext_read_buf ks) \<noteq> 0
         \<and> ((ks_state ks = S_SENT_KEY \<and> \<not> opt_server opt) \<or> (ks_state ks = S_START \<and> opt_server opt))
      then (case key_method_2_read (opt_checks opt) (opt_server opt) (ks_key_src ks) (ks_plaintext_read_buf ks) of
              (ok, auth, src, b, _) \<Rightarrow>
                (let ks1 = ks\<lparr>ks_authenticated := auth, ks_key_src := src, ks_plaintext_read_buf := b\<rparr> in
                 Some (if \<not> ok then Goto_error (pr_put ks1 p)
                       else Goes_on ((pr_put (ks1\<lparr>ks_state := S_GOT_KEY\<rparr>) p)\<lparr>pr_change := True\<rparr>))))
      else Some (Goes_on p))"

definition block_plaintext_out :: "'t tls_lib \<Rightarrow> ('k, 'h, 't) proc \<Rightarrow> ('k, 'h, 't) proc exit option" where
  "block_plaintext_out lib p =
     (let ks = pr_ks p in
      if b_len (ks_plaintext_write_buf ks) = 0 then Some (Goes_on p)
      else map_option (\<lambda>(status, t, b).
             (let p1 = pr_put (ks\<lparr>ks_ssl := Some t, ks_plaintext_write_buf := b\<rparr>) p in
              if status = -1 then Goto_error p1
              else if status = 1 then Goes_on (p1\<lparr>pr_change := True\<rparr>)
              else Goes_on p1))
            (key_state_write_plaintext lib (ks_ssl ks) (ks_plaintext_write_buf ks)))"

section \<open>Outgoing ciphertext\<close>

definition calc_control_channel_frame_overhead ::
    "('k, 's, 'h) crypto_api \<Rightarrow> ('k, 'h, 't) tls_session \<Rightarrow> int option" where
  "calc_control_channel_frame_overhead api ses =
     (let ks = ses_key ses KS_PRIMARY;
          ackstosend = reliable_ack_outstanding (ks_rec_ack ks) + ra_len (ks_lru_acks ks);
          o1 = 1 + SID_SIZE + ACK_SIZE (min_int ackstosend CONTROL_SEND_ACK_MAX) + 4
      in do {
        o2 \<leftarrow> (case tw_mode (ses_tls_wrap ses) of
                 TLS_WRAP_CRYPT \<Rightarrow> Some (o1 + tls_crypt_buf_overhead)
               | TLS_WRAP_AUTH \<Rightarrow> map_option (\<lambda>h. o1 + hmac_ctx_size api h + packet_id_size True)
                                    (kc_hmac (co_encrypt (tw_opt (ses_tls_wrap ses))))
               | TLS_WRAP_NONE \<Rightarrow> Some o1);
        Some (o2 + datagram_overhead (sockaddr_af (ses_untrusted_addr ses)) PROTO_UDP)
      })"

definition needs_wkc :: "bool \<Rightarrow> reliable \<Rightarrow> bool" where
  "needs_wkc resend rel \<longleftrightarrow> resend \<and> rel_packet_id rel = 1"

definition control_packet_needs_wkc :: "('k, 'h, 't) key_state \<Rightarrow> bool" where
  "control_packet_needs_wkc ks = needs_wkc (ks_resend_wkc ks) (ks_send_reliable ks)"

text \<open>
  One control packet: a free entry, the next bytes of \<open>tmp\<close>, and the opcode. The results of the copy
  are not looked at by the code. \<open>wkc_len\<close> is the length of the wrapped client key, if there is one.
\<close>

definition ciphertext_packet ::
    "bool \<Rightarrow> int option \<Rightarrow> int \<Rightarrow> reliable \<Rightarrow> buffer \<Rightarrow> (reliable \<times> buffer) option" where
  "ciphertext_packet resend wkc_len max_pkt_len rel tmp =
     do {
       (opcode, len0) \<leftarrow> (if needs_wkc resend rel
                          then map_option (\<lambda>n. (P_CONTROL_WKC_V1, max_int 0 (max_pkt_len - n))) wkc_len
                          else Some (P_CONTROL_V1, max_pkt_len));
       let len = min_int len0 (b_len tmp);
       (slot, rel1) \<leftarrow> reliable_get_buf_output_sequenced rel;
       i \<leftarrow> slot;
       let e = rel_array rel1 ! i;
       let (_, b, tmp1) = buf_copy_n (e_buf e) tmp len;
       rel2 \<leftarrow> reliable_mark_active_outgoing (rel_update rel1 i (e\<lparr>e_buf := b\<rparr>)) i (uint opcode);
       Some (rel2, tmp1)
     }"

text \<open>
  Each packet uses up a free entry, which ends the loop: an entry of the send array weighs two when
  it is free, one when it is due to be sent, nothing when it waits for its acknowledgement.
\<close>

definition entry_weight :: "(reliable_entry \<Rightarrow> nat) \<Rightarrow> reliable \<Rightarrow> nat" where
  "entry_weight f rel = sum_list (map f (rel_entries rel))"

definition slot_weight :: "time_t \<Rightarrow> reliable_entry \<Rightarrow> nat" where
  "slot_weight now e = (if \<not> e_active e then 2 else if reliable_entry_due now e then 1 else 0)"

lemma slot_weight_active: "e_active e \<Longrightarrow> slot_weight now e \<le> 1"
  by (simp add: slot_weight_def)

lemma slot_weight_buf [simp]: "slot_weight now (e\<lparr>e_buf := b\<rparr>) = slot_weight now e"
  by (simp add: slot_weight_def reliable_entry_due_def)

lemma entry_weight_update:
  assumes "i < length (rel_entries rel)"
  shows "entry_weight f (rel_update rel i e) + f (rel_array rel ! i) = entry_weight f rel + f e"
proof -
  have "f (rel_array rel ! i) \<le> sum_list (map f (rel_entries rel))"
    using assms member_le_sum_list [of "f (rel_entries rel ! i)" "map f (rel_entries rel)"] by (simp add: rel_entries_nth)
  moreover have "sum_list (map f ((rel_entries rel)[i := e])) = sum_list (map f (rel_entries rel)) + f e - f (rel_entries rel ! i)"
    using assms sum_list_update [of i "map f (rel_entries rel)" "f e"] by (simp add: map_update)
  ultimately show ?thesis using assms by (simp add: entry_weight_def rel_entries_nth)
qed

lemma entry_weight_packet_id [simp]: "entry_weight f (rel\<lparr>rel_packet_id := n\<rparr>) = entry_weight f rel"
  by (simp add: entry_weight_def)

text \<open>What a successful call of the reliability layer leaves.\<close>

lemma get_buf_output_SomeD:
  assumes "reliable_get_buf_output_sequenced rel = Some (slot, rel1)"
  shows "case slot of None \<Rightarrow> rel1 = rel
    | Some i \<Rightarrow> i < length (rel_entries rel) \<and> \<not> e_active (rel_array rel ! i)
        \<and> (\<exists>b. rel1 = rel_update rel i ((rel_array rel ! i)\<lparr>e_buf := b\<rparr>))"
proof -
  have "rel1 = rel \<and> slot = None \<or> reliable_get_buf rel = Some (slot, rel1)"
    using assms by (auto simp: reliable_get_buf_output_sequenced_def split: if_splits)
  moreover have ?thesis if g: "reliable_get_buf rel = Some (slot, rel1)"
  proof (cases "find_index (\<lambda>e. \<not> e_active e) (rel_entries rel)")
    case None
    then show ?thesis using g by (simp add: reliable_get_buf_def)
  next
    case (Some i)
    then have i: "i < length (rel_entries rel)" "\<not> e_active (rel_array rel ! i)"
      using find_index_SomeD [OF Some] by (simp_all add: rel_entries_nth)
    obtain ok b where b: "buf_init (e_buf (rel_array rel ! i)) (rel_offset rel) = (ok, b)" by (cases "buf_init (e_buf (rel_array rel ! i)) (rel_offset rel)")
    with g Some have "slot = Some i" "rel1 = rel_update rel i ((rel_array rel ! i)\<lparr>e_buf := b\<rparr>)"
      by (cases ok; simp add: reliable_get_buf_def)+
    with i show ?thesis by auto
  qed
  ultimately show ?thesis by auto
qed

lemma mark_active_outgoing_SomeD:
  assumes "reliable_mark_active_outgoing rel i op = Some rel2"
  shows "i < length (rel_entries rel) \<and> (\<exists>b. rel2 = (rel_update rel i ((rel_array rel ! i)
      \<lparr>e_packet_id := rel_packet_id rel, e_buf := b, e_active := True, e_opcode := op, e_next_try := 0,
       e_timeout := rel_initial_timeout rel\<rparr>))\<lparr>rel_packet_id := rel_packet_id rel + 1\<rparr>)"
proof -
  have l: "i < length (rel_entries rel)" using assms by (simp add: reliable_mark_active_outgoing_def split: if_splits)
  obtain ok b where b: "buf_write_prepend (e_buf (rel_array rel ! i)) (u32_bytes (rel_packet_id rel)) = (ok, b)"
    by (cases "buf_write_prepend (e_buf (rel_array rel ! i)) (u32_bytes (rel_packet_id rel))")
  show ?thesis using assms l b by (cases ok; intro conjI exI [of _ b]; auto simp: reliable_mark_active_outgoing_def rel_update_def)
qed

lemma rel_update_same: "i < length (rel_entries rel) \<Longrightarrow> rel_array (rel_update rel i e) ! i = e"
  by (simp add: rel_update_def rel_entries_def)

lemma rel_update_twice [simp]: "rel_update (rel_update rel i e) i e' = rel_update rel i e'"
  by (simp add: rel_update_def)

text \<open>A free entry is filled and made active.\<close>

lemma slot_used:
  assumes "reliable_get_buf_output_sequenced rel = Some (Some i, rel1)"
    and "reliable_mark_active_outgoing (rel_update rel1 i ((rel_array rel1 ! i)\<lparr>e_buf := b\<rparr>)) i op = Some rel2"
  shows "entry_weight (slot_weight now) rel2 < entry_weight (slot_weight now) rel"
proof -
  obtain b0 where i: "i < length (rel_entries rel)" "\<not> e_active (rel_array rel ! i)"
    and rel1: "rel1 = rel_update rel i ((rel_array rel ! i)\<lparr>e_buf := b0\<rparr>)"
    using get_buf_output_SomeD [OF assms(1)] by auto
  have "\<exists>e. rel2 = (rel_update rel i e)\<lparr>rel_packet_id := rel_packet_id rel + 1\<rparr> \<and> e_active e"
    using mark_active_outgoing_SomeD [OF assms(2)] by (auto simp: rel1)
  then obtain e where "rel2 = (rel_update rel i e)\<lparr>rel_packet_id := rel_packet_id rel + 1\<rparr>" "e_active e" by blast
  moreover have "entry_weight (slot_weight now) (rel_update rel i e) + 2 = entry_weight (slot_weight now) rel + slot_weight now e"
    using entry_weight_update [OF i(1), of "slot_weight now" e] i(2) by (simp add: slot_weight_def)
  ultimately show ?thesis using slot_weight_active [of e now] by simp
qed

lemma ciphertext_packet_weight:
  assumes "ciphertext_packet resend wkc_len max_pkt_len rel tmp = Some (rel2, tmp1)"
  shows "entry_weight (slot_weight now) rel2 < entry_weight (slot_weight now) rel"
proof -
  obtain i rel1 b op where "reliable_get_buf_output_sequenced rel = Some (Some i, rel1)"
    "reliable_mark_active_outgoing (rel_update rel1 i ((rel_array rel1 ! i)\<lparr>e_buf := b\<rparr>)) i op = Some rel2"
    using assms by (auto simp: ciphertext_packet_def Let_def split: bind_splits prod.splits if_splits)
  then show ?thesis by (rule slot_used)
qed

function write_ciphertext_loop ::
    "bool \<Rightarrow> int option \<Rightarrow> int \<Rightarrow> reliable \<Rightarrow> buffer \<Rightarrow> bool \<Rightarrow> (reliable \<times> bool) option" where
  "write_ciphertext_loop resend wkc_len max_pkt_len rel tmp chg =
     (if b_len tmp > 0
      then (case ciphertext_packet resend wkc_len max_pkt_len rel tmp of
              None \<Rightarrow> None
            | Some (rel1, tmp1) \<Rightarrow> write_ciphertext_loop resend wkc_len max_pkt_len rel1 tmp1 True)
      else Some (rel, chg))"
  by pat_completeness auto
termination
  by (relation "measure (\<lambda>(_, _, _, rel, _, _). entry_weight (slot_weight 0) rel)")
    (auto dest: ciphertext_packet_weight [where now = 0])

declare write_ciphertext_loop.simps [simp del]

text \<open>The result is the success, whether the state changed, and the key state.\<close>

definition write_outgoing_tls_ciphertext ::
    "('k, 's, 'h, 't) tls_env \<Rightarrow> ('k, 'h) tls_options \<Rightarrow> ('k, 'h, 't) tls_session \<Rightarrow> bool
       \<Rightarrow> (bool \<times> bool \<times> ('k, 'h, 't) key_state) option" where
  "write_outgoing_tls_ciphertext env opt ses chg =
     (let ks = ses_key ses KS_PRIMARY; rel = ks_send_reliable ks;
          rel_avail = reliable_get_num_output_sequenced_available rel;
          wkc_len = map_option buf_len (tw_tls_crypt_v2_wkc (ses_tls_wrap ses)) in
      if rel_avail = 0 then Some (True, chg, ks)
      else do {
        overhead \<leftarrow> calc_control_channel_frame_overhead (env_api env) ses;
        let max1 = min_int TLS_CHANNEL_BUF_SIZE (fr_tun_mtu (opt_frame opt)) - overhead;
        maxlen1 \<leftarrow> (if control_packet_needs_wkc ks then map_option (\<lambda>n. max1 * rel_avail - n) wkc_len
                    else Some (max1 * rel_avail));
        let (maxlen, max_pkt_len) = (if maxlen1 < 16 then (16, TLS_CHANNEL_BUF_SIZE) else (maxlen1, max1));
        tmp \<leftarrow> alloc_buf (size_of_int maxlen);
        (status, t, tmp1) \<leftarrow> key_state_read_ciphertext (env_lib env) (ks_ssl ks) tmp;
        let ks1 = ks\<lparr>ks_ssl := Some t\<rparr>;
        if status = -1 then Some (False, chg, ks1)
        else if status = 1
        then map_option (\<lambda>(rel', chg'). (True, chg', ks1\<lparr>ks_send_reliable := rel'\<rparr>))
               (write_ciphertext_loop (ks_resend_wkc ks) wkc_len max_pkt_len rel tmp1 chg)
        else Some (True, chg, ks1)
      })"

definition block_ciphertext_out ::
    "('k, 's, 'h, 't) tls_env \<Rightarrow> ('k, 'h) tls_options \<Rightarrow> ('k, 'h, 't) proc \<Rightarrow> ('k, 'h, 't) proc exit option" where
  "block_ciphertext_out env opt p =
     (if ks_state (pr_ks p) \<ge> S_START
      then (case reliable_get_buf_output_sequenced (ks_send_reliable (pr_ks p)) of
              None \<Rightarrow> None
            | Some (None, rel) \<Rightarrow> Some (Goes_on (pr_put ((pr_ks p)\<lparr>ks_send_reliable := rel\<rparr>) p))
            | Some (Some _, rel) \<Rightarrow>
                (let p1 = pr_put ((pr_ks p)\<lparr>ks_send_reliable := rel\<rparr>) p in
                 map_option (\<lambda>(ok, chg, ks). (if ok then Goes_on else Goto_error) ((pr_put ks p1)\<lparr>pr_change := chg\<rparr>))
                   (write_outgoing_tls_ciphertext env opt (pr_session p1) (pr_change p1))))
      else Some (Goes_on p))"

section \<open>A pass and the loop\<close>

text \<open>The value is whether the state changed, which is also what the loop goes on with.\<close>

definition process_blocks ::
    "('k, 's, 'h, 't) tls_env \<Rightarrow> time_t \<Rightarrow> ('k, 'h) tls_options \<Rightarrow> ('k, 'h, 't) proc \<Rightarrow> ('k, 'h, 't) proc exit option" where
  "process_blocks env now opt =
     and_then (block_initial now opt)
     (and_then (block_timeout now)
     (and_then block_start
     (and_then (block_active env now opt)
     (and_then (block_send env now opt)
     (and_then (block_ciphertext_in (env_lib env))
     (and_then (block_plaintext_in (env_lib env))
     (and_then (block_send_key env opt)
     (and_then (block_receive_key opt)
     (and_then (block_plaintext_out (env_lib env)) (block_ciphertext_out env opt))))))))))"

definition tls_process_state ::
    "('k, 's, 'h, 't) tls_env \<Rightarrow> time_t \<Rightarrow> ('k, 'h) tls_options \<Rightarrow> ('k, 'h, 't) proc \<Rightarrow> (bool \<times> ('k, 'h, 't) proc) option" where
  "tls_process_state env now opt p =
     map_option (\<lambda>r. case r of
         Goes_on p' \<Rightarrow> (pr_change p', p')
       | Returns_true p' \<Rightarrow> (True, p')
       | Goto_error p' \<Rightarrow> (False, pr_put ((pr_ks p')\<lparr>ks_state := S_ERROR\<rparr>) p'))
       (process_blocks env now opt (p\<lparr>pr_change := False\<rparr>))"

datatype 'p run = Finished 'p | Aborted | Out_of_fuel

fun tls_process_loop ::
    "nat \<Rightarrow> ('k, 's, 'h, 't) tls_env \<Rightarrow> time_t \<Rightarrow> ('k, 'h) tls_options \<Rightarrow> ('k, 'h, 't) proc \<Rightarrow> ('k, 'h, 't) proc run" where
  "tls_process_loop 0 env now opt p = Out_of_fuel"
| "tls_process_loop (Suc n) env now opt p =
     (case tls_process_state env now opt p of
        None \<Rightarrow> Aborted
      | Some (state_change, p') \<Rightarrow>
          if ks_state (pr_ks p') = S_ERROR then Finished p'
          else if state_change then tls_process_loop n env now opt p'
          else Finished p')"

section \<open>Progress of a pass\<close>

text \<open>The order of the states of a key negotiation; \<open>server\<close> tells the two ends apart.\<close>

inductive tls_state_step :: "bool \<Rightarrow> int \<Rightarrow> int \<Rightarrow> bool" for server where
  initial: "tls_state_step server S_INITIAL S_PRE_START"
| start: "tls_state_step server S_PRE_START S_START"
| client_sends: "\<not> server \<Longrightarrow> tls_state_step server S_START S_SENT_KEY"
| client_gets: "\<not> server \<Longrightarrow> tls_state_step server S_SENT_KEY S_GOT_KEY"
| client_active: "\<not> server \<Longrightarrow> tls_state_step server S_GOT_KEY S_ACTIVE"
| server_gets: "server \<Longrightarrow> tls_state_step server S_START S_GOT_KEY"
| server_sends: "server \<Longrightarrow> tls_state_step server S_GOT_KEY S_SENT_KEY"
| server_active: "server \<Longrightarrow> tls_state_step server S_SENT_KEY S_ACTIVE"

text \<open>The number of steps to \<open>S_ACTIVE\<close>.\<close>

definition steps_left :: "bool \<Rightarrow> int \<Rightarrow> nat" where
  "steps_left server st =
     (if st = S_INITIAL then 5 else if st = S_PRE_START then 4 else if st = S_START then 3
      else if st = (if server then S_GOT_KEY else S_SENT_KEY) then 2
      else if st = (if server then S_SENT_KEY else S_GOT_KEY) then 1 else 0)"

lemma tls_state_step_left: "tls_state_step server a b \<Longrightarrow> steps_left server a = Suc (steps_left server b)"
  by (induction rule: tls_state_step.induct) (simp_all add: steps_left_def state_defs)

definition active_weight :: "reliable_entry \<Rightarrow> nat" where
  "active_weight e = (if e_active e then 1 else 0)"

text \<open>
  What a pass can still do: states to go through, entries to fill and to send, packets to hand to the
  TLS library, plaintext to read, plaintext to write.
\<close>

definition work_left :: "time_t \<Rightarrow> bool \<Rightarrow> ('k, 'h, 't) key_state \<Rightarrow> nat" where
  "work_left now server ks = 4 * steps_left server (ks_state ks)
     + entry_weight (slot_weight now) (ks_send_reliable ks) + entry_weight active_weight (ks_rec_reliable ks)
     + (if b_len (ks_plaintext_read_buf ks) = 0 then 1 else 0) + (if b_len (ks_plaintext_write_buf ks) = 0 then 0 else 1)"

text \<open>Every packet that waits for an acknowledgement has a timeout.\<close>

definition timeouts_pos :: "reliable \<Rightarrow> bool" where
  "timeouts_pos rel \<longleftrightarrow> 0 < rel_initial_timeout rel \<and> (\<forall>e \<in> set (rel_entries rel). e_active e \<longrightarrow> 0 < e_timeout e)"

text \<open>What a block leaves alone, and the states it goes through.\<close>

definition pass_frame :: "bool \<Rightarrow> ('k, 'h, 't) proc \<Rightarrow> ('k, 'h, 't) proc \<Rightarrow> bool" where
  "pass_frame server p p' \<longleftrightarrow>
     (tls_state_step server)\<^sup>*\<^sup>* (ks_state (pr_ks p)) (ks_state (pr_ks p'))
     \<and> length (rel_entries (ks_send_reliable (pr_ks p'))) = length (rel_entries (ks_send_reliable (pr_ks p)))
     \<and> length (rel_entries (ks_rec_reliable (pr_ks p'))) = length (rel_entries (ks_rec_reliable (pr_ks p)))
     \<and> ks_key_id (pr_ks p') = ks_key_id (pr_ks p) \<and> ks_must_die (pr_ks p') = ks_must_die (pr_ks p)
     \<and> ks_remote_addr (pr_ks p') = ks_remote_addr (pr_ks p) \<and> ks_session_id_remote (pr_ks p') = ks_session_id_remote (pr_ks p)
     \<and> ks_key_initialized (pr_ks p') = ks_key_initialized (pr_ks p)
     \<and> ses_key_id (pr_session p') = ses_key_id (pr_session p) \<and> ses_session_id (pr_session p') = ses_session_id (pr_session p)
     \<and> ses_key (pr_session p') KS_LAME_DUCK = ses_key (pr_session p) KS_LAME_DUCK"

lemma pass_frame_refl [simp]: "pass_frame server p p"
  by (simp add: pass_frame_def)

lemma pass_frame_trans: "pass_frame server p q \<Longrightarrow> pass_frame server q r \<Longrightarrow> pass_frame server p r"
  unfolding pass_frame_def by (simp, blast intro: rtranclp_trans)

definition makes_progress ::
    "time_t \<Rightarrow> bool \<Rightarrow> (('k, 'h, 't) proc \<Rightarrow> ('k, 'h, 't) proc exit option) \<Rightarrow> bool" where
  "makes_progress now server f \<longleftrightarrow>
     (\<forall>p. timeouts_pos (ks_send_reliable (pr_ks p)) \<longrightarrow>
       (case f p of
          None \<Rightarrow> True
        | Some (Goes_on p') \<Rightarrow> pass_frame server p p' \<and> timeouts_pos (ks_send_reliable (pr_ks p'))
            \<and> work_left now server (pr_ks p') \<le> work_left now server (pr_ks p)
            \<and> (pr_change p' \<longrightarrow> pr_change p \<or> work_left now server (pr_ks p') < work_left now server (pr_ks p))
        | Some (Returns_true p') \<Rightarrow> pass_frame server p p' \<and> timeouts_pos (ks_send_reliable (pr_ks p'))
            \<and> work_left now server (pr_ks p') < work_left now server (pr_ks p)
        | Some (Goto_error p') \<Rightarrow> pass_frame server p p'))"

lemma makes_progressI:
  fixes f :: "('k, 'h, 't) proc \<Rightarrow> ('k, 'h, 't) proc exit option"
  assumes "\<And>p p'. timeouts_pos (ks_send_reliable (pr_ks p)) \<Longrightarrow> f p = Some (Goes_on p') \<Longrightarrow>
      pass_frame server p p' \<and> timeouts_pos (ks_send_reliable (pr_ks p'))
      \<and> work_left now server (pr_ks p') \<le> work_left now server (pr_ks p)
      \<and> (pr_change p' \<longrightarrow> pr_change p \<or> work_left now server (pr_ks p') < work_left now server (pr_ks p))"
    and "\<And>p p'. timeouts_pos (ks_send_reliable (pr_ks p)) \<Longrightarrow> f p = Some (Returns_true p') \<Longrightarrow>
      pass_frame server p p' \<and> timeouts_pos (ks_send_reliable (pr_ks p'))
      \<and> work_left now server (pr_ks p') < work_left now server (pr_ks p)"
    and "\<And>p p'. timeouts_pos (ks_send_reliable (pr_ks p)) \<Longrightarrow> f p = Some (Goto_error p') \<Longrightarrow> pass_frame server p p'"
  shows "makes_progress now server f"
  unfolding makes_progress_def
proof (intro allI impI)
  fix p :: "('k, 'h, 't) proc" assume t: "timeouts_pos (ks_send_reliable (pr_ks p))"
  show "case f p of None \<Rightarrow> True
    | Some (Goes_on p') \<Rightarrow> pass_frame server p p' \<and> timeouts_pos (ks_send_reliable (pr_ks p'))
        \<and> work_left now server (pr_ks p') \<le> work_left now server (pr_ks p)
        \<and> (pr_change p' \<longrightarrow> pr_change p \<or> work_left now server (pr_ks p') < work_left now server (pr_ks p))
    | Some (Returns_true p') \<Rightarrow> pass_frame server p p' \<and> timeouts_pos (ks_send_reliable (pr_ks p'))
        \<and> work_left now server (pr_ks p') < work_left now server (pr_ks p)
    | Some (Goto_error p') \<Rightarrow> pass_frame server p p'"
  proof (cases "f p")
    case (Some r)
    then show ?thesis using assms [OF t] by (cases r) simp_all
  qed simp
qed

lemma makes_progress_and_then:
  fixes f g :: "('k, 'h, 't) proc \<Rightarrow> ('k, 'h, 't) proc exit option"
  assumes "makes_progress now server f" and "makes_progress now server g"
  shows "makes_progress now server (and_then f g)"
proof (unfold makes_progress_def, intro allI impI)
  fix p :: "('k, 'h, 't) proc" assume t: "timeouts_pos (ks_send_reliable (pr_ks p))"
  show "case and_then f g p of None \<Rightarrow> True
    | Some (Goes_on p') \<Rightarrow> pass_frame server p p' \<and> timeouts_pos (ks_send_reliable (pr_ks p'))
        \<and> work_left now server (pr_ks p') \<le> work_left now server (pr_ks p)
        \<and> (pr_change p' \<longrightarrow> pr_change p \<or> work_left now server (pr_ks p') < work_left now server (pr_ks p))
    | Some (Returns_true p') \<Rightarrow> pass_frame server p p' \<and> timeouts_pos (ks_send_reliable (pr_ks p'))
        \<and> work_left now server (pr_ks p') < work_left now server (pr_ks p)
    | Some (Goto_error p') \<Rightarrow> pass_frame server p p'"
  proof (cases "\<exists>q. f p = Some (Goes_on q)")
    case False
    then have "and_then f g p = f p" by (auto simp: and_then_def split: option.split exit.split)
    with assms(1) t show ?thesis by (simp add: makes_progress_def)
  next
    case True
    then obtain q where q: "f p = Some (Goes_on q)" by blast
    have fp: "pass_frame server p q" "timeouts_pos (ks_send_reliable (pr_ks q))"
      "work_left now server (pr_ks q) \<le> work_left now server (pr_ks p)"
      "pr_change q \<longrightarrow> pr_change p \<or> work_left now server (pr_ks q) < work_left now server (pr_ks p)"
      using assms(1) t q unfolding makes_progress_def by fastforce+
    have "case g q of None \<Rightarrow> True
      | Some (Goes_on p') \<Rightarrow> pass_frame server q p' \<and> timeouts_pos (ks_send_reliable (pr_ks p'))
          \<and> work_left now server (pr_ks p') \<le> work_left now server (pr_ks q)
          \<and> (pr_change p' \<longrightarrow> pr_change q \<or> work_left now server (pr_ks p') < work_left now server (pr_ks q))
      | Some (Returns_true p') \<Rightarrow> pass_frame server q p' \<and> timeouts_pos (ks_send_reliable (pr_ks p'))
          \<and> work_left now server (pr_ks p') < work_left now server (pr_ks q)
      | Some (Goto_error p') \<Rightarrow> pass_frame server q p'"
      using assms(2) fp(2) unfolding makes_progress_def by blast
    with fp q show ?thesis
      by (auto simp: and_then_def intro: pass_frame_trans split: option.splits exit.splits)
  qed
qed

lemma pr_put_simps [simp]:
  "pr_ks (pr_put ks p) = ks" "pr_ks (p\<lparr>pr_change := c\<rparr>) = pr_ks p" "pr_ks (p\<lparr>pr_wakeup := w\<rparr>) = pr_ks p"
  "pr_ks (p\<lparr>pr_multi_state := m\<rparr>) = pr_ks p" "pr_change (pr_put ks p) = pr_change p"
  "ses_key_id (pr_session (pr_put ks p)) = ses_key_id (pr_session p)"
  "ses_session_id (pr_session (pr_put ks p)) = ses_session_id (pr_session p)"
  "ses_key (pr_session (pr_put ks p)) KS_LAME_DUCK = ses_key (pr_session p) KS_LAME_DUCK"
  by (simp_all add: pr_ks_def pr_put_def ses_put_key_def)

section \<open>The arrays during a pass\<close>

lemma timeouts_update:
  assumes "timeouts_pos rel" and "e_active e \<Longrightarrow> 0 < e_timeout e"
  shows "timeouts_pos (rel_update rel i e)"
  using assms set_update_subset_insert [of "rel_entries rel" i e] by (auto simp: timeouts_pos_def)

lemma timeouts_packet_id [simp]: "timeouts_pos (rel\<lparr>rel_packet_id := n\<rparr>) = timeouts_pos rel"
  by (simp add: timeouts_pos_def)

lemma timeouts_nth: "timeouts_pos rel \<Longrightarrow> i < length (rel_entries rel) \<Longrightarrow> e_active (rel_array rel ! i) \<Longrightarrow> 0 < e_timeout (rel_array rel ! i)"
  by (simp add: timeouts_pos_def rel_entries_nth)

text \<open>A change of an array that keeps its length and the timeouts.\<close>

definition same_shape :: "reliable \<Rightarrow> reliable \<Rightarrow> bool" where
  "same_shape rel rel' \<longleftrightarrow> length (rel_entries rel') = length (rel_entries rel) \<and> (timeouts_pos rel \<longrightarrow> timeouts_pos rel')"

lemma same_shape_refl [simp]: "same_shape rel rel"
  by (simp add: same_shape_def)

lemma same_shape_trans: "same_shape a b \<Longrightarrow> same_shape b c \<Longrightarrow> same_shape a c"
  by (simp add: same_shape_def)

lemma same_shape_update:
  assumes "timeouts_pos rel \<Longrightarrow> e_active e \<Longrightarrow> 0 < e_timeout e"
  shows "same_shape rel (rel_update rel i e)"
  using assms by (auto simp: same_shape_def intro: timeouts_update)

lemma same_shape_packet_id [simp]: "same_shape rel (rel'\<lparr>rel_packet_id := n\<rparr>) = same_shape rel rel'"
  by (simp add: same_shape_def)

lemma get_buf_output_shape:
  assumes "reliable_get_buf_output_sequenced rel = Some (slot, rel1)"
  shows "same_shape rel rel1 \<and> entry_weight (slot_weight now) rel1 = entry_weight (slot_weight now) rel"
proof (cases slot)
  case None
  then show ?thesis using get_buf_output_SomeD [OF assms] by simp
next
  case (Some i)
  then obtain b where i: "i < length (rel_entries rel)" "\<not> e_active (rel_array rel ! i)"
    "rel1 = rel_update rel i ((rel_array rel ! i)\<lparr>e_buf := b\<rparr>)" using get_buf_output_SomeD [OF assms] by auto
  then show ?thesis using entry_weight_update [OF i(1), of "slot_weight now" "(rel_array rel ! i)\<lparr>e_buf := b\<rparr>"]
    by (auto intro!: same_shape_update)
qed

lemma slot_used_shape:
  assumes "reliable_get_buf_output_sequenced rel = Some (Some i, rel1)"
    and "reliable_mark_active_outgoing (rel_update rel1 i ((rel_array rel1 ! i)\<lparr>e_buf := b\<rparr>)) i op = Some rel2"
  shows "same_shape rel rel2"
proof -
  obtain b0 where rel1: "rel1 = rel_update rel i ((rel_array rel ! i)\<lparr>e_buf := b0\<rparr>)"
    using get_buf_output_SomeD [OF assms(1)] by auto
  have "\<exists>e. rel2 = (rel_update rel i e)\<lparr>rel_packet_id := rel_packet_id rel + 1\<rparr> \<and> e_timeout e = rel_initial_timeout rel"
    using mark_active_outgoing_SomeD [OF assms(2)] by (auto simp: rel1)
  then show ?thesis by (auto simp: timeouts_pos_def intro!: same_shape_update)
qed

lemma ciphertext_packet_shape:
  assumes "ciphertext_packet resend wkc_len max_pkt_len rel tmp = Some (rel2, tmp1)"
  shows "same_shape rel rel2"
proof -
  obtain i rel1 b op where "reliable_get_buf_output_sequenced rel = Some (Some i, rel1)"
    "reliable_mark_active_outgoing (rel_update rel1 i ((rel_array rel1 ! i)\<lparr>e_buf := b\<rparr>)) i op = Some rel2"
    using assms by (auto simp: ciphertext_packet_def Let_def split: bind_splits prod.splits if_splits)
  then show ?thesis by (rule slot_used_shape)
qed

lemma write_ciphertext_loop_shape:
  assumes "write_ciphertext_loop resend wkc_len max_pkt_len rel tmp chg = Some (rel', chg')"
  shows "same_shape rel rel' \<and> entry_weight (slot_weight now) rel' \<le> entry_weight (slot_weight now) rel
    \<and> (chg' \<longrightarrow> chg \<or> entry_weight (slot_weight now) rel' < entry_weight (slot_weight now) rel)"
  using assms
proof (induction resend wkc_len max_pkt_len rel tmp chg arbitrary: rel' chg' rule: write_ciphertext_loop.induct)
  case (1 resend wkc_len max_pkt_len rel tmp chg)
  show ?case
  proof (cases "0 < b_len tmp")
    case False
    then show ?thesis using "1.prems" by (simp add: write_ciphertext_loop.simps [of resend])
  next
    case True
    then obtain rel1 tmp1 where c: "ciphertext_packet resend wkc_len max_pkt_len rel tmp = Some (rel1, tmp1)"
      and r: "write_ciphertext_loop resend wkc_len max_pkt_len rel1 tmp1 True = Some (rel', chg')"
      using "1.prems" by (auto simp: write_ciphertext_loop.simps [of resend wkc_len max_pkt_len rel] split: option.splits)
    from "1.IH" [OF True c refl r] ciphertext_packet_shape [OF c] ciphertext_packet_weight [OF c, of now]
    show ?thesis by (auto intro: same_shape_trans)
  qed
qed

lemma reliable_best_due:
  "reliable_best now k es best = Some (i, m) \<Longrightarrow>
   (\<exists>m'. best = Some (i, m')) \<or> (k \<le> i \<and> i < k + length es \<and> reliable_entry_due now (es ! (i - k)))"
proof (induction es arbitrary: k best)
  case (Cons e es)
  have "reliable_best now (Suc k) es (if reliable_entry_due now e
      \<and> (case best of None \<Rightarrow> True | Some (_, m) \<Rightarrow> reliable_pid_min (e_packet_id e) m) then Some (k, e_packet_id e) else best) = Some (i, m)"
    using Cons.prems by simp
  from Cons.IH [OF this] show ?case
    by (auto split: if_splits simp: nth_Cons' dest: Suc_leD)
qed simp

lemma send_weight:
  assumes "reliable_send now rel = (Some (i, op), rel')" and "timeouts_pos rel"
  shows "same_shape rel rel' \<and> entry_weight (slot_weight now) rel' < entry_weight (slot_weight now) rel"
proof -
  let ?e = "rel_array rel ! i"
  let ?e' = "?e\<lparr>e_next_try := now + e_timeout ?e, e_timeout := e_timeout ?e * 2, e_n_acks := 0\<rparr>"
  obtain m where best: "reliable_best now 0 (rel_entries rel) None = Some (i, m)" and rel': "rel' = rel_update rel i ?e'"
    using assms(1) by (auto simp: reliable_send_def Let_def split: option.splits)
  then have i: "i < length (rel_entries rel)" "reliable_entry_due now ?e"
    using reliable_best_due [OF best] by (simp_all add: rel_entries_nth)
  then have act: "e_active ?e" "0 < e_timeout ?e" using timeouts_nth [OF assms(2)] by (simp_all add: reliable_entry_due_def)
  then have "slot_weight now ?e' = 0" "slot_weight now ?e = 1" using i(2)
    by (simp_all add: slot_weight_def reliable_entry_due_def N_ACK_RETRANSMIT_def)
  then show ?thesis using entry_weight_update [OF i(1), of "slot_weight now" ?e'] act rel'
    by (auto intro!: same_shape_update)
qed

lemma mark_deleted_weight:
  assumes "reliable_mark_deleted rel i = Some rel'"
  shows "length (rel_entries rel') = length (rel_entries rel) \<and> entry_weight active_weight rel' \<le> entry_weight active_weight rel
    \<and> (e_active (rel_array rel ! i) \<longrightarrow> entry_weight active_weight rel' < entry_weight active_weight rel)"
proof -
  have i: "i < length (rel_entries rel)" and rel': "rel' = (rel_update rel i ((rel_array rel ! i)\<lparr>e_active := False\<rparr>))
      \<lparr>rel_packet_id := e_packet_id (rel_array rel ! i) + 1\<rparr>"
    using assms by (auto simp: reliable_mark_deleted_def Let_def split: if_splits)
  show ?thesis using entry_weight_update [OF i, of active_weight "(rel_array rel ! i)\<lparr>e_active := False\<rparr>"]
    by (auto simp: rel' active_weight_def)
qed

section \<open>Each block makes progress\<close>

lemma pr_session_change [simp]: "pr_session (p\<lparr>pr_change := c\<rparr>) = pr_session p" "pr_session (p\<lparr>pr_wakeup := w\<rparr>) = pr_session p"
  "pr_session (p\<lparr>pr_multi_state := m\<rparr>) = pr_session p"
  by simp_all

lemma step_once: "tls_state_step server a b \<Longrightarrow> (tls_state_step server)\<^sup>*\<^sup>* a b"
  by blast

text \<open>A block that replaces the primary key state.\<close>

lemma pass_frame_put:
  assumes "(tls_state_step server)\<^sup>*\<^sup>* (ks_state (pr_ks p)) (ks_state ks)"
    and "length (rel_entries (ks_send_reliable ks)) = length (rel_entries (ks_send_reliable (pr_ks p)))"
    and "length (rel_entries (ks_rec_reliable ks)) = length (rel_entries (ks_rec_reliable (pr_ks p)))"
    and "ks_key_id ks = ks_key_id (pr_ks p)" "ks_must_die ks = ks_must_die (pr_ks p)" "ks_remote_addr ks = ks_remote_addr (pr_ks p)"
    and "ks_session_id_remote ks = ks_session_id_remote (pr_ks p)" "ks_key_initialized ks = ks_key_initialized (pr_ks p)"
  shows "pass_frame server p (pr_put ks p)"
  using assms by (simp add: pass_frame_def)

lemma pass_frame_fields [simp]:
  "pass_frame server p (q\<lparr>pr_change := c\<rparr>) = pass_frame server p q" "pass_frame server p (q\<lparr>pr_wakeup := w\<rparr>) = pass_frame server p q"
  "pass_frame server p (q\<lparr>pr_multi_state := m\<rparr>) = pass_frame server p q"
  by (simp_all add: pass_frame_def)

lemma pr_put_same [simp]: "pr_put (pr_ks p) p = p"
  by (simp add: pr_put_def pr_ks_def ses_put_key_def)

lemma pr_put_put [simp]: "pr_put ks (pr_put ks' p) = pr_put ks p"
  by (simp add: pr_put_def ses_put_key_def)

text \<open>A block that ends with a new primary key state, going on or in error.\<close>

definition put_effect :: "time_t \<Rightarrow> bool \<Rightarrow> ('k, 'h, 't) proc \<Rightarrow> ('k, 'h, 't) proc exit \<Rightarrow> ('k, 'h, 't) key_state \<Rightarrow> ('k, 'h, 't) proc \<Rightarrow> bool" where
  "put_effect now server p r ks p' \<longleftrightarrow>
     pr_session p' = pr_session (pr_put ks p) \<and> pass_frame server p (pr_put ks p)
     \<and> (r = Goto_error p' \<or> r = Goes_on p' \<and> timeouts_pos (ks_send_reliable ks)
         \<and> work_left now server ks \<le> work_left now server (pr_ks p)
         \<and> (pr_change p' \<longrightarrow> pr_change p \<or> work_left now server ks < work_left now server (pr_ks p)))"

lemma put_effectI:
  assumes "pr_session p' = pr_session (pr_put ks p)" and "pass_frame server p (pr_put ks p)"
    and "r = Goto_error p' \<or> r = Goes_on p' \<and> timeouts_pos (ks_send_reliable ks)
         \<and> work_left now server ks \<le> work_left now server (pr_ks p)
         \<and> (pr_change p' \<longrightarrow> pr_change p \<or> work_left now server ks < work_left now server (pr_ks p))"
  shows "put_effect now server p r ks p'"
  using assms unfolding put_effect_def by blast

lemma put_effect_same: "timeouts_pos (ks_send_reliable (pr_ks p)) \<Longrightarrow> put_effect now server p (Goes_on p) (pr_ks p) p"
  by (simp add: put_effect_def)

lemma put_block_progress:
  fixes f :: "('k, 'h, 't) proc \<Rightarrow> ('k, 'h, 't) proc exit option"
  assumes "\<And>p r. timeouts_pos (ks_send_reliable (pr_ks p)) \<Longrightarrow> f p = Some r \<Longrightarrow> \<exists>ks p'. put_effect now server p r ks p'"
  shows "makes_progress now server f"
  unfolding makes_progress_def
proof (intro allI impI)
  fix p :: "('k, 'h, 't) proc" assume t: "timeouts_pos (ks_send_reliable (pr_ks p))"
  show "case f p of None \<Rightarrow> True
    | Some (Goes_on p') \<Rightarrow> pass_frame server p p' \<and> timeouts_pos (ks_send_reliable (pr_ks p'))
        \<and> work_left now server (pr_ks p') \<le> work_left now server (pr_ks p)
        \<and> (pr_change p' \<longrightarrow> pr_change p \<or> work_left now server (pr_ks p') < work_left now server (pr_ks p))
    | Some (Returns_true p') \<Rightarrow> pass_frame server p p' \<and> timeouts_pos (ks_send_reliable (pr_ks p'))
        \<and> work_left now server (pr_ks p') < work_left now server (pr_ks p)
    | Some (Goto_error p') \<Rightarrow> pass_frame server p p'"
  proof (cases "f p")
    case (Some r)
    obtain ks p' where e: "put_effect now server p r ks p'" using assms [OF t Some] by blast
    have "pr_ks p' = ks" "pass_frame server p p'"
      using e pr_put_simps(1) [of ks p] by (simp_all add: put_effect_def pr_ks_def pass_frame_def)
    then show ?thesis using e Some by (cases r) (auto simp: put_effect_def)
  qed simp
qed

lemma move_pre_start_effect:
  assumes "session_move_pre_start now opt ks False = Some (chg, ks')" and "ks_state ks = S_INITIAL"
    and "timeouts_pos (ks_send_reliable ks)"
  shows "same_shape (ks_send_reliable ks) (ks_send_reliable ks') \<and> ks_rec_reliable ks' = ks_rec_reliable ks
    \<and> (tls_state_step server)\<^sup>*\<^sup>* (ks_state ks) (ks_state ks')
    \<and> work_left now server ks' \<le> work_left now server ks \<and> (chg \<longrightarrow> work_left now server ks' < work_left now server ks)
    \<and> ks_key_id ks' = ks_key_id ks \<and> ks_must_die ks' = ks_must_die ks \<and> ks_remote_addr ks' = ks_remote_addr ks
    \<and> ks_session_id_remote ks' = ks_session_id_remote ks \<and> ks_key_initialized ks' = ks_key_initialized ks"
proof -
  obtain slot rel where g: "reliable_get_buf_output_sequenced (ks_send_reliable ks) = Some (slot, rel)"
    using assms(1) by (auto simp: session_move_pre_start_def split: option.splits)
  show ?thesis
  proof (cases slot)
    case None
    then show ?thesis using assms(1) g get_buf_output_shape [OF g, of now] by (auto simp: session_move_pre_start_def work_left_def)
  next
    case (Some i)
    then obtain rel1 where m: "reliable_mark_active_outgoing rel i (uint (ks_initial_opcode ks)) = Some rel1" "chg"
      and ks': "ks' = ks\<lparr>ks_initial := now, ks_must_negotiate := now + opt_handshake_window opt,
            ks_auth_deferred_expire := now + auth_deferred_expire_window opt, ks_send_reliable := rel1, ks_state := S_PRE_START\<rparr>"
      using assms(1) g by (auto simp: session_move_pre_start_def split: bind_splits)
    have i: "i < length (rel_entries rel)" using mark_active_outgoing_SomeD [OF m(1)] by blast
    have "rel_update rel i ((rel_array rel ! i)\<lparr>e_buf := e_buf (rel_array rel ! i)\<rparr>) = rel"
      by (simp add: rel_update_def)
    then have m': "reliable_mark_active_outgoing (rel_update rel i ((rel_array rel ! i)\<lparr>e_buf := e_buf (rel_array rel ! i)\<rparr>)) i
        (uint (ks_initial_opcode ks)) = Some rel1" using m(1) by simp
    have "tls_state_step server (ks_state ks) (ks_state ks')" using assms(2) ks' tls_state_step.initial by simp
    then have "steps_left server (ks_state ks) = Suc (steps_left server (ks_state ks'))" "(tls_state_step server)\<^sup>*\<^sup>* (ks_state ks) (ks_state ks')"
      by (rule tls_state_step_left, rule step_once)
    then show ?thesis using slot_used [OF g [unfolded Some] m', of now] slot_used_shape [OF g [unfolded Some] m'] ks'
      by (simp add: work_left_def)
  qed
qed

lemma block_initial_progress: "makes_progress now server (block_initial now opt)"
proof (rule makes_progressI)
  fix p p' assume t: "timeouts_pos (ks_send_reliable (pr_ks p))" and b: "block_initial now opt p = Some (Goes_on p')"
  show "pass_frame server p p' \<and> timeouts_pos (ks_send_reliable (pr_ks p'))
      \<and> work_left now server (pr_ks p') \<le> work_left now server (pr_ks p)
      \<and> (pr_change p' \<longrightarrow> pr_change p \<or> work_left now server (pr_ks p') < work_left now server (pr_ks p))"
  proof (cases "ks_state (pr_ks p) = S_INITIAL")
    case True
    with b obtain chg ks where m: "session_move_pre_start now opt (pr_ks p) False = Some (chg, ks)"
      and p': "p' = (pr_put ks p)\<lparr>pr_change := chg\<rparr>" by (auto simp: block_initial_def)
    from move_pre_start_effect [OF m True t, of server] t show ?thesis
      by (auto simp: p' same_shape_def intro!: pass_frame_put)
  qed (use b t in \<open>auto simp: block_initial_def\<close>)
qed (auto simp: block_initial_def split: if_splits)

lemma block_timeout_progress: "makes_progress now server (block_timeout now')"
  by (rule makes_progressI) (auto simp: block_timeout_def split: if_splits)

lemma state_change_frame:
  assumes "tls_state_step server (ks_state (pr_ks p)) st"
  shows "pass_frame server p (pr_put ((pr_ks p)\<lparr>ks_state := st\<rparr>) p)"
  using step_once [OF assms] by (intro pass_frame_put) simp_all

lemma block_start_progress: "makes_progress now server block_start"
proof -
  have "tls_state_step server (ks_state ks) S_START" if "ks_state ks = S_PRE_START" for ks :: "('a, 'b, 'c) key_state"
    using that tls_state_step.start by simp
  moreover have "work_left now server (ks\<lparr>ks_state := S_START\<rparr>) < work_left now server ks" if "ks_state ks = S_PRE_START"
    for ks :: "('a, 'b, 'c) key_state"
    using that by (simp add: work_left_def steps_left_def state_defs)
  ultimately show ?thesis
    by (intro makes_progressI) (auto simp: block_start_def intro!: state_change_frame less_imp_le split: if_splits)
qed

lemma block_active_progress: "makes_progress now server (block_active env now' opt)" if "opt_server opt = server"
proof (rule makes_progressI)
  fix p p' assume t: "timeouts_pos (ks_send_reliable (pr_ks p))" and b: "block_active env now' opt p = Some (Goes_on p')"
  show "pass_frame server p p' \<and> timeouts_pos (ks_send_reliable (pr_ks p'))
      \<and> work_left now server (pr_ks p') \<le> work_left now server (pr_ks p)
      \<and> (pr_change p' \<longrightarrow> pr_change p \<or> work_left now server (pr_ks p') < work_left now server (pr_ks p))"
  proof (cases "((ks_state (pr_ks p) = S_GOT_KEY \<and> \<not> server) \<or> (ks_state (pr_ks p) = S_SENT_KEY \<and> server))
      \<and> reliable_empty (ks_send_reliable (pr_ks p))")
    case True
    then have st: "tls_state_step server (ks_state (pr_ks p)) S_ACTIVE"
      using tls_state_step.client_active tls_state_step.server_active by auto
    have "block_active env now' opt p = map_option (\<lambda>(ms, ks'). Goes_on ((pr_put ks' p)\<lparr>pr_multi_state := ms, pr_change := True\<rparr>))
             (session_move_active env now' opt (pr_multi_state p) (pr_ks p))"
      unfolding block_active_def Let_def that using True by (simp only: if_True simp_thms)
    with b obtain ms ks where m: "session_move_active env now' opt (pr_multi_state p) (pr_ks p) = Some (ms, ks)"
      and p': "p' = (pr_put ks p)\<lparr>pr_multi_state := ms, pr_change := True\<rparr>" by auto
    then obtain ssl where "ks = (pr_ks p)\<lparr>ks_established := now', ks_state := S_ACTIVE, ks_must_negotiate := 0, ks_ssl := ssl, ks_paybuf := []\<rparr>"
      by (auto simp: session_move_active_def)
    with p' t step_once [OF st] tls_state_step_left [OF st] show ?thesis
      by (auto simp: work_left_def intro!: pass_frame_put)
  qed (use b t that in \<open>auto simp: block_active_def Let_def\<close>)
qed (auto simp: block_active_def Let_def split: if_splits)

lemma put_tls_wrap_fields [simp]:
  "ses_key (tls_session_put_tls_wrap ses k c) = ses_key ses" "ses_key_id (tls_session_put_tls_wrap ses k c) = ses_key_id ses"
  "ses_session_id (tls_session_put_tls_wrap ses k c) = ses_session_id ses"
  by (simp_all add: tls_session_put_tls_wrap_def)

text \<open>Sending a control packet touches the acknowledgements of the primary key only.\<close>

lemma ses_write_control_auth_effect:
  assumes "ses_write_control_auth env now opt ses b opcode max_ack prepend = Some (b', ses')"
  shows "(\<exists>rec_ack lru. ses_key ses' KS_PRIMARY = (ses_key ses KS_PRIMARY)\<lparr>ks_rec_ack := rec_ack, ks_lru_acks := lru\<rparr>)
    \<and> ses_key ses' KS_LAME_DUCK = ses_key ses KS_LAME_DUCK \<and> ses_key_id ses' = ses_key_id ses
    \<and> ses_session_id ses' = ses_session_id ses"
proof -
  obtain ctx ra lru where "ses' = ses_put_key KS_PRIMARY ((ses_key ses KS_PRIMARY)\<lparr>ks_rec_ack := ra, ks_lru_acks := lru\<rparr>)
      (tls_session_put_tls_wrap ses (ks_key_id (ses_key ses KS_PRIMARY)) ctx)"
    using assms by (auto simp: ses_write_control_auth_def Let_def split: bind_splits)
  then show ?thesis by (auto simp: ses_put_key_def)
qed

lemma block_send_progress: "makes_progress now server (block_send env now opt)"
proof (rule makes_progressI)
  fix p p' assume t: "timeouts_pos (ks_send_reliable (pr_ks p))" and b: "block_send env now opt p = Some (Returns_true p')"
  obtain i op rel where s: "reliable_send now (ks_send_reliable (pr_ks p)) = (Some (i, op), rel)"
    using b by (auto simp: block_send_def split: if_splits option.splits prod.splits)
  obtain x ses where w: "ses_write_control_auth env now opt (pr_session (pr_put ((pr_ks p)\<lparr>ks_send_reliable := rel\<rparr>) p))
      (e_buf (rel_array rel ! i)) (word_of_int op) CONTROL_SEND_ACK_MAX True = Some (x, ses)"
    and p': "p' = p\<lparr>pr_session := ses, pr_to_link := x, pr_to_link_addr := Some (ks_remote_addr (pr_ks p))\<rparr>"
    using b s by (auto simp: block_send_def split: if_splits bind_splits)
  have "ses_key (pr_session (pr_put ((pr_ks p)\<lparr>ks_send_reliable := rel\<rparr>) p)) KS_PRIMARY = (pr_ks p)\<lparr>ks_send_reliable := rel\<rparr>"
    using pr_put_simps(1) [of "(pr_ks p)\<lparr>ks_send_reliable := rel\<rparr>" p] by (simp add: pr_ks_def)
  then obtain ra lru where ks: "pr_ks p' = (pr_ks p)\<lparr>ks_send_reliable := rel, ks_rec_ack := ra, ks_lru_acks := lru\<rparr>"
    using ses_write_control_auth_effect [OF w] p' by (auto simp: pr_ks_def)
  show "pass_frame server p p' \<and> timeouts_pos (ks_send_reliable (pr_ks p'))
      \<and> work_left now server (pr_ks p') < work_left now server (pr_ks p)"
  proof -
    have "ses_key (pr_session p') KS_LAME_DUCK = ses_key (pr_session p) KS_LAME_DUCK" "ses_key_id (pr_session p') = ses_key_id (pr_session p)"
      "ses_session_id (pr_session p') = ses_session_id (pr_session p)"
      using ses_write_control_auth_effect [OF w] p' by simp_all
    with send_weight [OF s t] t show ?thesis by (simp add: ks pass_frame_def work_left_def same_shape_def)
  qed
qed (auto simp: block_send_def split: if_splits option.splits prod.splits bind_splits)

lemma same_activity:
  assumes "i < length (rel_entries rel)" and "e_active (rel_array rel ! i)"
  shows "length (rel_entries (rel_update rel i ((rel_array rel ! i)\<lparr>e_buf := b\<rparr>))) = length (rel_entries rel)"
    and "entry_weight active_weight (rel_update rel i ((rel_array rel ! i)\<lparr>e_buf := b\<rparr>)) = entry_weight active_weight rel"
    and "e_active (rel_array (rel_update rel i ((rel_array rel ! i)\<lparr>e_buf := b\<rparr>)) ! i)"
  using assms entry_weight_update [OF assms(1), of active_weight "(rel_array rel ! i)\<lparr>e_buf := b\<rparr>"]
  by (simp_all add: active_weight_def rel_update_same)

lemma block_ciphertext_in_progress: "makes_progress now server (block_ciphertext_in lib)"
proof -
  have parse: "(\<exists>rel r. ks' = ks\<lparr>ks_resend_wkc := r, ks_rec_reliable := rel\<rparr> \<and> length (rel_entries rel) = length (rel_entries (ks_rec_reliable ks))
      \<and> (ok \<longrightarrow> entry_weight active_weight rel \<le> entry_weight active_weight (ks_rec_reliable ks)))"
    if "parse_early_negotiation_tlvs i ks = Some (ok, ks')" "i < length (rel_entries (ks_rec_reliable ks))"
    for i ks' ok and ks :: "('a, 'b, 'c) key_state"
  proof -
    let ?rel = "ks_rec_reliable ks"
    obtain ok' r b where "parse_tlvs (ks_resend_wkc ks) (e_buf (rel_array ?rel ! i)) = (ok', r, b)"
      by (cases "parse_tlvs (ks_resend_wkc ks) (e_buf (rel_array ?rel ! i))")
    with that(1) have b: "parse_tlvs (ks_resend_wkc ks) (e_buf (rel_array ?rel ! i)) = (ok, r, b)"
      by (cases ok') (auto simp: parse_early_negotiation_tlvs_def Let_def)
    let ?e = "(rel_array ?rel ! i)\<lparr>e_buf := b\<rparr>"
    have w: "entry_weight active_weight (rel_update ?rel i ?e) = entry_weight active_weight ?rel"
      using entry_weight_update [OF that(2), of active_weight ?e] by (simp add: active_weight_def)
    show ?thesis
    proof (cases ok)
      case False
      with that(1) b have "ks' = ks\<lparr>ks_resend_wkc := r, ks_rec_reliable := rel_update ?rel i ?e\<rparr>"
        by (simp add: parse_early_negotiation_tlvs_def Let_def)
      then show ?thesis using False by auto
    next
      case True
      with that(1) b obtain rel2 where "reliable_mark_deleted (rel_update ?rel i ?e) i = Some rel2"
        "ks' = ks\<lparr>ks_resend_wkc := r, ks_rec_reliable := rel2\<rparr>"
        by (auto simp: parse_early_negotiation_tlvs_def Let_def)
      then show ?thesis using w mark_deleted_weight [of "rel_update ?rel i ?e" i rel2] by auto
    qed
  qed
  have read: "(\<exists>rel s. ks' = ks\<lparr>ks_ssl := s, ks_rec_reliable := rel\<rparr> \<and> length (rel_entries rel) = length (rel_entries (ks_rec_reliable ks))
      \<and> (ok \<longrightarrow> entry_weight active_weight rel \<le> entry_weight active_weight (ks_rec_reliable ks)
          \<and> (chg \<longrightarrow> entry_weight active_weight rel < entry_weight active_weight (ks_rec_reliable ks))))"
    if r: "read_incoming_tls_ciphertext lib i ks = Some (ok, chg, ks')" "i < length (rel_entries (ks_rec_reliable ks))"
      "e_active (rel_array (ks_rec_reliable ks) ! i)"
    for i ks' ok chg and ks :: "('a, 'b, 'c) key_state"
  proof -
    let ?rel = "ks_rec_reliable ks" and ?e = "rel_array (ks_rec_reliable ks) ! i"
    obtain st ks1 where k: "(if b_len (e_buf ?e) \<noteq> 0
           then map_option (\<lambda>(st, t, b). (st, ks\<lparr>ks_ssl := Some t, ks_rec_reliable := rel_update ?rel i (?e\<lparr>e_buf := b\<rparr>)\<rparr>))
                  (key_state_write_ciphertext lib (ks_ssl ks) (e_buf ?e))
           else Some (1, ks)) = Some (st, ks1)"
      and rest: "(if st = -1 then Some (False, False, ks1)
        else if st = 1 then map_option (\<lambda>rel2. (True, True, ks1\<lparr>ks_rec_reliable := rel2\<rparr>)) (reliable_mark_deleted (ks_rec_reliable ks1) i)
        else Some (True, False, ks1)) = Some (ok, chg, ks')"
      using r(1) by (auto simp: read_incoming_tls_ciphertext_def Let_def split: bind_splits)
    obtain s rel1 where ks1: "ks1 = ks\<lparr>ks_ssl := s, ks_rec_reliable := rel1\<rparr>"
      and rel1: "rel1 = ?rel \<or> (\<exists>b. rel1 = rel_update ?rel i (?e\<lparr>e_buf := b\<rparr>))"
    proof (cases "b_len (e_buf ?e) \<noteq> 0")
      case True
      with k obtain t b where "ks1 = ks\<lparr>ks_ssl := Some t, ks_rec_reliable := rel_update ?rel i (?e\<lparr>e_buf := b\<rparr>)\<rparr>" by auto
      then show thesis by (rule that) blast
    next
      case False
      with k have "ks1 = ks\<lparr>ks_ssl := ks_ssl ks, ks_rec_reliable := ?rel\<rparr>" by simp
      then show thesis by (rule that) blast
    qed
    have l1: "length (rel_entries rel1) = length (rel_entries ?rel)" "entry_weight active_weight rel1 = entry_weight active_weight ?rel"
      "e_active (rel_array rel1 ! i)"
      using rel1 same_activity [OF r(2,3)] r(3) by auto
    show ?thesis
    proof (cases "st = 1")
      case True
      with rest ks1 obtain rel2 where "reliable_mark_deleted rel1 i = Some rel2" "ks' = ks\<lparr>ks_ssl := s, ks_rec_reliable := rel2\<rparr>" "ok" "chg"
        by auto
      then show ?thesis using mark_deleted_weight [of rel1 i rel2] l1 by auto
    next
      case False
      with rest have "ks' = ks1" "\<not> chg" by (auto split: if_splits)
      then show ?thesis using ks1 l1 by auto
    qed
  qed
  have entry: "i < length (rel_entries rel) \<and> e_active (rel_array rel ! i)" if "reliable_get_entry_sequenced rel = Some i" for rel i
    using find_index_SomeD [OF that [unfolded reliable_get_entry_sequenced_def]] by (simp add: rel_entries_nth)
  show ?thesis
  proof (rule put_block_progress)
    fix p :: "('a, 'b, 'c) proc" and r
    assume t: "timeouts_pos (ks_send_reliable (pr_ks p))" and b: "block_ciphertext_in lib p = Some r"
    show "\<exists>ks p'. put_effect now server p r ks p'"
    proof (cases "reliable_get_entry_sequenced (ks_rec_reliable (pr_ks p))")
      case None
      with b put_effect_same [OF t] show ?thesis by (auto simp: block_ciphertext_in_def)
    next
      case (Some i)
      let ?e = "rel_array (ks_rec_reliable (pr_ks p)) ! i"
      show ?thesis
      proof (cases "e_packet_id ?e = 0 \<and> is_hard_reset_method2 (word_of_int (e_opcode ?e))")
        case True
        with b Some obtain ok ks where pe: "parse_early_negotiation_tlvs i (pr_ks p) = Some (ok, ks)"
          and r: "r = (if ok then Goes_on else Goto_error) (pr_put ks p)" by (auto simp: block_ciphertext_in_def)
        obtain rel s where ks: "ks = (pr_ks p)\<lparr>ks_resend_wkc := s, ks_rec_reliable := rel\<rparr>"
          "length (rel_entries rel) = length (rel_entries (ks_rec_reliable (pr_ks p)))"
          "ok \<longrightarrow> entry_weight active_weight rel \<le> entry_weight active_weight (ks_rec_reliable (pr_ks p))"
          using parse [OF pe] entry [OF Some] by blast
        with r t show ?thesis
          by (intro exI [of _ ks] exI [of _ "pr_put ks p"] put_effectI pass_frame_put) (simp_all add: work_left_def Let_def)
      next
        case False
        with b Some obtain ok chg ks where ri: "read_incoming_tls_ciphertext lib i (pr_ks p) = Some (ok, chg, ks)"
          and r: "r = (if ok then Goes_on else Goto_error) ((pr_put ks p)\<lparr>pr_change := pr_change p \<or> chg\<rparr>)"
          by (auto simp: block_ciphertext_in_def)
        obtain rel s where ks: "ks = (pr_ks p)\<lparr>ks_ssl := s, ks_rec_reliable := rel\<rparr>"
          "length (rel_entries rel) = length (rel_entries (ks_rec_reliable (pr_ks p)))"
          "ok \<longrightarrow> entry_weight active_weight rel \<le> entry_weight active_weight (ks_rec_reliable (pr_ks p))
            \<and> (chg \<longrightarrow> entry_weight active_weight rel < entry_weight active_weight (ks_rec_reliable (pr_ks p)))"
          using read [OF ri] entry [OF Some] by blast
        with r t show ?thesis
          by (intro exI [of _ ks] exI [of _ "(pr_put ks p)\<lparr>pr_change := pr_change p \<or> chg\<rparr>"] put_effectI pass_frame_put)
            (auto simp: work_left_def Let_def)
      qed
    qed
  qed
qed

lemma bio_read_effect:
  assumes "bio_read lib t bio b = Some (status, t', b')" and "b_len b = 0"
  shows "if status = 1 then 0 < b_len b' else b_len b' = 0"
  using assms by (auto simp: bio_read_def split: if_splits option.splits prod.splits)

lemma block_plaintext_in_progress: "makes_progress now server (block_plaintext_in lib)"
proof (rule put_block_progress)
  fix p :: "('a, 'b, 'c) proc" and r
  assume t: "timeouts_pos (ks_send_reliable (pr_ks p))" and e: "block_plaintext_in lib p = Some r"
  show "\<exists>ks p'. put_effect now server p r ks p'"
  proof (cases "b_len (ks_plaintext_read_buf (pr_ks p)) = 0")
    case False
    with e put_effect_same [OF t] show ?thesis by (auto simp: block_plaintext_in_def)
  next
    case True
    obtain b0 st t1 b where b0: "assert_ok (buf_init (ks_plaintext_read_buf (pr_ks p)) 0) = Some b0"
      and rd: "key_state_read_plaintext lib (ks_ssl (pr_ks p)) b0 = Some (st, t1, b)"
      and r: "r = (let p1 = pr_put ((pr_ks p)\<lparr>ks_ssl := Some t1, ks_plaintext_read_buf := b\<rparr>) p in
        if st = -1 then Goto_error p1 else if st = 1 then Goes_on (p1\<lparr>pr_change := True, pr_wakeup := 0\<rparr>) else Goes_on p1)"
      using e True by (auto simp: block_plaintext_in_def Let_def split: bind_splits)
    have "b_len b0 = 0" using b0 by (auto simp: assert_ok_def buf_init_def split: if_splits)
    moreover obtain t0 where "bio_read lib t0 SSL_BIO b0 = Some (st, t1, b)"
      using rd by (auto simp: key_state_read_plaintext_def split: bind_splits)
    ultimately have l: "if st = 1 then 0 < b_len b else b_len b = 0" by (rule bio_read_effect [rotated])
    let ?ks = "(pr_ks p)\<lparr>ks_ssl := Some t1, ks_plaintext_read_buf := b\<rparr>"
    show ?thesis
      using r t l True
      by (intro exI [of _ ?ks] exI [of _ "if st = 1 then (pr_put ?ks p)\<lparr>pr_change := True, pr_wakeup := 0\<rparr> else pr_put ?ks p"]
            put_effectI pass_frame_put) (auto simp: work_left_def Let_def)
  qed
qed

lemma block_send_key_progress:
  assumes "opt_server opt = server"
  shows "makes_progress now server (block_send_key env opt)"
proof (rule put_block_progress)
  fix p :: "('a, 'b, 'c) proc" and r
  assume t: "timeouts_pos (ks_send_reliable (pr_ks p))" and e: "block_send_key env opt p = Some r"
  let ?ks = "pr_ks p"
  show "\<exists>ks p'. put_effect now server p r ks p'"
  proof (cases "b_len (ks_plaintext_write_buf ?ks) = 0
      \<and> ((ks_state ?ks = S_START \<and> \<not> opt_server opt) \<or> (ks_state ?ks = S_GOT_KEY \<and> opt_server opt))")
    case False
    then have "block_send_key env opt p = Some (Goes_on p)" unfolding block_send_key_def Let_def by (rule if_not_P)
    with e put_effect_same [OF t] show ?thesis by auto
  next
    case True
    then have st: "tls_state_step server (ks_state ?ks) S_SENT_KEY"
      using assms tls_state_step.client_sends tls_state_step.server_sends by auto
    obtain ok src b where r: "r = (let ks1 = ?ks\<lparr>ks_key_src := src, ks_plaintext_write_buf := b\<rparr> in
        if \<not> ok then Goto_error (pr_put ks1 p) else Goes_on ((pr_put (ks1\<lparr>ks_state := S_SENT_KEY\<rparr>) p)\<lparr>pr_change := True\<rparr>))"
      using e unfolding block_send_key_def Let_def if_P [OF True] by auto
    let ?ks1 = "?ks\<lparr>ks_key_src := src, ks_plaintext_write_buf := b\<rparr>" and ?ks2 = "?ks\<lparr>ks_key_src := src, ks_plaintext_write_buf := b, ks_state := S_SENT_KEY\<rparr>"
    show ?thesis
    proof (cases ok)
      case False
      with r show ?thesis
        by (intro exI [of _ ?ks1] exI [of _ "pr_put ?ks1 p"] put_effectI pass_frame_put) (simp_all add: Let_def)
    next
      case True
      with r t tls_state_step_left [OF st] step_once [OF st] show ?thesis
        by (intro exI [of _ ?ks2] exI [of _ "(pr_put ?ks2 p)\<lparr>pr_change := True\<rparr>"] put_effectI pass_frame_put)
          (simp_all add: Let_def work_left_def)
    qed
  qed
qed

lemma block_receive_key_progress:
  fixes opt :: "('k, 'h) tls_options"
  assumes "opt_server opt = server"
  shows "makes_progress now server (block_receive_key opt)"
proof (rule put_block_progress)
  fix p :: "('k, 'h, 't) proc" and r
  assume t: "timeouts_pos (ks_send_reliable (pr_ks p))" and e: "block_receive_key opt p = Some r"
  let ?ks = "pr_ks p"
  show "\<exists>ks p'. put_effect now server p r ks p'"
  proof (cases "b_len (ks_plaintext_read_buf ?ks) \<noteq> 0
      \<and> ((ks_state ?ks = S_SENT_KEY \<and> \<not> opt_server opt) \<or> (ks_state ?ks = S_START \<and> opt_server opt))")
    case False
    then have "block_receive_key opt p = Some (Goes_on p)" unfolding block_receive_key_def Let_def by (rule if_not_P)
    with e put_effect_same [OF t] show ?thesis by auto
  next
    case True
    then have st: "tls_state_step server (ks_state ?ks) S_GOT_KEY"
      using assms tls_state_step.client_gets tls_state_step.server_gets by auto
    obtain ok auth src b where r: "r = (let ks1 = ?ks\<lparr>ks_authenticated := auth, ks_key_src := src, ks_plaintext_read_buf := b\<rparr> in
        if \<not> ok then Goto_error (pr_put ks1 p) else Goes_on ((pr_put (ks1\<lparr>ks_state := S_GOT_KEY\<rparr>) p)\<lparr>pr_change := True\<rparr>))"
      using e unfolding block_receive_key_def Let_def if_P [OF True] by (auto split: prod.splits)
    let ?ks1 = "?ks\<lparr>ks_authenticated := auth, ks_key_src := src, ks_plaintext_read_buf := b\<rparr>"
      and ?ks2 = "?ks\<lparr>ks_authenticated := auth, ks_key_src := src, ks_plaintext_read_buf := b, ks_state := S_GOT_KEY\<rparr>"
    show ?thesis
    proof (cases ok)
      case False
      with r show ?thesis
        by (intro exI [of _ ?ks1] exI [of _ "pr_put ?ks1 p"] put_effectI pass_frame_put) (simp_all add: Let_def)
    next
      case True
      with r t tls_state_step_left [OF st] step_once [OF st] show ?thesis
        by (intro exI [of _ ?ks2] exI [of _ "(pr_put ?ks2 p)\<lparr>pr_change := True\<rparr>"] put_effectI pass_frame_put)
          (simp_all add: Let_def work_left_def)
    qed
  qed
qed

lemma block_plaintext_out_progress: "makes_progress now server (block_plaintext_out lib)"
proof (rule put_block_progress)
  fix p :: "('a, 'b, 'c) proc" and r
  assume t: "timeouts_pos (ks_send_reliable (pr_ks p))" and e: "block_plaintext_out lib p = Some r"
  show "\<exists>ks p'. put_effect now server p r ks p'"
  proof (cases "b_len (ks_plaintext_write_buf (pr_ks p)) = 0")
    case True
    with e put_effect_same [OF t] show ?thesis by (auto simp: block_plaintext_out_def)
  next
    case False
    obtain st t1 b where w: "key_state_write_plaintext lib (ks_ssl (pr_ks p)) (ks_plaintext_write_buf (pr_ks p)) = Some (st, t1, b)"
      and r: "r = (let p1 = pr_put ((pr_ks p)\<lparr>ks_ssl := Some t1, ks_plaintext_write_buf := b\<rparr>) p in
        if st = -1 then Goto_error p1 else if st = 1 then Goes_on (p1\<lparr>pr_change := True\<rparr>) else Goes_on p1)"
      using e False by (auto simp: block_plaintext_out_def Let_def)
    have l: "if st = 1 then b_len b = 0 else b = ks_plaintext_write_buf (pr_ks p)"
      using w by (auto simp: key_state_write_plaintext_def bio_write_post_def split: bind_splits prod.splits)
    let ?ks = "(pr_ks p)\<lparr>ks_ssl := Some t1, ks_plaintext_write_buf := b\<rparr>"
    show ?thesis
      using r t l False
      by (intro exI [of _ ?ks] exI [of _ "if st = 1 then (pr_put ?ks p)\<lparr>pr_change := True\<rparr> else pr_put ?ks p"]
            put_effectI pass_frame_put) (auto simp: work_left_def Let_def split: if_splits)
  qed
qed

lemma write_outgoing_effect:
  assumes "write_outgoing_tls_ciphertext env opt ses chg = Some (ok, chg', ks')"
  shows "\<exists>s rel. ks' = (ses_key ses KS_PRIMARY)\<lparr>ks_ssl := s, ks_send_reliable := rel\<rparr>
    \<and> same_shape (ks_send_reliable (ses_key ses KS_PRIMARY)) rel
    \<and> entry_weight (slot_weight now) rel \<le> entry_weight (slot_weight now) (ks_send_reliable (ses_key ses KS_PRIMARY))
    \<and> (chg' \<longrightarrow> chg \<or> entry_weight (slot_weight now) rel < entry_weight (slot_weight now) (ks_send_reliable (ses_key ses KS_PRIMARY)))"
proof -
  let ?ks = "ses_key ses KS_PRIMARY"
  have same: ?thesis if "ks' = ?ks\<lparr>ks_ssl := s\<rparr>" "chg' = chg" for s
    using that by (intro exI [of _ s] exI [of _ "ks_send_reliable ?ks"]) simp
  have stay: ?thesis if "ks' = ?ks" "chg' = chg"
    using that by (intro same [of "ks_ssl ?ks"]) simp_all
  consider "ks' = ?ks" "chg' = chg" | s where "ks' = ?ks\<lparr>ks_ssl := s\<rparr>" "chg' = chg"
    | s n m tmp rel where "ks' = ?ks\<lparr>ks_ssl := s, ks_send_reliable := rel\<rparr>"
      "write_ciphertext_loop (ks_resend_wkc ?ks) n m (ks_send_reliable ?ks) tmp chg = Some (rel, chg')"
  proof (cases "reliable_get_num_output_sequenced_available (ks_send_reliable ?ks) = 0")
    case True
    with assms show thesis by (intro that(1)) (simp_all add: write_outgoing_tls_ciphertext_def)
  next
    case False
    with assms obtain status :: int and t tmp1 m where
      "(if status = -1 then Some (False, chg, ?ks\<lparr>ks_ssl := Some t\<rparr>)
        else if status = 1
        then map_option (\<lambda>(rel', chg'). (True, chg', ?ks\<lparr>ks_ssl := Some t, ks_send_reliable := rel'\<rparr>))
               (write_ciphertext_loop (ks_resend_wkc ?ks) (map_option buf_len (tw_tls_crypt_v2_wkc (ses_tls_wrap ses))) m
                 (ks_send_reliable ?ks) tmp1 chg)
        else Some (True, chg, ?ks\<lparr>ks_ssl := Some t\<rparr>)) = Some (ok, chg', ks')"
      unfolding write_outgoing_tls_ciphertext_def Let_def by (simp split: bind_splits prod.splits)
    note r = this
    show thesis
    proof (cases "status = 1")
      case True
      with r obtain rel where "ks' = ?ks\<lparr>ks_ssl := Some t, ks_send_reliable := rel\<rparr>"
        and "write_ciphertext_loop (ks_resend_wkc ?ks) (map_option buf_len (tw_tls_crypt_v2_wkc (ses_tls_wrap ses))) m
          (ks_send_reliable ?ks) tmp1 chg = Some (rel, chg')" by (clarsimp simp: map_option_eq_Some)
      then show thesis by (rule that(3))
    next
      case False
      with r have "ks' = ?ks\<lparr>ks_ssl := Some t\<rparr>" "chg' = chg" by (simp_all split: if_splits)
      then show thesis by (rule that(2))
    qed
  qed
  then show ?thesis
  proof cases
    case (3 s n m tmp rel)
    then show ?thesis using write_ciphertext_loop_shape [OF 3(2), of now] by (intro exI [of _ s] exI [of _ rel]) simp
  qed (fact stay, fact same)
qed

lemma block_ciphertext_out_progress: "makes_progress now server (block_ciphertext_out env opt)"
proof (rule put_block_progress)
  fix p :: "('a, 'b, 'c) proc" and r
  assume t: "timeouts_pos (ks_send_reliable (pr_ks p))" and e: "block_ciphertext_out env opt p = Some r"
  show "\<exists>ks p'. put_effect now server p r ks p'"
  proof (cases "ks_state (pr_ks p) \<ge> S_START")
    case False
    with e put_effect_same [OF t] show ?thesis by (auto simp: block_ciphertext_out_def)
  next
    case True
    then obtain slot rel where g: "reliable_get_buf_output_sequenced (ks_send_reliable (pr_ks p)) = Some (slot, rel)"
      using e by (auto simp: block_ciphertext_out_def split: option.splits)
    let ?ks1 = "(pr_ks p)\<lparr>ks_send_reliable := rel\<rparr>"
    have rel: "same_shape (ks_send_reliable (pr_ks p)) rel"
      "entry_weight (slot_weight now) rel = entry_weight (slot_weight now) (ks_send_reliable (pr_ks p))"
      using get_buf_output_shape [OF g, of now] by simp_all
    show ?thesis
    proof (cases slot)
      case None
      with g True e have "r = Goes_on (pr_put ?ks1 p)" by (simp add: block_ciphertext_out_def)
      with rel t show ?thesis
        by (intro exI [of _ ?ks1] exI [of _ "pr_put ?ks1 p"] put_effectI pass_frame_put) (simp_all add: work_left_def same_shape_def)
    next
      case (Some i)
      with g True e obtain ok chg ks where w: "write_outgoing_tls_ciphertext env opt (pr_session (pr_put ?ks1 p)) (pr_change p) = Some (ok, chg, ks)"
        and r: "r = (if ok then Goes_on else Goto_error) ((pr_put ks (pr_put ?ks1 p))\<lparr>pr_change := chg\<rparr>)"
        by (auto simp: block_ciphertext_out_def Let_def)
      have "ses_key (pr_session (pr_put ?ks1 p)) KS_PRIMARY = ?ks1" using pr_put_simps(1) [of ?ks1 p] by (simp add: pr_ks_def)
      with write_outgoing_effect [OF w, of now] obtain s rel2 where ks: "ks = (pr_ks p)\<lparr>ks_ssl := s, ks_send_reliable := rel2\<rparr>"
        "same_shape rel rel2" "entry_weight (slot_weight now) rel2 \<le> entry_weight (slot_weight now) rel"
        "chg \<longrightarrow> pr_change p \<or> entry_weight (slot_weight now) rel2 < entry_weight (slot_weight now) rel" by auto
      with r rel t show ?thesis
        by (intro exI [of _ ks] exI [of _ "(pr_put ks (pr_put ?ks1 p))\<lparr>pr_change := chg\<rparr>"] put_effectI pass_frame_put)
          (auto simp: work_left_def same_shape_def)
    qed
  qed
qed

lemma process_blocks_progress:
  assumes "opt_server opt = server"
  shows "makes_progress now server (process_blocks env now opt)"
  unfolding process_blocks_def
  by (intro makes_progress_and_then block_initial_progress block_timeout_progress block_start_progress
      block_active_progress block_send_progress block_ciphertext_in_progress block_plaintext_in_progress
      block_send_key_progress block_receive_key_progress block_plaintext_out_progress block_ciphertext_out_progress assms)

section \<open>The loop ends\<close>

text \<open>What a pass that does not fail, and the loop, leave alone.\<close>

definition loop_frame :: "bool \<Rightarrow> ('k, 'h, 't) proc \<Rightarrow> ('k, 'h, 't) proc \<Rightarrow> bool" where
  "loop_frame server p p' \<longleftrightarrow>
     (ks_state (pr_ks p') = S_ERROR \<or> (tls_state_step server)\<^sup>*\<^sup>* (ks_state (pr_ks p)) (ks_state (pr_ks p')))
     \<and> ks_key_id (pr_ks p') = ks_key_id (pr_ks p) \<and> ks_must_die (pr_ks p') = ks_must_die (pr_ks p)
     \<and> ks_key_initialized (pr_ks p') = ks_key_initialized (pr_ks p)
     \<and> ses_key_id (pr_session p') = ses_key_id (pr_session p) \<and> ses_session_id (pr_session p') = ses_session_id (pr_session p)
     \<and> ses_key (pr_session p') KS_LAME_DUCK = ses_key (pr_session p) KS_LAME_DUCK"

lemma pass_loop_frame: "pass_frame server p p' \<Longrightarrow> loop_frame server p p'"
  by (simp add: pass_frame_def loop_frame_def)

lemma pass_loop_trans: "pass_frame server p q \<Longrightarrow> loop_frame server q r \<Longrightarrow> loop_frame server p r"
  unfolding pass_frame_def loop_frame_def by (simp, blast intro: rtranclp_trans)

lemma process_state_progress:
  fixes opt :: "('k, 'h) tls_options"
  assumes r: "tls_process_state env now opt p = Some (chg, p')" and t: "timeouts_pos (ks_send_reliable (pr_ks p))"
  shows "loop_frame (opt_server opt) p p' \<and> (ks_state (pr_ks p') = S_ERROR \<or>
    pass_frame (opt_server opt) p p' \<and> timeouts_pos (ks_send_reliable (pr_ks p'))
    \<and> (chg \<longrightarrow> work_left now (opt_server opt) (pr_ks p') < work_left now (opt_server opt) (pr_ks p)))"
proof -
  let ?p = "p\<lparr>pr_change := False\<rparr>"
  obtain x where x: "process_blocks env now opt ?p = Some x"
    and e: "(chg, p') = (case x of Goes_on q \<Rightarrow> (pr_change q, q) | Returns_true q \<Rightarrow> (True, q)
       | Goto_error q \<Rightarrow> (False, pr_put ((pr_ks q)\<lparr>ks_state := S_ERROR\<rparr>) q))"
    using r by (auto simp: tls_process_state_def)
  have fr: "pass_frame (opt_server opt) ?p q = pass_frame (opt_server opt) p q" for q by (simp add: pass_frame_def)
  have t': "timeouts_pos (ks_send_reliable (pr_ks ?p))" using t by simp
  note m = process_blocks_progress [OF refl, of now opt env, unfolded makes_progress_def, rule_format, OF t']
  show ?thesis
  proof (cases x)
    case (Goes_on q)
    with m x e show ?thesis by (auto simp: fr pass_loop_frame)
  next
    case (Returns_true q)
    with m x e show ?thesis by (auto simp: fr pass_loop_frame)
  next
    case (Goto_error q)
    with m x have "pass_frame (opt_server opt) p q" by (simp add: fr)
    with Goto_error e show ?thesis by (simp add: pass_frame_def loop_frame_def)
  qed
qed

lemma process_loop_ends:
  "timeouts_pos (ks_send_reliable (pr_ks p)) \<Longrightarrow> work_left now (opt_server opt) (pr_ks p) < n \<Longrightarrow>
   tls_process_loop n env now opt p \<noteq> Out_of_fuel"
proof (induction n arbitrary: p)
  case (Suc n)
  show ?case
  proof (cases "tls_process_state env now opt p")
    case (Some r)
    obtain chg p' where r: "r = (chg, p')" by (cases r)
    from process_state_progress [OF Some [unfolded r] Suc.prems(1)] Suc.prems(2) Suc.IH [of p'] show ?thesis
      by (auto simp: Some r)
  qed simp
qed simp

lemma process_loop_frame:
  "timeouts_pos (ks_send_reliable (pr_ks p)) \<Longrightarrow> tls_process_loop n env now opt p = Finished p' \<Longrightarrow> loop_frame (opt_server opt) p p'"
proof (induction n arbitrary: p)
  case (Suc n)
  then obtain chg q where s: "tls_process_state env now opt p = Some (chg, q)" by (auto split: option.splits)
  note q = process_state_progress [OF s Suc.prems(1)]
  show ?case
  proof (cases "ks_state (pr_ks q) = S_ERROR \<or> \<not> chg")
    case True
    then have "p' = q" using Suc.prems(2) s by (auto split: if_splits)
    then show ?thesis using q by simp
  next
    case False
    then have "tls_process_loop n env now opt q = Finished p'" using Suc.prems(2) s by simp
    then show ?thesis using Suc.IH [of q] q False by (auto intro: pass_loop_trans)
  qed
qed simp

lemma entry_weight_bound: "(\<And>e. f e \<le> k) \<Longrightarrow> entry_weight f rel \<le> k * length (rel_entries rel)"
  using sum_list_mono [of "rel_entries rel" f "\<lambda>_. k"] by (simp add: entry_weight_def sum_list_triv mult.commute)

lemma work_left_bound:
  "work_left now server ks \<le> 22 + 2 * length (rel_entries (ks_send_reliable ks)) + length (rel_entries (ks_rec_reliable ks))"
proof -
  have "entry_weight (slot_weight now) (ks_send_reliable ks) \<le> 2 * length (rel_entries (ks_send_reliable ks))"
    by (rule entry_weight_bound) (simp add: slot_weight_def)
  moreover have "entry_weight active_weight (ks_rec_reliable ks) \<le> 1 * length (rel_entries (ks_rec_reliable ks))"
    by (rule entry_weight_bound) (simp add: active_weight_def)
  moreover have "steps_left server (ks_state ks) \<le> 5" by (simp add: steps_left_def)
  ultimately show ?thesis by (simp add: work_left_def)
qed

text \<open>
  C11: Termination of the loop of \<open>tls_process\<close>. With the arrays of a key state (6 and 12 entries) and
  positive timeouts of the packets sent, the loop over \<open>tls_process_state\<close> ends after at most 47
  passes, whatever the TLS library does: each pass that reports a change moves the state on, fills,
  sends or hands over a packet, or turns a plaintext buffer.
\<close>

theorem tls_process_loop_terminates:
  assumes "timeouts_pos (ks_send_reliable (pr_ks p))"
    and "length (rel_entries (ks_send_reliable (pr_ks p))) \<le> 6" and "length (rel_entries (ks_rec_reliable (pr_ks p))) \<le> 12"
  shows "tls_process_loop 47 env now opt p \<noteq> Out_of_fuel"
  using process_loop_ends [of p now opt 47 env] work_left_bound [of now "opt_server opt" "pr_ks p"] assms by simp

definition example_proc :: "(unit, unit, unit) proc" where
  "example_proc = \<lparr>pr_session = tls_session_zero\<lparr>ses_key := (\<lambda>_. key_state_zero)(KS_PRIMARY := key_state_zero
       \<lparr>ks_state := S_INITIAL, ks_send_reliable := reliable_zero\<lparr>rel_size := 6, rel_initial_timeout := 2\<rparr>,
        ks_rec_reliable := reliable_zero\<lparr>rel_size := 12\<rparr>\<rparr>)\<rparr>,
     pr_multi_state = CAS_NOT_CONNECTED, pr_to_link = clear_buf, pr_to_link_addr = None, pr_wakeup = 10, pr_change = False\<rparr>"

lemma example_proc_ok:
  "timeouts_pos (ks_send_reliable (pr_ks example_proc))" "length (rel_entries (ks_send_reliable (pr_ks example_proc))) = 6"
  "length (rel_entries (ks_rec_reliable (pr_ks example_proc))) = 12"
  by (simp_all add: example_proc_def pr_ks_def timeouts_pos_def rel_entries_def reliable_zero_def reliable_entry_zero_def)

theorem tls_process_loop_terminates_witness:
  "\<forall>env now opt. tls_process_loop 47 env now opt example_proc \<noteq> Out_of_fuel"
  by (intro allI tls_process_loop_terminates) (simp_all add: example_proc_ok)


text \<open>
  A TLS library that takes everything and has nothing to say; a server whose reset packet is
  acknowledged goes on to \<open>S_START\<close> and waits for the key of the client.
\<close>

definition demo_lib :: "unit tls_lib" where
  "demo_lib = \<lparr>lib_new = (), lib_BIO_write = (\<lambda>t _ x. (int (length x), True, t)), lib_BIO_read = (\<lambda>t _ _. (None, True, t)),
     lib_export = (\<lambda>_. None)\<rparr>"

definition demo_env :: "(u8 list \<times> bool, unit, unit, unit) tls_env" where
  "demo_env = \<lparr>env_api = demo_key_api, env_lib = demo_lib, env_load_key = (\<lambda>_. (key_ctx_zero, key_ctx_zero)), env_verify_metadata = None,
     env_init_key_ctx = demo_init_key_ctx, env_prf = demo_prf, env_random_source = demo_source 7, env_random_sid = demo_kx_sid 3\<rparr>"

definition demo_tls_opt :: "bool \<Rightarrow> (u8 list \<times> bool, unit) tls_options" where
  "demo_tls_opt server = \<lparr>opt_server = server, opt_mode_server = server, opt_single_session = False, opt_xmit_hold = False,
     opt_tls_crypt_v2 = False, opt_key_export = False, opt_long_form = False, opt_ignore_packet_id = False,
     opt_cipher_insecure = False, opt_key_size = Some 32, opt_handshake_window = 60, opt_transition_window = 3600,
     opt_packet_timeout = 2, opt_renegotiate_bytes = -1, opt_renegotiate_packets = 0, opt_renegotiate_seconds = 3600,
     opt_replay_window = 64, opt_replay_time = 15, opt_frame = null_frame\<lparr>fr_payload_size := 20, fr_headroom := 4\<rparr>,
     opt_tls_wrap = tls_wrap_zero, opt_km2 = demo_local server, opt_checks = demo_checks\<rparr>"

definition demo_ks :: "int \<Rightarrow> (u8 list \<times> bool, unit, unit) key_state" where
  "demo_ks st = key_state_zero\<lparr>ks_state := st, ks_key_id := 3, ks_must_negotiate := 100, ks_ssl := Some (),
     ks_plaintext_read_buf := demo_buffer, ks_plaintext_write_buf := demo_buffer, ks_send_reliable := reliable_zero\<lparr>rel_initial_timeout := 2\<rparr>\<rparr>"

definition demo_proc :: "(u8 list \<times> bool, unit, unit) key_state \<Rightarrow> (u8 list \<times> bool, unit, unit) proc" where
  "demo_proc ks = \<lparr>pr_session = ses_put_key KS_PRIMARY ks tls_session_zero, pr_multi_state = CAS_NOT_CONNECTED, pr_to_link = clear_buf,
     pr_to_link_addr = None, pr_wakeup = 10, pr_change = False\<rparr>"

definition run_state :: "('k, 'h, 't) proc run \<Rightarrow> (int \<times> int) option" where
  "run_state r = (case r of Finished p \<Rightarrow> Some (ks_state (pr_ks p), ks_key_id (pr_ks p)) | _ \<Rightarrow> None)"

lemma demo_tls_run: "run_state (tls_process_loop 2 demo_env 50 (demo_tls_opt True) (demo_proc (demo_ks S_PRE_START))) = Some (S_START, 3)"
  by code_simp


end
