(* ===== verification/TlsMulti.thy ===== *)
theory TlsMulti
  imports TlsProcess
begin

text \<open>
  The entry points of \<open>ssl.c\<close>: \<open>tls_process\<close> for one session, \<open>tls_multi_process\<close> for the sessions of
  a tunnel, with the generation of data channel keys and the verdict on the authentication
  (\<open>ssl_verify.c\<close>), \<open>tls_pre_decrypt\<close> for a packet that arrives, and the calls of the rest of the
  program. The answers of scripts, plugins and the management interface about an authentication are
  an argument (\<open>acf\<close>); the cache of their files is left out.
\<close>

section \<open>One session\<close>

definition soft_reset_due :: "time_t \<Rightarrow> ('k, 'h) tls_options \<Rightarrow> ('k, 'h, 't) key_state \<Rightarrow> bool" where
  "soft_reset_due now opt ks \<longleftrightarrow>
     ks_state ks \<ge> S_GENERATED_KEYS
     \<and> ((opt_renegotiate_seconds opt \<noteq> 0 \<and> now \<ge> ks_established ks + opt_renegotiate_seconds opt)
        \<or> (opt_renegotiate_bytes opt > 0 \<and> ks_n_bytes ks \<ge> opt_renegotiate_bytes opt)
        \<or> (opt_renegotiate_packets opt \<noteq> 0 \<and> ks_n_packets ks \<ge> opt_renegotiate_packets opt)
        \<or> packet_id_close_to_wrapping (pid_send (co_packet_id (ks_crypto_options ks))))"

text \<open>The passes of the loop: enough for the arrays of a key state.\<close>

definition TLS_PROCESS_PASSES :: nat where "TLS_PROCESS_PASSES = 47"

text \<open>The acknowledgements that no control packet took along; the value is whether the function returns.\<close>

definition tls_process_acks ::
    "('k, 's, 'h, 't) tls_env \<Rightarrow> time_t \<Rightarrow> ('k, 'h) tls_options \<Rightarrow> ('k, 'h, 't) proc \<Rightarrow> (bool \<times> ('k, 'h, 't) proc) option" where
  "tls_process_acks env now opt p =
     (let ks = pr_ks p in
      if b_len (pr_to_link p) = 0 \<and> \<not> reliable_ack_empty (ks_rec_ack ks)
      then if control_packet_needs_wkc ks
           then (case reliable_get_buf_output_sequenced (ks_send_reliable ks) of
                   None \<Rightarrow> None
                 | Some (None, rel) \<Rightarrow> Some (True, pr_put (ks\<lparr>ks_send_reliable := rel\<rparr>) p)
                 | Some (Some i, rel) \<Rightarrow>
                     map_option (\<lambda>rel'. (False, pr_put (ks\<lparr>ks_send_reliable := rel'\<rparr>) p))
                       (reliable_mark_active_outgoing rel i (uint P_CONTROL_WKC_V1)))
           else do {
             buf \<leftarrow> assert_ok (buf_init (ks_ack_write_buf ks) (fr_headroom (opt_frame opt)));
             (b, ses) \<leftarrow> ses_write_control_auth env now opt (pr_session p) buf P_ACK_V1 RELIABLE_ACK_SIZE False;
             Some (False, p\<lparr>pr_session := ses, pr_to_link := b, pr_to_link_addr := Some (ks_remote_addr ks)\<rparr>)
           }
      else Some (False, p))"

definition tls_process_wakeup :: "time_t \<Rightarrow> ('k, 'h) tls_options \<Rightarrow> ('k, 'h, 't) proc \<Rightarrow> bool \<times> ('k, 'h, 't) proc" where
  "tls_process_wakeup now opt p =
     (let ks = pr_ks p; w0 = pr_wakeup p;
          w1 = (if ks_state ks \<ge> S_INITIAL
                then let w = compute_earliest_wakeup w0 (reliable_send_timeout now (ks_send_reliable ks)) in
                     if ks_must_negotiate ks \<noteq> 0 then compute_earliest_wakeup w (ks_must_negotiate ks - now) else w
                else w0);
          w2 = (if ks_established ks \<noteq> 0 \<and> opt_renegotiate_seconds opt \<noteq> 0
                then compute_earliest_wakeup w1 (ks_established ks + opt_renegotiate_seconds opt - now) else w1)
      in if w2 \<le> 0 then (True, p\<lparr>pr_wakeup := 1\<rparr>) else (b_len (pr_to_link p) \<noteq> 0, p\<lparr>pr_wakeup := w2\<rparr>))"

definition tls_process ::
    "('k, 's, 'h, 't) tls_env \<Rightarrow> time_t \<Rightarrow> ('k, 'h) tls_options \<Rightarrow> ('k, 'h, 't) proc \<Rightarrow> (bool \<times> ('k, 'h, 't) proc) option" where
  "tls_process env now opt p =
     (let ks = pr_ks p; ses = pr_session p in
      if ks_state ks = S_UNDEF \<or> ks_state ks = S_ERROR \<or> \<not> session_id_defined (ses_session_id ses) then None
      else do {
        ses1 \<leftarrow> (if soft_reset_due now opt ks then key_state_soft_reset env now opt ses else Some ses);
        (dead, wakeup) \<leftarrow> lame_duck_must_die now ses1 (pr_wakeup p);
        let ses2 = (if dead then ses_put_key KS_LAME_DUCK (key_state_free (ses_key ses1 KS_LAME_DUCK) True) ses1 else ses1);
        (case tls_process_loop TLS_PROCESS_PASSES env now opt (p\<lparr>pr_session := ses2, pr_wakeup := wakeup\<rparr>) of
           Finished p1 \<Rightarrow>
             if ks_state (pr_ks p1) = S_ERROR then Some (False, p1)
             else do {
               (returns, p2) \<leftarrow> tls_process_acks env now opt p1;
               Some (if returns then (False, p2) else tls_process_wakeup now opt p2)
             }
         | _ \<Rightarrow> None)
      })"

section \<open>Authentication and data channel keys\<close>

datatype auth_deferred_result = ACF_PENDING | ACF_SUCCEEDED | ACF_DISABLED | ACF_FAILED
datatype tls_auth_status = TLS_AUTHENTICATION_SUCCEEDED | TLS_AUTHENTICATION_DEFERRED | TLS_AUTHENTICATION_FAILED

text \<open>What a plugin, a script and the management interface say about a key.\<close>

type_synonym acf = "session_slot \<times> key_slot \<Rightarrow> auth_deferred_result \<times> auth_deferred_result \<times> auth_deferred_result"

definition TLS_AUTHENTICATED :: "('k, 'h) tls_options \<Rightarrow> ('k, 'h, 't) key_state \<Rightarrow> bool" where
  "TLS_AUTHENTICATED opt ks \<longleftrightarrow> ks_state ks \<ge> S_GOT_KEY - of_bool (opt_server opt)"

definition update_key_auth_status ::
    "time_t \<Rightarrow> auth_deferred_result \<times> auth_deferred_result \<times> auth_deferred_result \<Rightarrow> ('k, 'h, 't) key_state \<Rightarrow> ('k, 'h, 't) key_state" where
  "update_key_auth_status now res ks =
     (case res of
        (plugin, script, man) \<Rightarrow>
          if ks_authenticated ks = KS_AUTH_FALSE then ks
          else if plugin = ACF_FAILED \<or> script = ACF_FAILED \<or> man = ACF_FAILED then ks\<lparr>ks_authenticated := KS_AUTH_FALSE\<rparr>
          else if plugin = ACF_PENDING \<or> script = ACF_PENDING \<or> man = ACF_PENDING
          then if now \<ge> ks_auth_deferred_expire ks then ks\<lparr>ks_authenticated := KS_AUTH_FALSE\<rparr> else ks
          else ks\<lparr>ks_authenticated := KS_AUTH_TRUE\<rparr>)"

record auth_seen =
  as_active :: nat
  as_failed :: bool
  as_deferred :: bool
  as_success :: bool

fun auth_status_loop ::
    "time_t \<Rightarrow> acf \<Rightarrow> (session_slot \<times> key_slot) list \<Rightarrow> ('k, 'h, 't) tls_multi \<Rightarrow> auth_seen \<Rightarrow> ('k, 'h, 't) tls_multi \<times> auth_seen" where
  "auth_status_loop now acf [] mu s = (mu, s)"
| "auth_status_loop now acf (i # is) mu s =
     (if TLS_AUTHENTICATED (mu_opt mu) (mu_key mu i)
      then let ks = update_key_auth_status now (acf i) (mu_key mu i);
               s1 = s\<lparr>as_active := as_active s + 1\<rparr>
           in auth_status_loop now acf is (mu_key_update i ks mu)
                (case ks_authenticated ks of
                   KS_AUTH_FALSE \<Rightarrow> s1\<lparr>as_failed := True\<rparr>
                 | KS_AUTH_DEFERRED \<Rightarrow> s1\<lparr>as_deferred := True\<rparr>
                 | KS_AUTH_TRUE \<Rightarrow> s1\<lparr>as_success := True\<rparr>)
      else auth_status_loop now acf is mu s)"

definition tls_authentication_status ::
    "time_t \<Rightarrow> acf \<Rightarrow> ('k, 'h, 't) tls_multi \<Rightarrow> tls_auth_status \<times> ('k, 'h, 't) tls_multi" where
  "tls_authentication_status now acf mu =
     (case auth_status_loop now acf key_scan mu \<lparr>as_active = 0, as_failed = False, as_deferred = False, as_success = False\<rparr> of
        (mu', s) \<Rightarrow>
          (if as_failed s then TLS_AUTHENTICATION_FAILED
           else if as_success s then TLS_AUTHENTICATION_SUCCEEDED
           else if as_active s = 0 \<or> as_deferred s then TLS_AUTHENTICATION_DEFERRED
           else TLS_AUTHENTICATION_FAILED, mu'))"

definition tls_limit_reneg_bytes :: "bool \<Rightarrow> int \<Rightarrow> int" where
  "tls_limit_reneg_bytes insecure reneg_bytes =
     (if insecure then if reneg_bytes = -1 then 64 * 1024 * 1024 else reneg_bytes else reneg_bytes)"

text \<open>
  The result, the options and the primary key state of the session after it. The flags of the options
  replace those of the key state, among them the one to send the wrapped client key again.
\<close>

definition tls_session_generate_data_channel_keys ::
    "('k, 's, 'h, 't) tls_env \<Rightarrow> ('k, 'h) tls_options \<Rightarrow> ('k, 'h, 't) tls_session
       \<Rightarrow> (bool \<times> ('k, 'h) tls_options \<times> ('k, 'h, 't) key_state) option" where
  "tls_session_generate_data_channel_keys env opt ses =
     (let ks = ses_key ses KS_PRIMARY in
      if ks_authenticated ks = KS_AUTH_FALSE then Some (False, opt, ks\<lparr>ks_key_src := key_source2_zero\<rparr>)
      else let co = (ks_crypto_options ks)\<lparr>co_long_form := opt_long_form opt, co_ignore_packet_id := opt_ignore_packet_id opt\<rparr>;
               ks1 = ks\<lparr>ks_crypto_options := co, ks_resend_wkc := False, ks_key_src := key_source2_zero\<rparr>
           in do {
             export \<leftarrow> (if opt_key_export opt then map_option (\<lambda>ssl. Some (lib_export (env_lib env) ssl)) (ks_ssl ks) else Some None);
             keys \<leftarrow> generate_key_expansion (env_api env) (env_init_key_ctx env) (env_prf env) (opt_key_size opt)
                       (ks_key_initialized ks) export (opt_server opt) (ks_key_src ks) (ses_session_id ses) (ks_session_id_remote ks);
             Some (case keys of
                     None \<Rightarrow> (False, opt, ks1)
                   | Some (enc, dec) \<Rightarrow>
                       (True, opt\<lparr>opt_renegotiate_bytes := tls_limit_reneg_bytes (opt_cipher_insecure opt) (opt_renegotiate_bytes opt)\<rparr>,
                        ks1\<lparr>ks_crypto_options := co\<lparr>co_encrypt := enc, co_decrypt := dec\<rparr>, ks_key_initialized := True,
                            ks_state := S_GENERATED_KEYS\<rparr>))
           })"

section \<open>The sessions of a tunnel\<close>

datatype tlsmp = TLSMP_INACTIVE | TLSMP_ACTIVE | TLSMP_KILL | TLSMP_RECONNECT

record ('k, 'h, 't) multi_proc =
  mp_multi :: "('k, 'h, 't) tls_multi"
  mp_to_link :: buffer
  mp_to_link_addr :: "openvpn_sockaddr option"
  mp_wakeup :: interval_t
  mp_active :: tlsmp
  mp_error :: bool

text \<open>The body of the loop for session \<open>i\<close>; \<open>lsa\<close> is the address the link socket is connected to.\<close>

definition set_initial_remote ::
    "openvpn_sockaddr \<Rightarrow> session_slot \<Rightarrow> ('k, 'h, 't) tls_multi \<Rightarrow> ('k, 'h, 't) tls_multi" where
  "set_initial_remote lsa i mu =
     (let ks = mu_key mu (i, KS_PRIMARY) in
      if i = TM_INITIAL \<and> ks_state ks = S_INITIAL \<and> ks_state (get_primary_key mu) \<le> S_INITIAL \<and> addr_defined lsa
      then mu_key_update (i, KS_PRIMARY) (ks\<lparr>ks_remote_addr := lsa\<rparr>) mu else mu)"

definition session_failed ::
    "('k, 's, 'h, 't) tls_env \<Rightarrow> time_t \<Rightarrow> session_slot \<Rightarrow> ('k, 'h, 't) multi_proc \<Rightarrow> ('k, 'h, 't) multi_proc option" where
  "session_failed env now i m =
     (let mu = (mp_multi m)\<lparr>mu_n_soft_errors := mu_n_soft_errors (mp_multi m) + 1\<rparr>;
          err = (mp_error m \<or> i = TM_ACTIVE \<or> (i = TM_INITIAL \<and> ks_state (get_primary_key mu) < S_ACTIVE))
      in map_option (\<lambda>mu'. m\<lparr>mp_multi := mu', mp_error := err\<rparr>)
           (if i = TM_ACTIVE \<and> ks_state (mu_key mu (i, KS_LAME_DUCK)) \<ge> S_GENERATED_KEYS \<and> \<not> opt_single_session (mu_opt mu)
            then move_session env now mu TM_LAME_DUCK TM_ACTIVE True
            else reset_session env now mu i))"

definition tls_multi_process_session ::
    "('k, 's, 'h, 't) tls_env \<Rightarrow> time_t \<Rightarrow> openvpn_sockaddr \<Rightarrow> session_slot \<Rightarrow> ('k, 'h, 't) multi_proc \<Rightarrow> ('k, 'h, 't) multi_proc option" where
  "tls_multi_process_session env now lsa i m =
     (let mu = set_initial_remote lsa i (mp_multi m); ks = mu_key mu (i, KS_PRIMARY) in
      if ks_state ks \<ge> S_INITIAL \<and> addr_defined (ks_remote_addr ks)
      then do {
        (act, p) \<leftarrow> tls_process env now (mu_opt mu)
          \<lparr>pr_session = mu_session mu i, pr_multi_state = mu_multi_state mu, pr_to_link = mp_to_link m, pr_to_link_addr = None,
           pr_wakeup = mp_wakeup m, pr_change = False\<rparr>;
        let mu1 = mu\<lparr>mu_session := (mu_session mu)(i := pr_session p), mu_multi_state := pr_multi_state p\<rparr>;
        let mu2 = (case pr_to_link_addr p of None \<Rightarrow> mu1 | Some a \<Rightarrow> mu1\<lparr>mu_to_link_addr := a\<rparr>);
        let m1 = m\<lparr>mp_multi := mu2, mp_to_link := pr_to_link p, mp_wakeup := pr_wakeup p,
                   mp_to_link_addr := (case pr_to_link_addr p of None \<Rightarrow> mp_to_link_addr m | Some a \<Rightarrow> Some a),
                   mp_active := (if act then TLSMP_ACTIVE else mp_active m)\<rparr>;
        if ks_state (pr_ks p) = S_ERROR then session_failed env now i m1 else Some m1
      }
      else Some (m\<lparr>mp_multi := mu\<rparr>))"

text \<open>The keys of the active session, once it is authenticated.\<close>

definition generate_active_keys ::
    "('k, 's, 'h, 't) tls_env \<Rightarrow> ('k, 'h, 't) tls_multi \<Rightarrow> ('k, 'h, 't) tls_multi option" where
  "generate_active_keys env mu =
     (let ks = get_primary_key mu in
      if mu_multi_state mu = CAS_CONNECT_DONE \<and> ks_state ks = S_ACTIVE \<and> ks_authenticated ks = KS_AUTH_TRUE
      then map_option (\<lambda>(ok, opt, ks1).
             mu_key_update (TM_ACTIVE, KS_PRIMARY)
               (if ok then ks1 else ks1\<lparr>ks_authenticated := KS_AUTH_FALSE, ks_state := S_ERROR\<rparr>) (mu\<lparr>mu_opt := opt\<rparr>))
             (tls_session_generate_data_channel_keys env (mu_opt mu) (mu_session mu TM_ACTIVE))
      else Some mu)"

definition tls_multi_process ::
    "('k, 's, 'h, 't) tls_env \<Rightarrow> time_t \<Rightarrow> acf \<Rightarrow> openvpn_sockaddr \<Rightarrow> buffer \<Rightarrow> interval_t \<Rightarrow> ('k, 'h, 't) tls_multi
       \<Rightarrow> (tlsmp \<times> ('k, 'h, 't) multi_proc) option" where
  "tls_multi_process env now acf lsa to_link wakeup mu =
     do {
       m1 \<leftarrow> tls_multi_process_session env now lsa TM_ACTIVE
         \<lparr>mp_multi = mu, mp_to_link = to_link, mp_to_link_addr = None, mp_wakeup = wakeup, mp_active = TLSMP_INACTIVE, mp_error = False\<rparr>;
       m2 \<leftarrow> tls_multi_process_session env now lsa TM_INITIAL m1;
       m3 \<leftarrow> tls_multi_process_session env now lsa TM_LAME_DUCK m2;
       let (tas1, mu1) = tls_authentication_status now acf (mp_multi m3);
       mu2 \<leftarrow> generate_active_keys env mu1;
       let mu3 = (if mu_multi_state mu2 = CAS_WAITING_AUTH \<and> tas1 = TLS_AUTHENTICATION_SUCCEEDED
                  then mu2\<lparr>mu_multi_state := CAS_PENDING\<rparr> else mu2);
       (dead, wakeup1) \<leftarrow> lame_duck_must_die now (mu_session mu3 TM_LAME_DUCK) (mp_wakeup m3);
       let mu4 = (if dead then mu3\<lparr>mu_session := (mu_session mu3)(TM_LAME_DUCK := tls_session_free (mu_session mu3 TM_LAME_DUCK) True)\<rparr>
                  else mu3);
       (tas2, active2, mu5) \<leftarrow>
         (if TLS_AUTHENTICATED (mu_opt mu4) (mu_key mu4 (TM_INITIAL, KS_PRIMARY))
          then do {
            mu' \<leftarrow> move_session env now mu4 TM_ACTIVE TM_INITIAL True;
            let (tas', mu'') = tls_authentication_status now acf mu';
            Some (if mu_multi_state mu'' = CAS_CONNECT_DONE
                  then (tas', TLSMP_RECONNECT, mu''\<lparr>mu_multi_state := CAS_RECONNECT_PENDING\<rparr>)
                  else (tas', mp_active m3, mu''))
          }
          else Some (tas1, mp_active m3, mu4));
       let mu6 = (if mp_error m3 \<and> \<not> (\<exists>i \<in> set key_scan. ks_state (mu_key mu5 i) \<ge> S_ACTIVE)
                  then mu5\<lparr>mu_n_hard_errors := mu_n_hard_errors mu5 + 1\<rparr> else mu5);
       Some (if tas2 = TLS_AUTHENTICATION_FAILED then TLSMP_KILL else active2, m3\<lparr>mp_multi := mu6, mp_wakeup := wakeup1\<rparr>)
     }"

section \<open>A packet that arrives\<close>

definition P_FIRST_OPCODE :: u8 where "P_FIRST_OPCODE = 3"
definition P_LAST_OPCODE :: u8 where "P_LAST_OPCODE = 11"

text \<open>The session whose peer has session id \<open>sid\<close>, the first in the order of the array.\<close>

definition find_session :: "('k, 'h, 't) tls_multi \<Rightarrow> session_id \<Rightarrow> session_slot option" where
  "find_session mu sid =
     List.find (\<lambda>i. session_id_equal (ks_session_id_remote (mu_key mu (i, KS_PRIMARY))) sid) [TM_ACTIVE, TM_INITIAL, TM_LAME_DUCK]"

definition mu_read_control_auth ::
    "('k, 's, 'h, 't) tls_env \<Rightarrow> time_t \<Rightarrow> ('k, 'h, 't) tls_multi \<Rightarrow> session_slot \<Rightarrow> int \<Rightarrow> buffer
       \<Rightarrow> (bool \<times> buffer \<times> ('k, 'h, 't) tls_multi) option" where
  "mu_read_control_auth env now mu i key_id buf =
     (let ses = mu_session mu i in
      map_option (\<lambda>(ok, buf', ctx). (ok, buf', mu\<lparr>mu_session := (mu_session mu)(i := tls_session_put_tls_wrap ses key_id ctx)\<rparr>))
        (read_control_auth (env_api env) (env_load_key env) now buf (tls_session_get_tls_wrap ses key_id) (env_verify_metadata env)))"

text \<open>
  The packet is dropped, or goes to session \<open>i\<close>; \<open>Routed i burst new_link\<close> has the flags of the code.
\<close>

datatype ('m, 'b) routed = Drop 'm | Routed session_slot bool bool 'b 'm

definition route_control_packet ::
    "('k, 's, 'h, 't) tls_env \<Rightarrow> time_t \<Rightarrow> ('k, 'h, 't) tls_multi \<Rightarrow> openvpn_sockaddr \<Rightarrow> buffer \<Rightarrow> u8 \<Rightarrow> int \<Rightarrow> session_id
       \<Rightarrow> (('k, 'h, 't) tls_multi, buffer) routed option" where
  "route_control_packet env now mu from' buf op key_id sid =
     (case find_session mu sid of
        Some TM_LAME_DUCK \<Rightarrow> Some (Drop mu)
      | None \<Rightarrow>
          if \<not> is_hard_reset_method2 op then Some (Drop mu)
          else if opt_single_session (mu_opt mu) \<and> mu_n_sessions mu \<noteq> 0 then Some (Drop mu)
          else do {
            (ok, buf', mu1) \<leftarrow> mu_read_control_auth env now mu TM_INITIAL key_id buf;
            Some (if \<not> ok then Drop mu1
                  else Routed TM_INITIAL True True buf'
                    (mu1\<lparr>mu_session := (mu_session mu1)(TM_INITIAL := (mu_session mu1 TM_INITIAL)\<lparr>ses_untrusted_addr := from'\<rparr>)\<rparr>))
          }
      | Some i \<Rightarrow> do {
          match \<leftarrow> addr_port_match (ks_remote_addr (mu_key mu (i, KS_PRIMARY))) from';
          if \<not> match then Some (Drop mu)
          else do {
            (ok, buf', mu1) \<leftarrow> mu_read_control_auth env now mu i key_id buf;
            if \<not> ok then Some (Drop mu1)
            else if op = P_CONTROL_SOFT_RESET_V1 \<and> ks_state (mu_key mu (i, KS_PRIMARY)) \<ge> S_GENERATED_KEYS
            then map_option (\<lambda>ses. Routed i False False buf' (mu1\<lparr>mu_session := (mu_session mu1)(i := ses)\<rparr>))
                   (key_state_soft_reset env now (mu_opt mu1) (mu_session mu1 i))
            else Some (Routed i (op = P_CONTROL_SOFT_RESET_V1) False buf' mu1)
          }
        })"

definition soft_error :: "('k, 'h, 't) tls_multi \<Rightarrow> ('k, 'h, 't) tls_multi" where
  "soft_error mu = mu\<lparr>mu_n_soft_errors := mu_n_soft_errors mu + 1\<rparr>"

text \<open>The packet of session \<open>i\<close>, once it is authenticated: its acknowledgements and its payload.\<close>

definition receive_control_packet ::
    "time_t \<Rightarrow> ('k, 'h, 't) tls_multi \<Rightarrow> session_slot \<Rightarrow> openvpn_sockaddr \<Rightarrow> session_id \<Rightarrow> u8 \<Rightarrow> int \<Rightarrow> bool \<Rightarrow> bool \<Rightarrow> buffer
       \<Rightarrow> ('k, 'h, 't) tls_multi option" where
  "receive_control_packet now mu i from' sid op key_id do_burst new_link buf =
     (let ses = mu_session mu i; ks = ses_key ses KS_PRIMARY in
      if ks_state ks = S_UNDEF \<or> ks_state ks = S_ERROR \<or> \<not> session_id_defined (ses_session_id ses) then None
      else do {
        match \<leftarrow> (if new_link then Some True else addr_port_match (ks_remote_addr ks) from');
        if \<not> match then Some (soft_error mu)
        else
          let ks1 = (if new_link then ks\<lparr>ks_session_id_remote := sid, ks_remote_addr := from'\<rparr> else ks);
              burst = (do_burst \<and> \<not> ses_burst ses);
              ks2 = (if burst then ks1\<lparr>ks_send_reliable := reliable_schedule_now now (ks_send_reliable ks1)\<rparr> else ks1);
              stored = (\<lambda>ks'. mu\<lparr>mu_n_sessions := mu_n_sessions mu + of_bool new_link,
                 mu_session := (mu_session mu)(i := (ses_put_key KS_PRIMARY ks' ses)\<lparr>ses_burst := ses_burst ses \<or> burst\<rparr>)\<rparr>)
          in if ks_key_id ks2 \<noteq> key_id then Some (soft_error (stored ks2))
             else (case reliable_ack_read ack_zero buf (ses_session_id ses) of
                     (False, _, _) \<Rightarrow> Some (soft_error (stored ks2))
                   | (True, send_ack, buf1) \<Rightarrow>
                       (let ks3 = ks2\<lparr>ks_send_reliable := reliable_send_purge (ks_send_reliable ks2) send_ack\<rparr> in
                        map_option (\<lambda>(ok, rel, ack).
                            (let ks4 = ks3\<lparr>ks_rec_reliable := rel, ks_rec_ack := ack\<rparr> in
                             if ok then stored (ks4\<lparr>ks_peer_last_packet := now\<rparr>) else soft_error (stored ks4)))
                          (control_packet_receive (uint op) buf1 (ks_rec_reliable ks3) (ks_rec_ack ks3))))
      })"

text \<open>
  The result of the function (whether it was a control packet of a session), for a data packet the key
  and the start of its authenticated data, and the packet and the state. Of the buffer of a control
  packet only that it ends empty is kept, not where its offset stopped.
\<close>

definition tls_pre_decrypt ::
    "('k, 's, 'h, 't) tls_env \<Rightarrow> time_t \<Rightarrow> ('k, 'h, 't) tls_multi \<Rightarrow> openvpn_sockaddr \<Rightarrow> buffer \<Rightarrow> bool
       \<Rightarrow> (bool \<times> (session_slot \<times> key_slot) option \<times> nat option \<times> buffer \<times> ('k, 'h, 't) tls_multi) option" where
  "tls_pre_decrypt env now mu from' buf floated =
     (if b_len buf \<le> 0 then Some (False, None, None, buf\<lparr>b_len := 0\<rparr>, mu)
      else
        let c = buf_mem buf ! nat (b_offset buf); op = packet_opcode c; key_id = uint (packet_key_id c);
            dropped = (\<lambda>mu'. (False, None, None, buf\<lparr>b_len := 0\<rparr>, soft_error mu'))
        in if op = P_DATA_V1 \<or> op = P_DATA_V2
           then map_option (\<lambda>(key, ad, b, mu'). (False, key, ad, b, mu')) (handle_data_channel_packet mu from' buf floated)
           else if op < P_FIRST_OPCODE \<or> op > P_LAST_OPCODE then Some (dropped mu)
           else if ((op = P_CONTROL_HARD_RESET_CLIENT_V2 \<or> op = P_CONTROL_HARD_RESET_CLIENT_V3) \<and> \<not> opt_server (mu_opt mu))
                   \<or> (op = P_CONTROL_HARD_RESET_SERVER_V2 \<and> opt_server (mu_opt mu)) then Some (dropped mu)
           else (case session_id_read x_session_id_zero (snd (buf_advance buf 1)) of
                   (ok, sid, _) \<Rightarrow>
                     if \<not> ok \<or> \<not> session_id_defined sid then Some (dropped mu)
                     else (case route_control_packet env now mu from' buf op key_id sid of
                             None \<Rightarrow> None
                           | Some (Drop mu1) \<Rightarrow> Some (dropped mu1)
                           | Some (Routed i do_burst new_link buf1 mu1) \<Rightarrow>
                               map_option (\<lambda>mu2. (True, None, None, buf1\<lparr>b_len := 0\<rparr>, mu2))
                                 (receive_control_packet now mu1 i from' sid op key_id do_burst new_link buf1))))"

section \<open>Calls from the rest of the program\<close>

definition tls_session_soft_reset ::
    "('k, 's, 'h, 't) tls_env \<Rightarrow> time_t \<Rightarrow> ('k, 'h, 't) tls_multi \<Rightarrow> ('k, 'h, 't) tls_multi option" where
  "tls_session_soft_reset env now mu =
     map_option (\<lambda>ses. mu\<lparr>mu_session := (mu_session mu)(TM_ACTIVE := ses)\<rparr>)
       (key_state_soft_reset env now (mu_opt mu) (mu_session mu TM_ACTIVE))"

text \<open>A server that took the first packets without a state starts where they end.\<close>

definition session_skip_to_pre_start ::
    "time_t \<Rightarrow> ('k, 'h) tls_options \<Rightarrow> ('k, 'h, 't) tls_session \<Rightarrow> ('k, 'h) tls_pre_decrypt_state \<Rightarrow> openvpn_sockaddr
       \<Rightarrow> (bool \<times> ('k, 'h, 't) tls_session) option" where
  "session_skip_to_pre_start now opt ses state from' =
     (let ks = ses_key ses KS_PRIMARY;
          ks1 = ks\<lparr>ks_session_id_remote := tp_peer_session_id state, ks_remote_addr := from',
                   ks_rec_reliable := (ks_rec_reliable ks)\<lparr>rel_packet_id := 1\<rparr>\<rparr>;
          co = tw_opt (ses_tls_wrap ses); pid = co_packet_id co;
          ses1 = ses\<lparr>ses_session_id := tp_server_session_id state, ses_untrusted_addr := from', ses_burst := True,
                     ses_tls_wrap := (ses_tls_wrap ses)\<lparr>tw_opt := co\<lparr>co_packet_id := pid\<lparr>pid_send := (pid_send pid)\<lparr>s_id := 1\<rparr>\<rparr>\<rparr>\<rparr>\<rparr>
      in map_option (\<lambda>(ok, ks2). (ok, ses_put_key KS_PRIMARY ks2 ses1)) (session_move_pre_start now opt ks1 True))"

definition tls_send_payload ::
    "'t tls_lib \<Rightarrow> ('k, 'h, 't) key_state \<Rightarrow> u8 list \<Rightarrow> (bool \<times> ('k, 'h, 't) key_state) option" where
  "tls_send_payload lib ks data =
     (if ks_state ks \<ge> S_ACTIVE
      then map_option (\<lambda>(st, t). (st = 1, ks\<lparr>ks_ssl := Some t\<rparr>)) (key_state_write_plaintext_const lib (ks_ssl ks) data)
      else Some (True, ks\<lparr>ks_paybuf := ks_paybuf ks @ [data]\<rparr>))"

definition tls_rec_payload ::
    "('k, 'h, 't) tls_multi \<Rightarrow> buffer \<Rightarrow> bool \<times> buffer \<times> ('k, 'h, 't) tls_multi" where
  "tls_rec_payload mu buf =
     (let ks = get_primary_key mu in
      if ks_state ks \<ge> S_ACTIVE \<and> buf_len (ks_plaintext_read_buf ks) \<noteq> 0
      then (case buf_copy buf (ks_plaintext_read_buf ks) of
              (ok, buf') \<Rightarrow> (ok, buf', mu_key_update (TM_ACTIVE, KS_PRIMARY)
                 (ks\<lparr>ks_plaintext_read_buf := (ks_plaintext_read_buf ks)\<lparr>b_len := 0\<rparr>\<rparr>) mu))
      else (False, buf, mu))"

text \<open>The addresses are looked at in turn; a comparison may fail its assertion.\<close>

fun tls_update_remote_addr ::
    "(session_slot \<times> key_slot) list \<Rightarrow> ('k, 'h, 't) tls_multi \<Rightarrow> openvpn_sockaddr \<Rightarrow> ('k, 'h, 't) tls_multi option" where
  "tls_update_remote_addr [] mu addr = Some mu"
| "tls_update_remote_addr (i # is) mu addr =
     (let ks = mu_key mu i in
      if \<not> addr_defined (ks_remote_addr ks) then tls_update_remote_addr is mu addr
      else do {
        match \<leftarrow> addr_port_match addr (ks_remote_addr ks);
        tls_update_remote_addr is (if match then mu else mu_key_update i (ks\<lparr>ks_remote_addr := addr\<rparr>) mu) addr
      })"

definition all_keys :: "(session_slot \<times> key_slot) list" where
  "all_keys = [(TM_ACTIVE, KS_PRIMARY), (TM_ACTIVE, KS_LAME_DUCK), (TM_INITIAL, KS_PRIMARY), (TM_INITIAL, KS_LAME_DUCK),
     (TM_LAME_DUCK, KS_PRIMARY), (TM_LAME_DUCK, KS_LAME_DUCK)]"

end
