(* ===== verification/TlsData.thy ===== *)
theory TlsData
  imports TlsSession
begin

text \<open>
  The key of a data packet: which key the sender takes, and that the receiver finds the key with the
  same id behind the header that the sender wrote.
\<close>

section \<open>The sender's key\<close>

lemma select_key_loop_find:
  assumes "\<forall>i \<in> set is. key_usable (mu_key mu i) \<longrightarrow> ks_key_initialized (mu_key mu i)"
  shows "select_key_loop now mu sel is =
    Some (case List.find (\<lambda>i. key_usable (mu_key mu i) \<and> now \<ge> ks_auth_deferred_expire (mu_key mu i)) is of
            Some i \<Rightarrow> Some i
          | None \<Rightarrow> (case sel of Some i \<Rightarrow> Some i | None \<Rightarrow> List.find (\<lambda>i. key_usable (mu_key mu i)) is))"
  using assms by (induction "is" arbitrary: sel) (auto simp: Let_def split: option.split)

text \<open>
  C17: \<open>tls_select_encryption_key\<close>, with its loop and its early return, is the search it is meant to
  be: the first usable key in the order of the scan whose time to wait for a deferred
  authentication is over, or else the first usable key, or else none; and the key is one whose data
  channel key is set.
\<close>

theorem tls_select_encryption_key_is_search:
  assumes "\<forall>i \<in> set key_scan. key_usable (mu_key mu i) \<longrightarrow> ks_key_initialized (mu_key mu i)"
  shows "tls_select_encryption_key now mu =
    Some (case List.find (\<lambda>i. key_usable (mu_key mu i) \<and> now \<ge> ks_auth_deferred_expire (mu_key mu i)) key_scan of
            Some i \<Rightarrow> Some i | None \<Rightarrow> List.find (\<lambda>i. key_usable (mu_key mu i)) key_scan)"
  unfolding tls_select_encryption_key_def select_key_loop_find [OF assms] by (simp only: option.case)

section \<open>The header of a data packet\<close>

lemma key_id_cases:
  fixes k :: int
  assumes "0 \<le> k" "k \<le> 7"
  obtains "k = 0" | "k = 1" | "k = 2" | "k = 3" | "k = 4" | "k = 5" | "k = 6" | "k = 7"
  using assms by linarith

lemma low24_bit: "bit (0xFFFFFF :: u32) n \<longleftrightarrow> n < 24"
proof -
  have "(0xFFFFFF :: u32) = mask 24" by (simp add: mask_eq_exp_minus_1)
  then show ?thesis by (simp only: bit_mask_iff) auto
qed

lemma low24_bit_int: "bit (0xFFFFFF :: int) n \<longleftrightarrow> n < 24"
proof -
  have "(0xFFFFFF :: int) = mask 24" by (simp add: mask_eq_exp_minus_1)
  then show ?thesis by (simp only: bit_mask_iff) auto
qed

definition data_v2_word :: "int \<Rightarrow> u32 \<Rightarrow> u32" where
  "data_v2_word k peer = push_bit 24 (push_bit P_OPCODE_SHIFT (ucast P_DATA_V2) OR word_of_int k) OR (peer AND 0xFFFFFF)"

lemma data_v2_first_byte:
  assumes "0 \<le> k" "k \<le> 7"
  shows "packet_opcode (hd (u32_bytes (data_v2_word k peer))) = P_DATA_V2"
    and "uint (packet_key_id (hd (u32_bytes (data_v2_word k peer)))) = k"
proof -
  have split: "ucast (drop_bit 24 (push_bit 24 c OR (peer AND 0xFFFFFF))) = (ucast c :: u8)" for c :: u32
    by (rule bit_word_eqI) (auto simp: bit_simps low24_bit)
  have hd: "hd (u32_bytes (data_v2_word k peer)) = ucast (push_bit P_OPCODE_SHIFT (ucast P_DATA_V2) OR word_of_int k :: u32)"
    unfolding u32_bytes_def list.sel data_v2_word_def split ..
  show "packet_opcode (hd (u32_bytes (data_v2_word k peer))) = P_DATA_V2"
    unfolding hd using assms by (cases rule: key_id_cases) (simp_all add: packet_opcode_def P_OPCODE_SHIFT_def P_DATA_V2_def)
  show "uint (packet_key_id (hd (u32_bytes (data_v2_word k peer)))) = k"
    unfolding hd using assms
    by (cases rule: key_id_cases) (simp_all add: packet_key_id_def P_KEY_ID_MASK_def P_OPCODE_SHIFT_def P_DATA_V2_def)
qed

lemma data_v2_peer: "data_v2_word k peer AND 0xFFFFFF = peer AND 0xFFFFFF"
  by (rule bit_word_eqI) (auto simp: data_v2_word_def bit_simps P_OPCODE_SHIFT_def low24_bit_int)

text \<open>Without a comparison of addresses in between, the key found is the first with the id.\<close>

definition data_key :: "('k, 'h, 't) tls_multi \<Rightarrow> int \<Rightarrow> (session_slot \<times> key_slot) option" where
  "data_key mu k = List.find (\<lambda>i. ks_state (mu_key mu i) \<ge> S_GENERATED_KEYS \<and> k = ks_key_id (mu_key mu i)
     \<and> ks_authenticated (mu_key mu i) = KS_AUTH_TRUE) key_scan"

lemma find_data_key_first:
  assumes "List.find (\<lambda>i. ks_state (mu_key mu i) \<ge> S_GENERATED_KEYS \<and> k = ks_key_id (mu_key mu i)
      \<and> ks_authenticated (mu_key mu i) = KS_AUTH_TRUE) is = Some j"
    and "floated \<or> addr_port_match from' (ks_remote_addr (mu_key mu j)) = Some True"
  shows "find_data_key mu from' floated k is = Some (Some j)"
  using assms by (induction "is") (auto simp: Let_def split: if_splits)

text \<open>
  C16: Routing of a data packet. The header of \<open>tls_prepend_opcode_v2\<close> carries the peer id and the
  key id; the receiver's \<open>handle_data_channel_packet\<close> finds its key with this id, skips the header, takes
  the whole packet from the header on as the authenticated data's start, leaves the payload as it
  was, and counts it.
\<close>

theorem data_packet_v2_routed:
  assumes wf: "buf_wf b" "0 < b_len b"
    and sent: "mu_save_ks mu = Some i" "tls_prepend_opcode_v2 mu b = Some b1"
    and id: "0 \<le> ks_key_id (mu_key mu i)" "ks_key_id (mu_key mu i) \<le> 7"
    and key: "data_key mu' (ks_key_id (mu_key mu i)) = Some j" "ks_key_initialized (mu_key mu' j)"
    and addr: "floated \<or> addr_port_match from' (ks_remote_addr (mu_key mu' j)) = Some True"
  shows "u32_of_bytes (take 4 (buf_bytes b1)) AND 0xFFFFFF = mu_peer_id mu AND 0xFFFFFF
    \<and> (\<exists>b2 mu2. handle_data_channel_packet mu' from' b1 floated = Some (Some j, buf_bptr b1, b2, mu2)
        \<and> buf_bytes b2 = buf_bytes b \<and> ks_n_packets (mu_key mu2 j) = ks_n_packets (mu_key mu' j) + 1
        \<and> ks_n_bytes (mu_key mu2 j) = ks_n_bytes (mu_key mu' j) + int (length (buf_bytes b)))"
proof -
  let ?k = "ks_key_id (mu_key mu i)"
  let ?h = "u32_bytes (data_v2_word ?k (mu_peer_id mu))"
  have b1: "b1 = buf_unshift b ?h" and room: "4 \<le> b_offset b"
    using sent by (auto simp: tls_prepend_opcode_v2_def data_v2_word_def Let_def assert_ok_def buf_write_prepend_eq [OF wf(1)]
        split: if_splits bind_splits)
  have wf1: "buf_wf b1" and bytes: "buf_bytes b1 = ?h @ buf_bytes b" and len: "b_len b1 = b_len b + 4"
    using wf room by (simp_all add: b1 buf_unshift_wf buf_unshift_bytes)
  have "buf_mem b1 ! nat (b_offset b1) = hd (buf_bytes b1)" using first_byte [OF wf1] len wf(2) by simp
  then have c: "buf_mem b1 ! nat (b_offset b1) = hd ?h" using bytes by (simp add: u32_bytes_def)
  have find: "find_data_key mu' from' floated ?k key_scan = Some (Some j)"
    by (rule find_data_key_first [OF _ addr]) (use key(1) in \<open>simp only: data_key_def\<close>)
  let ?b2 = "buf_skip (buf_skip b1 1) 3"
  have adv: "assert_ok (buf_advance b1 1) = Some (buf_skip b1 1)" "assert_ok (buf_advance (buf_skip b1 1) 3) = Some ?b2"
    using wf1 wf(2) len buf_skip_wf [OF wf1, of 1] by (simp_all add: buf_advance_eq assert_ok_def)
  have b2: "buf_bytes ?b2 = buf_bytes b" "b_len ?b2 = int (length (buf_bytes b))"
    using wf1 wf len bytes buf_skip_wf [OF wf1, of 1] by (simp_all add: buf_skip_bytes length_buf_bytes_int)
  have "handle_data_channel_packet mu' from' b1 floated = Some (Some j, buf_bptr b1, ?b2,
      mu_key_update j ((mu_key mu' j)\<lparr>ks_n_packets := ks_n_packets (mu_key mu' j) + 1, ks_n_bytes := ks_n_bytes (mu_key mu' j) + b_len ?b2\<rparr>) mu')"
    unfolding handle_data_channel_packet_def Let_def c data_v2_first_byte [OF id] find
    using key(2) wf(2) len by (simp add: adv [simplified] P_DATA_V1_def P_DATA_V2_def)
  moreover have "u32_of_bytes (take 4 (buf_bytes b1)) AND 0xFFFFFF = mu_peer_id mu AND 0xFFFFFF"
    by (simp add: bytes data_v2_peer)
  ultimately show ?thesis using b2 by (auto simp: mu_key_def mu_key_update_def Let_def)
qed

section \<open>Witnesses\<close>

text \<open>A tunnel after a renegotiation: key 2 is new and its authentication deferred, key 1 retires.\<close>

definition two_keys :: "key_slot \<Rightarrow> (unit, unit, unit) key_state" where
  "two_keys k = key_state_zero\<lparr>ks_state := S_GENERATED_KEYS, ks_key_id := (if k = KS_PRIMARY then 2 else 1), ks_key_initialized := True,
     ks_authenticated := KS_AUTH_TRUE, ks_auth_deferred_expire := (if k = KS_PRIMARY then 100 else 20)\<rparr>"

definition two_key_tunnel :: "(unit, unit) tls_options \<Rightarrow> (unit, unit, unit) tls_multi" where
  "two_key_tunnel opt = (tls_multi_init opt)\<lparr>mu_peer_id := 5, mu_save_ks := Some (TM_ACTIVE, KS_PRIMARY),
     mu_session := (\<lambda>_. tls_session_zero)(TM_ACTIVE := tls_session_zero\<lparr>ses_key := two_keys\<rparr>)\<rparr>"

lemma two_key_scan: "key_scan = [(TM_ACTIVE, KS_PRIMARY), (TM_ACTIVE, KS_LAME_DUCK), (TM_LAME_DUCK, KS_LAME_DUCK)]"
  by (simp add: key_scan_def KEY_SCAN_SIZE_def upt_rec numeral_2_eq_2)

lemma two_key_tunnel_keys:
  "mu_key (two_key_tunnel opt) (TM_ACTIVE, k) = two_keys k" "mu_key (two_key_tunnel opt) (TM_LAME_DUCK, k) = key_state_zero"
  by (simp_all add: mu_key_def two_key_tunnel_def tls_session_zero_def)

theorem tls_select_encryption_key_is_search_witness:
  "\<forall>opt. tls_select_encryption_key 50 (two_key_tunnel opt) = Some (Some (TM_ACTIVE, KS_LAME_DUCK))"
proof (rule allI)
  fix opt
  have "\<forall>i \<in> set key_scan. key_usable (mu_key (two_key_tunnel opt) i) \<longrightarrow> ks_key_initialized (mu_key (two_key_tunnel opt) i)"
    by (simp add: two_key_scan two_key_tunnel_keys two_keys_def key_usable_def key_state_zero_def)
  from tls_select_encryption_key_is_search [OF this, of 50]
  show "tls_select_encryption_key 50 (two_key_tunnel opt) = Some (Some (TM_ACTIVE, KS_LAME_DUCK))"
    by (simp add: two_key_scan two_key_tunnel_keys two_keys_def key_usable_def)
qed

definition sealed_packet :: buffer where
  "sealed_packet = \<lparr>b_capacity = 8, b_offset = 4, b_len = 3, b_data = Some [0, 0, 0, 0, 1, 2, 3, 0]\<rparr>"

theorem data_packet_v2_routed_witness:
  "\<forall>opt. \<exists>b1 b2 mu2. tls_prepend_opcode_v2 (two_key_tunnel opt) sealed_packet = Some b1
     \<and> handle_data_channel_packet (two_key_tunnel opt) SA_OTHER b1 True = Some (Some (TM_ACTIVE, KS_PRIMARY), buf_bptr b1, b2, mu2)
     \<and> buf_bytes b2 = buf_bytes sealed_packet"
proof (rule allI)
  fix opt
  let ?mu = "two_key_tunnel opt"
  have wf: "buf_wf sealed_packet" "0 < b_len sealed_packet" by (simp_all add: sealed_packet_def buf_wf_def BUF_SIZE_MAX_def)
  have save: "mu_save_ks ?mu = Some (TM_ACTIVE, KS_PRIMARY)" by (simp add: two_key_tunnel_def)
  obtain b1 where b1: "tls_prepend_opcode_v2 ?mu sealed_packet = Some b1"
    using buf_write_prepend_eq [OF wf(1)] by (simp add: tls_prepend_opcode_v2_def save assert_ok_def sealed_packet_def)
  have id: "0 \<le> ks_key_id (mu_key ?mu (TM_ACTIVE, KS_PRIMARY))" "ks_key_id (mu_key ?mu (TM_ACTIVE, KS_PRIMARY)) \<le> 7"
    by (simp_all add: two_key_tunnel_keys two_keys_def)
  have key: "data_key ?mu (ks_key_id (mu_key ?mu (TM_ACTIVE, KS_PRIMARY))) = Some (TM_ACTIVE, KS_PRIMARY)"
    "ks_key_initialized (mu_key ?mu (TM_ACTIVE, KS_PRIMARY))"
    by (simp_all add: data_key_def two_key_scan two_key_tunnel_keys two_keys_def)
  have "True \<or> addr_port_match SA_OTHER (ks_remote_addr (mu_key ?mu (TM_ACTIVE, KS_PRIMARY))) = Some True" by simp
  from data_packet_v2_routed [OF wf save b1 id key this] b1
  show "\<exists>b1 b2 mu2. tls_prepend_opcode_v2 ?mu sealed_packet = Some b1
     \<and> handle_data_channel_packet ?mu SA_OTHER b1 True = Some (Some (TM_ACTIVE, KS_PRIMARY), buf_bptr b1, b2, mu2)
     \<and> buf_bytes b2 = buf_bytes sealed_packet" by blast
qed

end
