(* ===== verification/TlsTunnel.thy ===== *)
theory TlsTunnel
  imports TlsMulti TlsData
begin

text \<open>
  A tunnel over time: the states its sessions can reach from \<open>tls_multi_init_finalize\<close> by processing,
  by packets that arrive, by data packets sent, by a soft reset and by a change of the peer's address,
  and what holds in all of them. The libraries and the peer are arbitrary.
\<close>

section \<open>What a session keeps\<close>

text \<open>The members the invariant is about.\<close>

definition key_core :: "('k, 'h, 't) key_state \<Rightarrow> int \<times> int \<times> time_t \<times> reliable \<times> reliable" where
  "key_core ks = (ks_state ks, ks_key_id ks, ks_must_die ks, ks_send_reliable ks, ks_rec_reliable ks)"

definition arrays_ok :: "('k, 'h, 't) key_state \<Rightarrow> bool" where
  "arrays_ok ks \<longleftrightarrow> timeouts_pos (ks_send_reliable ks)
     \<and> length (rel_entries (ks_send_reliable ks)) \<le> 6 \<and> length (rel_entries (ks_rec_reliable ks)) \<le> 12"

definition id_ok :: "int \<Rightarrow> bool" where
  "id_ok k \<longleftrightarrow> 0 \<le> k \<and> k \<le> 7"

text \<open>
  The id of the primary key follows the id of the retiring key, the session's next id follows the
  primary key's; a retiring key has an expiration.
\<close>

definition session_inv :: "('k, 'h, 't) tls_session \<Rightarrow> bool" where
  "session_inv ses \<longleftrightarrow>
     (let p = ses_key ses KS_PRIMARY; l = ses_key ses KS_LAME_DUCK in
      (ks_state p \<noteq> S_UNDEF \<longrightarrow> id_ok (ks_key_id p) \<and> ses_key_id ses = next_key_id (ks_key_id p))
      \<and> (ks_state p \<ge> S_INITIAL \<longrightarrow> arrays_ok p)
      \<and> (ks_state l \<ge> S_INITIAL \<longrightarrow> ks_must_die l \<noteq> 0 \<and> id_ok (ks_key_id l) \<and> ks_key_id p = next_key_id (ks_key_id l)))"

lemma session_inv_cong:
  assumes "ses_key_id ses' = ses_key_id ses" and "\<And>k. key_core (ses_key ses' k) = key_core (ses_key ses k)"
  shows "session_inv ses' = session_inv ses"
  using assms(1) assms(2) [of KS_PRIMARY] assms(2) [of KS_LAME_DUCK]
  by (simp add: session_inv_def arrays_ok_def key_core_def Let_def)

lemma next_key_id_ok: "id_ok k \<Longrightarrow> id_ok (next_key_id k) \<and> next_key_id k \<noteq> k"
  unfolding id_ok_def by (elim conjE, cases rule: key_id_cases, assumption+) (simp_all add: next_key_id_def P_KEY_ID_MASK_def)

lemma session_zero_inv [simp]: "session_inv tls_session_zero"
  by (simp add: session_inv_def tls_session_zero_def key_state_zero_def state_defs)

section \<open>Fresh key states\<close>

lemma reliable_init_entries:
  assumes "reliable_init n off sz hold = Some rel"
  shows "length (rel_entries (reliable_set_timeout rel t)) \<le> nat sz
    \<and> (\<forall>e \<in> set (rel_entries (reliable_set_timeout rel t)). \<not> e_active e) \<and> rel_entries (reliable_set_timeout rel t) = rel_entries rel"
  using assms by (auto simp: reliable_init_def reliable_set_timeout_def rel_entries_def reliable_entry_zero_def
      split: if_splits option.splits prod.splits bool.splits dest!: in_set_takeD)

lemma key_state_init_effect:
  assumes "key_state_init env opt ses = Some (ks, ses')" and "0 < opt_packet_timeout opt"
  shows "ks_state ks = S_INITIAL \<and> ks_key_id ks = ses_key_id ses \<and> arrays_ok ks
    \<and> ses_key_id ses' = next_key_id (ses_key_id ses) \<and> ses_key ses' = ses_key ses \<and> ses_session_id ses' = ses_session_id ses"
proof -
  obtain s r pid where s: "reliable_init (BUF_SIZE (opt_frame opt)) (fr_headroom (opt_frame opt)) TLS_RELIABLE_N_SEND_BUFFERS
      (if ses_key_id ses \<noteq> 0 then False else opt_xmit_hold opt) = Some s"
    and r: "reliable_init (BUF_SIZE (opt_frame opt)) (fr_headroom (opt_frame opt)) TLS_RELIABLE_N_REC_BUFFERS False = Some r"
    and ks: "ks_send_reliable ks = reliable_set_timeout s (opt_packet_timeout opt)" "ks_rec_reliable ks = r"
      "ks_state ks = S_INITIAL" "ks_key_id ks = ses_key_id ses"
    and ses': "ses' = ses\<lparr>ses_initial_opcode := P_CONTROL_SOFT_RESET_V1, ses_key_id := next_key_id (ses_key_id ses)\<rparr>"
    using assms(1) by (auto simp: key_state_init_def Let_def split: bind_splits)
  have "arrays_ok ks"
    using reliable_init_entries [OF s, of "opt_packet_timeout opt"] reliable_init_entries [OF r, of 0] assms(2)
    by (auto simp: arrays_ok_def ks timeouts_pos_def TLS_RELIABLE_N_SEND_BUFFERS_def TLS_RELIABLE_N_REC_BUFFERS_def reliable_set_timeout_def)
  with ks ses' show ?thesis by simp
qed

lemma soft_reset_inv:
  assumes "key_state_soft_reset env now opt ses = Some ses'" and "session_inv ses"
    and "ks_state (ses_key ses KS_PRIMARY) \<noteq> S_UNDEF"
    and "0 < opt_packet_timeout opt" "now + opt_transition_window opt \<noteq> 0"
  shows "session_inv ses' \<and> ks_state (ses_key ses' KS_PRIMARY) = S_INITIAL \<and> ses_session_id ses' = ses_session_id ses"
proof -
  let ?lame = "(ses_key ses KS_PRIMARY)\<lparr>ks_must_die := now + opt_transition_window opt\<rparr>"
  obtain ks ses1 where i: "key_state_init env opt ses = Some (ks, ses1)"
    and ses': "ses' = ses1\<lparr>ses_key := (ses_key ses)(KS_LAME_DUCK := ?lame,
          KS_PRIMARY := ks\<lparr>ks_session_id_remote := ks_session_id_remote ?lame, ks_remote_addr := ks_remote_addr ?lame\<rparr>)\<rparr>"
    using assms(1) by (auto simp: key_state_soft_reset_def Let_def split: bind_splits)
  note e = key_state_init_effect [OF i assms(4)]
  have old: "id_ok (ks_key_id (ses_key ses KS_PRIMARY))" "ses_key_id ses = next_key_id (ks_key_id (ses_key ses KS_PRIMARY))"
    using assms(2,3) by (simp_all add: session_inv_def Let_def)
  show ?thesis using e old next_key_id_ok [OF old(1)] assms(5)
    by (simp add: ses' session_inv_def arrays_ok_def Let_def)
qed

lemma tls_session_init_inv:
  assumes "tls_session_init env now opt = Some ses" and "0 < opt_packet_timeout opt"
  shows "session_inv ses \<and> ks_state (ses_key ses KS_PRIMARY) = S_INITIAL"
proof -
  obtain ks ses0 ses1 where i: "key_state_init env opt ses0 = Some (ks, ses1)" and ses: "ses = ses1\<lparr>ses_key := (ses_key ses1)(KS_PRIMARY := ks)\<rparr>"
    and z: "ses_key_id ses0 = 0" "ses_key ses0 KS_LAME_DUCK = key_state_zero"
    using assms(1) by (auto simp: tls_session_init_def Let_def tls_session_zero_def split: bind_splits)
  note e = key_state_init_effect [OF i assms(2)]
  show ?thesis using e z by (simp add: ses session_inv_def id_ok_def key_state_zero_def state_defs Let_def)
qed

section \<open>A call of tls_process\<close>

lemma process_loop_keeps:
  fixes opt :: "('k, 'h) tls_options"
  shows "timeouts_pos (ks_send_reliable (pr_ks p)) \<Longrightarrow> tls_process_loop n env now opt p = Finished p' \<Longrightarrow>
    loop_frame (opt_server opt) p p' \<and> (ks_state (pr_ks p') = S_ERROR
      \<or> pass_frame (opt_server opt) p p' \<and> timeouts_pos (ks_send_reliable (pr_ks p')))"
proof (induction n arbitrary: p)
  case (Suc n)
  then obtain chg q where s: "tls_process_state env now opt p = Some (chg, q)" by (auto split: option.splits)
  note q = process_state_progress [OF s Suc.prems(1)]
  show ?case
  proof (cases "ks_state (pr_ks q) = S_ERROR \<or> \<not> chg")
    case True
    then have "p' = q" using Suc.prems(2) s by (auto split: if_splits)
    then show ?thesis using q by auto
  next
    case False
    then have "tls_process_loop n env now opt q = Finished p'" using Suc.prems(2) s by simp
    from Suc.IH [OF _ this] q False show ?thesis by (auto intro: pass_loop_trans pass_frame_trans)
  qed
qed simp

lemma steps_not_undef: "(tls_state_step server)\<^sup>*\<^sup>* a b \<Longrightarrow> a \<ge> S_INITIAL \<Longrightarrow> b \<ge> S_INITIAL"
  by (induction rule: rtranclp_induct) (auto elim!: tls_state_step.cases simp: state_defs)

lemma loop_inv:
  assumes "tls_process_loop n env now opt p = Finished p'" and "session_inv (pr_session p)" and "ks_state (pr_ks p) \<ge> S_INITIAL"
  shows "session_inv (pr_session p') \<and> ks_state (pr_ks p') \<noteq> S_UNDEF \<and> (ks_state (pr_ks p') = S_ERROR \<or> ks_state (pr_ks p') \<ge> S_INITIAL)"
proof -
  have a: "arrays_ok (pr_ks p)" using assms(2,3) by (simp add: session_inv_def pr_ks_def Let_def)
  then have "timeouts_pos (ks_send_reliable (pr_ks p))" by (simp add: arrays_ok_def)
  note k = process_loop_keeps [OF this assms(1)]
  have st: "ks_state (pr_ks p') = S_ERROR \<or> ks_state (pr_ks p') \<ge> S_INITIAL"
    using k steps_not_undef [OF _ assms(3)] by (auto simp: loop_frame_def)
  have "arrays_ok (pr_ks p')" if "ks_state (pr_ks p') \<noteq> S_ERROR"
    using k that a by (simp add: arrays_ok_def pass_frame_def)
  with k st assms(2,3) show ?thesis
    by (auto simp: session_inv_def loop_frame_def pr_ks_def Let_def state_defs)
qed

text \<open>The last steps of the function touch the arrays and the acknowledgements only.\<close>

lemma session_inv_put:
  assumes "session_inv (pr_session p)" and "key_core ks = key_core (pr_ks p)"
  shows "session_inv (pr_session (pr_put ks p))"
proof -
  have "session_inv (pr_session (pr_put ks p)) = session_inv (pr_session p)"
    by (rule session_inv_cong) (use assms(2) in \<open>auto simp: pr_put_def pr_ks_def ses_put_key_def\<close>)
  with assms(1) show ?thesis by simp
qed

lemma session_inv_send:
  assumes "session_inv (pr_session p)" and "same_shape (ks_send_reliable (pr_ks p)) rel"
  shows "session_inv (pr_session (pr_put ((pr_ks p)\<lparr>ks_send_reliable := rel\<rparr>) p))"
  using assms by (auto simp: session_inv_def arrays_ok_def same_shape_def pr_put_def pr_ks_def ses_put_key_def Let_def)

lemma mark_active_outgoing_shape:
  assumes "reliable_get_buf_output_sequenced rel = Some (Some i, rel1)" and "reliable_mark_active_outgoing rel1 i op = Some rel2"
  shows "same_shape rel rel2"
proof -
  have "rel_update rel1 i ((rel_array rel1 ! i)\<lparr>e_buf := e_buf (rel_array rel1 ! i)\<rparr>) = rel1" by (simp add: rel_update_def)
  then show ?thesis using slot_used_shape [OF assms(1), of "e_buf (rel_array rel1 ! i)"] assms(2) by simp
qed

lemma write_control_inv:
  assumes "ses_write_control_auth env now opt ses b opcode max_ack prepend = Some (b', ses')" and "session_inv ses"
  shows "session_inv ses' \<and> ks_state (ses_key ses' KS_PRIMARY) = ks_state (ses_key ses KS_PRIMARY)"
proof -
  note e = ses_write_control_auth_effect [OF assms(1)]
  have "key_core (ses_key ses' k) = key_core (ses_key ses k)" for k
    using e by (cases k) (auto simp: key_core_def)
  then have "session_inv ses' = session_inv ses" using e by (intro session_inv_cong) simp_all
  with e assms(2) show ?thesis by auto
qed

lemma acks_inv:
  assumes "tls_process_acks env now opt p = Some (ret, p')" and "session_inv (pr_session p)"
  shows "session_inv (pr_session p') \<and> ks_state (pr_ks p') = ks_state (pr_ks p)"
proof -
  let ?ks = "pr_ks p"
  show ?thesis
  proof (cases "b_len (pr_to_link p) = 0 \<and> \<not> reliable_ack_empty (ks_rec_ack ?ks)")
    case False
    then have "tls_process_acks env now opt p = Some (False, p)" unfolding tls_process_acks_def Let_def by (rule if_not_P)
    with assms show ?thesis by simp
  next
    case True
    note d = assms(1) [unfolded tls_process_acks_def Let_def if_P [OF True]]
    show ?thesis
    proof (cases "control_packet_needs_wkc ?ks")
      case True
      with d obtain slot rel where g: "reliable_get_buf_output_sequenced (ks_send_reliable ?ks) = Some (slot, rel)"
        by (auto split: option.splits)
      show ?thesis
      proof (cases slot)
        case None
        with d True g have "p' = pr_put (?ks\<lparr>ks_send_reliable := rel\<rparr>) p" by simp
        then show ?thesis using session_inv_send [OF assms(2)] get_buf_output_shape [OF g] by simp
      next
        case (Some i)
        with d True g obtain rel' where m: "reliable_mark_active_outgoing rel i (uint P_CONTROL_WKC_V1) = Some rel'"
          and "p' = pr_put (?ks\<lparr>ks_send_reliable := rel'\<rparr>) p" by auto
        then show ?thesis using session_inv_send [OF assms(2)] mark_active_outgoing_shape [OF g [unfolded Some] m] by simp
      qed
    next
      case False
      with d obtain buf b ses where w: "ses_write_control_auth env now opt (pr_session p) buf P_ACK_V1 RELIABLE_ACK_SIZE False = Some (b, ses)"
        and "p' = p\<lparr>pr_session := ses, pr_to_link := b, pr_to_link_addr := Some (ks_remote_addr ?ks)\<rparr>"
        by (auto split: bind_splits)
      then show ?thesis using write_control_inv [OF w assms(2)] by (simp add: pr_ks_def)
    qed
  qed
qed

lemma wakeup_session: "tls_process_wakeup now opt p = (r, p') \<Longrightarrow> pr_session p' = pr_session p"
  by (auto simp: tls_process_wakeup_def Let_def split: if_splits)

lemma tls_process_inv:
  assumes r: "tls_process env now opt p = Some (ret, p')" and inv: "session_inv (pr_session p)" and st: "ks_state (pr_ks p) \<ge> S_INITIAL"
    and opt: "0 < opt_packet_timeout opt" "now + opt_transition_window opt \<noteq> 0"
  shows "session_inv (pr_session p') \<and> (ks_state (pr_ks p') = S_ERROR \<or> ks_state (pr_ks p') \<ge> S_INITIAL)"
proof -
  obtain ses1 dead wakeup where s1: "(if soft_reset_due now opt (pr_ks p) then key_state_soft_reset env now opt (pr_session p) else Some (pr_session p)) = Some ses1"
    and rest: "(case tls_process_loop TLS_PROCESS_PASSES env now opt (p\<lparr>pr_session := (if dead
            then ses_put_key KS_LAME_DUCK (key_state_free (ses_key ses1 KS_LAME_DUCK) True) ses1 else ses1), pr_wakeup := wakeup\<rparr>) of
           Finished p1 \<Rightarrow>
             if ks_state (pr_ks p1) = S_ERROR then Some (False, p1)
             else do { (returns, p2) \<leftarrow> tls_process_acks env now opt p1; Some (if returns then (False, p2) else tls_process_wakeup now opt p2) }
         | _ \<Rightarrow> None) = Some (ret, p')"
    using r by (auto simp: tls_process_def Let_def split: if_splits bind_splits)
  have inv1: "session_inv ses1" "ks_state (ses_key ses1 KS_PRIMARY) \<ge> S_INITIAL"
    using s1 soft_reset_inv [OF _ inv _ opt, of env ses1] inv st by (auto simp: pr_ks_def state_defs split: if_splits)
  let ?ses2 = "if dead then ses_put_key KS_LAME_DUCK (key_state_free (ses_key ses1 KS_LAME_DUCK) True) ses1 else ses1"
  have inv2: "session_inv ?ses2" "ks_state (ses_key ?ses2 KS_PRIMARY) \<ge> S_INITIAL"
    using inv1 by (auto simp: session_inv_def ses_put_key_def key_state_free_def key_state_zero_def state_defs Let_def)
  let ?p0 = "p\<lparr>pr_session := ?ses2, pr_wakeup := wakeup\<rparr>"
  obtain p1 where l: "tls_process_loop TLS_PROCESS_PASSES env now opt ?p0 = Finished p1" using rest by (auto split: run.splits)
  have l1: "session_inv (pr_session p1)" "ks_state (pr_ks p1) = S_ERROR \<or> ks_state (pr_ks p1) \<ge> S_INITIAL"
    using loop_inv [OF l] inv2 by (simp_all add: pr_ks_def)
  show ?thesis
  proof (cases "ks_state (pr_ks p1) = S_ERROR")
    case True
    then have "p' = p1" using rest unfolding l by simp
    then show ?thesis using l1 by simp
  next
    case False
    then obtain returns p2 where a: "tls_process_acks env now opt p1 = Some (returns, p2)"
      and p': "(ret, p') = (if returns then (False, p2) else tls_process_wakeup now opt p2)"
      using rest unfolding l by (auto split: bind_splits)
    have "pr_session p' = pr_session p2" using p' wakeup_session [of now opt p2 ret p'] by (auto split: if_splits)
    then show ?thesis using acks_inv [OF a l1(1)] l1(2) by (simp add: pr_ks_def)
  qed
qed

section \<open>All sessions\<close>

definition multi_inv :: "('k, 'h, 't) tls_multi \<Rightarrow> bool" where
  "multi_inv mu \<longleftrightarrow> (\<forall>i. session_inv (mu_session mu i))
     \<and> ks_state (mu_key mu (TM_ACTIVE, KS_PRIMARY)) \<noteq> S_UNDEF \<and> ks_state (mu_key mu (TM_INITIAL, KS_PRIMARY)) \<noteq> S_UNDEF
     \<and> 0 < opt_packet_timeout (mu_opt mu) \<and> 0 \<le> opt_transition_window (mu_opt mu)"

lemma multi_inv_cong:
  assumes "mu_session mu' = mu_session mu" and "opt_packet_timeout (mu_opt mu') = opt_packet_timeout (mu_opt mu)"
    and "opt_transition_window (mu_opt mu') = opt_transition_window (mu_opt mu)"
  shows "multi_inv mu' = multi_inv mu"
  using assms by (simp add: multi_inv_def mu_key_def)

lemma multi_inv_session:
  assumes "multi_inv mu" and "session_inv ses" and "i = TM_LAME_DUCK \<or> ks_state (ses_key ses KS_PRIMARY) \<noteq> S_UNDEF"
  shows "multi_inv (mu\<lparr>mu_session := (mu_session mu)(i := ses)\<rparr>)"
  using assms by (auto simp: multi_inv_def mu_key_def)

lemma multi_inv_key_update:
  assumes "multi_inv mu" and "key_core ks = key_core (mu_key mu i)"
  shows "multi_inv (mu_key_update i ks mu)"
proof -
  let ?ses = "mu_session mu (fst i)"
  have c: "key_core ((ses_key (?ses\<lparr>ses_key := (ses_key ?ses)(snd i := ks)\<rparr>)) k) = key_core (ses_key ?ses k)" for k
    using assms(2) by (simp add: mu_key_def)
  have "session_inv (?ses\<lparr>ses_key := (ses_key ?ses)(snd i := ks)\<rparr>)"
    using session_inv_cong [of "?ses\<lparr>ses_key := (ses_key ?ses)(snd i := ks)\<rparr>" ?ses] c assms(1) by (simp add: multi_inv_def)
  moreover have "fst i = TM_LAME_DUCK \<or> ks_state (ses_key (?ses\<lparr>ses_key := (ses_key ?ses)(snd i := ks)\<rparr>) KS_PRIMARY) \<noteq> S_UNDEF"
    using assms(1) c [of KS_PRIMARY] by (cases "fst i") (auto simp: multi_inv_def mu_key_def key_core_def)
  ultimately show ?thesis unfolding mu_key_update_def Let_def by (rule multi_inv_session [OF assms(1)])
qed

lemma move_session_inv:
  assumes "move_session env now mu dest src True = Some mu'" and "multi_inv mu"
    and "dest = TM_LAME_DUCK \<or> ks_state (mu_key mu (src, KS_PRIMARY)) \<noteq> S_UNDEF"
  shows "multi_inv mu' \<and> mu_opt mu' = mu_opt mu"
proof -
  obtain fresh where f: "tls_session_init env now (mu_opt mu) = Some fresh"
    and mu': "mu' = mu\<lparr>mu_session := (mu_session mu)(dest := mu_session mu src, src := fresh)\<rparr>"
    using assms(1) by (auto simp: move_session_def split: if_splits bind_splits)
  have "0 < opt_packet_timeout (mu_opt mu)" using assms(2) by (simp add: multi_inv_def)
  note i = tls_session_init_inv [OF f this]
  show ?thesis using i assms(2,3) by (auto simp: mu' multi_inv_def mu_key_def state_defs)
qed

lemma reset_session_inv:
  assumes "reset_session env now mu i = Some mu'" and "multi_inv mu"
  shows "multi_inv mu' \<and> ks_state (mu_key mu' (i, KS_PRIMARY)) = S_INITIAL"
proof -
  obtain fresh where f: "tls_session_init env now (mu_opt mu) = Some fresh" and mu': "mu' = mu\<lparr>mu_session := (mu_session mu)(i := fresh)\<rparr>"
    using assms(1) by (auto simp: reset_session_def)
  have "0 < opt_packet_timeout (mu_opt mu)" using assms(2) by (simp add: multi_inv_def)
  note i = tls_session_init_inv [OF f this]
  show ?thesis unfolding mu' using i by (intro conjI multi_inv_session assms(2)) (simp_all add: mu_key_def state_defs)
qed

lemma mu_opt_key_update [simp]: "mu_opt (mu_key_update i ks mu) = mu_opt mu"
  by (simp add: mu_key_update_def Let_def)

lemma set_initial_remote_inv:
  assumes "multi_inv mu"
  shows "multi_inv (set_initial_remote lsa i mu) \<and> mu_opt (set_initial_remote lsa i mu) = mu_opt mu"
proof -
  have "multi_inv (mu_key_update (i, KS_PRIMARY) ((mu_key mu (i, KS_PRIMARY))\<lparr>ks_remote_addr := lsa\<rparr>) mu)"
    by (rule multi_inv_key_update [OF assms]) (simp add: key_core_def)
  with assms show ?thesis by (auto simp: set_initial_remote_def Let_def)
qed

lemma session_failed_inv:
  assumes "session_failed env now i m = Some m'" and "multi_inv (mp_multi m)"
  shows "multi_inv (mp_multi m') \<and> ks_state (mu_key (mp_multi m') (i, KS_PRIMARY)) = S_INITIAL"
proof -
  let ?mu = "(mp_multi m)\<lparr>mu_n_soft_errors := mu_n_soft_errors (mp_multi m) + 1\<rparr>"
  have inv: "multi_inv ?mu" using assms(2) by (subst multi_inv_cong [of _ "mp_multi m"]) simp_all
  then have t: "0 < opt_packet_timeout (mu_opt ?mu)" by (simp add: multi_inv_def)
  obtain mu' where mu': "mp_multi m' = mu'" and
    r: "(if i = TM_ACTIVE \<and> ks_state (mu_key ?mu (i, KS_LAME_DUCK)) \<ge> S_GENERATED_KEYS \<and> \<not> opt_single_session (mu_opt ?mu)
            then move_session env now ?mu TM_LAME_DUCK TM_ACTIVE True else reset_session env now ?mu i) = Some mu'"
    using assms(1) unfolding session_failed_def Let_def by auto
  show ?thesis
  proof (cases "i = TM_ACTIVE \<and> ks_state (mu_key ?mu (i, KS_LAME_DUCK)) \<ge> S_GENERATED_KEYS \<and> \<not> opt_single_session (mu_opt ?mu)")
    case True
    note m = r [unfolded if_P [OF True]]
    then obtain fresh where f: "tls_session_init env now (mu_opt ?mu) = Some fresh"
      and "mu' = ?mu\<lparr>mu_session := (mu_session ?mu)(TM_LAME_DUCK := mu_session ?mu TM_ACTIVE, TM_ACTIVE := fresh)\<rparr>"
      by (auto simp: move_session_def split: bind_splits)
    with True tls_session_init_inv [OF f t] have "ks_state (mu_key mu' (i, KS_PRIMARY)) = S_INITIAL" by (simp add: mu_key_def)
    with move_session_inv [OF m inv] mu' show ?thesis by simp
  next
    case False
    from reset_session_inv [OF r [unfolded if_not_P [OF False]] inv] mu' show ?thesis by simp
  qed
qed

lemma process_session_inv:
  assumes r: "tls_multi_process_session env now lsa i m = Some m'" and inv: "multi_inv (mp_multi m)" and now: "0 < now"
  shows "multi_inv (mp_multi m')
    \<and> (ks_state (mu_key (mp_multi m) (i, KS_PRIMARY)) \<ge> S_INITIAL \<longrightarrow> ks_state (mu_key (mp_multi m') (i, KS_PRIMARY)) \<ge> S_INITIAL)"
proof -
  let ?mu = "set_initial_remote lsa i (mp_multi m)"
  have mu: "multi_inv ?mu" using set_initial_remote_inv [OF inv] by simp
  have same: "ks_state (mu_key ?mu (i, KS_PRIMARY)) = ks_state (mu_key (mp_multi m) (i, KS_PRIMARY))"
    by (simp add: set_initial_remote_def mu_key_update_def mu_key_def Let_def)
  show ?thesis
  proof (cases "ks_state (mu_key ?mu (i, KS_PRIMARY)) \<ge> S_INITIAL \<and> addr_defined (ks_remote_addr (mu_key ?mu (i, KS_PRIMARY)))")
    case False
    then have "m' = m\<lparr>mp_multi := ?mu\<rparr>" using r unfolding tls_multi_process_session_def Let_def if_not_P [OF False] by simp
    then show ?thesis using mu same by simp
  next
    case True
    note d = r [unfolded tls_multi_process_session_def Let_def if_P [OF True]]
    let ?p0 = "\<lparr>pr_session = mu_session ?mu i, pr_multi_state = mu_multi_state ?mu, pr_to_link = mp_to_link m, pr_to_link_addr = None,
           pr_wakeup = mp_wakeup m, pr_change = False\<rparr>"
    obtain act p where t: "tls_process env now (mu_opt ?mu) ?p0 = Some (act, p)" using d by (auto split: bind_splits)
    have opt: "0 < opt_packet_timeout (mu_opt ?mu)" "now + opt_transition_window (mu_opt ?mu) \<noteq> 0"
      using mu now by (simp_all add: multi_inv_def)
    have p: "session_inv (pr_session p)" "ks_state (pr_ks p) = S_ERROR \<or> ks_state (pr_ks p) \<ge> S_INITIAL"
      using tls_process_inv [OF t _ _ opt] mu True by (simp_all add: multi_inv_def pr_ks_def mu_key_def)
    let ?mu1 = "?mu\<lparr>mu_session := (mu_session ?mu)(i := pr_session p), mu_multi_state := pr_multi_state p\<rparr>"
    let ?mu2 = "case pr_to_link_addr p of None \<Rightarrow> ?mu1 | Some a \<Rightarrow> ?mu1\<lparr>mu_to_link_addr := a\<rparr>"
    have "multi_inv (?mu\<lparr>mu_session := (mu_session ?mu)(i := pr_session p)\<rparr>)"
      by (rule multi_inv_session [OF mu p(1)]) (use p(2) in \<open>auto simp: pr_ks_def state_defs\<close>)
    then have mu2: "multi_inv ?mu2"
      by (subst multi_inv_cong [of _ "?mu\<lparr>mu_session := (mu_session ?mu)(i := pr_session p)\<rparr>"]) (simp_all split: option.split)
    have st2: "ks_state (mu_key ?mu2 (i, KS_PRIMARY)) = ks_state (pr_ks p)" by (simp add: mu_key_def pr_ks_def split: option.split)
    let ?m1 = "m\<lparr>mp_multi := ?mu2, mp_to_link := pr_to_link p, mp_wakeup := pr_wakeup p,
        mp_to_link_addr := (case pr_to_link_addr p of None \<Rightarrow> mp_to_link_addr m | Some a \<Rightarrow> Some a),
        mp_active := (if act then TLSMP_ACTIVE else mp_active m)\<rparr>"
    have e: "(if ks_state (pr_ks p) = S_ERROR then session_failed env now i ?m1 else Some ?m1) = Some m'"
      using d t by simp
    show ?thesis
    proof (cases "ks_state (pr_ks p) = S_ERROR")
      case True
      with e have "session_failed env now i ?m1 = Some m'" by simp
      from session_failed_inv [OF this] mu2 show ?thesis by simp
    next
      case False
      with e have "m' = ?m1" by simp
      then show ?thesis using mu2 st2 p(2) False by simp
    qed
  qed
qed

lemma update_auth_core [simp]: "key_core (update_key_auth_status now res ks) = key_core ks"
  by (simp add: update_key_auth_status_def key_core_def split: prod.split)

lemma auth_status_inv:
  "auth_status_loop now acf is mu s = (mu', s') \<Longrightarrow> multi_inv mu \<Longrightarrow> multi_inv mu'"
proof (induction now acf "is" mu s rule: auth_status_loop.induct)
  case (2 now acf i "is" mu s)
  show ?case
  proof (cases "TLS_AUTHENTICATED (mu_opt mu) (mu_key mu i)")
    case True
    have "multi_inv (mu_key_update i (update_key_auth_status now (acf i) (mu_key mu i)) mu)"
      by (rule multi_inv_key_update [OF "2.prems"(2)]) simp
    show ?thesis
      by (rule "2.IH"(1) [OF True refl refl]) (fact "2.prems"(1) [unfolded auth_status_loop.simps if_P [OF True] Let_def], fact)
  qed (use 2 in simp)
qed simp

lemma authentication_status_inv:
  "tls_authentication_status now acf mu = (tas, mu') \<Longrightarrow> multi_inv mu \<Longrightarrow> multi_inv mu'"
  by (auto simp: tls_authentication_status_def split: prod.splits dest: auth_status_inv)

lemma multi_inv_key_step:
  assumes "multi_inv mu" and "ks_state ks \<noteq> S_UNDEF" "ks_key_id ks = ks_key_id (mu_key mu (i, KS_PRIMARY))"
    and "ks_state ks = S_ERROR \<or> arrays_ok ks" and "ks_state (mu_key mu (i, KS_PRIMARY)) \<noteq> S_UNDEF"
  shows "multi_inv (mu_key_update (i, KS_PRIMARY) ks mu)"
proof -
  let ?ses = "(mu_session mu i)\<lparr>ses_key := (ses_key (mu_session mu i))(KS_PRIMARY := ks)\<rparr>"
  have "session_inv ?ses" using assms
    by (auto simp: multi_inv_def session_inv_def mu_key_def Let_def state_defs)
  then have "multi_inv (mu\<lparr>mu_session := (mu_session mu)(i := ?ses)\<rparr>)"
    by (rule multi_inv_session [OF assms(1)]) (use assms(2) in simp)
  then show ?thesis by (simp add: mu_key_update_def Let_def)
qed

lemma generate_keys_effect:
  assumes "tls_session_generate_data_channel_keys env opt ses = Some (ok, opt', ks')"
  shows "ks_key_id ks' = ks_key_id (ses_key ses KS_PRIMARY) \<and> ks_send_reliable ks' = ks_send_reliable (ses_key ses KS_PRIMARY)
    \<and> ks_rec_reliable ks' = ks_rec_reliable (ses_key ses KS_PRIMARY)
    \<and> ks_state ks' = (if ok then S_GENERATED_KEYS else ks_state (ses_key ses KS_PRIMARY))
    \<and> opt_packet_timeout opt' = opt_packet_timeout opt \<and> opt_transition_window opt' = opt_transition_window opt
    \<and> ks_session_id_remote ks' = ks_session_id_remote (ses_key ses KS_PRIMARY) \<and> ks_remote_addr ks' = ks_remote_addr (ses_key ses KS_PRIMARY)
    \<and> (\<not> ok \<longrightarrow> opt' = opt)"
proof (cases "ks_authenticated (ses_key ses KS_PRIMARY) = KS_AUTH_FALSE")
  case True
  with assms show ?thesis by (auto simp: tls_session_generate_data_channel_keys_def)
next
  case False
  note d = assms [unfolded tls_session_generate_data_channel_keys_def Let_def if_not_P [OF False]]
  show ?thesis using d by (auto split: bind_splits option.splits prod.splits)
qed

lemma generate_active_inv:
  assumes "generate_active_keys env mu = Some mu'" and "multi_inv mu"
  shows "multi_inv mu'"
proof (cases "mu_multi_state mu = CAS_CONNECT_DONE \<and> ks_state (get_primary_key mu) = S_ACTIVE \<and> ks_authenticated (get_primary_key mu) = KS_AUTH_TRUE")
  case False
  with assms show ?thesis unfolding generate_active_keys_def Let_def if_not_P [OF False] by simp
next
  case True
  obtain ok opt ks where g: "tls_session_generate_data_channel_keys env (mu_opt mu) (mu_session mu TM_ACTIVE) = Some (ok, opt, ks)"
    and mu': "mu' = mu_key_update (TM_ACTIVE, KS_PRIMARY)
        (if ok then ks else ks\<lparr>ks_authenticated := KS_AUTH_FALSE, ks_state := S_ERROR\<rparr>) (mu\<lparr>mu_opt := opt\<rparr>)"
    using assms(1) unfolding generate_active_keys_def Let_def if_P [OF True] by auto
  note e = generate_keys_effect [OF g]
  have inv: "multi_inv (mu\<lparr>mu_opt := opt\<rparr>)" using assms(2) e by (subst multi_inv_cong [of _ mu]) simp_all
  have "arrays_ok (get_primary_key mu)" using assms(2) True
    by (auto simp: multi_inv_def session_inv_def get_primary_key_def mu_key_def Let_def state_defs)
  with e have a: "arrays_ok ks" by (simp add: arrays_ok_def get_primary_key_def mu_key_def)
  show ?thesis unfolding mu'
    by (rule multi_inv_key_step [OF inv]) (use e a True in \<open>auto simp: mu_key_def get_primary_key_def arrays_ok_def state_defs\<close>)
qed

lemma session_free_inv: "session_inv (tls_session_free ses True)"
  by (simp add: tls_session_free_def)

text \<open>The second half of \<open>tls_multi_process\<close>, behind the loop over the sessions.\<close>

lemma multi_fields_inv [simp]:
  "multi_inv (mu\<lparr>mu_multi_state := st\<rparr>) = multi_inv mu" "multi_inv (mu\<lparr>mu_n_hard_errors := n\<rparr>) = multi_inv mu"
  "multi_inv (mu\<lparr>mu_n_soft_errors := n\<rparr>) = multi_inv mu" "multi_inv (mu\<lparr>mu_save_ks := sk\<rparr>) = multi_inv mu"
  "multi_inv (mu\<lparr>mu_n_sessions := n\<rparr>) = multi_inv mu"
  by (rule multi_inv_cong; simp)+

lemma promote_inv:
  assumes "(if TLS_AUTHENTICATED (mu_opt mu4) (mu_key mu4 (TM_INITIAL, KS_PRIMARY))
          then do {
            mu' \<leftarrow> move_session env now mu4 TM_ACTIVE TM_INITIAL True;
            let (tas', mu'') = tls_authentication_status now acf mu';
            Some (if mu_multi_state mu'' = CAS_CONNECT_DONE
                  then (tas', TLSMP_RECONNECT, mu''\<lparr>mu_multi_state := CAS_RECONNECT_PENDING\<rparr>)
                  else (tas', act, mu''))
          }
          else Some (tas1, act, mu4)) = Some (tas2, act2, mu5)" and "multi_inv mu4"
  shows "multi_inv mu5"
proof (cases "TLS_AUTHENTICATED (mu_opt mu4) (mu_key mu4 (TM_INITIAL, KS_PRIMARY))")
  case False
  with assms show ?thesis by simp
next
  case True
  obtain mu' where m: "move_session env now mu4 TM_ACTIVE TM_INITIAL True = Some mu'" using assms(1) True by (auto split: bind_splits)
  obtain tas' mu'' where a: "tls_authentication_status now acf mu' = (tas', mu'')" by fastforce
  have "multi_inv mu''"
    using authentication_status_inv [OF a] move_session_inv [OF m assms(2)] assms(2) by (simp add: multi_inv_def)
  then show ?thesis using assms(1) True by (auto simp: m a split: if_splits)
qed

lemma tls_multi_process_inv:
  assumes "tls_multi_process env now acf lsa to_link wakeup mu = Some (r, m)" and "multi_inv mu" and "0 < now"
  shows "multi_inv (mp_multi m)"
proof -
  let ?m0 = "\<lparr>mp_multi = mu, mp_to_link = to_link, mp_to_link_addr = None, mp_wakeup = wakeup, mp_active = TLSMP_INACTIVE, mp_error = False\<rparr>"
  obtain m1 m2 m3 where m: "tls_multi_process_session env now lsa TM_ACTIVE ?m0 = Some m1"
      "tls_multi_process_session env now lsa TM_INITIAL m1 = Some m2" "tls_multi_process_session env now lsa TM_LAME_DUCK m2 = Some m3"
    using assms(1) unfolding tls_multi_process_def by (auto split: bind_splits)
  have inv3: "multi_inv (mp_multi m3)"
    using process_session_inv [OF m(1) _ assms(3)] process_session_inv [OF m(2) _ assms(3)] process_session_inv [OF m(3) _ assms(3)] assms(2)
    by simp
  obtain tas1 mu1 where a: "tls_authentication_status now acf (mp_multi m3) = (tas1, mu1)" by fastforce
  obtain mu2 where g: "generate_active_keys env mu1 = Some mu2"
    using assms(1) unfolding tls_multi_process_def m Let_def bind.bind_lunit a prod.case by (auto split: bind_splits)
  define mu3 where "mu3 = (if mu_multi_state mu2 = CAS_WAITING_AUTH \<and> tas1 = TLS_AUTHENTICATION_SUCCEEDED
      then mu2\<lparr>mu_multi_state := CAS_PENDING\<rparr> else mu2)"
  have inv: "multi_inv mu3" using generate_active_inv [OF g authentication_status_inv [OF a inv3]] by (simp add: mu3_def)
  obtain dead wakeup1 where l: "lame_duck_must_die now (mu_session mu3 TM_LAME_DUCK) (mp_wakeup m3) = Some (dead, wakeup1)"
    using assms(1) unfolding tls_multi_process_def m Let_def bind.bind_lunit a prod.case g mu3_def [symmetric] by (auto split: bind_splits)
  define mu4 where "mu4 = (if dead then mu3\<lparr>mu_session := (mu_session mu3)(TM_LAME_DUCK := tls_session_free (mu_session mu3 TM_LAME_DUCK) True)\<rparr>
      else mu3)"
  have inv4: "multi_inv mu4" using multi_inv_session [OF inv session_free_inv] inv by (simp add: mu4_def)
  obtain tas2 act2 mu5 where p: "(if TLS_AUTHENTICATED (mu_opt mu4) (mu_key mu4 (TM_INITIAL, KS_PRIMARY))
          then do {
            mu' \<leftarrow> move_session env now mu4 TM_ACTIVE TM_INITIAL True;
            let (tas', mu'') = tls_authentication_status now acf mu';
            Some (if mu_multi_state mu'' = CAS_CONNECT_DONE
                  then (tas', TLSMP_RECONNECT, mu''\<lparr>mu_multi_state := CAS_RECONNECT_PENDING\<rparr>)
                  else (tas', mp_active m3, mu''))
          }
          else Some (tas1, mp_active m3, mu4)) = Some (tas2, act2, mu5)"
    and mm: "mp_multi m = (if mp_error m3 \<and> \<not> (\<exists>i \<in> set key_scan. ks_state (mu_key mu5 i) \<ge> S_ACTIVE)
                  then mu5\<lparr>mu_n_hard_errors := mu_n_hard_errors mu5 + 1\<rparr> else mu5)"
    using assms(1) unfolding tls_multi_process_def m Let_def bind.bind_lunit a prod.case g mu3_def [symmetric] l mu4_def [symmetric]
    by (auto split: bind_splits)
  show ?thesis using promote_inv [OF p inv4] by (simp add: mm)
qed

section \<open>A packet that arrives\<close>

lemma rel_map_shape:
  assumes "\<And>e. timeouts_pos rel \<Longrightarrow> e \<in> set (rel_entries rel) \<Longrightarrow> e_active (f e) \<Longrightarrow> 0 < e_timeout (f e)"
  shows "same_shape rel (rel_map f rel)"
  using assms by (auto simp: same_shape_def timeouts_pos_def rel_entries_map)

lemma schedule_now_shape: "same_shape rel (reliable_schedule_now now rel)"
proof -
  have "same_shape (rel\<lparr>rel_hold := False\<rparr>) (reliable_schedule_now now rel)"
    unfolding reliable_schedule_now_def Let_def
    by (rule rel_map_shape) (auto simp: timeouts_pos_def split: if_splits)
  then show ?thesis by (simp add: same_shape_def timeouts_pos_def)
qed

lemma send_purge_shape: "same_shape rel (reliable_send_purge rel ack)"
proof -
  have "same_shape rel (foldl (\<lambda>r pid. rel_map (reliable_purge_entry pid) r) rel ps)" for ps
  proof (induction ps rule: rev_induct)
    case (snoc p ps)
    have "same_shape r (rel_map (reliable_purge_entry p) r)" for r
      by (rule rel_map_shape) (auto simp: reliable_purge_entry_def timeouts_pos_def split: if_splits)
    with snoc show ?case by (auto intro: same_shape_trans)
  qed simp
  then show ?thesis by (simp add: reliable_send_purge_def)
qed

lemma control_packet_receive_length:
  assumes "control_packet_receive op b rel ack = Some (ok, rel', ack')"
  shows "length (rel_entries rel') = length (rel_entries rel)"
  using assms
  by (auto simp: control_packet_receive_def reliable_get_buf_def reliable_mark_active_incoming_def Let_def split: if_splits option.splits prod.splits bool.splits)

lemma read_control_inv:
  assumes "mu_read_control_auth env now mu i key_id buf = Some (ok, buf', mu')" and "multi_inv mu"
  shows "multi_inv mu' \<and> mu_opt mu' = mu_opt mu \<and> ses_key (mu_session mu' i) = ses_key (mu_session mu i)"
proof -
  obtain ctx where mu': "mu' = mu\<lparr>mu_session := (mu_session mu)(i := tls_session_put_tls_wrap (mu_session mu i) key_id ctx)\<rparr>"
    using assms(1) by (auto simp: mu_read_control_auth_def Let_def)
  have "session_inv (tls_session_put_tls_wrap (mu_session mu i) key_id ctx)"
    using assms(2) session_inv_cong [of "tls_session_put_tls_wrap (mu_session mu i) key_id ctx" "mu_session mu i"] by (simp add: multi_inv_def)
  then have "multi_inv mu'" unfolding mu'
    by (rule multi_inv_session [OF assms(2)]) (use assms(2) in \<open>cases i; simp add: multi_inv_def mu_key_def\<close>)
  then show ?thesis by (simp add: mu')
qed

lemma route_inv:
  assumes r: "route_control_packet env now mu from' buf op key_id sid = Some x" and inv: "multi_inv mu" and now: "0 < now"
  shows "(case x of Drop mu' \<Rightarrow> multi_inv mu' | Routed i burst new_link b mu' \<Rightarrow> multi_inv mu')"
proof (cases "find_session mu sid")
  case None
  show ?thesis
  proof (cases "\<not> is_hard_reset_method2 op \<or> (opt_single_session (mu_opt mu) \<and> mu_n_sessions mu \<noteq> 0)")
    case True
    then have "x = Drop mu" using r None by (auto simp: route_control_packet_def split: if_splits)
    then show ?thesis using inv by simp
  next
    case False
    then obtain ok b mu1 where a: "mu_read_control_auth env now mu TM_INITIAL key_id buf = Some (ok, b, mu1)"
      and x: "x = (if \<not> ok then Drop mu1 else Routed TM_INITIAL True True b
          (mu1\<lparr>mu_session := (mu_session mu1)(TM_INITIAL := (mu_session mu1 TM_INITIAL)\<lparr>ses_untrusted_addr := from'\<rparr>)\<rparr>))"
      using r None by (auto simp: route_control_packet_def split: bind_splits)
    have inv1: "multi_inv mu1" using read_control_inv [OF a inv] by simp
    have "session_inv ((mu_session mu1 TM_INITIAL)\<lparr>ses_untrusted_addr := from'\<rparr>)"
      using inv1 session_inv_cong [of "(mu_session mu1 TM_INITIAL)\<lparr>ses_untrusted_addr := from'\<rparr>" "mu_session mu1 TM_INITIAL"]
      by (simp add: multi_inv_def)
    from multi_inv_session [OF inv1 this, of TM_INITIAL] inv1 x show ?thesis by (simp add: multi_inv_def mu_key_def)
  qed
next
  case (Some i)
  show ?thesis
  proof (cases "i = TM_LAME_DUCK")
    case True
    with r Some inv show ?thesis by (auto simp: route_control_packet_def)
  next
    case False
    have route: "route_control_packet env now mu from' buf op key_id sid = do {
          match \<leftarrow> addr_port_match (ks_remote_addr (mu_key mu (i, KS_PRIMARY))) from';
          if \<not> match then Some (Drop mu)
          else do {
            (ok, buf', mu1) \<leftarrow> mu_read_control_auth env now mu i key_id buf;
            if \<not> ok then Some (Drop mu1)
            else if op = P_CONTROL_SOFT_RESET_V1 \<and> ks_state (mu_key mu (i, KS_PRIMARY)) \<ge> S_GENERATED_KEYS
            then map_option (\<lambda>ses. Routed i False False buf' (mu1\<lparr>mu_session := (mu_session mu1)(i := ses)\<rparr>))
                   (key_state_soft_reset env now (mu_opt mu1) (mu_session mu1 i))
            else Some (Routed i (op = P_CONTROL_SOFT_RESET_V1) False buf' mu1)
          }
        }"
      using Some False by (cases i; hypsubst) (simp_all add: route_control_packet_def)
    obtain match where m: "addr_port_match (ks_remote_addr (mu_key mu (i, KS_PRIMARY))) from' = Some match"
      using r unfolding route by (auto split: bind_splits)
    show ?thesis
    proof (cases match)
      case False
      with r inv show ?thesis unfolding route m by auto
    next
      case True
      then obtain ok b mu1 where a: "mu_read_control_auth env now mu i key_id buf = Some (ok, b, mu1)"
        using r unfolding route m by (auto split: bind_splits)
      have inv1: "multi_inv mu1" and same: "ses_key (mu_session mu1 i) = ses_key (mu_session mu i)"
        using read_control_inv [OF a inv] by simp_all
      show ?thesis
      proof (cases "ok \<and> op = P_CONTROL_SOFT_RESET_V1 \<and> ks_state (mu_key mu (i, KS_PRIMARY)) \<ge> S_GENERATED_KEYS")
        case soft: True
        then obtain ses where s: "key_state_soft_reset env now (mu_opt mu1) (mu_session mu1 i) = Some ses"
          and x: "x = Routed i False False b (mu1\<lparr>mu_session := (mu_session mu1)(i := ses)\<rparr>)"
          using r True unfolding route m by (auto simp: a)
        have "session_inv (mu_session mu1 i)" "0 < opt_packet_timeout (mu_opt mu1)" "now + opt_transition_window (mu_opt mu1) \<noteq> 0"
          "ks_state (ses_key (mu_session mu1 i) KS_PRIMARY) \<noteq> S_UNDEF"
          using inv1 now soft same by (auto simp: multi_inv_def mu_key_def state_defs)
        from soft_reset_inv [OF s this(1,4,2,3)] have "session_inv ses" "ks_state (ses_key ses KS_PRIMARY) \<noteq> S_UNDEF"
          by (simp_all add: state_defs)
        with multi_inv_session [OF inv1] x show ?thesis by simp
      next
        case False
        with r \<open>match\<close> have "x = Drop mu1 \<or> x = Routed i (op = P_CONTROL_SOFT_RESET_V1) False b mu1"
          unfolding route m by (auto simp: a split: if_splits)
        with inv1 show ?thesis by auto
      qed
    qed
  qed
qed

lemma soft_error_inv [simp]: "multi_inv (soft_error mu) = multi_inv mu"
  by (simp add: soft_error_def)

lemma receive_control_inv:
  assumes r: "receive_control_packet now mu i from' sid op key_id do_burst new_link buf = Some mu'" and inv: "multi_inv mu"
  shows "multi_inv mu'"
proof -
  let ?ses = "mu_session mu i" let ?ks = "ses_key ?ses KS_PRIMARY"
  have undef: "\<not> (ks_state ?ks = S_UNDEF \<or> ks_state ?ks = S_ERROR \<or> \<not> session_id_defined (ses_session_id ?ses))"
    using r unfolding receive_control_packet_def Let_def by (auto split: if_splits)
  note d = r [unfolded receive_control_packet_def Let_def if_not_P [OF undef]]
  define ks2 where "ks2 = (if do_burst \<and> \<not> ses_burst ?ses
      then (if new_link then ?ks\<lparr>ks_session_id_remote := sid, ks_remote_addr := from'\<rparr> else ?ks)\<lparr>ks_send_reliable := reliable_schedule_now now
        (ks_send_reliable (if new_link then ?ks\<lparr>ks_session_id_remote := sid, ks_remote_addr := from'\<rparr> else ?ks))\<rparr>
      else (if new_link then ?ks\<lparr>ks_session_id_remote := sid, ks_remote_addr := from'\<rparr> else ?ks))"
  define stored where "stored = (\<lambda>ks'. mu\<lparr>mu_n_sessions := mu_n_sessions mu + of_bool new_link,
                 mu_session := (mu_session mu)(i := (ses_put_key KS_PRIMARY ks' ?ses)\<lparr>ses_burst := ses_burst ?ses \<or> (do_burst \<and> \<not> ses_burst ?ses)\<rparr>)\<rparr>)"
  have st: "multi_inv (stored ks')"
    if "ks_state ks' = ks_state ?ks" "ks_key_id ks' = ks_key_id ?ks" "same_shape (ks_send_reliable ?ks) (ks_send_reliable ks')"
      "length (rel_entries (ks_rec_reliable ks')) = length (rel_entries (ks_rec_reliable ?ks))" for ks'
  proof -
    let ?new = "(ses_put_key KS_PRIMARY ks' ?ses)\<lparr>ses_burst := ses_burst ?ses \<or> (do_burst \<and> \<not> ses_burst ?ses)\<rparr>"
    have "session_inv ?ses" using inv by (simp add: multi_inv_def)
    then have "session_inv ?new" using that
      by (auto simp: session_inv_def ses_put_key_def arrays_ok_def same_shape_def Let_def)
    then have "multi_inv (mu\<lparr>mu_session := (mu_session mu)(i := ?new)\<rparr>)"
      by (rule multi_inv_session [OF inv]) (use that(1) undef in \<open>simp add: ses_put_key_def\<close>)
    then show ?thesis by (subst multi_inv_cong [of _ "mu\<lparr>mu_session := (mu_session mu)(i := ?new)\<rparr>"]) (simp_all add: stored_def)
  qed
  have ks2: "ks_state ks2 = ks_state ?ks" "ks_key_id ks2 = ks_key_id ?ks" "same_shape (ks_send_reliable ?ks) (ks_send_reliable ks2)"
    "ks_rec_reliable ks2 = ks_rec_reliable ?ks"
    using schedule_now_shape by (auto simp: ks2_def)
  obtain match where m: "(if new_link then Some True else addr_port_match (ks_remote_addr ?ks) from') = Some match"
    using d by (auto split: bind_splits)
  note d2 = d [unfolded m bind.bind_lunit, folded ks2_def, folded stored_def]
  show ?thesis
  proof (cases "\<not> match \<or> ks_key_id ks2 \<noteq> key_id")
    case True
    then have "mu' = soft_error mu \<or> mu' = soft_error (stored ks2)" using d2 by (auto simp: stored_def split: if_splits)
    then show ?thesis using inv st [OF ks2(1-3)] ks2(4) by auto
  next
    case False
    obtain ok ack buf1 where a: "reliable_ack_read ack_zero buf (ses_session_id ?ses) = (ok, ack, buf1)"
      by (cases "reliable_ack_read ack_zero buf (ses_session_id ?ses)")
    show ?thesis
    proof (cases ok)
      case False
      then have "mu' = soft_error (stored ks2)" using d2 a \<open>\<not> (\<not> match \<or> ks_key_id ks2 \<noteq> key_id)\<close>
        by (simp add: stored_def)
      then show ?thesis using st [OF ks2(1-3)] ks2(4) by simp
    next
      case True
      let ?ks3 = "ks2\<lparr>ks_send_reliable := reliable_send_purge (ks_send_reliable ks2) ack\<rparr>"
      obtain ok2 rel ra where c: "control_packet_receive (uint op) buf1 (ks_rec_reliable ?ks3) (ks_rec_ack ?ks3) = Some (ok2, rel, ra)"
        and mu': "mu' = (if ok2 then stored (?ks3\<lparr>ks_rec_reliable := rel, ks_rec_ack := ra, ks_peer_last_packet := now\<rparr>)
            else soft_error (stored (?ks3\<lparr>ks_rec_reliable := rel, ks_rec_ack := ra\<rparr>)))"
        using d2 a True \<open>\<not> (\<not> match \<or> ks_key_id ks2 \<noteq> key_id)\<close> by (auto simp: stored_def)
      have "same_shape (ks_send_reliable ?ks) (reliable_send_purge (ks_send_reliable ks2) ack)"
        using same_shape_trans [OF ks2(3) send_purge_shape] .
      then show ?thesis using control_packet_receive_length [OF c] ks2 mu'
        by (auto intro!: st)
    qed
  qed
qed

lemma data_packet_inv:
  assumes "handle_data_channel_packet mu from' b floated = Some (key, ad, b', mu')" and "multi_inv mu"
  shows "multi_inv mu'"
proof -
  have k: "multi_inv (mu_key_update j ((mu_key mu j)\<lparr>ks_n_packets := n, ks_n_bytes := x\<rparr>) mu)" for j n x
    by (rule multi_inv_key_update [OF assms(2)]) (simp add: key_core_def)
  show ?thesis using assms(1) k assms(2)
    by (auto simp: handle_data_channel_packet_def Let_def split: bind_splits option.splits if_splits)
qed

lemma tls_pre_decrypt_inv:
  assumes r: "tls_pre_decrypt env now mu from' buf floated = Some (ret, key, ad, buf', mu')" and inv: "multi_inv mu" and now: "0 < now"
  shows "multi_inv mu'"
proof -
  let ?op = "packet_opcode (buf_mem buf ! nat (b_offset buf))" and ?id = "uint (packet_key_id (buf_mem buf ! nat (b_offset buf)))"
  consider "mu' = mu" | "mu' = soft_error mu"
    | k a b where "handle_data_channel_packet mu from' buf floated = Some (k, a, b, mu')"
    | sid mu1 where "route_control_packet env now mu from' buf ?op ?id sid = Some (Drop mu1)" "mu' = soft_error mu1"
    | sid i burst new_link b mu1 where "route_control_packet env now mu from' buf ?op ?id sid = Some (Routed i burst new_link b mu1)"
        "receive_control_packet now mu1 i from' sid ?op ?id burst new_link b = Some mu'"
    using r unfolding tls_pre_decrypt_def Let_def
    by (auto split: if_splits prod.splits option.splits routed.splits)
  then show ?thesis
  proof cases
    case (3 k a b)
    then show ?thesis using data_packet_inv inv by blast
  next
    case (4 sid mu1)
    then show ?thesis using route_inv [OF 4(1) inv now] by simp
  next
    case (5 sid i burst new_link b mu1)
    then show ?thesis using route_inv [OF 5(1) inv now] receive_control_inv [OF 5(2)] by simp
  qed (use inv in simp_all)
qed

section \<open>The states a tunnel reaches\<close>

inductive tunnel_reach :: "('k, 's, 'h, 't) tls_env \<Rightarrow> ('k, 'h) tls_options \<Rightarrow> ('k, 'h, 't) tls_multi \<Rightarrow> bool" for env opt where
  start: "tls_multi_init_finalize env now (tls_multi_init opt) tls_mtu = Some mu \<Longrightarrow> tunnel_reach env opt mu"
| process: "tunnel_reach env opt mu \<Longrightarrow> 0 < now \<Longrightarrow>
    tls_multi_process env now acf lsa to_link wakeup mu = Some (r, m) \<Longrightarrow> tunnel_reach env opt (mp_multi m)"
| packet: "tunnel_reach env opt mu \<Longrightarrow> 0 < now \<Longrightarrow>
    tls_pre_decrypt env now mu from' buf floated = Some (ret, key, ad, buf', mu') \<Longrightarrow> tunnel_reach env opt mu'"
| pre_encrypt: "tunnel_reach env opt mu \<Longrightarrow> tls_pre_encrypt now mu buf = Some (key, buf', mu') \<Longrightarrow> tunnel_reach env opt mu'"
| post_encrypt: "tunnel_reach env opt mu \<Longrightarrow> tls_post_encrypt mu buf = Some mu' \<Longrightarrow> tunnel_reach env opt mu'"
| soft_reset: "tunnel_reach env opt mu \<Longrightarrow> 0 < now \<Longrightarrow> tls_session_soft_reset env now mu = Some mu' \<Longrightarrow> tunnel_reach env opt mu'"
| float: "tunnel_reach env opt mu \<Longrightarrow> tls_update_remote_addr all_keys mu addr = Some mu' \<Longrightarrow> tunnel_reach env opt mu'"

inductive_cases tunnel_reachE: "tunnel_reach env opt mu"

lemma init_finalize_inv:
  assumes "tls_multi_init_finalize env now (tls_multi_init opt) tls_mtu = Some mu" and "0 < opt_packet_timeout opt" "0 \<le> opt_transition_window opt"
  shows "multi_inv mu"
proof -
  let ?opt = "opt\<lparr>opt_frame := tls_init_control_channel_frame_parameters (opt_frame opt) tls_mtu\<rparr>"
  obtain a b where a: "tls_session_init env now ?opt = Some a" and b: "tls_session_init env now ?opt = Some b"
    and mu: "mu = (tls_multi_init opt)\<lparr>mu_opt := ?opt, mu_session := (mu_session (tls_multi_init opt))(TM_ACTIVE := a, TM_INITIAL := b)\<rparr>"
    using assms(1) by (auto simp: tls_multi_init_finalize_def Let_def tls_multi_init_def split: bind_splits)
  have "0 < opt_packet_timeout ?opt" using assms(2) by simp
  with tls_session_init_inv [OF a] tls_session_init_inv [OF b] assms(2,3) show ?thesis
    by (simp add: mu multi_inv_def tls_multi_init_def mu_key_def state_defs)
qed

lemma update_remote_inv:
  "tls_update_remote_addr is mu addr = Some mu' \<Longrightarrow> multi_inv mu \<Longrightarrow> multi_inv mu'"
proof (induction "is" mu addr rule: tls_update_remote_addr.induct)
  case (2 i "is" mu addr)
  have k: "multi_inv (mu_key_update i ((mu_key mu i)\<lparr>ks_remote_addr := addr\<rparr>) mu)"
    by (rule multi_inv_key_update [OF "2.prems"(2)]) (simp add: key_core_def)
  show ?case
  proof (cases "addr_defined (ks_remote_addr (mu_key mu i))")
    case True
    then obtain match where "addr_port_match addr (ks_remote_addr (mu_key mu i)) = Some match"
      and "tls_update_remote_addr is (if match then mu else mu_key_update i ((mu_key mu i)\<lparr>ks_remote_addr := addr\<rparr>) mu) addr = Some mu'"
      using "2.prems"(1) by (auto simp: Let_def split: bind_splits)
    with "2.IH"(2) [of "mu_key mu i" match] True k "2.prems"(2) show ?thesis by (cases match) simp_all
  next
    case False
    with 2 show ?thesis by simp
  qed
qed simp

lemma encrypt_inv:
  "tls_pre_encrypt now mu b = Some (key, b', mu') \<Longrightarrow> multi_inv mu \<Longrightarrow> multi_inv mu'"
  "tls_post_encrypt mu b = Some mu'' \<Longrightarrow> multi_inv mu \<Longrightarrow> multi_inv mu''"
proof -
  assume "tls_pre_encrypt now mu b = Some (key, b', mu')" "multi_inv mu"
  then show "multi_inv mu'" by (auto simp: tls_pre_encrypt_def split: if_splits bind_splits option.splits)
next
  assume p: "tls_post_encrypt mu b = Some mu''" and inv: "multi_inv mu"
  have "multi_inv (mu_key_update i ((mu_key mu i)\<lparr>ks_n_packets := n, ks_n_bytes := x\<rparr>) (mu\<lparr>mu_save_ks := None\<rparr>))" for i n x
    by (rule multi_inv_key_update) (use inv in \<open>simp_all add: key_core_def mu_key_def\<close>)
  with p inv show "multi_inv mu''" by (auto simp: tls_post_encrypt_def Let_def split: if_splits bind_splits)
qed

lemma soft_reset_multi_inv:
  assumes "tls_session_soft_reset env now mu = Some mu'" and "multi_inv mu" and "0 < now"
  shows "multi_inv mu'"
proof -
  obtain ses where s: "key_state_soft_reset env now (mu_opt mu) (mu_session mu TM_ACTIVE) = Some ses"
    and mu': "mu' = mu\<lparr>mu_session := (mu_session mu)(TM_ACTIVE := ses)\<rparr>"
    using assms(1) by (auto simp: tls_session_soft_reset_def)
  have "session_inv ses \<and> ks_state (ses_key ses KS_PRIMARY) = S_INITIAL"
    using soft_reset_inv [OF s] assms(2,3) by (auto simp: multi_inv_def mu_key_def)
  with multi_inv_session [OF assms(2)] mu' show ?thesis by (simp add: state_defs)
qed

lemma tunnel_reach_inv:
  "tunnel_reach env opt mu \<Longrightarrow> 0 < opt_packet_timeout opt \<Longrightarrow> 0 \<le> opt_transition_window opt \<Longrightarrow> multi_inv mu"
proof (induction rule: tunnel_reach.induct)
  case (start now tls_mtu mu)
  then show ?case using init_finalize_inv by blast
next
  case (process mu now acf lsa to_link wakeup r m)
  then show ?case using tls_multi_process_inv by blast
next
  case (packet mu now from' buf floated ret key ad buf' mu')
  then show ?case using tls_pre_decrypt_inv by blast
next
  case (soft_reset mu now mu')
  then show ?case using soft_reset_multi_inv by blast
qed (blast intro: encrypt_inv update_remote_inv)+

text \<open>The passes of \<open>tls_process\<close> are enough for a session of a reachable state, also after a soft reset.\<close>

lemma passes_suffice:
  assumes "session_inv (pr_session p)" and "ks_state (pr_ks p) \<ge> S_INITIAL"
  shows "tls_process_loop TLS_PROCESS_PASSES env now opt p \<noteq> Out_of_fuel"
proof -
  have "arrays_ok (pr_ks p)" using assms by (simp add: session_inv_def pr_ks_def Let_def)
  then show ?thesis
    using process_loop_ends [of p now opt 47 env] work_left_bound [of now "opt_server opt" "pr_ks p"]
    by (simp add: arrays_ok_def TLS_PROCESS_PASSES_def)
qed


lemma alloc_small: "0 \<le> n \<Longrightarrow> n < int BUF_SIZE_MAX \<Longrightarrow> \<exists>b. alloc_buf (size_of_int n) = Some b"
  by (cases "nat n < BUF_SIZE_MAX") (simp_all add: alloc_buf_def buf_size_valid_def BUF_SIZE_MAX_def)

lemma packet_id_init_demo: "\<exists>pid. packet_id_init 64 15 name u = Some pid"
  by (simp add: packet_id_init_def MIN_SEQ_BACKTRACK_def MAX_SEQ_BACKTRACK_def MIN_TIME_BACKTRACK_def MAX_TIME_BACKTRACK_def Let_def)

lemma key_state_init_defined:
  assumes "0 \<le> fr_headroom f" "fr_headroom f \<le> BUF_SIZE f" "BUF_SIZE f < int BUF_SIZE_MAX" "opt_frame opt = f"
    and "opt_replay_window opt = 64" "opt_replay_time opt = 15"
  shows "key_state_init env opt ses \<noteq> None"
proof -
  have "0 \<le> TLS_CHANNEL_BUF_SIZE" "TLS_CHANNEL_BUF_SIZE < int BUF_SIZE_MAX" "0 \<le> BUF_SIZE f"
    using assms(1,2) by (simp_all add: TLS_CHANNEL_BUF_SIZE_def BUF_SIZE_MAX_def)
  then obtain b1 b2 where b: "alloc_buf (size_of_int TLS_CHANNEL_BUF_SIZE) = Some b1" "alloc_buf (size_of_int (BUF_SIZE f)) = Some b2"
    using alloc_small assms(3) by blast
  have "\<exists>r. reliable_init (BUF_SIZE f) (fr_headroom f) n h = Some r" if "0 < n" "n \<le> RELIABLE_CAPACITY" for n h
  proof -
    have "nat (BUF_SIZE f) < BUF_SIZE_MAX" "size_of_int (BUF_SIZE f) = nat (BUF_SIZE f)" using assms(1-3) by (simp_all add: BUF_SIZE_MAX_def)
    then show ?thesis using assms(1,2) that by (simp add: reliable_init_def alloc_buf_def buf_init_def buf_size_valid_def)
  qed
  from this [of TLS_RELIABLE_N_SEND_BUFFERS] this [of TLS_RELIABLE_N_REC_BUFFERS] obtain r1 r2 where
    r: "reliable_init (BUF_SIZE f) (fr_headroom f) TLS_RELIABLE_N_SEND_BUFFERS (if ses_key_id ses \<noteq> 0 then False else opt_xmit_hold opt) = Some r1"
      "reliable_init (BUF_SIZE f) (fr_headroom f) TLS_RELIABLE_N_REC_BUFFERS False = Some r2"
    by (simp add: TLS_RELIABLE_N_SEND_BUFFERS_def TLS_RELIABLE_N_REC_BUFFERS_def RELIABLE_CAPACITY_def) blast
  obtain pid where p: "packet_id_init 64 15 ''SSL'' (ses_key_id ses) = Some pid" using packet_id_init_demo by blast
  show ?thesis
    unfolding key_state_init_def Let_def assms(4-6) b r p by simp
qed

lemma tls_session_init_defined:
  assumes "0 \<le> fr_headroom f" "fr_headroom f \<le> BUF_SIZE f" "BUF_SIZE f < int BUF_SIZE_MAX" "opt_frame opt = f"
    and "opt_replay_window opt = 64" "opt_replay_time opt = 15"
  shows "tls_session_init env now opt \<noteq> None"
proof -
  obtain b where b: "alloc_buf (size_of_int (BUF_SIZE f)) = Some b"
    using alloc_small [OF _ assms(3)] assms(1,2) by auto
  obtain pid where p: "packet_id_init 64 15 ''TLS_WRAP'' 0 = Some pid" using packet_id_init_demo by blast
  show ?thesis
    unfolding tls_session_init_def Let_def assms(4-6) b p bind.bind_lunit
    by (simp add: bind_eq_None_conv key_state_init_defined [OF assms] del: not_None_eq split: prod.split)
qed

lemma demo_frame_facts:
  "0 \<le> fr_headroom (tls_init_control_channel_frame_parameters f 1250)" "4 \<le> fr_headroom (tls_init_control_channel_frame_parameters f 1250)"
  "fr_headroom (tls_init_control_channel_frame_parameters f 1250) \<le> BUF_SIZE (tls_init_control_channel_frame_parameters f 1250)"
  "BUF_SIZE (tls_init_control_channel_frame_parameters f 1250) < int BUF_SIZE_MAX"
  by (simp_all add: tls_init_control_channel_frame_parameters_def BUF_SIZE_def Let_def max_int_def min_int_def tls_crypt_buf_overhead_def
      packet_id_size_def TLS_CRYPT_TAG_SIZE_def TLS_CRYPT_BLOCK_SIZE_def ACK_SIZE_def RELIABLE_ACK_SIZE_def SID_SIZE_def BUF_SIZE_MAX_def)


section \<open>Errors\<close>

definition mp_start :: "('k, 'h, 't) tls_multi \<Rightarrow> ('k, 'h, 't) multi_proc" where
  "mp_start mu = \<lparr>mp_multi = mu, mp_to_link = clear_buf, mp_to_link_addr = None, mp_wakeup = 10, mp_active = TLSMP_INACTIVE, mp_error = False\<rparr>"


text \<open>
  C32: But a session whose data channel keys cannot be generated stays in error. After
  \<open>tls_multi_process\<close> has set \<open>S_ERROR\<close> because the generation failed, its loop passes over the session
  from then on, and the next authentic control packet of the peer makes \<open>tls_pre_decrypt\<close> fail its
  assertion on \<open>S_ERROR\<close>, which ends the process.
\<close>

theorem failed_key_generation_aborts:
  assumes gen: "tls_session_generate_data_channel_keys env (mu_opt mu) (mu_session mu TM_ACTIVE) = Some (False, opt', ks')"
    and st: "mu_multi_state mu = CAS_CONNECT_DONE" "ks_state (get_primary_key mu) = S_ACTIVE" "ks_authenticated (get_primary_key mu) = KS_AUTH_TRUE"
    and op: "0 < b_len buf" "packet_opcode (buf_mem buf ! nat (b_offset buf)) \<in> {P_CONTROL_V1, P_ACK_V1}"
    and sid: "session_id_read x_session_id_zero (snd (buf_advance buf 1)) = (True, sid, rest)" "session_id_defined sid"
      "session_id_equal (ks_session_id_remote (get_primary_key mu)) sid"
    and addr: "addr_port_match (ks_remote_addr (get_primary_key mu)) from' = Some True"
    and auth: "read_control_auth (env_api env) (env_load_key env) now buf (tls_session_get_tls_wrap (mu_session mu TM_ACTIVE)
        (uint (packet_key_id (buf_mem buf ! nat (b_offset buf))))) (env_verify_metadata env) = Some (True, buf', ctx)"
  shows "\<exists>mu'. generate_active_keys env mu = Some mu' \<and> ks_state (get_primary_key mu') = S_ERROR
    \<and> (\<forall>m now' lsa. mp_multi m = mu' \<longrightarrow> tls_multi_process_session env now' lsa TM_ACTIVE m = Some m)
    \<and> tls_pre_decrypt env now mu' from' buf floated = None"
proof -
  note e = generate_keys_effect [OF gen]
  let ?ks = "ks'\<lparr>ks_authenticated := KS_AUTH_FALSE, ks_state := S_ERROR\<rparr>"
  let ?mu = "mu_key_update (TM_ACTIVE, KS_PRIMARY) ?ks mu"
  have g: "generate_active_keys env mu = Some ?mu" using st gen e by (simp add: generate_active_keys_def Let_def)
  have p: "get_primary_key ?mu = ?ks" "mu_key ?mu (TM_ACTIVE, KS_PRIMARY) = ?ks"
    by (simp_all add: get_primary_key_def mu_key_def mu_key_update_def Let_def)
  have "tls_multi_process_session env now' lsa TM_ACTIVE m = Some m" if "mp_multi m = ?mu" for m now' lsa
    using that p by (simp add: tls_multi_process_session_def set_initial_remote_def Let_def state_defs)
  moreover have "tls_pre_decrypt env now ?mu from' buf floated = None"
  proof -
    let ?op = "packet_opcode (buf_mem buf ! nat (b_offset buf))" and ?id = "uint (packet_key_id (buf_mem buf ! nat (b_offset buf)))"
    have peer: "ks_session_id_remote (mu_key ?mu (TM_ACTIVE, KS_PRIMARY)) = ks_session_id_remote (get_primary_key mu)"
      "ks_remote_addr (mu_key ?mu (TM_ACTIVE, KS_PRIMARY)) = ks_remote_addr (get_primary_key mu)"
      unfolding p using e by (simp_all add: get_primary_key_def mu_key_def)
    have f: "find_session ?mu sid = Some TM_ACTIVE" using sid(3) by (simp add: find_session_def peer)
    have m: "addr_port_match (ks_remote_addr (mu_key ?mu (TM_ACTIVE, KS_PRIMARY))) from' = Some True" unfolding peer by (rule addr)
    have w: "tls_session_get_tls_wrap (mu_session ?mu TM_ACTIVE) k = tls_session_get_tls_wrap (mu_session mu TM_ACTIVE) k" for k
      by (simp add: tls_session_get_tls_wrap_def mu_key_update_def Let_def)
    obtain mu1 where a: "mu_read_control_auth env now ?mu TM_ACTIVE ?id buf = Some (True, buf', mu1)"
      and k1: "ses_key (mu_session mu1 TM_ACTIVE) KS_PRIMARY = ?ks"
      using auth by (simp add: mu_read_control_auth_def w Let_def) (simp add: mu_key_update_def Let_def)
    have o: "?op \<noteq> P_DATA_V1" "?op \<noteq> P_DATA_V2" "\<not> ?op < P_FIRST_OPCODE" "\<not> ?op > P_LAST_OPCODE" "?op \<noteq> P_CONTROL_HARD_RESET_CLIENT_V2"
      "?op \<noteq> P_CONTROL_HARD_RESET_CLIENT_V3" "?op \<noteq> P_CONTROL_HARD_RESET_SERVER_V2" "?op \<noteq> P_CONTROL_SOFT_RESET_V1"
      using op(2) by (auto simp: opcode_defs P_DATA_V1_def P_DATA_V2_def P_FIRST_OPCODE_def P_LAST_OPCODE_def)
    have "route_control_packet env now ?mu from' buf ?op ?id sid = Some (Routed TM_ACTIVE False False buf' mu1)"
      using o(8) by (simp add: route_control_packet_def f m a)
    moreover have "receive_control_packet now mu1 TM_ACTIVE from' sid ?op ?id False False buf' = None"
      by (simp add: receive_control_packet_def k1 Let_def)
    ultimately show ?thesis using op(1) o sid(1,2) by (simp add: tls_pre_decrypt_def Let_def)
  qed
  ultimately show ?thesis using g p by auto
qed

definition stuck_peer :: openvpn_sockaddr where
  "stuck_peer = SA_IN4 [2, 0, 4, 170, 10, 0, 0, 1]"

text \<open>A client whose library cannot export key material.\<close>

definition stuck_tunnel :: "(u8 list \<times> bool, unit, unit) tls_multi" where
  "stuck_tunnel = (tls_multi_init ((demo_tls_opt False)\<lparr>opt_key_export := True\<rparr>))\<lparr>mu_multi_state := CAS_CONNECT_DONE,
     mu_session := (\<lambda>_. tls_session_zero)(TM_ACTIVE := tls_session_zero\<lparr>ses_session_id := demo_kx_sid 5,
       ses_key := (\<lambda>_. key_state_zero)(KS_PRIMARY := key_state_zero\<lparr>ks_state := S_ACTIVE, ks_key_id := 1, ks_ssl := Some (),
         ks_authenticated := KS_AUTH_TRUE, ks_session_id_remote := demo_kx_sid 3, ks_remote_addr := stuck_peer\<rparr>)\<rparr>)\<rparr>"

definition stuck_packet :: buffer where
  "stuck_packet = \<lparr>b_capacity = 10, b_offset = 0, b_len = 10, b_data = Some [33, 3, 3, 3, 3, 3, 3, 3, 3, 0]\<rparr>"

lemma stuck_tunnel_key: "ses_key (mu_session stuck_tunnel TM_ACTIVE) KS_PRIMARY = key_state_zero\<lparr>ks_state := S_ACTIVE, ks_key_id := 1,
    ks_ssl := Some (), ks_authenticated := KS_AUTH_TRUE, ks_session_id_remote := demo_kx_sid 3, ks_remote_addr := stuck_peer\<rparr>"
  by (simp add: stuck_tunnel_def)

theorem failed_key_generation_aborts_witness:
  "\<exists>mu'. generate_active_keys demo_env stuck_tunnel = Some mu' \<and> ks_state (get_primary_key mu') = S_ERROR
     \<and> tls_pre_decrypt demo_env 50 mu' stuck_peer stuck_packet False = None"
proof -
  have key: "get_primary_key stuck_tunnel = key_state_zero\<lparr>ks_state := S_ACTIVE, ks_key_id := 1,
    ks_ssl := Some (), ks_authenticated := KS_AUTH_TRUE, ks_session_id_remote := demo_kx_sid 3, ks_remote_addr := stuck_peer\<rparr>"
    by (simp add: get_primary_key_def mu_key_def stuck_tunnel_key)
  obtain opt' ks' where gen: "tls_session_generate_data_channel_keys demo_env (mu_opt stuck_tunnel) (mu_session stuck_tunnel TM_ACTIVE) = Some (False, opt', ks')"
    by (simp add: tls_session_generate_data_channel_keys_def stuck_tunnel_key generate_key_expansion_def key_state_zero_def Let_def)
      (simp add: stuck_tunnel_def tls_multi_init_def demo_tls_opt_def demo_env_def demo_lib_def)
  have st: "mu_multi_state stuck_tunnel = CAS_CONNECT_DONE" by (simp add: stuck_tunnel_def)
  have op: "0 < b_len stuck_packet" "packet_opcode (buf_mem stuck_packet ! nat (b_offset stuck_packet)) \<in> {P_CONTROL_V1, P_ACK_V1}"
    by (simp_all add: stuck_packet_def buf_mem_def packet_opcode_def P_OPCODE_SHIFT_def opcode_defs)
  have sid: "\<exists>rest. session_id_read x_session_id_zero (snd (buf_advance stuck_packet 1)) = (True, demo_kx_sid 3, rest)"
    by (simp add: session_id_read_def buf_read_def buf_read_alloc_def buf_advance_def buf_valid_def buf_bptr_def stuck_packet_def SID_SIZE_def
        buf_mem_def memget_def demo_kx_sid_def x_session_id_zero_def numeral_eq_Suc)
  then obtain rest where sid: "session_id_read x_session_id_zero (snd (buf_advance stuck_packet 1)) = (True, demo_kx_sid 3, rest)" by blast
  have d: "session_id_defined (demo_kx_sid 3)" "session_id_equal (ks_session_id_remote (get_primary_key stuck_tunnel)) (demo_kx_sid 3)"
    by (simp_all add: key session_id_defined_def session_id_equal_def demo_kx_sid_def x_session_id_zero_def)
  have addr: "addr_port_match (ks_remote_addr (get_primary_key stuck_tunnel)) stuck_peer = Some True"
    by (simp add: key addr_port_match_def stuck_peer_def)
  obtain buf' ctx where auth: "read_control_auth (env_api demo_env) (env_load_key demo_env) 50 stuck_packet (tls_session_get_tls_wrap (mu_session stuck_tunnel TM_ACTIVE)
        (uint (packet_key_id (buf_mem stuck_packet ! nat (b_offset stuck_packet))))) (env_verify_metadata demo_env) = Some (True, buf', ctx)"
    using op(2) by (simp add: read_control_auth_def read_control_unwrap_def tls_session_get_tls_wrap_def stuck_tunnel_def tls_session_zero_def
        tls_wrap_zero_def key_ctx_zero_def opcode_defs Let_def) (auto simp: read_control_unwrap_def)
  show ?thesis
    using failed_key_generation_aborts [OF gen st _ _ op sid d addr auth, of False] by (simp add: key) blast
qed

text \<open>A handshake without time: the first pass starts the negotiation and finds it timed out.\<close>

lemma move_pre_start_fresh:
  assumes i: "reliable_init n off 6 h = Some r" and off: "4 \<le> off" and ks: "ks_send_reliable ks = reliable_set_timeout r t"
  shows "\<exists>ks'. session_move_pre_start now opt ks False = Some (True, ks') \<and> ks_state ks' = S_PRE_START
    \<and> ks_must_negotiate ks' = now + opt_handshake_window opt"
proof -
  let ?rel = "reliable_set_timeout r t"
  obtain b b' where b: "alloc_buf (size_of_int n) = Some b" "buf_init b off = (True, b')"
    and r: "r = \<lparr>rel_size = 6, rel_initial_timeout = 0, rel_packet_id = 0, rel_offset = off, rel_hold = h,
        rel_array = replicate 6 (reliable_entry_zero\<lparr>e_buf := b'\<rparr>) @ replicate 6 reliable_entry_zero\<rparr>"
    using i by (auto simp: reliable_init_def RELIABLE_CAPACITY_def split: if_splits option.splits prod.splits bool.splits)
  let ?e = "reliable_entry_zero\<lparr>e_buf := b'\<rparr>"
  have ent: "rel_entries ?rel = replicate 6 ?e" "rel_array ?rel ! 0 = ?e" "rel_offset ?rel = off"
    by (simp_all add: rel_entries_def reliable_set_timeout_def r nth_append)
  have wf: "buf_wf b" "buf_wf b'" using alloc_buf_wf [OF b(1)] b(2) by (auto simp: buf_init_def buf_wf_def split: if_splits option.splits)
  have off': "b_offset b' = off" "buf_init b' off = (True, b')" using b(2) by (auto simp: buf_init_def split: if_splits)
  have "reliable_get_buf ?rel = Some (Some 0, rel_update ?rel 0 ?e)"
    using off'(2) by (simp add: reliable_get_buf_def ent reliable_entry_zero_def numeral_eq_Suc)
  moreover have "reliable_min_active ?rel = None"
    by (simp add: reliable_min_active_def ent reliable_min_step_def reliable_entry_zero_def numeral_eq_Suc)
  ultimately have g: "reliable_get_buf_output_sequenced ?rel = Some (Some 0, rel_update ?rel 0 ?e)"
    by (simp add: reliable_get_buf_output_sequenced_def)
  obtain b2 where "buf_write_prepend b' (u32_bytes (rel_packet_id ?rel)) = (True, b2)"
    using buf_write_prepend_eq [OF wf(2)] off off' by simp
  then obtain rel2 where "reliable_mark_active_outgoing (rel_update ?rel 0 ?e) 0 (uint (ks_initial_opcode ks)) = Some rel2"
    by (auto simp: reliable_mark_active_outgoing_def ent rel_update_same Let_def)
  then show ?thesis unfolding session_move_pre_start_def ks g by auto
qed

lemma late_process:
  assumes ks: "ks_state (pr_ks p) = S_INITIAL" "ks_send_reliable (pr_ks p) = reliable_set_timeout r t" "reliable_init n off 6 h = Some r" "4 \<le> off"
    and lame: "ks_state (ses_key (pr_session p) KS_LAME_DUCK) = S_UNDEF" and sid: "session_id_defined (ses_session_id (pr_session p))"
    and opt: "opt_handshake_window opt = 0"
  shows "\<exists>p'. tls_process env now opt p = Some (False, p') \<and> ks_state (pr_ks p') = S_ERROR \<and> pr_to_link_addr p' = pr_to_link_addr p"
proof -
  obtain ks' where m: "session_move_pre_start now opt (pr_ks p) False = Some (True, ks')" "ks_state ks' = S_PRE_START" "ks_must_negotiate ks' = now"
    using move_pre_start_fresh [OF ks(3,4,2), of now opt] opt by auto
  let ?p0 = "p\<lparr>pr_session := pr_session p, pr_wakeup := pr_wakeup p\<rparr>"
  let ?p1 = "(pr_put ks' (p\<lparr>pr_change := False\<rparr>))\<lparr>pr_change := True\<rparr>"
  have "block_initial now opt (p\<lparr>pr_change := False\<rparr>) = Some (Goes_on ?p1)" using m(1) ks(1) by (simp add: block_initial_def)
  moreover have "block_timeout now ?p1 = Some (Goto_error ?p1)" using m(2,3) by (simp add: block_timeout_def state_defs)
  ultimately have "tls_process_state env now opt p = Some (False, pr_put ((pr_ks ?p1)\<lparr>ks_state := S_ERROR\<rparr>) ?p1)"
    by (simp add: tls_process_state_def process_blocks_def and_then_def)
  then have "tls_process_loop TLS_PROCESS_PASSES env now opt p = Finished (pr_put ((pr_ks ?p1)\<lparr>ks_state := S_ERROR\<rparr>) ?p1)"
    by (simp add: TLS_PROCESS_PASSES_def numeral_eq_Suc)
  moreover have "lame_duck_must_die now (pr_session p) (pr_wakeup p) = Some (False, pr_wakeup p)"
    using lame by (simp add: lame_duck_must_die_def state_defs Let_def)
  moreover have "\<not> soft_reset_due now opt (pr_ks p)" using ks(1) by (simp add: soft_reset_due_def state_defs)
  ultimately have "tls_process env now opt p = Some (False, pr_put ((pr_ks ?p1)\<lparr>ks_state := S_ERROR\<rparr>) ?p1)"
    using ks(1) sid by (simp add: tls_process_def Let_def state_defs)
  then show ?thesis by (intro exI conjI) (assumption, simp, simp add: pr_put_def)
qed

lemma ses_put_key_get: "ses_key (ses_put_key i ks ses) i = ks"
  by (simp add: ses_put_key_def)

lemma tls_multi_init_fields: "mu_multi_state (tls_multi_init opt) = CAS_NOT_CONNECTED" "mu_n_soft_errors (tls_multi_init opt) = 0"
  by (simp_all add: tls_multi_init_def)

lemma fresh_session:
  assumes "tls_session_init env now opt = Some ses"
  shows "\<exists>r h. ks_send_reliable (ses_key ses KS_PRIMARY) = reliable_set_timeout r (opt_packet_timeout opt)
    \<and> reliable_init (BUF_SIZE (opt_frame opt)) (fr_headroom (opt_frame opt)) 6 h = Some r
    \<and> ks_state (ses_key ses KS_PRIMARY) = S_INITIAL \<and> ks_state (ses_key ses KS_LAME_DUCK) = S_UNDEF \<and> ses_session_id ses = env_random_sid env"
proof -
  obtain ks ses0 ses1 where i: "key_state_init env opt ses0 = Some (ks, ses1)" and ses: "ses = ses1\<lparr>ses_key := (ses_key ses1)(KS_PRIMARY := ks)\<rparr>"
    and z: "ses_session_id ses0 = env_random_sid env" "ses_key ses0 KS_LAME_DUCK = key_state_zero"
    using assms by (auto simp: tls_session_init_def Let_def tls_session_zero_def split: bind_splits)
  obtain r h where "ks_send_reliable ks = reliable_set_timeout r (opt_packet_timeout opt)" "ks_state ks = S_INITIAL"
    "reliable_init (BUF_SIZE (opt_frame opt)) (fr_headroom (opt_frame opt)) 6 h = Some r"
    and "ses1 = ses0\<lparr>ses_initial_opcode := P_CONTROL_SOFT_RESET_V1, ses_key_id := next_key_id (ses_key_id ses0)\<rparr>"
    using i by (auto simp: key_state_init_def Let_def TLS_RELIABLE_N_SEND_BUFFERS_def split: bind_splits)
  then show ?thesis using z by (auto simp: ses key_state_zero_def)
qed


end
