(* ===== verification/Spec2Isabelle.thy ===== *)
theory Spec2Isabelle
  imports ReplayWindow ReliableLink Timing Fragment Vlan ClientNat Mss FrameSize DataChannel TcpStream ControlChannel
    KeyExchange TlsSession TlsProcess TlsMulti TlsData TlsTunnel
begin

text \<open>
  A verification of the OpenVPN core of the application, the C program under
  \<open>src/open/src/main/cpp/openvpn/src/openvpn/\<close> (file names below are relative to it). The
  configuration is the Android one: \<open>ENABLE_FRAGMENT\<close>, \<open>USE_COMP\<close> and \<open>PORT_SHARE\<close> on,
  64-bit \<open>long\<close> and \<open>size_t\<close>, a little-endian machine.

  \<^bold>\<open>Parts of the program and theories.\<close> A packet from the tunnel device is clamped
  (\<open>mss.c\<close>), translated (\<open>clinat.c\<close>), fragmented (\<open>fragment.c\<close>), encrypted with a fresh packet
  id (\<open>crypto.c\<close>, \<open>packet_id.c\<close>) and written to a datagram or, behind its length, to a TCP
  stream (\<open>socket.c\<close>); the receiver undoes the steps and drops replays. Control packets travel
  on the same link under the reliability layer (\<open>reliable.c\<close>), wrapped by tls-auth or tls-crypt
  (\<open>ssl_pkt.c\<close>, \<open>tls_crypt.c\<close>). They carry the TLS handshake and the key exchange of a session; the
  state machine of \<open>ssl.c\<close> moves each key from its negotiation to the data channel and retires it.

  \<^item> \<open>Prelude\<close>: widths of the machine integers, memory as a byte list (\<open>memget\<close>, \<open>memput\<close>),
    network byte order, searching an array; the rule collections of the other theories.
  \<^item> \<open>Buffer\<close>: \<open>struct buffer\<close> (\<open>buffer.h\<close>, \<open>buffer.c\<close>) with its capacity, offset and length; the
    content \<open>buf_bytes\<close> is the abstraction the other theories reason with.
  \<^item> \<open>CircList\<close>: the macros of \<open>circ_list.h\<close> and \<open>integer.h\<close>, refining a bounded list.
  \<^item> \<open>PacketId\<close>, \<open>ReplayWindow\<close>: \<open>packet_id.c\<close>. The window of received ids refines a set of ids
    with an expiry time; a packet id is accepted at most once, the sender never repeats one, and
    persistence reopens or keeps the window as the file says.
  \<^item> \<open>ReliableAck\<close>, \<open>Reliable\<close>, \<open>ReliableLink\<close>: \<open>reliable.c\<close>. Acknowledgement records; the send
    and receive arrays; and a step relation of two peers and a network that loses, repeats and
    reorders packets, with its invariant: delivery is in order, exactly once, without loss.
  \<^item> \<open>Timing\<close>: \<open>otime.c\<close>, \<open>otime.h\<close>, \<open>interval.h\<close>, \<open>shaper.h\<close>, \<open>ping.h\<close>.
  \<^item> \<open>Mtu\<close>, \<open>FrameSize\<close>: \<open>struct frame\<close> and the size computations of \<open>mtu.c\<close>, \<open>mss.c\<close> and
    \<open>init.c\<close>.
  \<^item> \<open>Fragment\<close>: \<open>fragment.c\<close>, with the slot window and the sender's queue.
  \<^item> \<open>Proto\<close>, \<open>Vlan\<close>, \<open>ClientNat\<close>, \<open>Mss\<close>: packet headers and checksums (\<open>proto.c\<close>, \<open>proto.h\<close>),
    802.1Q tags (\<open>vlan.c\<close>), client NAT (\<open>clinat.c\<close>) and segment size clamping (\<open>mss.c\<close>).
  \<^item> \<open>Crypto\<close>, \<open>DataChannel\<close>: encryption and decryption of data packets (\<open>crypto.c\<close>).
  \<^item> \<open>TcpStream\<close>: packets over a byte stream (\<open>socket.c\<close>, \<open>ps.c\<close>).
  \<^item> \<open>Opcodes\<close>, \<open>TlsCrypt\<close>, \<open>ControlChannel\<close>: packet headers, the wrapping of control packets and of
    client keys (\<open>tls_crypt.c\<close>), tls-auth, and the stateless answer to a first packet
    (\<open>ssl_pkt.c\<close>). A wrapped packet is read back, and a packet read is authentic and fresh.
  \<^item> \<open>KeyExchange\<close>: the messages of key method 2 and the data channel keys derived from them
    (\<open>ssl.c\<close>, \<open>crypto.c\<close>). Messages are read as written; the keys of the ends mirror each other.
  \<^item> \<open>TlsSession\<close>: \<open>struct key_state\<close>, \<open>struct tls_session\<close>, \<open>struct tls_multi\<close> with their set-up,
    soft reset and retirement, the calls to the TLS library, and the keys of data packets;
    \<open>TlsData\<close> has the theorems on the choice of the key and the header of a data packet.
  \<^item> \<open>TlsProcess\<close>: \<open>tls_process_state\<close>, one definition per block of the C function
    (\<open>block_initial\<close> to \<open>block_ciphertext_out\<close>), and the loop that repeats it. The loop ends, and
    the states of a key come in the order of the negotiation.
  \<^item> \<open>TlsMulti\<close>: \<open>tls_process\<close>, \<open>tls_multi_process\<close>, \<open>tls_pre_decrypt\<close> and the operations on
    payloads and addresses. \<open>TlsTunnel\<close> takes them as the steps of a tunnel (\<open>tunnel_reach\<close>), proves
    the invariant of the sessions (\<open>session_inv\<close>, \<open>multi_inv\<close>) and what follows from it.

  \<^bold>\<open>State and operations.\<close> A C structure is a record with the members of the C code, prefixed
  (\<open>b_\<close> buffer, \<open>rel_\<close> reliable, \<open>sb_\<close> stream buffer); an operation takes the structure and
  returns it updated, with the result of the C function. \<open>None\<close> is a failed \<open>ASSERT\<close> or a fatal
  error; a boolean or negative result of the C code stays one. An \<open>unsigned\<close> value is a word of
  its width; an \<open>int\<close> is an integer where the sums are small by the bounds of the buffers, which
  the theorems state, and a signed word where the code relies on the width. The clock, the
  random numbers, the bytes \<open>recv\<close> returned and the crypto library are arguments.

  \<^bold>\<open>Interfaces.\<close> A locale states what a client relies on and the provider's theory interprets it:
  \<open>byte_source\<close> and \<open>byte_sink\<close> (a queue of bytes read, and written at either end), interpreted on
  the buffer operations; \<open>window_store\<close> (a bounded list, newest entry first), on the circular list;
  \<open>replay_guard\<close> (a check that accepts a key at most once along a run), on the replay window of
  datagrams and of streams, on AEAD decryption and on tls-crypt unwrapping.

  \<^bold>\<open>The tunnel.\<close> The state of a tunnel is a \<open>tls_multi\<close>: three sessions of two keys, the primary and
  the retiring one. The TLS library is an argument: the bytes its BIOs take and give and whether a
  call fails (\<open>tls_lib\<close>), beside the crypto library, the PRF and the random sources (\<open>tls_env\<close>). No
  law is assumed of it, so the theorems of \<open>TlsProcess\<close> and \<open>TlsTunnel\<close> hold whatever it answers.

  \<^bold>\<open>Bounds and fuel.\<close> Loops over arrays are structural recursions over the list; loops with a
  counter recurse on it. One loop has fuel: \<open>tls_process_loop\<close>, which repeats \<open>tls_process_state\<close>
  until nothing changes. \<open>tls_process\<close> gives it 47 passes (\<open>TLS_PROCESS_PASSES\<close>), and
  \<open>tls_process_loop_terminates\<close> shows that they are enough for any library and any packets: the
  measure \<open>work_left\<close> counts four for each of at most five steps to \<open>S_ACTIVE\<close>, two for each of the
  6 packets that may be sent, one for each of the 12 that may be handed over and one for each
  plaintext buffer. The clock stands still during a call. The runs of the step functions
  (\<open>tcp_run\<close>, \<open>clock_run\<close>, \<open>fragment_run\<close>) take the list of the environment's choices, and the
  liveness theorems say how long a list is enough.

  \<^bold>\<open>Not modelled.\<close> Option parsing, the TLS handshake inside the library, certificate checks and the
  negotiation of ciphers, deferred authentication by files and the renewal of tokens, the code of a
  server for many clients, routing, the tunnel device, proxies, the management interface, logging and
  the debugging code that damages packets: they consist of calls to the operating system or to
  vendored libraries and of text output. The garbage collected arenas of \<open>buffer.c\<close> have no effect
  on values.
\<close>

end
